(* ===== verification/Go_Prelude.thy ===== *)
theory Go_Prelude
  imports Main "HOL-Library.Word" "HOL-Library.Multiset"
begin

text \<open>
  The prelude of the development: how the parts of Go that the repository uses are read in HOL,
  and the generic lemmas on lists that the component theories share.

  A Go function that may stop abnormally returns a value of \<open>'a go\<close>: \<open>Inr\<close> of its result, or
  \<open>Inl\<close> of the reason why it does not return. Slice reads and slice expressions are the functions
  \<open>go_index\<close>, \<open>go_slice_from\<close> and \<open>go_slice_to\<close>, which check their bounds as the language does.
  A slice expression \<open>s[:n]\<close> is checked by Go against the capacity of \<open>s\<close>; the model checks it
  against the length, so \<open>SliceOutOfRange\<close> stands for a bound past the length (Go panics, or hands
  out stale elements past the end when the capacity happens to allow it). The Go type \<open>int\<close> is
  read as the unbounded type \<open>int\<close> (terms, indices and counters stay far below \<open>2 ^ 63\<close>); the
  unsigned types with defined wrap-around (\<open>uint64\<close> versions, \<open>uint32\<close> hashes) are words.
\<close>

named_theorems go_defs \<open>definitions of the Go primitives\<close>
named_theorems go_inv \<open>inversion rules for computations that may stop\<close>

subsection \<open>Computations that may stop\<close>

datatype go_stop =
    IndexOutOfRange
  | SliceOutOfRange
  | NilDeref
  | CloseOfClosed
  | DivideByZero
  | LogFatal
  | BlockedSend
  | BadAssertion      \<comment> \<open>a type assertion on a value of another type\<close>
  | Panicked          \<comment> \<open>a call of \<open>panic\<close>\<close>

type_synonym 'a go = "go_stop + 'a"
type_synonym byte = "8 word"

definition go_bind :: "'a go \<Rightarrow> ('a \<Rightarrow> 'b go) \<Rightarrow> 'b go" where
  "go_bind m f = (case m of Inl e \<Rightarrow> Inl e | Inr x \<Rightarrow> f x)"

lemma go_bind_simps [simp]:
  "go_bind (Inl e) f = Inl e"
  "go_bind (Inr x) f = f x"
  by (simp_all add: go_bind_def)

lemma go_bind_Inr_iff [go_inv]:
  "go_bind m f = Inr y \<longleftrightarrow> (\<exists>x. m = Inr x \<and> f x = Inr y)"
  by (cases m) auto

lemma go_bind_Inl_iff:
  "go_bind m f = Inl e \<longleftrightarrow> m = Inl e \<or> (\<exists>x. m = Inr x \<and> f x = Inl e)"
  by (cases m) auto

lemma go_bind_cong [fundef_cong]:
  "m = m' \<Longrightarrow> (\<And>x. m' = Inr x \<Longrightarrow> f x = f' x) \<Longrightarrow> go_bind m f = go_bind m' f'"
  by (cases m') auto

subsection \<open>Loops\<close>

fun go_each :: "('i \<Rightarrow> 'a \<Rightarrow> 'a go) \<Rightarrow> 'i list \<Rightarrow> 'a \<Rightarrow> 'a go" where
  \<comment> \<open>a \<open>for\<close> loop whose body may stop\<close>
  "go_each f [] a = Inr a"
| "go_each f (i # is) a = go_bind (f i a) (go_each f is)"

text \<open>Going round \<open>n\<close> servers, from any place, comes by each of them.\<close>

lemma cycle_covers:
  assumes "i < (n::nat)"
  shows "\<exists>m. 1 \<le> m \<and> m \<le> n \<and> (starts + m) mod n = i"
proof -
  let ?d = "starts mod n"
  have d: "?d < n" using assms by simp
  have eq: "(starts + m) mod n = (?d + m) mod n" for m by (simp only: mod_add_left_eq)
  show ?thesis
  proof (cases "?d < i")
    case True
    then have "(starts + (i - ?d)) mod n = i" using assms unfolding eq by simp
    then show ?thesis using True assms by (intro exI [of _ "i - ?d"]) linarith
  next
    case False
    then have "(starts + (n + i - ?d)) mod n = i" using assms d unfolding eq by simp
    then show ?thesis using False d by (intro exI [of _ "n + i - ?d"]) linarith
  qed
qed

subsection \<open>Refinement of step relations\<close>

text \<open>
  Each step of the detailed system is a run of the abstract one between related states; then so is
  each run.
\<close>

locale forward_simulation =
  fixes step :: "'c \<Rightarrow> 'c \<Rightarrow> bool" and spec :: "'a \<Rightarrow> 'a \<Rightarrow> bool" and related :: "'c \<Rightarrow> 'a \<Rightarrow> bool"
  assumes simulates: "related x a \<Longrightarrow> step x x' \<Longrightarrow> \<exists>a'. spec\<^sup>*\<^sup>* a a' \<and> related x' a'"
begin

lemma run_simulated:
  assumes "step\<^sup>*\<^sup>* x x'" and "related x a"
  shows "\<exists>a'. spec\<^sup>*\<^sup>* a a' \<and> related x' a'"
  using assms
proof (induction rule: rtranclp_induct)
  case (step y z)
  then obtain b where b: "spec\<^sup>*\<^sup>* a b" "related y b" by blast
  from simulates [OF b(2) step.hyps(2)] obtain a' where a': "spec\<^sup>*\<^sup>* b a'" "related z a'" by blast
  have "spec\<^sup>*\<^sup>* a a'" using b(1) a'(1) by (rule rtranclp_trans)
  with a'(2) show ?case by blast
qed blast

end

subsection \<open>Commands\<close>

text \<open>What \<open>main\<close> does with its arguments: a usage message, an end, or the work.\<close>

datatype 'a cmd = Usage | Dies go_stop | Runs 'a

fun cmd_go :: "'a go \<Rightarrow> 'a cmd" where
  "cmd_go (Inl e) = Dies e"
| "cmd_go (Inr x) = Runs x"

subsection \<open>Slices\<close>

definition go_index :: "'a list \<Rightarrow> int \<Rightarrow> 'a go" where
  "go_index xs i = (if 0 \<le> i \<and> i < int (length xs) then Inr (xs ! nat i) else Inl IndexOutOfRange)"

definition go_slice_from :: "'a list \<Rightarrow> int \<Rightarrow> 'a list go" where
  "go_slice_from xs i =
     (if 0 \<le> i \<and> i \<le> int (length xs) then Inr (drop (nat i) xs) else Inl SliceOutOfRange)"

definition go_slice_to :: "'a list \<Rightarrow> int \<Rightarrow> 'a list go" where
  "go_slice_to xs i =
     (if 0 \<le> i \<and> i \<le> int (length xs) then Inr (take (nat i) xs) else Inl SliceOutOfRange)"

declare go_index_def [go_defs] go_slice_from_def [go_defs] go_slice_to_def [go_defs]

lemma go_index_Inr_iff [go_inv]:
  "go_index xs i = Inr x \<longleftrightarrow> 0 \<le> i \<and> i < int (length xs) \<and> x = xs ! nat i"
  by (auto simp: go_index_def)

lemma go_slice_from_Inr_iff [go_inv]:
  "go_slice_from xs i = Inr ys \<longleftrightarrow> 0 \<le> i \<and> i \<le> int (length xs) \<and> ys = drop (nat i) xs"
  by (auto simp: go_slice_from_def)

lemma go_slice_to_Inr_iff [go_inv]:
  "go_slice_to xs i = Inr ys \<longleftrightarrow> 0 \<le> i \<and> i \<le> int (length xs) \<and> ys = take (nat i) xs"
  by (auto simp: go_slice_to_def)

subsection \<open>The FNV-1a hash\<close>

definition go_bytes :: "string \<Rightarrow> byte list" where
  \<comment> \<open>the conversion \<open>[]byte(s)\<close>\<close>
  "go_bytes s = map of_char s"

definition fnv32a :: "byte list \<Rightarrow> 32 word" where
  \<comment> \<open>\<open>fnv.New32a\<close>, \<open>Write\<close> and \<open>Sum32\<close> of the standard library\<close>
  "fnv32a bs =
     foldl (\<lambda>h b. xor h (ucast b) * 16777619) 2166136261 bs"

subsection \<open>Sorting and counting\<close>

text \<open>
  The element at position \<open>k\<close> of the sorted list is reached by at least \<open>length xs - k\<close>
  elements: what a median computed by sorting promises.
\<close>

lemma sorted_nth_filter_ge:
  assumes "sorted ys" and "k < length ys"
  shows "length ys - k \<le> length (filter (\<lambda>x. ys ! k \<le> x) ys)"
proof -
  have "filter (\<lambda>x. ys ! k \<le> x) (drop k ys) = drop k ys"
    using assms by (auto simp: filter_id_conv in_set_conv_nth intro!: sorted_nth_mono)
  then have "length (filter (\<lambda>x. ys ! k \<le> x) (take k ys @ drop k ys)) \<ge> length ys - k"
    by (simp only: filter_append length_append) simp
  then show ?thesis by simp
qed

lemma sort_nth_filter_ge:
  fixes xs :: "'a::linorder list"
  assumes "k < length xs"
  shows "length xs - k \<le> length (filter (\<lambda>x. sort xs ! k \<le> x) xs)"
proof -
  have "mset (filter (\<lambda>x. sort xs ! k \<le> x) (sort xs)) = mset (filter (\<lambda>x. sort xs ! k \<le> x) xs)"
    by simp
  then have "length (filter (\<lambda>x. sort xs ! k \<le> x) (sort xs)) = length (filter (\<lambda>x. sort xs ! k \<le> x) xs)"
    by (rule mset_eq_length)
  with sorted_nth_filter_ge [of "sort xs" k] assms show ?thesis by simp
qed

lemma length_filter_nth_card:
  "length (filter P xs) = card {i. i < length xs \<and> P (xs ! i)}"
  by (simp add: length_filter_conv_card)

lemma nth_append_take_drop:
  "i < k \<Longrightarrow> k \<le> length xs \<Longrightarrow> (take k xs @ ys) ! i = xs ! i"
  by (simp add: nth_append)

lemma card_subsets_intersect:
  assumes "A \<subseteq> {..<n::nat}" and "B \<subseteq> {..<n}" and "n < card A + card B"
  shows "A \<inter> B \<noteq> {}"
proof
  assume "A \<inter> B = {}"
  with assms have "card (A \<union> B) = card A + card B"
    by (meson card_Un_disjoint finite_lessThan finite_subset)
  moreover have "card (A \<union> B) \<le> n"
    using card_mono [of "{..<n}" "A \<union> B"] assms by auto
  ultimately show False using assms by simp
qed

text \<open>A concatenation as a multiset depends on the parts only, not on their order.\<close>

lemma mset_concat_sum: "mset (concat xss) = sum_mset (image_mset mset (mset xss))"
  by (simp add: mset_concat flip: sum_mset_sum_list)

end
