(* ===== verification/Labrpc.thy ===== *)
theory Labrpc
  imports Go_Prelude
begin

text \<open>
  The simulated network (\<open>src/labrpc/labrpc.go\<close>): client ends, servers, which of them are connected
  and enabled, and what happens to one request.

  Names of ends and servers are of any type; a server object is a number, so that a server that was
  deleted and started again is another object under the same name. The methods of a service are
  found by reflection; here a service is its name and the list of its handler methods.
  \<open>processReq\<close> is a function of the network when the request is taken, of the network when the
  handler has ended, and of the coins the code tosses; its result says whether the handler was
  called, whether the caller gets a reply, and whether the reply is held back for a while.
\<close>

definition SHORTDELAY :: int where "SHORTDELAY = 27"
definition LONGDELAY :: int where "LONGDELAY = 7000"

subsection \<open>The network\<close>

record ('e, 's) Network =
  reliable :: bool
  longDelays :: bool
  longReordering :: bool
  ends :: "'e list"
  enabled :: "'e \<Rightarrow> bool"
  servers :: "'s \<Rightarrow> nat option"
  connections :: "'e \<Rightarrow> 's option"
  rpcCount :: "32 word"
  rpcBytes :: "64 word"

definition MakeNetwork :: "('e, 's) Network" where
  "MakeNetwork = \<lparr>reliable = True, longDelays = False, longReordering = False, ends = [], enabled = (\<lambda>_. False),
     servers = (\<lambda>_. None), connections = (\<lambda>_. None), rpcCount = 0, rpcBytes = 0\<rparr>"

definition takeReq :: "('e, 's) Network \<Rightarrow> byte list \<Rightarrow> ('e, 's) Network" where
  \<comment> \<open>the goroutine of \<open>MakeNetwork\<close> counts every request\<close>
  "takeReq rn args = rn\<lparr>rpcCount := rpcCount rn + 1, rpcBytes := rpcBytes rn + of_nat (length args)\<rparr>"

definition Reliable :: "('e, 's) Network \<Rightarrow> bool \<Rightarrow> ('e, 's) Network" where
  "Reliable rn yes = rn\<lparr>reliable := yes\<rparr>"

definition LongReordering :: "('e, 's) Network \<Rightarrow> bool \<Rightarrow> ('e, 's) Network" where
  "LongReordering rn yes = rn\<lparr>longReordering := yes\<rparr>"

definition IsReliable :: "('e, 's) Network \<Rightarrow> bool" where
  "IsReliable rn = reliable rn"

definition IsLongDelays :: "('e, 's) Network \<Rightarrow> bool" where
  "IsLongDelays rn = longDelays rn"

definition LongDelays :: "('e, 's) Network \<Rightarrow> bool \<Rightarrow> ('e, 's) Network" where
  "LongDelays rn yes = rn\<lparr>longDelays := yes\<rparr>"

definition readEndnameInfo :: "('e, 's) Network \<Rightarrow> 'e \<Rightarrow> bool \<times> 's option \<times> nat option \<times> bool \<times> bool" where
  "readEndnameInfo rn endname =
     (let servername = connections rn endname
      in (enabled rn endname, servername,
          (case servername of None \<Rightarrow> None | Some s \<Rightarrow> servers rn s),
          reliable rn, longReordering rn))"

definition isServerDead :: "('e, 's) Network \<Rightarrow> 'e \<Rightarrow> 's \<Rightarrow> nat \<Rightarrow> bool" where
  "isServerDead rn endname servername srv \<longleftrightarrow> enabled rn endname = False \<or> servers rn servername \<noteq> Some srv"

definition MakeEnd :: "('e, 's) Network \<Rightarrow> 'e \<Rightarrow> ('e, 's) Network go" where
  "MakeEnd rn endname =
     (if endname \<in> set (ends rn) then Inl LogFatal
      else Inr (rn\<lparr>ends := endname # ends rn, enabled := (enabled rn)(endname := False),
                   connections := (connections rn)(endname := None)\<rparr>))"

definition DeleteEnd :: "('e, 's) Network \<Rightarrow> 'e \<Rightarrow> ('e, 's) Network go" where
  \<comment> \<open>a key that is not in the map reads as its zero value\<close>
  "DeleteEnd rn endname =
     (if endname \<notin> set (ends rn) then Inl LogFatal
      else Inr (rn\<lparr>ends := filter (\<lambda>e. e \<noteq> endname) (ends rn), enabled := (enabled rn)(endname := False),
                   connections := (connections rn)(endname := None)\<rparr>))"

definition AddServer :: "('e, 's) Network \<Rightarrow> 's \<Rightarrow> nat \<Rightarrow> ('e, 's) Network" where
  "AddServer rn servername rs = rn\<lparr>servers := (servers rn)(servername \<mapsto> rs)\<rparr>"

definition DeleteServer :: "('e, 's) Network \<Rightarrow> 's \<Rightarrow> ('e, 's) Network" where
  "DeleteServer rn servername = rn\<lparr>servers := (servers rn)(servername := None)\<rparr>"

definition Connect :: "('e, 's) Network \<Rightarrow> 'e \<Rightarrow> 's \<Rightarrow> ('e, 's) Network" where
  "Connect rn endname servername = rn\<lparr>connections := (connections rn)(endname \<mapsto> servername)\<rparr>"

definition Enable :: "('e, 's) Network \<Rightarrow> 'e \<Rightarrow> bool \<Rightarrow> ('e, 's) Network" where
  "Enable rn endname en = rn\<lparr>enabled := (enabled rn)(endname := en)\<rparr>"

subsection \<open>One request\<close>

record coins =
  dropReq :: int       \<comment> \<open>\<open>rand.Int()\<close>\<close>
  handlerEnds :: bool  \<comment> \<open>the handler returns before the server is seen to be dead\<close>
  dropReply :: int
  reorder :: int       \<comment> \<open>\<open>rand.Intn(900)\<close>\<close>
  delay1 :: int        \<comment> \<open>\<open>rand.Int()\<close> for the delay of a request without a server\<close>

record rpc_outcome =
  called :: bool
  replied :: bool
  heldBack :: bool

definition processReq :: "('e, 's) Network \<Rightarrow> ('e, 's) Network \<Rightarrow> 'e \<Rightarrow> coins \<Rightarrow> rpc_outcome" where
  "processReq rn rn' endname c =
     (case readEndnameInfo rn endname of (en, servername, server, rel, longre) \<Rightarrow>
        if en \<and> servername \<noteq> None \<and> server \<noteq> None
        then (if \<not> rel \<and> dropReq c mod 1000 < 100 then \<lparr>called = False, replied = False, heldBack = False\<rparr>
              else let serverDead = isServerDead rn' endname (the servername) (the server) in
                   if \<not> handlerEnds c \<or> serverDead then \<lparr>called = True, replied = False, heldBack = False\<rparr>
                   else if \<not> rel \<and> dropReply c mod 1000 < 100 then \<lparr>called = True, replied = False, heldBack = False\<rparr>
                   else if longre \<and> reorder c < 600 then \<lparr>called = True, replied = True, heldBack = True\<rparr>
                   else \<lparr>called = True, replied = True, heldBack = False\<rparr>)
        else \<lparr>called = False, replied = False, heldBack = False\<rparr>)"

definition failDelay :: "('e, 's) Network \<Rightarrow> coins \<Rightarrow> int" where
  \<comment> \<open>milliseconds until a request without a reachable server fails\<close>
  "failDelay rn c = (if longDelays rn then delay1 c mod LONGDELAY else delay1 c mod 100)"

subsection \<open>Servers and services\<close>

record Service =
  svcName :: string
  methods :: "string list"

record Server =
  services :: "(string \<times> Service) list"
  srvCount :: int

datatype Kind = Ptr | OtherKind

record Method =
  \<comment> \<open>what reflection says of a method: its inputs count the receiver\<close>
  mName :: string
  PkgPath :: string
  mIn :: "Kind list"
  NumOut :: nat

definition isHandler :: "Method \<Rightarrow> bool" where
  "isHandler m \<longleftrightarrow> \<not> (PkgPath m \<noteq> [] \<or> length (mIn m) \<noteq> 3 \<or> mIn m ! 2 \<noteq> Ptr \<or> NumOut m \<noteq> 0)"

definition MakeService :: "string \<Rightarrow> Method list \<Rightarrow> Service" where
  \<comment> \<open>the name of the receiver's type and the methods of its method set\<close>
  "MakeService tn ms = \<lparr>svcName = tn, methods = map mName (filter isHandler ms)\<rparr>"

definition MakeServer :: Server where
  "MakeServer = \<lparr>services = [], srvCount = 0\<rparr>"

definition AddService :: "Server \<Rightarrow> Service \<Rightarrow> Server" where
  "AddService rs svc = rs\<lparr>services := (svcName svc, svc) # services rs\<rparr>"

definition Server_GetCount :: "Server \<Rightarrow> int" where
  "Server_GetCount rs = srvCount rs"

definition GetCount :: "(nat \<Rightarrow> Server) \<Rightarrow> ('e, 's) Network \<Rightarrow> 's \<Rightarrow> int go" where
  \<comment> \<open>the mutex of a nil server is used\<close>
  "GetCount obj rn servername = (case servers rn servername of None \<Rightarrow> Inl NilDeref | Some srv \<Rightarrow> Inr (Server_GetCount (obj srv)))"

definition GetTotalCount :: "('e, 's) Network \<Rightarrow> int" where
  "GetTotalCount rn = sint (rpcCount rn)"

definition GetTotalBytes :: "('e, 's) Network \<Rightarrow> int" where
  "GetTotalBytes rn = sint (rpcBytes rn)"

fun lastDot :: "string \<Rightarrow> nat option" where
  \<comment> \<open>\<open>strings.LastIndex(s, ".")\<close>\<close>
  "lastDot [] = None"
| "lastDot (ch # s) = (case lastDot s of Some i \<Rightarrow> Some (Suc i) | None \<Rightarrow> if ch = CHR ''.'' then Some 0 else None)"

definition splitMeth :: "string \<Rightarrow> (string \<times> string) go" where
  \<comment> \<open>\<open>svcMeth[:dot]\<close> and \<open>svcMeth[dot+1:]\<close>; without a dot the first slice is out of range\<close>
  "splitMeth svcMeth = (case lastDot svcMeth of None \<Rightarrow> Inl SliceOutOfRange
     | Some i \<Rightarrow> Inr (take i svcMeth, drop (Suc i) svcMeth))"

definition Service_dispatch :: "Service \<Rightarrow> string \<Rightarrow> string go" where
  \<comment> \<open>the handler that is called\<close>
  "Service_dispatch svc methname = (if methname \<in> set (methods svc) then Inr methname else Inl LogFatal)"

definition Server_dispatch :: "Server \<Rightarrow> string \<Rightarrow> (Server \<times> string \<times> string) go" where
  "Server_dispatch rs svcMeth =
     (let rs1 = rs\<lparr>srvCount := srvCount rs + 1\<rparr> in
      go_bind (splitMeth svcMeth) (\<lambda>(serviceName, methodName).
        case map_of (services rs1) serviceName of
          None \<Rightarrow> Inl LogFatal
        | Some svc \<Rightarrow> go_bind (Service_dispatch svc methodName) (\<lambda>m. Inr (rs1, svcName svc, m))))"

subsection \<open>What the network guarantees\<close>

definition reachable_server :: "('e, 's) Network \<Rightarrow> 'e \<Rightarrow> nat option" where
  \<comment> \<open>the server object an enabled end is connected to\<close>
  "reachable_server rn e = (if enabled rn e then (case connections rn e of None \<Rightarrow> None | Some s \<Rightarrow> servers rn s) else None)"

lemma processReq_cases:
  "processReq rn rn' e c =
     (case reachable_server rn e of None \<Rightarrow> \<lparr>called = False, replied = False, heldBack = False\<rparr>
      | Some srv \<Rightarrow>
          if \<not> reliable rn \<and> dropReq c mod 1000 < 100 then \<lparr>called = False, replied = False, heldBack = False\<rparr>
          else let ok = handlerEnds c \<and> enabled rn' e \<and> servers rn' (the (connections rn e)) = Some srv \<and>
                        (reliable rn \<or> 100 \<le> dropReply c mod 1000)
               in \<lparr>called = True, replied = ok, heldBack = ok \<and> longReordering rn \<and> reorder c < 600\<rparr>)"
  by (auto simp: processReq_def readEndnameInfo_def reachable_server_def isServerDead_def Let_def split: option.splits)

text \<open>
  What a reply means. A caller gets a reply only if the handler was called on the very
  server object the end was connected to when the request was taken, and that object was still the
  server when the handler had ended; a request over a disabled or unconnected end calls no handler;
  and on a reliable network every request to a server that stays is answered.
\<close>

theorem reply_means_handled:
  assumes "o' = processReq rn rn' e c"
  shows "(replied o' \<longrightarrow> called o' \<and> enabled rn' e \<and> reachable_server rn e \<noteq> None \<and>
            servers rn' (the (connections rn e)) = reachable_server rn e) \<and>
    (called o' \<longrightarrow> reachable_server rn e \<noteq> None) \<and>
    (reliable rn \<and> reachable_server rn e \<noteq> None \<and> handlerEnds c \<and> enabled rn' e \<and>
       servers rn' (the (connections rn e)) = reachable_server rn e \<longrightarrow> called o' \<and> replied o')"
  using assms by (auto simp: processReq_cases Let_def split: option.splits if_splits)

definition ex_net :: "(nat, nat) Network" where
  "ex_net = Enable (Connect (AddServer MakeNetwork 5 42) 1 5) 1 True"

definition ex_coins :: coins where
  "ex_coins = \<lparr>dropReq = 0, handlerEnds = True, dropReply = 0, reorder = 0, delay1 = 0\<rparr>"

theorem reply_means_handled_witness:
  "replied (processReq ex_net ex_net 1 ex_coins) \<and> \<not> called (processReq ex_net ex_net 2 ex_coins)"
  using reply_means_handled [of "processReq ex_net ex_net 1 ex_coins" ex_net ex_net 1 ex_coins]
    reply_means_handled [of "processReq ex_net ex_net 2 ex_coins" ex_net ex_net 2 ex_coins]
  by (simp add: ex_net_def ex_coins_def Enable_def Connect_def AddServer_def MakeNetwork_def reachable_server_def)

lemma lastDot_append: "lastDot (s @ CHR ''.'' # t) = (case lastDot t of Some i \<Rightarrow> Some (length s + Suc i) | None \<Rightarrow> Some (length s))"
  by (induction s) (auto split: option.splits)

lemma lastDot_None: "CHR ''.'' \<notin> set t \<Longrightarrow> lastDot t = None"
  by (induction t) auto

text \<open>
  Dispatch. A call of \<open>service.method\<close> reaches exactly that method of that service, also
  when the service's name itself contains dots, and counts once; calling a service or a method that
  is not registered stops the program.
\<close>

theorem dispatch_finds_method:
  assumes "CHR ''.'' \<notin> set meth"
  shows "Server_dispatch rs (svc @ ''.'' @ meth) =
    (case map_of (services rs) svc of None \<Rightarrow> Inl LogFatal
     | Some sv \<Rightarrow> if meth \<in> set (methods sv) then Inr (rs\<lparr>srvCount := srvCount rs + 1\<rparr>, svcName sv, meth) else Inl LogFatal)"
  using lastDot_append [of svc meth] lastDot_None [OF assms]
  by (auto simp: Server_dispatch_def splitMeth_def Service_dispatch_def Let_def split: option.splits)

theorem dispatch_finds_method_witness:
  "Server_dispatch (AddService MakeServer \<lparr>svcName = ''Raft'', methods = [''RequestVote'']\<rparr>) (''Raft'' @ ''.'' @ ''RequestVote'') =
   Inr (\<lparr>services = [(''Raft'', \<lparr>svcName = ''Raft'', methods = [''RequestVote'']\<rparr>)], srvCount = 1\<rparr>, ''Raft'', ''RequestVote'')"
  by (subst dispatch_finds_method) (simp_all add: AddService_def MakeServer_def)

lemma MakeService_dispatch:
  assumes "CHR ''.'' \<notin> set meth"
  shows "(\<exists>rs'. Server_dispatch (AddService rs (MakeService tn ms)) (tn @ ''.'' @ meth) = Inr (rs', tn, meth) \<and>
      Server_GetCount rs' = Server_GetCount rs + 1) \<longleftrightarrow> (\<exists>m \<in> set ms. mName m = meth \<and> isHandler m)"
  using dispatch_finds_method [OF assms, of "AddService rs (MakeService tn ms)" tn]
  by (auto simp: AddService_def MakeService_def Server_GetCount_def)

lemma taken_counted:
  "GetTotalCount (takeReq rn b) = (if GetTotalCount rn = 2 ^ 31 - 1 then - (2 ^ 31) else GetTotalCount rn + 1)"
proof -
  have b: "- (2 ^ 31) \<le> sint (rpcCount rn)" "sint (rpcCount rn) \<le> 2 ^ 31 - 1"
    using sint_ge [of "rpcCount rn"] sint_lt [of "rpcCount rn"] by simp_all
  have "sint (rpcCount rn + 1) = signed_take_bit 31 (sint (rpcCount rn) + 1)" by (simp add: sint_word_ariths)
  also have "\<dots> = (if sint (rpcCount rn) = 2 ^ 31 - 1 then - (2 ^ 31) else sint (rpcCount rn) + 1)"
  proof (cases "sint (rpcCount rn) = 2 ^ 31 - 1")
    case False
    then have "signed_take_bit 31 (sint (rpcCount rn) + 1) = sint (rpcCount rn) + 1"
      using b by (intro signed_take_bit_int_eq_self) auto
    with False show ?thesis by simp
  qed (simp add: signed_take_bit_eq_take_bit_shift take_bit_eq_mod)
  finally show ?thesis by (simp add: GetTotalCount_def takeReq_def)
qed

end
