(* ===== verification/Persister.thy ===== *)
theory Persister
  imports Go_Prelude
begin

text \<open>
  The stable storage of a server (\<open>src/tester1/persister.go\<close>) and the stream of encoded values
  that Raft writes to it through \<open>labgob\<close>.

  A \<open>Persister\<close> holds two byte slices. The slices are read back only through the decoder, so the
  Raft state is kept as the stream of values that was encoded: \<open>gobval\<close> is one encoded value, a
  decoder takes the next value off the stream and fails at the end of the stream or when the value
  has another type. \<open>Save\<close> and the readers copy the slices; values of HOL are immutable, so a copy
  is the value itself, and a nil slice is the empty list (\<open>clone(nil)\<close> is an empty slice).
\<close>

record 'c logEntry =
  Term :: int
  Command :: "'c option"

datatype 'c gobval = GobInt int | GobLog "'c logEntry list"

record 'c persister =
  raftstate :: "'c gobval list"
  snapshot :: "byte list"

definition MakePersister :: "'c persister" where
  "MakePersister = \<lparr>raftstate = [], snapshot = []\<rparr>"

definition clone :: "'a list \<Rightarrow> 'a list" where
  "clone orig = take (length orig) orig"

definition Copy :: "'c persister \<Rightarrow> 'c persister" where
  "Copy ps = MakePersister\<lparr>raftstate := raftstate ps, snapshot := snapshot ps\<rparr>"

definition ReadRaftState :: "'c persister \<Rightarrow> 'c gobval list" where
  "ReadRaftState ps = clone (raftstate ps)"

definition Save :: "'c persister \<Rightarrow> 'c gobval list \<Rightarrow> byte list \<Rightarrow> 'c persister" where
  "Save ps st sn = ps\<lparr>raftstate := clone st, snapshot := clone sn\<rparr>"

definition ReadSnapshot :: "'c persister \<Rightarrow> byte list" where
  "ReadSnapshot ps = clone (snapshot ps)"

definition RaftStateSize :: "('c gobval list \<Rightarrow> byte list) \<Rightarrow> 'c persister \<Rightarrow> nat" where
  \<comment> \<open>\<open>gob\<close> gives the bytes of a stream\<close>
  "RaftStateSize gob ps = length (gob (raftstate ps))"

definition SnapshotSize :: "'c persister \<Rightarrow> nat" where
  "SnapshotSize ps = length (snapshot ps)"

subsection \<open>Decoding a stream\<close>

fun DecodeInt :: "'c gobval list \<Rightarrow> (int \<times> 'c gobval list) option" where
  "DecodeInt (GobInt i # r) = Some (i, r)"
| "DecodeInt _ = None"

fun DecodeLog :: "'c gobval list \<Rightarrow> ('c logEntry list \<times> 'c gobval list) option" where
  "DecodeLog (GobLog l # r) = Some (l, r)"
| "DecodeLog _ = None"

lemma clone_id [simp]: "clone xs = xs"
  by (simp add: clone_def)

lemma persister_reads [simp]:
  "ReadRaftState (Save ps st sn) = st"
  "ReadSnapshot (Save ps st sn) = sn"
  "Copy ps = ps"
  "ReadRaftState (ps :: 'c persister) = raftstate ps"
  "ReadSnapshot ps = snapshot ps"
  "raftstate (Save ps st sn) = st"
  "snapshot (Save ps st sn) = sn"
  by (simp_all add: ReadRaftState_def ReadSnapshot_def Save_def Copy_def MakePersister_def)

subsection \<open>The storage interface\<close>

text \<open>
  What Raft relies on: a save is atomic over both parts, the readers give back what was saved
  last, and a copy (taken when a server is restarted) reads like the original.
\<close>

locale stable_storage =
  fixes save :: "'p \<Rightarrow> 's \<Rightarrow> 'b \<Rightarrow> 'p"
    and read_state :: "'p \<Rightarrow> 's"
    and read_snap :: "'p \<Rightarrow> 'b"
    and copy :: "'p \<Rightarrow> 'p"
  assumes read_state_save: "read_state (save p s b) = s"
    and read_snap_save: "read_snap (save p s b) = b"
    and read_state_copy: "read_state (copy p) = read_state p"
    and read_snap_copy: "read_snap (copy p) = read_snap p"
begin

lemma last_save_wins:
  "read_state (copy (save (save p s b) s' b')) = s' \<and> read_snap (copy (save (save p s b) s' b')) = b'"
  by (simp add: read_state_save read_snap_save read_state_copy read_snap_copy)

end

interpretation ps: stable_storage Save ReadRaftState ReadSnapshot Copy
  by unfold_locales simp_all

end
