(* ===== verification/Tester_Group.thy ===== *)
theory Tester_Group
  imports Labrpc Persister
begin

text \<open>
  The server groups of the test harness (\<open>src/tester1/srv.go\<close> and \<open>src/tester1/group.go\<close>): starting
  and stopping servers, connecting and disconnecting them, and partitions.

  The network is shared by all groups and clients, so the operations take and return it beside the
  group. Random names of ends are arguments (\<open>Randstring\<close>), and so is the object that \<open>AddServer\<close>
  registers. What starts the services of a server (\<open>FstartServer\<close>) is a parameter, as in the code. A
  nil list of end names is the empty list. An index that is not a server of the group is the stop
  \<open>IndexOutOfRange\<close>.

  What the operations do to the links between the servers of a group is the locale \<open>topology\<close>; the
  group is its interpretation, and partitions are proved against it.
\<close>

type_synonym 'e net = "('e, string) Network"

subsection \<open>Servers\<close>

record ('e, 'c, 'svc) TServer =
  saved :: "'c persister option"
  svcs :: "'svc list"
  endNames :: "'e list"

definition ServerName :: "(int \<Rightarrow> string) \<Rightarrow> int \<Rightarrow> nat \<Rightarrow> string" where
  \<comment> \<open>\<open>itoa\<close> is \<open>strconv.Itoa\<close>\<close>
  "ServerName itoa g i = ''server-'' @ itoa g @ ''-'' @ itoa (int i)"

fun makeEnds :: "(int \<Rightarrow> string) \<Rightarrow> int \<Rightarrow> nat \<Rightarrow> 'e list \<Rightarrow> 'e net \<Rightarrow> 'e net go" where
  \<comment> \<open>the loop of \<open>makeServer\<close> from \<open>j\<close> on\<close>
  "makeEnds itoa g j [] net = Inr net"
| "makeEnds itoa g j (e # es) net =
     go_bind (MakeEnd net e) (\<lambda>net1. makeEnds itoa g (Suc j) es (Connect net1 e (ServerName itoa g j)))"

definition makeServer :: "(int \<Rightarrow> string) \<Rightarrow> int \<Rightarrow> 'e list \<Rightarrow> 'e net \<Rightarrow> ('e net \<times> ('e, 'c, 'svc) TServer) go" where
  \<comment> \<open>\<open>names\<close> are the \<open>nsrv\<close> random names\<close>
  "makeServer itoa g names net =
     go_bind (makeEnds itoa g 0 names net) (\<lambda>net1. Inr (net1, \<lparr>saved = None, svcs = [], endNames = names\<rparr>))"

definition startServer ::
  "(int \<Rightarrow> string) \<Rightarrow> int \<Rightarrow> 'e list \<Rightarrow> ('e, 'c, 'svc) TServer \<Rightarrow> 'e net \<Rightarrow> ('e net \<times> ('e, 'c, 'svc) TServer) go" where
  "startServer itoa g names s net =
     go_bind (makeServer itoa g names net) (\<lambda>(net1, srv).
       Inr (net1, srv\<lparr>saved := Some (case saved s of Some p \<Rightarrow> Copy p | None \<Rightarrow> MakePersister)\<rparr>))"

definition shutdownServer :: "('e, 'c, 'svc) TServer \<Rightarrow> ('e, 'c, 'svc) TServer" where
  \<comment> \<open>the services are told to stop and let go; a late write of one of them goes to the old persister\<close>
  "shutdownServer s = s\<lparr>saved := map_option Copy (saved s), svcs := []\<rparr>"

subsection \<open>Groups\<close>

record ('e, 'c, 'svc) ServerGrp =
  gsrvs :: "('e, 'c, 'svc) TServer list"
  servernames :: "string list"
  gid :: int
  connected :: "bool list"

definition N :: "('e, 'c, 'svc) ServerGrp \<Rightarrow> nat" where
  "N sg = length (gsrvs sg)"

definition all :: "('e, 'c, 'svc) ServerGrp \<Rightarrow> nat list" where
  "all sg = [0..<N sg]"

definition inGrp :: "('e, 'c, 'svc) ServerGrp \<Rightarrow> nat list \<Rightarrow> bool" where
  "inGrp sg is \<longleftrightarrow> list_all (\<lambda>i. i < N sg) is"

definition SrvNamesTo :: "('e, 'c, 'svc) ServerGrp \<Rightarrow> nat list \<Rightarrow> string list go" where
  "SrvNamesTo sg to = (if inGrp sg to then Inr (map (\<lambda>i. servernames sg ! i) to) else Inl IndexOutOfRange)"

definition IsConnected :: "('e, 'c, 'svc) ServerGrp \<Rightarrow> nat \<Rightarrow> bool" where
  "IsConnected sg i = connected sg ! i"

definition Server_connect :: "('e, 'c, 'svc) ServerGrp \<Rightarrow> nat \<Rightarrow> nat list \<Rightarrow> 'e net \<Rightarrow> 'e net" where
  \<comment> \<open>enable the outgoing ends of server \<open>i\<close>\<close>
  "Server_connect sg i to net =
     fold (\<lambda>j net. if IsConnected sg j then Enable net (endNames (gsrvs sg ! i) ! j) True else net) to net"

definition Server_disconnect :: "('e, 'c, 'svc) TServer \<Rightarrow> nat list \<Rightarrow> 'e net \<Rightarrow> 'e net" where
  "Server_disconnect s from net =
     (if endNames s = [] then net else fold (\<lambda>j net. Enable net (endNames s ! j) False) from net)"

definition connect :: "('e, 'c, 'svc) ServerGrp \<Rightarrow> nat \<Rightarrow> nat list \<Rightarrow> 'e net \<Rightarrow> ('e net \<times> ('e, 'c, 'svc) ServerGrp) go" where
  "connect sg i to net =
     (if \<not> inGrp sg (i # to) then Inl IndexOutOfRange
      else let sg1 = sg\<lparr>connected := (connected sg)[i := True]\<rparr>;
               net1 = Server_connect sg1 i to net;
               net2 = fold (\<lambda>j net. if IsConnected sg1 j then Enable net (endNames (gsrvs sg1 ! j) ! i) True else net) to net1
           in Inr (net2, sg1))"

definition disconnect :: "('e, 'c, 'svc) ServerGrp \<Rightarrow> nat \<Rightarrow> nat list \<Rightarrow> 'e net \<Rightarrow> ('e net \<times> ('e, 'c, 'svc) ServerGrp) go" where
  "disconnect sg i from net =
     (if \<not> inGrp sg (i # from) then Inl IndexOutOfRange
      else let sg1 = sg\<lparr>connected := (connected sg)[i := False]\<rparr>;
               net1 = Server_disconnect (gsrvs sg1 ! i) from net;
               net2 = fold (\<lambda>j net. if endNames (gsrvs sg1 ! j) \<noteq> [] then Enable net (endNames (gsrvs sg1 ! j) ! i) False else net)
                        from net1
           in Inr (net2, sg1))"

definition ConnectOne :: "nat \<Rightarrow> 'e net \<times> ('e, 'c, 'svc) ServerGrp \<Rightarrow> ('e net \<times> ('e, 'c, 'svc) ServerGrp) go" where
  "ConnectOne i = (\<lambda>(net, sg). connect sg i (all sg) net)"

definition DisconnectAll :: "nat \<Rightarrow> 'e net \<times> ('e, 'c, 'svc) ServerGrp \<Rightarrow> ('e net \<times> ('e, 'c, 'svc) ServerGrp) go" where
  "DisconnectAll i = (\<lambda>(net, sg). disconnect sg i (all sg) net)"

definition ConnectAll :: "'e net \<times> ('e, 'c, 'svc) ServerGrp \<Rightarrow> ('e net \<times> ('e, 'c, 'svc) ServerGrp) go" where
  "ConnectAll s = go_each ConnectOne (all (snd s)) s"

definition Partition ::
  "nat list \<Rightarrow> nat list \<Rightarrow> 'e net \<times> ('e, 'c, 'svc) ServerGrp \<Rightarrow> ('e net \<times> ('e, 'c, 'svc) ServerGrp) go" where
  "Partition p1 p2 s =
     go_bind (go_each (\<lambda>i (net, sg). go_bind (disconnect sg i p2 net) (\<lambda>(net, sg). connect sg i p1 net)) p1 s)
       (go_each (\<lambda>i (net, sg). go_bind (disconnect sg i p1 net) (\<lambda>(net, sg). connect sg i p2 net)) p2)"

fun makeSrvs ::
  "(int \<Rightarrow> string) \<Rightarrow> int \<Rightarrow> 'e list list \<Rightarrow> 'e net \<Rightarrow> ('e net \<times> ('e, 'c, 'svc) TServer list) go" where
  "makeSrvs itoa g [] net = Inr (net, [])"
| "makeSrvs itoa g (names # nss) net =
     go_bind (makeServer itoa g names net) (\<lambda>(net1, s).
       go_bind (makeSrvs itoa g nss net1) (\<lambda>(net2, ss). Inr (net2, s # ss)))"

definition makeSrvGrp ::
  "(int \<Rightarrow> string) \<Rightarrow> int \<Rightarrow> 'e list list \<Rightarrow> 'e net \<Rightarrow> ('e net \<times> ('e, 'c, 'svc) ServerGrp) go" where
  \<comment> \<open>\<open>nss\<close> are the random names, one list for each of the servers\<close>
  "makeSrvGrp itoa g nss net =
     go_bind (makeSrvs itoa g nss net) (\<lambda>(net1, ss).
       Inr (net1, \<lparr>gsrvs = ss, servernames = map (ServerName itoa g) [0..<length nss], gid = g,
                   connected = replicate (length nss) False\<rparr>))"

type_synonym ('e, 'c, 'svc) starter = "'e list \<Rightarrow> int \<Rightarrow> nat \<Rightarrow> 'c persister \<Rightarrow> 'svc list go"

definition StartServer ::
  "(int \<Rightarrow> string) \<Rightarrow> ('e, 'c, 'svc) starter \<Rightarrow> 'e list \<Rightarrow> nat \<Rightarrow> nat \<Rightarrow> 'e net \<times> ('e, 'c, 'svc) ServerGrp \<Rightarrow>
   ('e net \<times> ('e, 'c, 'svc) ServerGrp) go" where
  "StartServer itoa mks names obj i = (\<lambda>(net, sg).
     if \<not> i < N sg then Inl IndexOutOfRange
     else go_bind (startServer itoa (gid sg) names (gsrvs sg ! i) net) (\<lambda>(net1, srv).
       go_bind (mks (endNames srv) (gid sg) i (the (saved srv))) (\<lambda>ss.
         Inr (AddServer net1 (ServerName itoa (gid sg) i) obj, sg\<lparr>gsrvs := (gsrvs sg)[i := srv\<lparr>svcs := ss\<rparr>]\<rparr>))))"

definition start ::
  "(int \<Rightarrow> string) \<Rightarrow> ('e, 'c, 'svc) starter \<Rightarrow> (nat \<Rightarrow> 'e list) \<Rightarrow> (nat \<Rightarrow> nat) \<Rightarrow> 'e net \<times> ('e, 'c, 'svc) ServerGrp \<Rightarrow>
   ('e net \<times> ('e, 'c, 'svc) ServerGrp) go" where
  "start itoa mks names obj s = go_each (\<lambda>i. StartServer itoa mks (names i) (obj i) i) (all (snd s)) s"

definition StartServers ::
  "(int \<Rightarrow> string) \<Rightarrow> ('e, 'c, 'svc) starter \<Rightarrow> (nat \<Rightarrow> 'e list) \<Rightarrow> (nat \<Rightarrow> nat) \<Rightarrow> 'e net \<times> ('e, 'c, 'svc) ServerGrp \<Rightarrow>
   ('e net \<times> ('e, 'c, 'svc) ServerGrp) go" where
  "StartServers itoa mks names obj s = go_bind (start itoa mks names obj s) ConnectAll"

definition ShutdownServer ::
  "(int \<Rightarrow> string) \<Rightarrow> nat \<Rightarrow> 'e net \<times> ('e, 'c, 'svc) ServerGrp \<Rightarrow> ('e net \<times> ('e, 'c, 'svc) ServerGrp) go" where
  "ShutdownServer itoa i s =
     go_bind (DisconnectAll i s) (\<lambda>(net, sg).
       Inr (DeleteServer net (ServerName itoa (gid sg) i), sg\<lparr>gsrvs := (gsrvs sg)[i := shutdownServer (gsrvs sg ! i)]\<rparr>))"

definition Shutdown ::
  "(int \<Rightarrow> string) \<Rightarrow> 'e net \<times> ('e, 'c, 'svc) ServerGrp \<Rightarrow> ('e net \<times> ('e, 'c, 'svc) ServerGrp) go" where
  "Shutdown itoa s = go_each (ShutdownServer itoa) (all (snd s)) s"

definition SrvNames :: "('e, 'c, 'svc) ServerGrp \<Rightarrow> string list" where
  "SrvNames sg = servernames sg"

definition SrvName :: "('e, 'c, 'svc) ServerGrp \<Rightarrow> int \<Rightarrow> string go" where
  "SrvName sg i = go_index (servernames sg) i"

definition Grp_Services :: "('e, 'c, 'svc) ServerGrp \<Rightarrow> 'svc list list" where
  "Grp_Services sg = map svcs (gsrvs sg)"

definition GetConnected :: "('e, 'c, 'svc) ServerGrp \<Rightarrow> bool list" where
  "GetConnected sg = connected sg"

definition Grp_cleanup :: "('svc \<Rightarrow> 'svc) \<Rightarrow> ('e, 'c, 'svc) ServerGrp \<Rightarrow> ('e, 'c, 'svc) ServerGrp" where
  \<comment> \<open>\<open>kill\<close> is what \<open>Kill\<close> does to a service\<close>
  "Grp_cleanup kill sg = sg\<lparr>gsrvs := map (\<lambda>s. s\<lparr>svcs := map kill (svcs s)\<rparr>) (gsrvs sg)\<rparr>"

definition RpcCount :: "(int \<Rightarrow> string) \<Rightarrow> (nat \<Rightarrow> Server) \<Rightarrow> 'e net \<Rightarrow> ('e, 'c, 'svc) ServerGrp \<Rightarrow> nat \<Rightarrow> int go" where
  "RpcCount itoa obj net sg i = GetCount obj net (ServerName itoa (gid sg) i)"

definition Grp_LogSize :: "('c gobval list \<Rightarrow> byte list) \<Rightarrow> ('e, 'c, 'svc) ServerGrp \<Rightarrow> nat go" where
  \<comment> \<open>the largest Raft state\<close>
  "Grp_LogSize gob sg =
     go_each (\<lambda>s m. case saved s of None \<Rightarrow> Inl NilDeref | Some p \<Rightarrow> Inr (if RaftStateSize gob p > m then RaftStateSize gob p else m)) (gsrvs sg) 0"

definition Grp_SnapshotSize :: "('e, 'c, 'svc) ServerGrp \<Rightarrow> nat go" where
  \<comment> \<open>the largest snapshot; a server that was never started has no persister\<close>
  "Grp_SnapshotSize sg =
     go_each (\<lambda>s m. case saved s of None \<Rightarrow> Inl NilDeref | Some p \<Rightarrow> Inr (max m (SnapshotSize p))) (gsrvs sg) 0"

fun splitLoop :: "nat list \<Rightarrow> nat \<Rightarrow> nat \<Rightarrow> nat list \<times> nat list \<Rightarrow> (nat list \<times> nat list) go" where
  \<comment> \<open>the loop of \<open>MakePartition\<close> over the servers that are left, with its counter \<open>j\<close>\<close>
  "splitLoop [] l j ps = Inr ps"
| "splitLoop (i # is) l j (p1, p2) =
     (if i = l then splitLoop is l j (p1, p2)
      else if j < length p1 then splitLoop is l (Suc j) (p1[j := i], p2)
      else if j - length p1 < length p2 then splitLoop is l (Suc j) (p1, p2[j - length p1 := i])
      else Inl IndexOutOfRange)"

definition MakePartition :: "('e, 'c, 'svc) ServerGrp \<Rightarrow> nat \<Rightarrow> (nat list \<times> nat list) go" where
  "MakePartition sg l =
     (let n = N sg in
      go_bind (splitLoop [0..<n] l 0 (replicate (n div 2 + 1) 0, replicate (n div 2) 0)) (\<lambda>(p1, p2).
        if p2 = [] then Inl IndexOutOfRange else Inr (p1, p2[length p2 - 1 := l])))"

subsection \<open>Links\<close>

definition link :: "'e net \<times> ('e, 'c, 'svc) ServerGrp \<Rightarrow> nat \<Rightarrow> nat \<Rightarrow> bool" where
  \<comment> \<open>server \<open>a\<close> can send to server \<open>b\<close>\<close>
  "link = (\<lambda>(net, sg) a b. a < N sg \<and> b < N sg \<and> enabled net (endNames (gsrvs sg ! a) ! b))"

definition conn :: "'e net \<times> ('e, 'c, 'svc) ServerGrp \<Rightarrow> nat \<Rightarrow> bool" where
  "conn = (\<lambda>(net, sg) a. a < N sg \<and> connected sg ! a)"

definition wf_grp :: "('e, 'c, 'svc) ServerGrp \<Rightarrow> bool" where
  \<comment> \<open>every server has an end for every server, and no two ends have the same name\<close>
  "wf_grp sg \<longleftrightarrow> length (connected sg) = N sg \<and> (\<forall>s \<in> set (gsrvs sg). length (endNames s) = N sg) \<and>
     inj_on (\<lambda>(a, b). endNames (gsrvs sg ! a) ! b) ({..<N sg} \<times> {..<N sg})"

lemma wf_grpD:
  assumes "wf_grp sg"
  shows "length (connected sg) = N sg" "a < N sg \<Longrightarrow> length (endNames (gsrvs sg ! a)) = N sg"
    "a < N sg \<Longrightarrow> b < N sg \<Longrightarrow> c < N sg \<Longrightarrow> d < N sg \<Longrightarrow>
     endNames (gsrvs sg ! a) ! b = endNames (gsrvs sg ! c) ! d \<longleftrightarrow> a = c \<and> b = d"
  using assms by (auto simp: wf_grp_def N_def inj_on_def)

lemma wf_grp_connected [simp]: "wf_grp (sg\<lparr>connected := (connected sg)[i := x]\<rparr>) = wf_grp sg"
  by (simp add: wf_grp_def N_def)

lemma N_connected [simp]: "N (sg\<lparr>connected := cs\<rparr>) = N sg"
  by (simp add: N_def)

lemma enabled_fold_Enable:
  "enabled (fold (\<lambda>j net. if P j then Enable net (f j) v else net) js net) e =
     (if \<exists>j \<in> set js. P j \<and> f j = e then v else enabled net e)"
  by (induction js arbitrary: net) (auto simp: Enable_def)

lemma enabled_fold_Enable_all:
  "enabled (fold (\<lambda>j net. Enable net (f j) v) js net) e = (if \<exists>j \<in> set js. f j = e then v else enabled net e)"
  by (induction js arbitrary: net) (auto simp: Enable_def)

lemma ends_fold_Enable [simp]:
  "ends (fold (\<lambda>j net. if P j then Enable net (f j) v else net) js net) = ends net"
  "ends (fold (\<lambda>j net. Enable net (f j) v) js net) = ends net"
  by (induction js arbitrary: net) (simp_all add: Enable_def)

text \<open>
  The interface of a group to its clients: a state with links between servers, and two operations
  that attach a server to some servers and detach it from some.
\<close>

locale topology =
  fixes invar :: "'s \<Rightarrow> bool" and size :: "'s \<Rightarrow> nat" and con :: "'s \<Rightarrow> nat \<Rightarrow> bool" and lnk :: "'s \<Rightarrow> nat \<Rightarrow> nat \<Rightarrow> bool"
    and attach :: "nat \<Rightarrow> nat list \<Rightarrow> 's \<Rightarrow> 's go" and detach :: "nat \<Rightarrow> nat list \<Rightarrow> 's \<Rightarrow> 's go"
  assumes attach: "invar s \<Longrightarrow> i < size s \<Longrightarrow> set to \<subseteq> {..<size s} \<Longrightarrow> \<exists>s'. attach i to s = Inr s' \<and> invar s' \<and>
      size s' = size s \<and> con s' = (con s)(i := True) \<and>
      (\<forall>a b. lnk s' a b \<longleftrightarrow> lnk s a b \<or> (a = i \<and> b \<in> set to \<and> con s' b) \<or> (b = i \<and> a \<in> set to \<and> con s' a))"
    and detach: "invar s \<Longrightarrow> i < size s \<Longrightarrow> set from \<subseteq> {..<size s} \<Longrightarrow> \<exists>s'. detach i from s = Inr s' \<and> invar s' \<and>
      size s' = size s \<and> con s' = (con s)(i := False) \<and>
      (\<forall>a b. lnk s' a b \<longleftrightarrow> lnk s a b \<and> \<not> (a = i \<and> b \<in> set from) \<and> \<not> (b = i \<and> a \<in> set from))"
begin

lemma half_partition:
  assumes "invar s" and "set js \<subseteq> set mine" and "set mine \<subseteq> {..<size s}" and "set other \<subseteq> {..<size s}"
    and "set mine \<inter> set other = {}" and "D \<subseteq> set mine" and "\<forall>d \<in> D. con s d" and "\<forall>a \<in> D. \<forall>b \<in> D. lnk s a b"
    and "\<forall>a \<in> D. \<forall>b \<in> set other. \<not> lnk s a b \<and> \<not> lnk s b a"
  shows "\<exists>s'. go_each (\<lambda>i s. go_bind (detach i other s) (attach i mine)) js s = Inr s' \<and> invar s' \<and> size s' = size s \<and>
    (\<forall>a. con s' a \<longleftrightarrow> con s a \<or> a \<in> set js) \<and>
    (\<forall>a \<in> D \<union> set js. \<forall>b \<in> D \<union> set js. lnk s' a b) \<and>
    (\<forall>a \<in> D \<union> set js. \<forall>b \<in> set other. \<not> lnk s' a b \<and> \<not> lnk s' b a) \<and>
    (\<forall>a b. a \<notin> set mine \<or> b \<notin> set mine \<longrightarrow> lnk s' a b \<longrightarrow> lnk s a b) \<and>
    (\<forall>a b. a \<notin> set mine \<and> b \<notin> set mine \<longrightarrow> lnk s' a b = lnk s a b)"
  using assms
proof (induction js arbitrary: s D)
  case (Cons i js)
  have i: "i < size s" "i \<in> set mine" using Cons.prems by auto
  obtain s1 where s1: "detach i other s = Inr s1" "invar s1" "size s1 = size s" "con s1 = (con s)(i := False)"
    "\<forall>a b. lnk s1 a b \<longleftrightarrow> lnk s a b \<and> \<not> (a = i \<and> b \<in> set other) \<and> \<not> (b = i \<and> a \<in> set other)"
    using detach [OF Cons.prems(1) i(1) Cons.prems(4)] by blast
  obtain s2 where s2: "attach i mine s1 = Inr s2" "invar s2" "size s2 = size s1" "con s2 = (con s1)(i := True)"
    "\<forall>a b. lnk s2 a b \<longleftrightarrow> lnk s1 a b \<or> (a = i \<and> b \<in> set mine \<and> con s2 b) \<or> (b = i \<and> a \<in> set mine \<and> con s2 a)"
    using attach [of s1 i mine] s1(2,3) i Cons.prems(3) by auto
  have D: "\<forall>d \<in> insert i D. con s2 d" using Cons.prems(7) s1(4) s2(4) by auto
  have L: "\<forall>a \<in> insert i D. \<forall>b \<in> insert i D. lnk s2 a b"
    using D Cons.prems(5,6,8) i(2) s1(5) s2(5) by (metis disjoint_iff insertE subsetD)
  have O: "\<forall>a \<in> insert i D. \<forall>b \<in> set other. \<not> lnk s2 a b \<and> \<not> lnk s2 b a"
    using Cons.prems(5,6,9) i(2) s1(5) s2(5) by (metis disjoint_iff insertE subsetD)
  have js: "set js \<subseteq> set mine" and iD: "insert i D \<subseteq> set mine" using Cons.prems(2,6) by auto
  have sz: "set mine \<subseteq> {..<size s2}" "set other \<subseteq> {..<size s2}" using Cons.prems(3,4) s1(3) s2(3) by simp_all
  obtain s' where s': "go_each (\<lambda>i s. go_bind (detach i other s) (attach i mine)) js s2 = Inr s'" "invar s'" "size s' = size s2"
    "\<forall>a. con s' a \<longleftrightarrow> con s2 a \<or> a \<in> set js"
    "\<forall>a \<in> insert i D \<union> set js. \<forall>b \<in> insert i D \<union> set js. lnk s' a b"
    "\<forall>a \<in> insert i D \<union> set js. \<forall>b \<in> set other. \<not> lnk s' a b \<and> \<not> lnk s' b a"
    "\<forall>a b. a \<notin> set mine \<or> b \<notin> set mine \<longrightarrow> lnk s' a b \<longrightarrow> lnk s2 a b"
    "\<forall>a b. a \<notin> set mine \<and> b \<notin> set mine \<longrightarrow> lnk s' a b = lnk s2 a b"
    using Cons.IH [OF s2(2) js sz Cons.prems(5) iD D L O] by (elim exE conjE) (rule that)
  have "go_each (\<lambda>i s. go_bind (detach i other s) (attach i mine)) (i # js) s = Inr s'" using s1(1) s2(1) s'(1) by simp
  moreover have "\<forall>a. con s' a \<longleftrightarrow> con s a \<or> a \<in> set (i # js)" using s'(4) s2(4) s1(4) by auto
  moreover have "\<forall>a b. a \<notin> set mine \<or> b \<notin> set mine \<longrightarrow> lnk s' a b \<longrightarrow> lnk s a b"
    using s'(7) s2(5) s1(5) i(2) by blast
  moreover have "\<forall>a b. a \<notin> set mine \<and> b \<notin> set mine \<longrightarrow> lnk s' a b = lnk s a b"
    using s'(8) s2(5) s1(5) i(2) by blast
  moreover have "D \<union> set (i # js) = insert i D \<union> set js" by simp
  ultimately show ?case using s'(2,3,5,6) s2(3) s1(3) by (intro exI [of _ s']) presburger
qed auto

lemma two_parts:
  assumes "invar s" and "set p1 \<subseteq> {..<size s}" and "set p2 \<subseteq> {..<size s}" and "set p1 \<inter> set p2 = {}"
  shows "\<exists>s'. go_bind (go_each (\<lambda>i s. go_bind (detach i p2 s) (attach i p1)) p1 s)
        (go_each (\<lambda>i s. go_bind (detach i p1 s) (attach i p2)) p2) = Inr s' \<and> invar s' \<and> size s' = size s \<and>
    (\<forall>a. con s' a \<longleftrightarrow> con s a \<or> a \<in> set p1 \<union> set p2) \<and>
    (\<forall>a \<in> set p1 \<union> set p2. \<forall>b \<in> set p1 \<union> set p2. lnk s' a b \<longleftrightarrow> (a \<in> set p1 \<longleftrightarrow> b \<in> set p1))"
proof -
  obtain s1 where s1: "go_each (\<lambda>i s. go_bind (detach i p2 s) (attach i p1)) p1 s = Inr s1" "invar s1" "size s1 = size s"
    "\<forall>a. con s1 a \<longleftrightarrow> con s a \<or> a \<in> set p1" "\<forall>a \<in> set p1. \<forall>b \<in> set p1. lnk s1 a b"
    "\<forall>a \<in> set p1. \<forall>b \<in> set p2. \<not> lnk s1 a b \<and> \<not> lnk s1 b a"
    using half_partition [of s p1 p1 p2 "{}"] assms by auto
  obtain s2 where s2: "go_each (\<lambda>i s. go_bind (detach i p1 s) (attach i p2)) p2 s1 = Inr s2" "invar s2" "size s2 = size s1"
    "\<forall>a. con s2 a \<longleftrightarrow> con s1 a \<or> a \<in> set p2" "\<forall>a \<in> set p2. \<forall>b \<in> set p2. lnk s2 a b"
    "\<forall>a b. a \<notin> set p2 \<or> b \<notin> set p2 \<longrightarrow> lnk s2 a b \<longrightarrow> lnk s1 a b"
    "\<forall>a b. a \<notin> set p2 \<and> b \<notin> set p2 \<longrightarrow> lnk s2 a b = lnk s1 a b"
    using half_partition [of s1 p2 p2 p1 "{}"] assms s1(2,3) by (auto simp: Int_commute)
  have lnk: "lnk s2 a b \<longleftrightarrow> (a \<in> set p1 \<longleftrightarrow> b \<in> set p1)" if "a \<in> set p1 \<union> set p2" "b \<in> set p1 \<union> set p2" for a b
    using that assms(4) s1(5,6) s2(5-7) by (metis UnE disjoint_iff)
  have con: "con s2 a \<longleftrightarrow> con s a \<or> a \<in> set p1 \<union> set p2" for a using s1(4) s2(4) by simp
  show ?thesis
    by (intro exI [of _ s2] conjI allI ballI con lnk)
       (simp_all only: s1(1,3) s2(1-3) go_bind_simps)
qed

end

lemma inGrpI: "i < N sg \<Longrightarrow> set to \<subseteq> {..<N sg} \<Longrightarrow> inGrp sg (i # to)"
  by (auto simp: inGrp_def list_all_iff)

lemma connect_law:
  assumes wf: "wf_grp sg" and i: "i < N sg" and to: "set to \<subseteq> {..<N sg}"
  obtains net' sg' where "connect sg i to net = Inr (net', sg')" "sg' = sg\<lparr>connected := (connected sg)[i := True]\<rparr>"
    "conn (net', sg') = (conn (net, sg))(i := True)"
    "\<And>a b. link (net', sg') a b \<longleftrightarrow> link (net, sg) a b \<or> (a = i \<and> b \<in> set to \<and> conn (net', sg') b) \<or>
       (b = i \<and> a \<in> set to \<and> conn (net', sg') a)"
proof -
  let ?sg = "sg\<lparr>connected := (connected sg)[i := True]\<rparr>"
  obtain net' where c: "connect sg i to net = Inr (net', ?sg)" using inGrpI [OF i to] by (simp add: connect_def Let_def)
  have net': "net' = fold (\<lambda>j net. if connected ?sg ! j then Enable net (endNames (gsrvs sg ! j) ! i) True else net) to
      (fold (\<lambda>j net. if connected ?sg ! j then Enable net (endNames (gsrvs sg ! i) ! j) True else net) to net)"
    using c inGrpI [OF i to] by (simp add: connect_def Server_connect_def IsConnected_def Let_def cong: if_cong)
  have en: "enabled net' e \<longleftrightarrow> enabled net e \<or> (\<exists>j \<in> set to. connected ?sg ! j \<and> endNames (gsrvs sg ! i) ! j = e) \<or>
      (\<exists>j \<in> set to. connected ?sg ! j \<and> endNames (gsrvs sg ! j) ! i = e)" for e
    by (auto simp: net' enabled_fold_Enable)
  have "conn (net', ?sg) = (conn (net, sg))(i := True)"
    using i wf_grpD(1) [OF wf] by (auto simp: conn_def fun_eq_iff nth_list_update)
  moreover have "link (net', ?sg) a b \<longleftrightarrow> link (net, sg) a b \<or> (a = i \<and> b \<in> set to \<and> conn (net', ?sg) b) \<or>
      (b = i \<and> a \<in> set to \<and> conn (net', ?sg) a)" for a b
  proof (cases "a < N sg \<and> b < N sg")
    case True
    have eq: "endNames (gsrvs sg ! i) ! j = endNames (gsrvs sg ! a) ! b \<longleftrightarrow> a = i \<and> b = j"
      "endNames (gsrvs sg ! j) ! i = endNames (gsrvs sg ! a) ! b \<longleftrightarrow> b = i \<and> a = j" if "j \<in> set to" for j
      using that True i to wf_grpD(3) [OF wf, of i j a b] wf_grpD(3) [OF wf, of j i a b] by auto
    have "(\<exists>j \<in> set to. connected ?sg ! j \<and> endNames (gsrvs sg ! i) ! j = endNames (gsrvs sg ! a) ! b) \<longleftrightarrow>
        a = i \<and> b \<in> set to \<and> connected ?sg ! b"
      using eq(1) by blast
    moreover have "(\<exists>j \<in> set to. connected ?sg ! j \<and> endNames (gsrvs sg ! j) ! i = endNames (gsrvs sg ! a) ! b) \<longleftrightarrow>
        b = i \<and> a \<in> set to \<and> connected ?sg ! a"
      using eq(2) by blast
    ultimately show ?thesis using True by (simp add: link_def conn_def en)
  qed (use i to in \<open>auto simp: link_def\<close>)
  ultimately show ?thesis using that c by blast
qed

lemma disconnect_law:
  assumes wf: "wf_grp sg" and i: "i < N sg" and fr: "set from \<subseteq> {..<N sg}"
  obtains net' sg' where "disconnect sg i from net = Inr (net', sg')" "sg' = sg\<lparr>connected := (connected sg)[i := False]\<rparr>"
    "conn (net', sg') = (conn (net, sg))(i := False)"
    "\<And>a b. link (net', sg') a b \<longleftrightarrow> link (net, sg) a b \<and> \<not> (a = i \<and> b \<in> set from) \<and> \<not> (b = i \<and> a \<in> set from)"
proof -
  let ?sg = "sg\<lparr>connected := (connected sg)[i := False]\<rparr>"
  obtain net' where c: "disconnect sg i from net = Inr (net', ?sg)"
    using inGrpI [OF i fr] by (simp add: disconnect_def Let_def)
  have len: "endNames (gsrvs sg ! j) \<noteq> []" if "j < N sg" for j using that i wf_grpD(2) [OF wf that] by auto
  have ne: "endNames (gsrvs sg ! i) \<noteq> []" "\<forall>j \<in> set from. endNames (gsrvs sg ! j) \<noteq> []" using len i fr by auto
  have net': "net' = fold (\<lambda>j net. if endNames (gsrvs sg ! j) \<noteq> [] then Enable net (endNames (gsrvs sg ! j) ! i) False else net) from
      (fold (\<lambda>j net. Enable net (endNames (gsrvs sg ! i) ! j) False) from net)"
    using c inGrpI [OF i fr] ne(1) by (simp add: disconnect_def Server_disconnect_def Let_def cong: if_cong)
  have en: "enabled net' e \<longleftrightarrow> enabled net e \<and> \<not> (\<exists>j \<in> set from. endNames (gsrvs sg ! i) ! j = e) \<and>
      \<not> (\<exists>j \<in> set from. endNames (gsrvs sg ! j) ! i = e)" for e
    using ne(2) by (simp add: net' enabled_fold_Enable enabled_fold_Enable_all)
  have "conn (net', ?sg) = (conn (net, sg))(i := False)"
    using i wf_grpD(1) [OF wf] by (auto simp: conn_def fun_eq_iff nth_list_update)
  moreover have "link (net', ?sg) a b \<longleftrightarrow> link (net, sg) a b \<and> \<not> (a = i \<and> b \<in> set from) \<and> \<not> (b = i \<and> a \<in> set from)" for a b
  proof (cases "a < N sg \<and> b < N sg")
    case True
    have eq: "endNames (gsrvs sg ! i) ! j = endNames (gsrvs sg ! a) ! b \<longleftrightarrow> a = i \<and> b = j"
      "endNames (gsrvs sg ! j) ! i = endNames (gsrvs sg ! a) ! b \<longleftrightarrow> b = i \<and> a = j" if "j \<in> set from" for j
      using that True i fr wf_grpD(3) [OF wf, of i j a b] wf_grpD(3) [OF wf, of j i a b] by auto
    have "(\<exists>j \<in> set from. endNames (gsrvs sg ! i) ! j = endNames (gsrvs sg ! a) ! b) \<longleftrightarrow> a = i \<and> b \<in> set from"
      using eq(1) by blast
    moreover have "(\<exists>j \<in> set from. endNames (gsrvs sg ! j) ! i = endNames (gsrvs sg ! a) ! b) \<longleftrightarrow> b = i \<and> a \<in> set from"
      using eq(2) by blast
    ultimately show ?thesis using True unfolding link_def by (simp add: en) blast
  qed (use i fr in \<open>auto simp: link_def\<close>)
  ultimately show ?thesis using that c by blast
qed

interpretation grp: topology "\<lambda>(net, sg). wf_grp sg" "\<lambda>(net, sg). N sg" conn link
  "\<lambda>i to (net, sg). connect sg i to net" "\<lambda>i from (net, sg). disconnect sg i from net"
proof (unfold_locales, goal_cases)
  case (1 s i to)
  obtain net sg where s: "s = (net, sg)" by (cases s)
  from 1 have p: "wf_grp sg" "i < N sg" "set to \<subseteq> {..<N sg}" by (simp_all add: s)
  show ?case by (rule connect_law [OF p, of net]) (use p in \<open>simp add: s\<close>)
next
  case (2 s i "from")
  obtain net sg where s: "s = (net, sg)" by (cases s)
  from 2 have p: "wf_grp sg" "i < N sg" "set from \<subseteq> {..<N sg}" by (simp_all add: s)
  show ?case by (rule disconnect_law [OF p, of net]) (use p in \<open>simp add: s\<close>)
qed

lemma Partition_eq:
  "Partition p1 p2 s =
     go_bind (go_each (\<lambda>i s. go_bind (case s of (net, sg) \<Rightarrow> disconnect sg i p2 net) (\<lambda>s. case s of (net, sg) \<Rightarrow> connect sg i p1 net)) p1 s)
       (go_each (\<lambda>i s. go_bind (case s of (net, sg) \<Rightarrow> disconnect sg i p1 net) (\<lambda>s. case s of (net, sg) \<Rightarrow> connect sg i p2 net)) p2)"
  by (simp add: Partition_def split_def)

lemma Partition_links:
  assumes "wf_grp sg" and "set p1 \<subseteq> {..<N sg}" and "set p2 \<subseteq> {..<N sg}" and "set p1 \<inter> set p2 = {}"
  obtains net' sg' where "Partition p1 p2 (net, sg) = Inr (net', sg')" "wf_grp sg'" "N sg' = N sg"
    "\<forall>a \<in> set p1 \<union> set p2. \<forall>b \<in> set p1 \<union> set p2. link (net', sg') a b \<longleftrightarrow> (a \<in> set p1 \<longleftrightarrow> b \<in> set p1)"
  using grp.two_parts [of "(net, sg)" p1 p2] assms unfolding Partition_eq by auto

subsection \<open>Partitions\<close>

text \<open>
  Property C39 (a partition separates the servers). From any state of a group, \<open>Partition\<close> of two
  disjoint lists of its servers goes through and leaves exactly the links within each list: a
  server of one part can send to a server of the same part, and no request of one part reaches a
  handler of the other, whatever was connected or disconnected before.
\<close>

theorem partition_separates:
  assumes "wf_grp sg" and "set p1 \<subseteq> {..<N sg}" and "set p2 \<subseteq> {..<N sg}" and "set p1 \<inter> set p2 = {}"
  shows "\<exists>net' sg'. Partition p1 p2 (net, sg) = Inr (net', sg') \<and> wf_grp sg' \<and> N sg' = N sg \<and>
    (\<forall>a \<in> set p1 \<union> set p2. \<forall>b \<in> set p1 \<union> set p2.
       (link (net', sg') a b \<longleftrightarrow> (a \<in> set p1 \<longleftrightarrow> b \<in> set p1)) \<and>
       (called (processReq net' rn (endNames (gsrvs sg' ! a) ! b) c) \<longrightarrow> (a \<in> set p1 \<longleftrightarrow> b \<in> set p1)))"
proof -
  obtain net' sg' where p: "Partition p1 p2 (net, sg) = Inr (net', sg')" "wf_grp sg'" "N sg' = N sg"
    and l: "\<forall>a \<in> set p1 \<union> set p2. \<forall>b \<in> set p1 \<union> set p2. link (net', sg') a b \<longleftrightarrow> (a \<in> set p1 \<longleftrightarrow> b \<in> set p1)"
    by (rule Partition_links [OF assms])
  have "link (net', sg') a b" if "called (processReq net' rn (endNames (gsrvs sg' ! a) ! b) c)" "a \<in> set p1 \<union> set p2" "b \<in> set p1 \<union> set p2" for a b
    using that assms(2,3) p(3) by (auto simp: processReq_cases reachable_server_def link_def split: option.splits if_splits)
  with p l show ?thesis by blast
qed

definition ex_grp :: "(nat, nat, nat) ServerGrp" where
  \<comment> \<open>three servers, the end from \<open>a\<close> to \<open>b\<close> having the name \<open>3 * a + b\<close>\<close>
  "ex_grp = \<lparr>gsrvs = map (\<lambda>a. \<lparr>saved = None, svcs = [], endNames = map (\<lambda>b. 3 * a + b) [0..<3]\<rparr>) [0..<3],
             servernames = [''server-0-0'', ''server-0-1'', ''server-0-2''], gid = 0, connected = [False, False, True]\<rparr>"

lemma wf_ex_grp: "wf_grp ex_grp" "N ex_grp = 3"
proof -
  show n: "N ex_grp = 3" by (simp add: N_def ex_grp_def)
  have "endNames (gsrvs ex_grp ! a) ! b = 3 * a + b" if "a < 3" "b < 3" for a b
    using that by (simp add: ex_grp_def)
  then have "inj_on (\<lambda>(a, b). endNames (gsrvs ex_grp ! a) ! b) ({..<3} \<times> {..<3})"
    by (auto simp: inj_on_def) presburger+
  then show "wf_grp ex_grp" unfolding wf_grp_def n by (simp add: ex_grp_def)
qed

theorem partition_separates_witness:
  "\<exists>net' sg'. Partition [0, 2] [1] (MakeNetwork :: nat net, ex_grp) = Inr (net', sg') \<and>
     link (net', sg') 0 2 \<and> \<not> link (net', sg') 0 1 \<and> \<not> link (net', sg') 1 2"
proof -
  have "set [0, 2::nat] \<subseteq> {..<N ex_grp}" "set [1::nat] \<subseteq> {..<N ex_grp}" "set [0, 2::nat] \<inter> set [1] = {}"
    by (simp_all add: wf_ex_grp)
  from partition_separates [OF wf_ex_grp(1) this, of MakeNetwork MakeNetwork ex_coins] obtain net' sg' where
    p: "Partition [0, 2] [1] (MakeNetwork :: nat net, ex_grp) = Inr (net', sg')" and
    l: "\<forall>a \<in> set [0, 2] \<union> set [1]. \<forall>b \<in> set [0, 2] \<union> set [1].
       (link (net', sg') a b \<longleftrightarrow> (a \<in> set [0, 2] \<longleftrightarrow> b \<in> set [0, 2])) \<and>
       (called (processReq net' MakeNetwork (endNames (gsrvs sg' ! a) ! b) ex_coins) \<longrightarrow> (a \<in> set [0, 2] \<longleftrightarrow> b \<in> set [0, 2]))"
    by (elim exE conjE) (rule that)
  have "link (net', sg') 0 2" "\<not> link (net', sg') 0 1" "\<not> link (net', sg') 1 2" using l by simp_all
  with p show ?thesis by blast
qed

subsection \<open>The field connected\<close>

definition precise :: "'e net \<times> ('e, 'c, 'svc) ServerGrp \<Rightarrow> bool" where
  \<comment> \<open>two servers are linked exactly when both are marked as connected\<close>
  "precise s \<longleftrightarrow> wf_grp (snd s) \<and> (\<forall>a b. link s a b \<longleftrightarrow> conn s a \<and> conn s b)"

inductive grp_step :: "(int \<Rightarrow> string) \<Rightarrow> ('e, 'c, 'svc) starter \<Rightarrow> 'e net \<times> ('e, 'c, 'svc) ServerGrp \<Rightarrow>
    'e net \<times> ('e, 'c, 'svc) ServerGrp \<Rightarrow> bool" for itoa mks where
  grp_connect: "ConnectOne i s = Inr s' \<Longrightarrow> grp_step itoa mks s s'"
| grp_disconnect: "DisconnectAll i s = Inr s' \<Longrightarrow> grp_step itoa mks s s'"
| grp_shutdown: "ShutdownServer itoa i s = Inr s' \<Longrightarrow> grp_step itoa mks s s'"
| grp_start: "\<not> conn s i \<Longrightarrow> length names = N (snd s) \<Longrightarrow> set names \<inter> (\<Union>t \<in> set (gsrvs (snd s)). set (endNames t)) = {} \<Longrightarrow>
    StartServer itoa mks names obj i s = Inr s' \<Longrightarrow> grp_step itoa mks s s'"

lemma all_in: "set (all sg) = {..<N sg}"
  by (auto simp: all_def)

lemma conn_less: "conn (net, sg) a \<Longrightarrow> a < N sg"
  by (simp add: conn_def)

lemma preciseI:
  assumes "wf_grp sg" and "\<And>a b. link (net, sg) a b \<longleftrightarrow> conn (net, sg) a \<and> conn (net, sg) b"
  shows "precise (net, sg)"
  using assms by (simp add: precise_def)

lemma preciseD:
  assumes "precise (net, sg)"
  shows "wf_grp sg" "link (net, sg) a b \<longleftrightarrow> conn (net, sg) a \<and> conn (net, sg) b"
  using assms by (simp_all add: precise_def)

lemma ConnectOne_precise:
  assumes "precise s" and "ConnectOne i s = Inr s'"
  shows "precise s'"
proof -
  obtain net sg where s: "s = (net, sg)" by (cases s)
  note pr = preciseD [OF assms(1) [unfolded s]]
  have i: "i < N sg" using assms(2) by (simp add: s ConnectOne_def connect_def inGrp_def split: if_splits)
  obtain net' sg' where c: "connect sg i (all sg) net = Inr (net', sg')" "sg' = sg\<lparr>connected := (connected sg)[i := True]\<rparr>"
    "conn (net', sg') = (conn (net, sg))(i := True)"
    "\<And>a b. link (net', sg') a b \<longleftrightarrow> link (net, sg) a b \<or> (a = i \<and> b \<in> set (all sg) \<and> conn (net', sg') b) \<or>
       (b = i \<and> a \<in> set (all sg) \<and> conn (net', sg') a)"
    by (rule connect_law [OF pr(1) i, of "all sg" net]) (simp_all add: all_in)
  have "link (net', sg') a b \<longleftrightarrow> conn (net', sg') a \<and> conn (net', sg') b" for a b
    using c(4) [of a b] pr(2) [of a b] conn_less [of net sg a] conn_less [of net sg b] i by (auto simp: c(3) all_in)
  then have "precise (net', sg')" using pr(1) by (intro preciseI) (simp_all add: c(2))
  then show ?thesis using assms(2) c(1) by (simp add: s ConnectOne_def)
qed

lemma DisconnectAll_law:
  assumes "precise (net, sg)" and "DisconnectAll i (net, sg) = Inr (net', sg')"
  shows "precise (net', sg')" "sg' = sg\<lparr>connected := (connected sg)[i := False]\<rparr>" "i < N sg" "\<not> conn (net', sg') i"
proof -
  note pr = preciseD [OF assms(1)]
  show i: "i < N sg" using assms(2) by (simp add: DisconnectAll_def disconnect_def inGrp_def split: if_splits)
  obtain net1 sg1 where d: "disconnect sg i (all sg) net = Inr (net1, sg1)" "sg1 = sg\<lparr>connected := (connected sg)[i := False]\<rparr>"
    "conn (net1, sg1) = (conn (net, sg))(i := False)"
    "\<And>a b. link (net1, sg1) a b \<longleftrightarrow> link (net, sg) a b \<and> \<not> (a = i \<and> b \<in> set (all sg)) \<and> \<not> (b = i \<and> a \<in> set (all sg))"
    by (rule disconnect_law [OF pr(1) i, of "all sg" net]) (simp_all add: all_in)
  have eq: "net1 = net'" "sg1 = sg'" using d(1) assms(2) by (simp_all add: DisconnectAll_def)
  note c = d(2-4) [unfolded eq]
  show "sg' = sg\<lparr>connected := (connected sg)[i := False]\<rparr>" by (rule c(1))
  show "\<not> conn (net', sg') i" by (simp add: c(2))
  have "link (net', sg') a b \<longleftrightarrow> conn (net', sg') a \<and> conn (net', sg') b" for a b
    using c(3) [of a b] pr(2) [of a b] conn_less [of net sg a] conn_less [of net sg b] by (auto simp: c(2) all_in)
  then show "precise (net', sg')" using pr(1) by (intro preciseI) (simp_all add: c(1))
qed

lemma makeEnds_law:
  assumes "makeEnds itoa g j names net = Inr net'"
  shows "distinct names \<and> set names \<inter> set (ends net) = {} \<and> set (ends net') = set names \<union> set (ends net) \<and>
    (\<forall>e. enabled net' e \<longleftrightarrow> e \<notin> set names \<and> enabled net e) \<and> servers net' = servers net"
  using assms
proof (induction names arbitrary: j net)
  case (Cons e es)
  from Cons.prems have e: "e \<notin> set (ends net)"
    and r: "makeEnds itoa g (Suc j) es (Connect (net\<lparr>ends := e # ends net, enabled := (enabled net)(e := False),
        connections := (connections net)(e := None)\<rparr>) e (ServerName itoa g j)) = Inr net'"
    by (auto simp: MakeEnd_def split: if_splits)
  from Cons.IH [OF r] e show ?case by (auto simp: Connect_def)
qed simp

lemma StartServer_law:
  assumes "StartServer itoa mks names obj i (net, sg) = Inr s'"
  obtains net1 ss where "i < N sg" "makeEnds itoa (gid sg) 0 names net = Inr net1"
    "mks names (gid sg) i (case saved (gsrvs sg ! i) of Some p \<Rightarrow> Copy p | None \<Rightarrow> MakePersister) = Inr ss"
    "s' = (AddServer net1 (ServerName itoa (gid sg) i) obj,
      sg\<lparr>gsrvs := (gsrvs sg)[i := \<lparr>saved = Some (case saved (gsrvs sg ! i) of Some p \<Rightarrow> Copy p | None \<Rightarrow> MakePersister),
        svcs = ss, endNames = names\<rparr>]\<rparr>)"
  using assms by (auto simp: StartServer_def startServer_def makeServer_def go_inv Let_def split: if_splits)

lemma StartServer_precise:
  assumes pr: "precise (net, sg)" and nc: "\<not> conn (net, sg) i" and len: "length names = N sg"
    and dis: "set names \<inter> (\<Union>t \<in> set (gsrvs sg). set (endNames t)) = {}"
    and st: "StartServer itoa mks names obj i (net, sg) = Inr s'"
  shows "precise s'"
proof -
  note D = preciseD [OF pr] and W = wf_grpD [OF preciseD(1) [OF pr]]
  obtain net1 srv where i: "i < N sg" and m: "makeEnds itoa (gid sg) 0 names net = Inr net1"
    and s': "s' = (AddServer net1 (ServerName itoa (gid sg) i) obj, sg\<lparr>gsrvs := (gsrvs sg)[i := srv]\<rparr>)" and srv: "endNames srv = names"
    using StartServer_law [OF st] by (metis (no_types) TServer.select_convs(3))
  let ?net = "AddServer net1 (ServerName itoa (gid sg) i) obj" and ?sg = "sg\<lparr>gsrvs := (gsrvs sg)[i := srv]\<rparr>"
  note E = makeEnds_law [OF m]
  have n: "N ?sg = N sg" by (simp add: N_def)
  have nm: "endNames (gsrvs ?sg ! a) = (if a = i then names else endNames (gsrvs sg ! a))" if "a < N sg" for a
    using that i srv by (simp add: N_def nth_list_update)
  have old: "endNames (gsrvs sg ! a) ! b \<notin> set names" if "a < N sg" "b < N sg" for a b
  proof -
    have "endNames (gsrvs sg ! a) ! b \<in> set (endNames (gsrvs sg ! a))" using that W(2) [of a] by simp
    moreover have "gsrvs sg ! a \<in> set (gsrvs sg)" using that by (simp add: N_def)
    ultimately show ?thesis using dis by blast
  qed
  have new: "names ! b \<in> set names" "names ! b = names ! d \<longleftrightarrow> b = d" if "b < N sg" "d < N sg" for b d
    using that len E by (simp_all add: nth_eq_iff_index_eq)
  have "endNames (gsrvs ?sg ! a) ! b = endNames (gsrvs ?sg ! c) ! d \<Longrightarrow> a = c \<and> b = d"
    if "a < N sg" "b < N sg" "c < N sg" "d < N sg" for a b c d
    using that nm new old [OF that(1,2)] old [OF that(3,4)] W(3) by (metis (full_types))
  then have "inj_on (\<lambda>(a, b). endNames (gsrvs ?sg ! a) ! b) ({..<N sg} \<times> {..<N sg})"
    by (auto simp: inj_on_def)
  moreover have "\<forall>s \<in> set (gsrvs ?sg). length (endNames s) = N sg"
    using D(1) srv len by (auto simp: wf_grp_def dest!: set_update_subset_insert [THEN subsetD])
  ultimately have wf: "wf_grp ?sg" unfolding wf_grp_def n using W(1) by simp
  have "link (?net, ?sg) a b \<longleftrightarrow> conn (?net, ?sg) a \<and> conn (?net, ?sg) b" for a b
  proof (cases "a < N sg \<and> b < N sg")
    case True
    then have "link (?net, ?sg) a b \<longleftrightarrow> endNames (gsrvs ?sg ! a) ! b \<notin> set names \<and> enabled net (endNames (gsrvs ?sg ! a) ! b)"
      using E by (simp add: link_def n AddServer_def)
    also have "\<dots> \<longleftrightarrow> a \<noteq> i \<and> link (net, sg) a b" using True nm [of a] old [of a b] new [of b b] by (auto simp: link_def)
    also have "\<dots> \<longleftrightarrow> conn (?net, ?sg) a \<and> conn (?net, ?sg) b" using D(2) [of a b] nc by (auto simp: conn_def n)
    finally show ?thesis .
  qed (auto simp: link_def conn_def n)
  with wf show ?thesis unfolding s' by (rule preciseI)
qed

lemma shutdown_precise:
  "precise (DeleteServer net nm, sg\<lparr>gsrvs := (gsrvs sg)[i := shutdownServer (gsrvs sg ! i)]\<rparr>) = precise (net, sg)"
proof -
  let ?sg = "sg\<lparr>gsrvs := (gsrvs sg)[i := shutdownServer (gsrvs sg ! i)]\<rparr>"
  have n: "N ?sg = N sg" by (simp add: N_def)
  have e: "map endNames (gsrvs ?sg) = map endNames (gsrvs sg)"
    by (cases "i < length (gsrvs sg)") (simp_all add: map_update shutdownServer_def list_update_same_conv list_update_beyond)
  have nm: "endNames ((gsrvs sg)[i := shutdownServer (gsrvs sg ! i)] ! a) = endNames (gsrvs sg ! a)" if "a < N sg" for a
    using that by (cases "a = i") (simp_all add: N_def shutdownServer_def)
  have "(\<forall>s \<in> set (gsrvs ?sg). length (endNames s) = N sg) = (\<forall>s \<in> set (gsrvs sg). length (endNames s) = N sg)"
    using arg_cong [OF e, of "\<lambda>ns. \<forall>x \<in> set ns. length x = N sg"] by (simp only: set_map ball_simps)
  moreover have "inj_on (\<lambda>(a, b). endNames (gsrvs ?sg ! a) ! b) ({..<N sg} \<times> {..<N sg}) =
      inj_on (\<lambda>(a, b). endNames (gsrvs sg ! a) ! b) ({..<N sg} \<times> {..<N sg})"
    by (rule inj_on_cong) (use nm in auto)
  ultimately have "wf_grp ?sg = wf_grp sg" by (simp add: wf_grp_def n)
  moreover have "link (DeleteServer net nm, ?sg) = link (net, sg)" "conn (DeleteServer net nm, ?sg) = conn (net, sg)"
    by (auto simp: link_def conn_def fun_eq_iff n nm DeleteServer_def)
  ultimately show ?thesis by (simp add: precise_def)
qed

lemma grp_step_precise:
  assumes "grp_step itoa mks s s'" and "precise s"
  shows "precise s'"
  using assms
proof (induction rule: grp_step.induct)
  case (grp_connect i s s') then show ?case by (blast intro: ConnectOne_precise)
next
  case (grp_disconnect i s s') then show ?case by (cases s; cases s') (auto dest: DisconnectAll_law)
next
  case (grp_shutdown i s s')
  then obtain net sg where d: "DisconnectAll i s = Inr (net, sg)"
    "s' = (DeleteServer net (ServerName itoa (gid sg) i), sg\<lparr>gsrvs := (gsrvs sg)[i := shutdownServer (gsrvs sg ! i)]\<rparr>)"
    by (auto simp: ShutdownServer_def go_inv)
  then have "precise (net, sg)" using grp_shutdown.prems by (cases s) (auto dest: DisconnectAll_law)
  then show ?case by (simp add: d(2) shutdown_precise)
next
  case (grp_start s i names obj s')
  then show ?case by (cases s) (simp add: StartServer_precise)
qed

text \<open>
  The field \<open>connected\<close> is precise until a partition. While servers are connected,
  disconnected, shut down and started, two servers of a group are linked exactly when both are
  marked as connected, as \<open>AnnotateConnection\<close> relies on. After \<open>Partition\<close> into two parts that are
  not empty this no longer holds: all servers of both parts are marked, and the parts are apart.
\<close>

theorem connected_is_precise:
  assumes "precise s" and "(grp_step itoa mks)\<^sup>*\<^sup>* s (net, sg)"
  shows "(\<forall>a b. link (net, sg) a b \<longleftrightarrow> conn (net, sg) a \<and> conn (net, sg) b) \<and>
    (\<forall>p1 p2 s'. set p1 \<subseteq> {..<N sg} \<longrightarrow> set p2 \<subseteq> {..<N sg} \<longrightarrow> set p1 \<inter> set p2 = {} \<longrightarrow> p1 \<noteq> [] \<longrightarrow> p2 \<noteq> [] \<longrightarrow>
       Partition p1 p2 (net, sg) = Inr s' \<longrightarrow> \<not> precise s')"
proof (intro conjI allI impI)
  have pr: "precise (net, sg)" using assms(2,1) by (induction rule: rtranclp_induct) (auto intro: grp_step_precise)
  show "link (net, sg) a b \<longleftrightarrow> conn (net, sg) a \<and> conn (net, sg) b" for a b using preciseD(2) [OF pr] .
  fix p1 p2 s'
  assume p: "set p1 \<subseteq> {..<N sg}" "set p2 \<subseteq> {..<N sg}" "set p1 \<inter> set p2 = {}" "p1 \<noteq> []" "p2 \<noteq> []" "Partition p1 p2 (net, sg) = Inr s'"
  have ab: "hd p1 \<in> set p1" "hd p2 \<in> set p2" using p(4,5) by simp_all
  then have ne: "hd p2 \<notin> set p1" using p(3) by auto
  have "\<exists>s'. Partition p1 p2 (net, sg) = Inr s' \<and> (\<forall>a. conn s' a \<longleftrightarrow> conn (net, sg) a \<or> a \<in> set p1 \<union> set p2) \<and>
      (\<forall>a \<in> set p1 \<union> set p2. \<forall>b \<in> set p1 \<union> set p2. link s' a b \<longleftrightarrow> (a \<in> set p1 \<longleftrightarrow> b \<in> set p1))"
    using grp.two_parts [of "(net, sg)" p1 p2] p(1-3) preciseD(1) [OF pr] unfolding Partition_eq by (simp) blast
  then have "conn s' (hd p1)" "conn s' (hd p2)" "\<not> link s' (hd p1) (hd p2)" using p(6) ab ne by auto
  then show "\<not> precise s'" by (auto simp: precise_def)
qed

lemma precise_ex_grp: "precise (Enable MakeNetwork 8 True, ex_grp)"
proof (rule preciseI [OF wf_ex_grp(1)])
  fix a b
  show "link (Enable MakeNetwork 8 True, ex_grp) a b \<longleftrightarrow>
      conn (Enable MakeNetwork 8 True, ex_grp) a \<and> conn (Enable MakeNetwork 8 True, ex_grp) b"
  proof (cases "a < 3 \<and> b < 3")
    case True
    then have "a \<in> {0, 1, 2}" "b \<in> {0, 1, 2}" by auto
    then show ?thesis by (auto simp: link_def conn_def wf_ex_grp(2) Enable_def MakeNetwork_def ex_grp_def)
  qed (auto simp: link_def conn_def wf_ex_grp(2))
qed

theorem connected_is_precise_witness:
  "\<exists>net sg. ConnectOne 0 (Enable MakeNetwork 8 True, ex_grp) = Inr (net, sg) \<and> link (net, sg) 0 2 \<and> link (net, sg) 2 0 \<and> \<not> link (net, sg) 0 1"
proof -
  let ?s = "(Enable MakeNetwork 8 True, ex_grp)"
  have "inGrp ex_grp (0 # all ex_grp)" by (auto simp: inGrp_def list_all_iff all_def wf_ex_grp(2))
  then obtain net sg where c: "ConnectOne 0 ?s = Inr (net, sg)" "sg = ex_grp\<lparr>connected := [True, False, True]\<rparr>"
    by (simp add: ConnectOne_def connect_def Let_def) (simp add: ex_grp_def)
  have step: "(grp_step (\<lambda>_. []) (\<lambda>_ _ _ _. Inr []))\<^sup>*\<^sup>* ?s (net, sg)"
    by (rule r_into_rtranclp) (rule grp_step.grp_connect [OF c(1)])
  have "conn (net, sg) 0" "conn (net, sg) 2" "\<not> conn (net, sg) 1"
    using wf_ex_grp(2) by (simp_all add: conn_def c(2))
  with connected_is_precise [OF precise_ex_grp step] c(1) show ?thesis by blast
qed

subsection \<open>Putting the leader into the minority\<close>

lemma splitLoop_law:
  assumes "j + length (filter (\<lambda>i. i \<noteq> l) is) \<le> length p1 + length p2"
  shows "\<exists>q1 q2. splitLoop is l j (p1, p2) = Inr (q1, q2) \<and> length q1 = length p1 \<and> length q2 = length p2 \<and>
    q1 @ q2 = take j (p1 @ p2) @ filter (\<lambda>i. i \<noteq> l) is @ drop (j + length (filter (\<lambda>i. i \<noteq> l) is)) (p1 @ p2)"
  using assms
proof (induction "is" arbitrary: j p1 p2)
  case (Cons i "is")
  let ?k = "length (filter (\<lambda>i. i \<noteq> l) is)"
  show ?case
  proof (cases "i = l")
    case False
    with Cons.prems have j: "Suc j + ?k \<le> length p1 + length p2" by simp
    have put: "take (Suc j) (ps[j := i]) = take j ps @ [i]" "drop (Suc j + ?k) (ps[j := i]) = drop (Suc j + ?k) ps"
      if "j < length ps" for ps :: "nat list" using that by (simp_all add: take_Suc_conv_app_nth)
    show ?thesis
    proof (cases "j < length p1")
      case True
      have "(p1 @ p2)[j := i] = p1[j := i] @ p2" using True by (simp add: list_update_append1)
      with Cons.IH [of "Suc j" "p1[j := i]" p2] j True False put [of "p1 @ p2"] show ?thesis by auto
    next
      case F: False
      have "(p1 @ p2)[j := i] = p1 @ p2[j - length p1 := i]" using F by (simp add: list_update_append)
      with Cons.IH [of "Suc j" p1 "p2[j - length p1 := i]"] j F False put [of "p1 @ p2"] show ?thesis by auto
    qed
  qed (use Cons in simp)
next
  case Nil
  have "p1 @ p2 = take j (p1 @ p2) @ drop j (p1 @ p2)" by (simp only: append_take_drop_id)
  then show ?case by (simp del: take_append drop_append)
qed

lemma others_law:
  assumes "l < n"
  shows "length (filter (\<lambda>i. i \<noteq> l) [0..<n]) = n - 1" "set (filter (\<lambda>i. i \<noteq> l) [0..<n]) = {..<n} - {l}"
proof -
  have "length (filter (\<lambda>i. i \<noteq> l) [0..<n]) = card (set (filter (\<lambda>i. i \<noteq> l) [0..<n]))"
    by (rule distinct_card [symmetric]) simp
  also have s: "set (filter (\<lambda>i. i \<noteq> l) [0..<n]) = {..<n} - {l}" by auto
  finally show "length (filter (\<lambda>i. i \<noteq> l) [0..<n]) = n - 1" using assms by simp
  show "set (filter (\<lambda>i. i \<noteq> l) [0..<n]) = {..<n} - {l}" by (rule s)
qed

lemma MakePartition_eq:
  assumes "l < N sg" and "2 \<le> N sg"
  shows "\<exists>p1 p2. MakePartition sg l = Inr (p1, p2) \<and> length p1 = N sg div 2 + 1 \<and> length p2 = N sg div 2 \<and>
    p1 @ p2 = filter (\<lambda>i. i \<noteq> l) [0..<N sg] @ (if odd (N sg) then [] else [0]) @ [l]"
proof -
  let ?n = "N sg" and ?os = "filter (\<lambda>i. i \<noteq> l) [0..<N sg]"
  have k: "0 + length ?os \<le> length (replicate (?n div 2 + 1) (0::nat)) + length (replicate (?n div 2) (0::nat))"
    using others_law(1) [OF assms(1)] by simp
  obtain q1 q2 where q: "splitLoop [0..<?n] l 0 (replicate (?n div 2 + 1) 0, replicate (?n div 2) 0) = Inr (q1, q2)"
    "length q1 = ?n div 2 + 1" "length q2 = ?n div 2"
    "q1 @ q2 = ?os @ drop (length ?os) (replicate (?n div 2 + 1) 0 @ replicate (?n div 2) 0)"
    using splitLoop_law [OF k] by auto
  have "replicate (?n div 2 + 1) (0::nat) @ replicate (?n div 2) 0 = replicate (?n div 2 + 1 + ?n div 2) 0"
    by (simp only: replicate_add)
  moreover have "?n div 2 + 1 + ?n div 2 - length ?os = (if odd ?n then 1 else 2)"
    using others_law(1) [OF assms(1)] assms(2) by (auto elim!: oddE evenE)
  ultimately have cat: "q1 @ q2 = ?os @ replicate (if odd ?n then 1 else 2) 0"
    using q(4) by (simp only: drop_replicate)
  have ne: "q2 \<noteq> []" using q(3) assms(2) by auto
  have "MakePartition sg l = Inr (q1, q2[length q2 - 1 := l])" using q(1) ne by (simp add: MakePartition_def Let_def)
  moreover have "q1 @ q2[length q2 - 1 := l] = (q1 @ q2)[length (q1 @ q2) - 1 := l]"
    using ne by (cases q2 rule: rev_cases) (simp_all add: list_update_append)
  then have "q1 @ q2[length q2 - 1 := l] = ?os @ (if odd ?n then [] else [0]) @ [l]"
    unfolding cat by (simp add: list_update_append numeral_2_eq_2)
  ultimately show ?thesis using q(2,3) by auto
qed

lemma filter_eq_upt:
  fixes i n l :: nat
  shows "length (filter (\<lambda>x. x \<noteq> l \<and> x = i) [0..<n]) = (if i < n \<and> i \<noteq> l then 1 else 0)"
    "length (filter (\<lambda>x. x = i \<and> x \<noteq> l) [0..<n]) = (if i < n \<and> i \<noteq> l then 1 else 0)"
  by (induction n) auto

text \<open>
  Property C40 (the leader in the minority). For an odd number of servers, at least three,
  \<open>MakePartition\<close> gives two lists that together hold every server once, the leader in the smaller
  one, which is no majority. For an even number the two lists have one place too many, and the
  place that is never filled names server 0, which is listed twice, every other server once. For one server or none the
  function stops with an index error.
\<close>

theorem make_partition:
  assumes "l < N sg"
  shows "if N sg < 2 then MakePartition sg l = Inl IndexOutOfRange
    else \<exists>p1 p2. MakePartition sg l = Inr (p1, p2) \<and> l \<in> set p2 \<and> length p1 = N sg div 2 + 1 \<and> 2 * length p2 \<le> N sg \<and>
      set (p1 @ p2) = {..<N sg} \<and>
      (\<forall>i < N sg. length (filter (\<lambda>x. x = i) (p1 @ p2)) = (if i = 0 \<and> even (N sg) then 2 else 1))"
proof (cases "N sg < 2")
  case True
  with assms have n: "N sg = 1" by simp
  have "0 + length (filter (\<lambda>i. i \<noteq> l) [0..<1]) \<le> length [0::nat] + length ([]::nat list)" by simp
  from splitLoop_law [OF this] show ?thesis using assms n by (auto simp: MakePartition_def)
next
  case False
  obtain p1 p2 where p: "MakePartition sg l = Inr (p1, p2)" "length p1 = N sg div 2 + 1" "length p2 = N sg div 2"
    "p1 @ p2 = filter (\<lambda>i. i \<noteq> l) [0..<N sg] @ (if odd (N sg) then [] else [0]) @ [l]"
    using MakePartition_eq [OF assms] False by auto
  have ne: "p2 \<noteq> []" using p(3) False by auto
  have "last (p1 @ p2) = l" unfolding p(4) by simp
  then have "l \<in> set p2" using ne by (metis last_appendR last_in_set)
  moreover have "set (p1 @ p2) = {..<N sg}" unfolding p(4) using assms False by auto
  moreover have "length (filter (\<lambda>x. x = i) (p1 @ p2)) = (if i = 0 \<and> even (N sg) then 2 else 1)" if "i < N sg" for i
    unfolding p(4) using that assms by (simp add: filter_eq_upt)
  moreover have "2 * length p2 \<le> N sg" using p(3) by simp
  ultimately show ?thesis using p(1,2) False by auto
qed

theorem make_partition_witness:
  "\<exists>p1 p2. MakePartition ex_grp 0 = Inr (p1, p2) \<and> 0 \<in> set p2 \<and> set (p1 @ p2) = {..<3} \<and>
     length (filter (\<lambda>x. x = 0) (p1 @ p2)) = 1"
  using make_partition [of 0 ex_grp] by (auto simp: wf_ex_grp(2))

end
