(* ===== verification/Raft_State.thy ===== *)
theory Raft_State
  imports Persister
begin

text \<open>
  The state of one Raft peer (\<open>src/raft1/raft.go\<close>): the record \<open>raft\<close>, the helpers on the log, the
  persistent state, the interface the service calls (\<open>Start\<close>, \<open>GetState\<close>, \<open>Snapshot\<close>, \<open>Kill\<close>), and
  the two searches the log back-off uses.

  Every definition is one critical section of the code (the part between taking and releasing
  \<open>rf.mu\<close>), so the model interleaves peers and goroutines exactly where the code can. A channel of
  capacity one that is only used for wake-ups (\<open>notifyApply\<close>, \<open>notify[i]\<close>, \<open>tickers[i].rst\<close>,
  \<open>ElectionAbort\<close>) is the Boolean ``holds a token''; a non-blocking send sets it. A context is a
  number, \<open>cancelled\<close> is the set of the contexts whose cancel function has been called, and
  \<open>ctx = None\<close> is the nil context of a peer that never led. A command is \<open>'c\<close>, the nil command
  \<open>None\<close>; a nil snapshot is \<open>None\<close>. The log keeps the entry of the last snapshot at position 0.
\<close>

named_theorems raft_defs \<open>definitions of the small state updates of a Raft peer\<close>

datatype role = Follower | Candidate | Leader

record 'c raft =
  npeers :: nat
  persister :: "'c persister"
  me :: nat
  dead :: bool
  CurrentTerm :: int
  VotedFor :: int
  Log :: "'c logEntry list"
  commitIndex :: int
  lastApplied :: int
  notifyApply :: bool
  nextIndex :: "int list"
  matchIndex :: "int list"
  state :: role
  SnapshotIndex :: int
  SnapshotTerm :: int
  SnapshotByte :: "byte list option"
  tickers :: "bool list"
  ElectionAbort :: bool
  retry :: "bool list"
  notify :: "bool list"
  ctx :: "nat option"
  cancelled :: "nat set"
  nextCtx :: nat

subsection \<open>Positions in the log\<close>

definition Loglen :: "'c raft \<Rightarrow> int" where
  "Loglen rf = int (length (Log rf)) + SnapshotIndex rf"

definition idxInLog :: "'c raft \<Rightarrow> int \<Rightarrow> int" where
  "idxInLog rf index = index - SnapshotIndex rf"

definition GetState :: "'c raft \<Rightarrow> int \<times> bool" where
  "GetState rf = (CurrentTerm rf, state rf = Leader)"

text \<open>The entry a peer holds at an absolute index, for statements about logs.\<close>

definition entry_at :: "'c raft \<Rightarrow> int \<Rightarrow> 'c logEntry option" where
  "entry_at rf i =
     (if SnapshotIndex rf \<le> i \<and> i < Loglen rf then Some (Log rf ! nat (i - SnapshotIndex rf)) else None)"

subsection \<open>Wake-ups and contexts\<close>

definition wakeApply :: "'c raft \<Rightarrow> 'c raft" where
  "wakeApply rf = rf\<lparr>notifyApply := True\<rparr>"

definition resetTicker :: "nat \<Rightarrow> 'c raft \<Rightarrow> 'c raft" where
  "resetTicker i rf = rf\<lparr>tickers := (tickers rf)[i := True]\<rparr>"

definition cancelCtx :: "'c raft \<Rightarrow> 'c raft go" where
  "cancelCtx rf = (case ctx rf of None \<Rightarrow> Inl NilDeref
                   | Some c \<Rightarrow> Inr (rf\<lparr>cancelled := insert c (cancelled rf)\<rparr>))"

definition stepDown :: "'c raft \<Rightarrow> 'c raft go" where
  \<comment> \<open>\<open>if rf.state == Leader { rf.cancel() }; rf.state = Follower\<close>\<close>
  "stepDown rf = go_bind (if state rf = Leader then cancelCtx rf else Inr rf)
                   (\<lambda>rf1. Inr (rf1\<lparr>state := Follower\<rparr>))"

declare wakeApply_def [raft_defs] resetTicker_def [raft_defs]

subsection \<open>Persistent state\<close>

definition nvStream :: "'c raft \<Rightarrow> 'c gobval list" where
  "nvStream rf = [GobInt (CurrentTerm rf), GobInt (VotedFor rf), GobLog (Log rf), GobInt (SnapshotIndex rf)]"

definition persist :: "'c raft \<Rightarrow> 'c raft" where
  "persist rf =
     rf\<lparr>persister := Save (persister rf) (nvStream rf)
                      (case SnapshotByte rf of None \<Rightarrow> [] | Some b \<Rightarrow> b)\<rparr>"

definition decodeNv :: "'c gobval list \<Rightarrow> (int \<times> int \<times> 'c logEntry list \<times> int) option" where
  "decodeNv d0 =
     (case DecodeInt d0 of None \<Rightarrow> None | Some (ct, d1) \<Rightarrow>
      case DecodeInt d1 of None \<Rightarrow> None | Some (vf, d2) \<Rightarrow>
      case DecodeLog d2 of None \<Rightarrow> None | Some (lg, d3) \<Rightarrow>
      case DecodeInt d3 of None \<Rightarrow> None | Some (si, d4) \<Rightarrow> Some (ct, vf, lg, si))"

definition readPersist :: "'c raft \<Rightarrow> 'c gobval list \<Rightarrow> 'c raft go" where
  "readPersist rf data =
     (if length data < 1 then Inr rf
      else
        let rf1 = (case decodeNv data of None \<Rightarrow> rf
                   | Some (ct, vf, lg, si) \<Rightarrow>
                       rf\<lparr>CurrentTerm := ct, VotedFor := vf, Log := lg, SnapshotIndex := si\<rparr>);
            sn = ReadSnapshot (persister rf1)
        in if length sn > 0
           then go_bind (go_index (Log rf1) 0) (\<lambda>e.
                  Inr (wakeApply (rf1\<lparr>SnapshotByte := Some sn, SnapshotTerm := Term e\<rparr>)))
           else Inr rf1)"

definition newRaft :: "nat \<Rightarrow> nat \<Rightarrow> 'c persister \<Rightarrow> 'c raft" where
  \<comment> \<open>the fields \<open>Make\<close> sets before it reads the persisted state\<close>
  "newRaft n i ps =
     \<lparr>npeers = n, persister = ps, me = i, dead = False, CurrentTerm = 0, VotedFor = -1,
      Log = [\<lparr>Term = 0, Command = None\<rparr>], commitIndex = 0, lastApplied = 0, notifyApply = False,
      nextIndex = [], matchIndex = [], state = Follower, SnapshotIndex = 0, SnapshotTerm = 0,
      SnapshotByte = None, tickers = replicate n False, ElectionAbort = False,
      retry = replicate n False, notify = replicate n False, ctx = None, cancelled = {}, nextCtx = 0\<rparr>"

definition Make :: "nat \<Rightarrow> nat \<Rightarrow> 'c persister \<Rightarrow> 'c raft go" where
  "Make n i ps = readPersist (newRaft n i ps) (ReadRaftState ps)"

subsection \<open>The interface of the service\<close>

definition Snapshot :: "'c raft \<Rightarrow> int \<Rightarrow> byte list option \<Rightarrow> 'c raft go" where
  "Snapshot rf index snap =
     (if SnapshotIndex rf \<ge> index \<or> index > Loglen rf - 1 then Inr rf
      else go_bind (go_slice_from (Log rf) (index - SnapshotIndex rf)) (\<lambda>log'.
           go_bind (go_index log' 0) (\<lambda>e.
             let rf1 = persist (rf\<lparr>Log := log', SnapshotTerm := Term e, SnapshotIndex := index,
                                   SnapshotByte := snap\<rparr>)
             in Inr (rf1\<lparr>lastApplied := max (lastApplied rf1) index,
                         commitIndex := max (commitIndex rf1) index\<rparr>))))"

definition PersistBytes :: "('c gobval list \<Rightarrow> byte list) \<Rightarrow> 'c raft \<Rightarrow> nat" where
  "PersistBytes gob rf = RaftStateSize gob (persister rf)"

definition killed :: "'c raft \<Rightarrow> bool" where
  "killed rf = dead rf"

definition Kill :: "'c raft \<Rightarrow> 'c raft" where
  "Kill rf = rf\<lparr>dead := True\<rparr>"

definition Start :: "'c raft \<Rightarrow> 'c option \<Rightarrow> 'c raft \<times> int \<times> int \<times> bool" where
  "Start rf command =
     (if killed rf then (rf, -1, -1, False)
      else if state rf \<noteq> Leader then (rf, -1, -1, False)
      else (persist (rf\<lparr>Log := Log rf @ [\<lparr>Term = CurrentTerm rf, Command = command\<rparr>]\<rparr>),
            Loglen rf, CurrentTerm rf, True))"

subsection \<open>Searching a term in the log\<close>

function findFirst_loop :: "'c logEntry list \<Rightarrow> int \<Rightarrow> int \<Rightarrow> int \<Rightarrow> int go" where
  "findFirst_loop lg t low high =
     (if low < high
      then let mid = (low + high) div 2 in
           go_bind (go_index lg mid) (\<lambda>e.
             if Term e < t then findFirst_loop lg t (mid + 1) high
             else findFirst_loop lg t low mid)
      else Inr low)"
  by pat_completeness auto
termination
  by (relation "measure (\<lambda>(lg, t, low, high). nat (high - low))") auto

declare findFirst_loop.simps [simp del]

definition findFirstIndex :: "'c raft \<Rightarrow> int \<Rightarrow> int \<Rightarrow> int go" where
  "findFirstIndex rf t index =
     (if SnapshotTerm rf \<ge> t then Inr (-1)
      else go_bind (findFirst_loop (Log rf) t 0 index) (\<lambda>low.
             Inr (if low = 0 \<and> SnapshotIndex rf = 0 then 1 else low)))"

function scanDown :: "'c logEntry list \<Rightarrow> int \<Rightarrow> int \<Rightarrow> int \<Rightarrow> int go" where
  \<comment> \<open>\<open>for i := index; i >= low; i--\<close>, and the final \<open>return low\<close>\<close>
  "scanDown lg t low i =
     (if i \<ge> low
      then go_bind (go_index lg i) (\<lambda>e. if Term e \<le> t then Inr i else scanDown lg t low (i - 1))
      else Inr low)"
  by pat_completeness auto
termination
  by (relation "measure (\<lambda>(lg, t, low, i). nat (i + 1 - low))") auto

declare scanDown.simps [simp del]

function findLast_loop :: "'c logEntry list \<Rightarrow> int \<Rightarrow> int \<Rightarrow> int \<Rightarrow> int go" where
  "findLast_loop lg t low index =
     (let tmp = (low + index) div 2 in
      go_bind (go_index lg tmp) (\<lambda>e.
        let low' = (if Term e \<le> t then tmp else low);
            index' = (if Term e \<le> t then index else tmp)
        in if index' - low' \<le> 10 then scanDown lg t low' index'
           else findLast_loop lg t low' index'))"
  by pat_completeness auto
termination
  by (relation "measure (\<lambda>(lg, t, low, index). nat (index - low))") (auto split: if_splits)

declare findLast_loop.simps [simp del]

definition findLastIndex :: "'c raft \<Rightarrow> int \<Rightarrow> int go" where
  "findLastIndex rf t =
     (if SnapshotTerm rf > t \<or> length (Log rf) = 0 then Inr (-1)
      else findLast_loop (Log rf) t 0 (int (length (Log rf)) - 1))"

subsection \<open>The two searches find what they look for\<close>

lemma findFirst_loop_correct:
  assumes "sorted (map Term lg)" and "0 \<le> low" and "low \<le> high" and "high < int (length lg)"
  shows "\<exists>r. findFirst_loop lg t low high = Inr r \<and> low \<le> r \<and> r \<le> high \<and>
             (\<forall>i. low \<le> i \<and> i < r \<longrightarrow> Term (lg ! nat i) < t) \<and>
             (r < high \<longrightarrow> t \<le> Term (lg ! nat r))"
  using assms
proof (induction lg t low high rule: findFirst_loop.induct)
  case (1 lg t low high)
  show ?case
  proof (cases "low < high")
    case False
    then have "findFirst_loop lg t low high = Inr low"
      by (simp add: findFirst_loop.simps [of lg t low high])
    with False "1.prems" show ?thesis by auto
  next
    case True
    define mid where "mid = (low + high) div 2"
    have mid: "low \<le> mid" "mid < high" using True by (auto simp: mid_def)
    have idx: "go_index lg mid = Inr (lg ! nat mid)"
      using mid "1.prems" by (auto simp: go_index_def)
    show ?thesis
    proof (cases "Term (lg ! nat mid) < t")
      case less: True
      have below: "Term (lg ! nat i) < t" if "low \<le> i" "i \<le> mid" for i
      proof -
        have "map Term lg ! nat i \<le> map Term lg ! nat mid"
          using that "1.prems" mid by (intro sorted_nth_mono) auto
        then show ?thesis using less that "1.prems" mid by auto
      qed
      from "1.IH" (1) [OF True mid_def idx less] "1.prems" mid obtain r where
        r: "findFirst_loop lg t (mid + 1) high = Inr r" "mid + 1 \<le> r" "r \<le> high"
           "\<forall>i. mid + 1 \<le> i \<and> i < r \<longrightarrow> Term (lg ! nat i) < t" "r < high \<longrightarrow> t \<le> Term (lg ! nat r)"
        by auto
      have "findFirst_loop lg t low high = Inr r"
        using True idx less r(1) by (simp add: findFirst_loop.simps [of lg t low high] mid_def)
      moreover have "\<forall>i. low \<le> i \<and> i < r \<longrightarrow> Term (lg ! nat i) < t"
        using below r(4) by (metis add1_zle_eq linorder_not_less)
      ultimately show ?thesis using r mid by auto
    next
      case ge: False
      from "1.IH" (2) [OF True mid_def idx ge] "1.prems" mid obtain r where
        r: "findFirst_loop lg t low mid = Inr r" "low \<le> r" "r \<le> mid"
           "\<forall>i. low \<le> i \<and> i < r \<longrightarrow> Term (lg ! nat i) < t" "r < mid \<longrightarrow> t \<le> Term (lg ! nat r)"
        by auto
      have "findFirst_loop lg t low high = Inr r"
        using True idx ge r(1) by (simp add: findFirst_loop.simps [of lg t low high] mid_def)
      moreover have "t \<le> Term (lg ! nat r)" using r(3,5) ge by (cases "r = mid") auto
      ultimately show ?thesis using r mid by auto
    qed
  qed
qed

lemma scanDown_correct:
  assumes "0 \<le> low" and "low \<le> i + 1" and "i < int (length lg)"
  shows "\<exists>r. scanDown lg t low i = Inr r \<and> low \<le> r \<and> r \<le> max low i \<and>
             (\<forall>j. r < j \<and> j \<le> i \<longrightarrow> t < Term (lg ! nat j)) \<and>
             (low \<le> i \<longrightarrow> Term (lg ! nat low) \<le> t \<longrightarrow> Term (lg ! nat r) \<le> t)"
  using assms
proof (induction lg t low i rule: scanDown.induct)
  case (1 lg t low i)
  show ?case
  proof (cases "low \<le> i")
    case False
    then have "scanDown lg t low i = Inr low"
      by (simp add: scanDown.simps [of lg t low i])
    with False "1.prems" show ?thesis by auto
  next
    case True
    have idx: "go_index lg i = Inr (lg ! nat i)"
      using True "1.prems" by (auto simp: go_index_def)
    show ?thesis
    proof (cases "Term (lg ! nat i) \<le> t")
      case le: True
      with True idx show ?thesis by (auto simp: scanDown.simps [of lg t low i])
    next
      case gt: False
      from "1.IH" [OF True idx gt] "1.prems" True obtain r where
        r: "scanDown lg t low (i - 1) = Inr r" "low \<le> r" "r \<le> max low (i - 1)"
           "\<forall>j. r < j \<and> j \<le> i - 1 \<longrightarrow> t < Term (lg ! nat j)"
           "low \<le> i - 1 \<longrightarrow> Term (lg ! nat low) \<le> t \<longrightarrow> Term (lg ! nat r) \<le> t"
        by auto
      have "scanDown lg t low i = Inr r"
        using True idx gt r(1) by (simp add: scanDown.simps [of lg t low i])
      moreover have "\<forall>j. r < j \<and> j \<le> i \<longrightarrow> t < Term (lg ! nat j)"
        using r(4) gt by (metis int_one_le_iff_zero_less leI order_le_less zle_diff1_eq)
      moreover have "Term (lg ! nat low) \<le> t \<longrightarrow> Term (lg ! nat r) \<le> t"
        using r(2,3,5) gt True by (cases "low = i") auto
      ultimately show ?thesis using r True by auto
    qed
  qed
qed

definition last_at_most :: "'c logEntry list \<Rightarrow> int \<Rightarrow> int \<Rightarrow> bool" where
  \<comment> \<open>\<open>r\<close> is the last position of the log whose term is at most \<open>t\<close>\<close>
  "last_at_most lg t r \<longleftrightarrow> 0 \<le> r \<and> r < int (length lg) \<and> Term (lg ! nat r) \<le> t \<and>
     (\<forall>j. r < j \<and> j < int (length lg) \<longrightarrow> t < Term (lg ! nat j))"

lemma findLast_loop_correct:
  assumes "sorted (map Term lg)" and "0 \<le> low" and "low \<le> index" and "index < int (length lg)"
    and "Term (lg ! nat low) \<le> t"
    and "index = int (length lg) - 1 \<or> t < Term (lg ! nat index)"
  shows "\<exists>r. findLast_loop lg t low index = Inr r \<and> last_at_most lg t r"
  using assms
proof (induction lg t low index rule: findLast_loop.induct)
  case (1 lg t low index)
  define tmp where "tmp = (low + index) div 2"
  have tmp: "low \<le> tmp" "tmp \<le> index" using "1.prems" by (auto simp: tmp_def)
  have idx: "go_index lg tmp = Inr (lg ! nat tmp)" using tmp "1.prems" by (auto simp: go_index_def)
  define low' where "low' = (if Term (lg ! nat tmp) \<le> t then tmp else low)"
  define index' where "index' = (if Term (lg ! nat tmp) \<le> t then index else tmp)"
  have inv: "0 \<le> low'" "low' \<le> index'" "index' < int (length lg)" "Term (lg ! nat low') \<le> t"
    "index' = int (length lg) - 1 \<or> t < Term (lg ! nat index')"
    using "1.prems" tmp by (auto simp: low'_def index'_def)
  have unfold: "findLast_loop lg t low index =
      (if index' - low' \<le> 10 then scanDown lg t low' index' else findLast_loop lg t low' index')"
    using idx by (simp add: findLast_loop.simps [of lg t low index] low'_def index'_def tmp_def Let_def)
  show ?case
  proof (cases "index' - low' \<le> 10")
    case True
    from scanDown_correct [of low' index' lg t] inv obtain r where
      r: "scanDown lg t low' index' = Inr r" "low' \<le> r" "r \<le> index'"
         "\<forall>j. r < j \<and> j \<le> index' \<longrightarrow> t < Term (lg ! nat j)" "Term (lg ! nat r) \<le> t"
      by auto
    have beyond: "t < Term (lg ! nat j)" if "index' < j" "j < int (length lg)" for j
    proof -
      have "t < Term (lg ! nat index')" using inv(5) that by auto
      moreover have "map Term lg ! nat index' \<le> map Term lg ! nat j"
        using that inv "1.prems"(1) by (intro sorted_nth_mono) auto
      ultimately show ?thesis using that inv by auto
    qed
    have "last_at_most lg t r"
      using r inv beyond unfolding last_at_most_def by (metis linorder_not_less order.trans)
    with True unfold r(1) show ?thesis by auto
  next
    case False
    from "1.IH" [OF tmp_def idx low'_def index'_def False "1.prems"(1) inv]
    show ?thesis using False unfold by auto
  qed
qed

end
