(* ===== verification/Raft_RPC.thy ===== *)
theory Raft_RPC
  imports Raft_State
begin

text \<open>
  The RPC handlers of a Raft peer (\<open>src/raft1/raft.go\<close>): \<open>RequestVote\<close>, \<open>AppendEntries\<close> and
  \<open>InstallSnapshot\<close>, each with every branch of the code.

  \<open>AppendEntries\<close> gives the lock up in the middle, around a debug print, when the message carries
  entries. It is therefore two definitions, \<open>AppendEntries_check\<close> (up to the unlock) and
  \<open>AppendEntries_append\<close> (from the second lock on), which other critical sections may separate;
  \<open>AppendEntries\<close> is their composition with nothing in between. \<open>InstallSnapshot\<close> sends to
  \<open>tickers[me].rst\<close> with a plain, blocking send while it holds the lock: with a token already in
  that channel the handler cannot go on, which is the stop \<open>BlockedSend\<close>.
\<close>

record RequestVoteArgs =
  rvTerm :: int
  CandidateId :: int
  LastLogIndex :: int
  LastLogTerm :: int

record RequestVoteReply =
  rvrTerm :: int
  VoteGranted :: bool

record 'c AppendEntriesArgs =
  aeTerm :: int
  aeLeaderId :: int
  PrevLogIndex :: int
  PrevLogTerm :: int
  Entries :: "'c logEntry list"
  LeaderCommit :: int

record AppendEntriesReply =
  aerTerm :: int
  Success :: bool
  XTerm :: int
  XIndex :: int
  XLength :: int

record InstallSnapshotArgs =
  isTerm :: int
  isLeaderId :: int
  LastIncludedIndex :: int
  LastIncludedTerm :: int
  Data :: "byte list option"

record InstallSnapshotReply =
  isrTerm :: int

subsection \<open>RequestVote\<close>

definition voteRejected :: "'c raft \<Rightarrow> RequestVoteArgs \<Rightarrow> bool" where
  \<comment> \<open>the candidate's log is behind this peer's log\<close>
  "voteRejected rf args =
     (if length (Log rf) = 0
      then LastLogTerm args < SnapshotTerm rf \<or>
           (LastLogTerm args = SnapshotTerm rf \<and> LastLogIndex args < SnapshotIndex rf)
      else LastLogTerm args < Term (last (Log rf)) \<or>
           (LastLogTerm args = Term (last (Log rf)) \<and> LastLogIndex args < Loglen rf - 1))"

definition RequestVote :: "'c raft \<Rightarrow> RequestVoteArgs \<Rightarrow> ('c raft \<times> RequestVoteReply) go" where
  "RequestVote rf args =
     (if rvTerm args < CurrentTerm rf
      then Inr (rf, \<lparr>rvrTerm = CurrentTerm rf, VoteGranted = False\<rparr>)
      else if rvTerm args = CurrentTerm rf
      then (if voteRejected rf args
            then Inr (rf, \<lparr>rvrTerm = CurrentTerm rf, VoteGranted = False\<rparr>)
            else if VotedFor rf = -1 \<or> VotedFor rf = CandidateId args
            then Inr (resetTicker (me rf) (persist (rf\<lparr>VotedFor := CandidateId args\<rparr>)),
                      \<lparr>rvrTerm = CurrentTerm rf, VoteGranted = True\<rparr>)
            else Inr (rf, \<lparr>rvrTerm = CurrentTerm rf, VoteGranted = False\<rparr>))
      else go_bind (stepDown (persist (rf\<lparr>CurrentTerm := rvTerm args\<rparr>))) (\<lambda>rf2.
             if voteRejected rf2 args
             then Inr (rf2, \<lparr>rvrTerm = CurrentTerm rf, VoteGranted = False\<rparr>)
             else Inr (persist ((resetTicker (me rf2) rf2)\<lparr>VotedFor := CandidateId args\<rparr>),
                       \<lparr>rvrTerm = rvTerm args, VoteGranted = True\<rparr>)))"

subsection \<open>AppendEntries\<close>

definition advanceCommit :: "'c AppendEntriesArgs \<Rightarrow> 'c raft \<Rightarrow> 'c raft" where
  "advanceCommit args rf =
     (if LeaderCommit args > commitIndex rf
      then wakeApply (rf\<lparr>commitIndex := min (LeaderCommit args) (Loglen rf - 1)\<rparr>)
      else rf)"

definition adoptTerm :: "int \<Rightarrow> 'c raft \<Rightarrow> 'c raft" where
  "adoptTerm t rf =
     (if t > CurrentTerm rf then persist (rf\<lparr>CurrentTerm := t, VotedFor := -1\<rparr>) else rf)"

definition aeConflict :: "'c raft \<Rightarrow> 'c AppendEntriesArgs \<Rightarrow> AppendEntriesReply option go" where
  \<comment> \<open>the consistency check on the previous entry: the failure reply, if it fails\<close>
  "aeConflict rf args =
     (if PrevLogIndex args \<ge> Loglen rf
      then Inr (Some \<lparr>aerTerm = CurrentTerm rf, Success = False, XTerm = 0, XIndex = 0, XLength = Loglen rf\<rparr>)
      else if int (length (Log rf)) > idxInLog rf (PrevLogIndex args)
      then go_bind (go_index (Log rf) (idxInLog rf (PrevLogIndex args))) (\<lambda>e.
             if Term e \<noteq> PrevLogTerm args
             then go_bind (findFirstIndex rf (Term e) (idxInLog rf (PrevLogIndex args))) (\<lambda>i.
                    Inr (Some \<lparr>aerTerm = CurrentTerm rf, Success = False, XTerm = Term e,
                               XIndex = i + SnapshotIndex rf, XLength = 0\<rparr>))
             else Inr None)
      else Inr None)"

datatype ae_phase = AeReply AppendEntriesReply | AePending AppendEntriesReply

definition AppendEntries_check :: "'c raft \<Rightarrow> 'c AppendEntriesArgs \<Rightarrow> ('c raft \<times> ae_phase) go" where
  "AppendEntries_check rf args =
     (if aeTerm args < CurrentTerm rf
      then Inr (rf, AeReply \<lparr>aerTerm = CurrentTerm rf, Success = False, XTerm = 0, XIndex = 0, XLength = 0\<rparr>)
      else go_bind (stepDown rf) (\<lambda>rf1.
             let rf2 = adoptTerm (aeTerm args) rf1;
                 rf3 = resetTicker (me rf2) rf2;
                 ok = \<lparr>aerTerm = CurrentTerm rf3, Success = True, XTerm = 0, XIndex = 0, XLength = 0\<rparr>
             in go_bind (aeConflict rf3 args) (\<lambda>c.
                  case c of Some r \<Rightarrow> Inr (rf3, AeReply r)
                  | None \<Rightarrow> if length (Entries args) > 0 then Inr (rf3, AePending ok)
                            else Inr (advanceCommit args rf3, AeReply ok))))"

definition AppendEntries_append :: "'c raft \<Rightarrow> 'c AppendEntriesArgs \<Rightarrow> 'c raft go" where
  "AppendEntries_append rf args =
     (if commitIndex rf > PrevLogIndex args
      then (if int (length (Entries args)) \<le> commitIndex rf - PrevLogIndex args then Inr rf
            else go_bind (go_slice_to (Log rf) (commitIndex rf + 1 - SnapshotIndex rf)) (\<lambda>l.
                 go_bind (go_slice_from (Entries args) (commitIndex rf - PrevLogIndex args)) (\<lambda>es.
                   Inr (advanceCommit args (persist (rf\<lparr>Log := l @ es\<rparr>))))))
      else go_bind (go_slice_to (Log rf) (PrevLogIndex args + 1 - SnapshotIndex rf)) (\<lambda>l.
             Inr (advanceCommit args (persist (rf\<lparr>Log := l @ Entries args\<rparr>)))))"

definition AppendEntries :: "'c raft \<Rightarrow> 'c AppendEntriesArgs \<Rightarrow> ('c raft \<times> AppendEntriesReply) go" where
  "AppendEntries rf args =
     go_bind (AppendEntries_check rf args) (\<lambda>(rf1, ph).
       case ph of AeReply r \<Rightarrow> Inr (rf1, r)
       | AePending r \<Rightarrow> go_bind (AppendEntries_append rf1 args) (\<lambda>rf2. Inr (rf2, r)))"

subsection \<open>InstallSnapshot\<close>

definition snapshotIgnored :: "'c raft \<Rightarrow> InstallSnapshotArgs \<Rightarrow> bool" where
  "snapshotIgnored rf args \<longleftrightarrow>
     (SnapshotByte rf \<noteq> None \<and> LastIncludedIndex args \<le> SnapshotIndex rf) \<or>
     (LastIncludedIndex args = SnapshotIndex rf \<and> LastIncludedTerm args = SnapshotTerm rf)"

definition snapshotConflict :: "'c raft \<Rightarrow> InstallSnapshotArgs \<Rightarrow> bool go" where
  "snapshotConflict rf args =
     (if idxInLog rf (SnapshotIndex rf) \<ge> 0 \<and> idxInLog rf (LastIncludedIndex args) \<ge> 0
      then go_bind (go_index (Log rf) (idxInLog rf (SnapshotIndex rf))) (\<lambda>e.
             Inr (Term e \<noteq> LastIncludedTerm args))
      else Inr False)"

definition replaceLog :: "'c raft \<Rightarrow> InstallSnapshotArgs \<Rightarrow> 'c raft go" where
  "replaceLog rf args =
     go_bind (snapshotConflict rf args) (\<lambda>isConflict.
       go_bind (if int (length (Log rf)) + SnapshotIndex rf \<le> LastIncludedIndex args \<or> isConflict
                then Inr [\<lparr>Term = LastIncludedTerm args, Command = None\<rparr>]
                else go_slice_from (Log rf) (LastIncludedIndex args - SnapshotIndex rf)) (\<lambda>l.
         Inr (persist (rf\<lparr>Log := l, SnapshotIndex := LastIncludedIndex args,
                          commitIndex := max (commitIndex rf) (LastIncludedIndex args)\<rparr>))))"

definition installData :: "'c raft \<Rightarrow> InstallSnapshotArgs \<Rightarrow> 'c raft" where
  \<comment> \<open>the snapshot is taken over; an equal index with another term sets \<open>lastApplied\<close> back\<close>
  "installData rf args =
     (if LastIncludedIndex args = SnapshotIndex rf \<and> LastIncludedTerm args \<noteq> SnapshotTerm rf
      then rf\<lparr>lastApplied := LastIncludedIndex args - 1\<rparr> else rf)
        \<lparr>SnapshotByte := Data args, SnapshotTerm := LastIncludedTerm args\<rparr>"

definition InstallSnapshot :: "'c raft \<Rightarrow> InstallSnapshotArgs \<Rightarrow> ('c raft \<times> InstallSnapshotReply) go" where
  "InstallSnapshot rf args =
     (if isTerm args < CurrentTerm rf then Inr (rf, \<lparr>isrTerm = CurrentTerm rf\<rparr>)
      else go_bind (stepDown (adoptTerm (isTerm args) (wakeApply rf))) (\<lambda>rf3.
             if tickers rf3 ! me rf3 then Inl BlockedSend
             else
               let rf4 = resetTicker (me rf3) rf3 in
               if snapshotIgnored rf4 args then Inr (rf4, \<lparr>isrTerm = isTerm args\<rparr>)
               else go_bind (replaceLog (installData rf4 args) args) (\<lambda>rf5.
                      Inr (rf5, \<lparr>isrTerm = isTerm args\<rparr>))))"

end
