(* ===== verification/Raft_Election.thy ===== *)
theory Raft_Election
  imports Raft_RPC
begin

text \<open>
  The election side of a Raft peer (\<open>src/raft1/raft.go\<close>): the election timer (\<open>ticker\<close>), the
  worker that runs an election (\<open>ElectionWorker\<close>), the goroutine that asks one peer for its vote
  (\<open>GetVote\<close>) and the heartbeat timers. Each definition is one critical section of the goroutine;
  the theory \<open>Raft_Cluster\<close> interleaves them.
\<close>

subsection \<open>Timers\<close>

definition drainRst :: "nat \<Rightarrow> 'c raft \<Rightarrow> 'c raft" where
  \<comment> \<open>\<open>case <-ticker.rst\<close>: the token is taken and the timer restarted\<close>
  "drainRst i rf = rf\<lparr>tickers := (tickers rf)[i := False]\<rparr>"

definition tickerFire :: "'c raft \<Rightarrow> 'c raft \<times> bool" where
  \<comment> \<open>\<open>case <-ticker.timer.C\<close> of \<open>ticker\<close>; the flag says whether \<open>start\<close> receives a token\<close>
  "tickerFire rf =
     (if state rf \<noteq> Leader
      then ((if state rf = Candidate then rf\<lparr>ElectionAbort := True\<rparr> else rf), True)
      else (rf, False))"

definition heartbeatFire :: "nat \<Rightarrow> 'c raft \<Rightarrow> 'c raft" where
  \<comment> \<open>\<open>case <-ticker.timer.C\<close> of \<open>HeartbeatMaintain\<close>\<close>
  "heartbeatFire i rf =
     (if state rf = Leader then (wakeApply rf)\<lparr>notify := (notify rf)[i := True]\<rparr> else rf)"

subsection \<open>Running an election\<close>

definition startElection :: "'c raft \<Rightarrow> ('c raft \<times> int) option" where
  \<comment> \<open>\<open>case <-start\<close>: the new state and the election's term, or nothing on a leader\<close>
  "startElection rf =
     (if state rf = Leader then None
      else let rf1 = persist (rf\<lparr>CurrentTerm := CurrentTerm rf + 1, VotedFor := int (me rf),
                                 state := Candidate\<rparr>)
           in Some (rf1, CurrentTerm rf1))"

definition GetVote_args :: "'c raft \<Rightarrow> RequestVoteArgs option go" where
  "GetVote_args rf =
     (if state rf \<noteq> Candidate then Inr None
      else go_bind (go_index (Log rf) (int (length (Log rf)) - 1)) (\<lambda>e.
             Inr (Some \<lparr>rvTerm = CurrentTerm rf, CandidateId = int (me rf),
                        LastLogIndex = Loglen rf - 1, LastLogTerm = Term e\<rparr>)))"

definition GetVote_result :: "RequestVoteReply option \<Rightarrow> RequestVoteReply" where
  \<comment> \<open>what is put into \<open>replyChan\<close>: the reply, or a zero reply when the call failed\<close>
  "GetVote_result r = (case r of None \<Rightarrow> \<lparr>rvrTerm = 0, VoteGranted = False\<rparr> | Some x \<Rightarrow> x)"

definition winElection :: "'c raft \<Rightarrow> 'c raft" where
  "winElection rf =
     (resetTicker (me rf) rf)
       \<lparr>state := Leader,
        ElectionAbort := False,
        ctx := Some (nextCtx rf),
        nextCtx := Suc (nextCtx rf),
        nextIndex := map (\<lambda>i. if i = me rf then 0 else Loglen rf) [0..<npeers rf],
        matchIndex := map (\<lambda>i. 0) [0..<npeers rf],
        retry := map (\<lambda>i. if i = me rf then retry rf ! i else False) [0..<length (retry rf)],
        notify := map (\<lambda>i. if i = me rf then notify rf ! i else False) [0..<length (notify rf)]\<rparr>"

datatype vote_outcome = VoteStale | VoteDemoted | VoteWon | VoteGoOn nat

definition countVote :: "'c raft \<Rightarrow> int \<Rightarrow> nat \<Rightarrow> RequestVoteReply \<Rightarrow> 'c raft \<times> vote_outcome" where
  \<comment> \<open>\<open>case reply := <-replyChan\<close> with the worker's \<open>ElectionTerm\<close> and \<open>voteCount\<close>\<close>
  "countVote rf electionTerm voteCount reply =
     (if CurrentTerm rf \<noteq> electionTerm then (rf, VoteStale)
      else if rvrTerm reply > CurrentTerm rf
      then (persist (rf\<lparr>CurrentTerm := rvrTerm reply, VotedFor := -1, state := Follower\<rparr>), VoteDemoted)
      else if VoteGranted reply
      then (if voteCount + 1 \<ge> npeers rf div 2 + 1 then (winElection rf, VoteWon)
            else (rf, VoteGoOn (voteCount + 1)))
      else (rf, VoteGoOn voteCount))"

definition abortElection :: "'c raft \<Rightarrow> 'c raft" where
  \<comment> \<open>\<open>case <-abortElectionChan\<close> while waiting for votes\<close>
  "abortElection rf = rf\<lparr>ElectionAbort := False, state := Follower\<rparr>"

definition endElection :: "'c raft \<Rightarrow> 'c raft" where
  \<comment> \<open>every reply is counted and there is no majority\<close>
  "endElection rf = rf\<lparr>state := Follower\<rparr>"

definition workerQuit :: "'c raft \<Rightarrow> 'c raft" where
  \<comment> \<open>\<open>case <-abortElectionChan: return\<close> while no election runs: the worker takes the token and is gone\<close>
  "workerQuit rf = rf\<lparr>ElectionAbort := False\<rparr>"

end
