(* ===== verification/Raft_Leader.thy ===== *)
theory Raft_Leader
  imports Raft_Election
begin

text \<open>
  The leader and the applier of a Raft peer (\<open>src/raft1/raft.go\<close>): the sender goroutine that
  \<open>sendAppendEntries\<close> runs for each follower, \<open>boardcastLogEntries\<close>, and \<open>applyLogEntries\<close>, which
  advances the leader's commit index and hands committed entries to the service.

  \<open>sendAppendEntries\<close> is cut at its lock releases: \<open>sendGuard\<close> (top of the loop), \<open>sendPrepare\<close>
  (build the next message), and one definition for each way the call can come back.
  \<open>applyLogEntries\<close> is cut where it gives the lock up to send on \<open>applyCh\<close>.
\<close>

record 'c ApplyMsg =
  CommandValid :: bool
  amCommand :: "'c option"
  CommandIndex :: int
  SnapshotValid :: bool
  amSnapshot :: "byte list option"
  amSnapshotTerm :: int
  amSnapshotIndex :: int

subsection \<open>The sender goroutine\<close>

definition sendGuard :: "'c raft \<Rightarrow> int \<Rightarrow> nat \<Rightarrow> 'c raft \<times> bool" where
  \<comment> \<open>top of the loop: may the worker of this term and context go on?\<close>
  "sendGuard rf workerTerm workerCtx =
     (if CurrentTerm rf \<noteq> workerTerm then (rf, False)
      else if state rf \<noteq> Leader then (rf\<lparr>cancelled := insert workerCtx (cancelled rf)\<rparr>, False)
      else (rf, workerCtx \<notin> cancelled rf))"

definition awaitNotify :: "'c raft \<Rightarrow> nat \<Rightarrow> bool \<Rightarrow> 'c raft option" where
  \<comment> \<open>take the wake-up of \<open>notify[server]\<close>; without one, only a retry goes on\<close>
  "awaitNotify rf server isRetry =
     (if isRetry \<or> notify rf ! server then Some (rf\<lparr>notify := (notify rf)[server := False]\<rparr>) else None)"

datatype 'c send_action = StopWorker | SendIS InstallSnapshotArgs | SendAE "'c AppendEntriesArgs"

definition sendIS_prepare :: "'c raft \<Rightarrow> InstallSnapshotArgs" where
  "sendIS_prepare rf =
     \<lparr>isTerm = CurrentTerm rf, isLeaderId = int (me rf), LastIncludedIndex = SnapshotIndex rf,
      LastIncludedTerm = SnapshotTerm rf, Data = SnapshotByte rf\<rparr>"

definition sendAE_prepare :: "'c raft \<Rightarrow> nat \<Rightarrow> nat \<Rightarrow> bool \<Rightarrow> ('c raft \<times> 'c send_action) go" where
  \<comment> \<open>\<open>isRetry\<close> is the value of \<open>retry[server]\<close> read at the top of the loop\<close>
  "sendAE_prepare rf server workerCtx isRetry =
     (let next = nextIndex rf ! server in
      go_bind (go_slice_from (Log rf) (idxInLog rf next)) (\<lambda>logs.
      go_bind (go_index (Log rf) (idxInLog rf (next - 1))) (\<lambda>prev.
        let prevLogIndex = (if next - 1 < 0 then 0 else next - 1) in
        if state rf \<noteq> Leader
        then Inr (rf\<lparr>cancelled := insert workerCtx (cancelled rf)\<rparr>, StopWorker)
        else Inr (if isRetry then resetTicker server rf else rf,
                  SendAE \<lparr>aeTerm = CurrentTerm rf, aeLeaderId = int (me rf),
                          PrevLogIndex = prevLogIndex, PrevLogTerm = Term prev, Entries = logs,
                          LeaderCommit = commitIndex rf\<rparr>))))"

definition sendPrepare :: "'c raft \<Rightarrow> nat \<Rightarrow> int \<Rightarrow> nat \<Rightarrow> bool \<Rightarrow> ('c raft \<times> 'c send_action) go" where
  "sendPrepare rf server workerTerm workerCtx isRetry =
     (if CurrentTerm rf \<noteq> workerTerm then Inr (rf, StopWorker)
      else
        let rf1 = (if nextIndex rf ! server > Loglen rf
                   then rf\<lparr>nextIndex := (nextIndex rf)[server := Loglen rf]\<rparr> else rf)
        in if nextIndex rf1 ! server \<le> SnapshotIndex rf1
           then Inr (rf1, SendIS (sendIS_prepare rf1))
           else sendAE_prepare rf1 server workerCtx isRetry)"

definition leaderDemoted :: "'c raft \<Rightarrow> int \<Rightarrow> int \<Rightarrow> nat \<Rightarrow> 'c raft" where
  \<comment> \<open>a reply with a term above the term \<open>term\<close> the call was made in\<close>
  "leaderDemoted rf term serverTerm workerCtx =
     (if CurrentTerm rf = term \<and> state rf = Leader
      then (persist (rf\<lparr>CurrentTerm := serverTerm, VotedFor := -1, state := Follower\<rparr>))
             \<lparr>cancelled := insert workerCtx (cancelled rf)\<rparr>
      else rf)"

definition sendIS_reply :: "'c raft \<Rightarrow> nat \<Rightarrow> int \<Rightarrow> nat \<Rightarrow> InstallSnapshotReply \<Rightarrow> 'c raft" where
  "sendIS_reply rf server term workerCtx reply =
     (if isrTerm reply > term then leaderDemoted rf term (isrTerm reply) workerCtx
      else if state rf \<noteq> Leader then rf\<lparr>cancelled := insert workerCtx (cancelled rf)\<rparr>
      else if CurrentTerm rf \<noteq> term then rf
      else wakeApply (rf\<lparr>nextIndex := (nextIndex rf)[server := SnapshotIndex rf + 1],
                         matchIndex := (matchIndex rf)[server := max (matchIndex rf ! server) (SnapshotIndex rf)],
                         retry := (retry rf)[server := False]\<rparr>))"

definition sendFailed :: "'c raft \<Rightarrow> nat \<Rightarrow> nat \<Rightarrow> 'c raft" where
  \<comment> \<open>the call failed or took longer than 100 ms\<close>
  "sendFailed rf server workerCtx =
     (let rf1 = rf\<lparr>retry := (retry rf)[server := True]\<rparr>
      in if state rf1 \<noteq> Leader then rf1\<lparr>cancelled := insert workerCtx (cancelled rf1)\<rparr> else rf1)"

definition sendAE_success :: "'c raft \<Rightarrow> nat \<Rightarrow> 'c AppendEntriesArgs \<Rightarrow> nat \<Rightarrow> 'c raft" where
  "sendAE_success rf server args workerCtx =
     (if state rf \<noteq> Leader then rf\<lparr>cancelled := insert workerCtx (cancelled rf)\<rparr>
      else if CurrentTerm rf \<noteq> aeTerm args then rf
      else let next = max (nextIndex rf ! server) (PrevLogIndex args + int (length (Entries args)) + 1)
           in wakeApply (rf\<lparr>nextIndex := (nextIndex rf)[server := next],
                            matchIndex := (matchIndex rf)[server := next - 1],
                            retry := (retry rf)[server := False]\<rparr>))"

definition backoff :: "'c raft \<Rightarrow> nat \<Rightarrow> AppendEntriesReply \<Rightarrow> int go" where
  \<comment> \<open>the new \<open>nextIndex[server]\<close> after a failed consistency check\<close>
  "backoff rf server reply =
     (if XTerm reply = 0 then Inr (max (XLength reply) (SnapshotIndex rf))
      else go_bind (findLastIndex rf (XTerm reply)) (\<lambda>lastIndex.
             if lastIndex = -1 then Inr (SnapshotIndex rf)
             else go_bind (go_index (Log rf) lastIndex) (\<lambda>e.
                    if Term e = XTerm reply then Inr (lastIndex + 1)
                    else Inr (max (XIndex reply) (SnapshotIndex rf)))))"

definition sendAE_failure :: "'c raft \<Rightarrow> nat \<Rightarrow> 'c AppendEntriesArgs \<Rightarrow> nat \<Rightarrow> AppendEntriesReply \<Rightarrow> 'c raft go" where
  "sendAE_failure rf server args workerCtx reply =
     (if aerTerm reply > aeTerm args then Inr (leaderDemoted rf (aeTerm args) (aerTerm reply) workerCtx)
      else go_bind (backoff rf server reply) (\<lambda>next.
             Inr (rf\<lparr>retry := (retry rf)[server := True],
                     nextIndex := (nextIndex rf)[server := next]\<rparr>)))"

definition sendAE_reply :: "'c raft \<Rightarrow> nat \<Rightarrow> 'c AppendEntriesArgs \<Rightarrow> nat \<Rightarrow> AppendEntriesReply \<Rightarrow> 'c raft go" where
  "sendAE_reply rf server args workerCtx reply =
     (if Success reply then Inr (sendAE_success rf server args workerCtx)
      else sendAE_failure rf server args workerCtx reply)"

definition boardcast_begin :: "'c raft \<Rightarrow> ('c raft \<times> bool) go" where
  \<comment> \<open>\<open>boardcastLogEntries\<close> up to its loop; the flag says whether the loop runs\<close>
  "boardcast_begin rf =
     (if state rf \<noteq> Leader then go_bind (cancelCtx rf) (\<lambda>rf1. Inr (rf1, False))
      else Inr (wakeApply rf, True))"

definition boardcast_one :: "'c raft \<Rightarrow> nat \<Rightarrow> ('c raft \<times> bool) go" where
  \<comment> \<open>one round of its loop, for a peer other than \<open>me\<close>\<close>
  "boardcast_one rf i =
     (case ctx rf of None \<Rightarrow> Inl NilDeref
      | Some c \<Rightarrow> if c \<in> cancelled rf then Inr (rf, False)
                  else Inr (resetTicker i (rf\<lparr>notify := (notify rf)[i := True]\<rparr>), True))"

subsection \<open>Committing and applying\<close>

definition tmpMatchIndex :: "'c raft \<Rightarrow> int list" where
  "tmpMatchIndex rf =
     (take (npeers rf) (matchIndex rf) @ replicate (npeers rf - length (matchIndex rf)) 0)
       [me rf := Loglen rf - 1]"

definition minMatchIndex :: "'c raft \<Rightarrow> int" where
  "minMatchIndex rf = sort (tmpMatchIndex rf) ! (length (tmpMatchIndex rf) div 2)"

datatype 'c apply_result = ApplyIdle | ApplySnap "'c ApplyMsg" | ApplyCmd "'c ApplyMsg" | ApplySpin

definition snapshotMsg :: "'c raft \<Rightarrow> 'c ApplyMsg" where
  "snapshotMsg rf =
     \<lparr>CommandValid = False, amCommand = None, CommandIndex = 0, SnapshotValid = True,
      amSnapshot = SnapshotByte rf, amSnapshotTerm = SnapshotTerm rf, amSnapshotIndex = SnapshotIndex rf\<rparr>"

definition commandMsg :: "'c option \<Rightarrow> int \<Rightarrow> 'c ApplyMsg" where
  "commandMsg c i =
     \<lparr>CommandValid = True, amCommand = c, CommandIndex = i, SnapshotValid = False,
      amSnapshot = None, amSnapshotTerm = 0, amSnapshotIndex = 0\<rparr>"

definition apply_loop :: "'c raft \<Rightarrow> ('c raft \<times> 'c apply_result) go" where
  \<comment> \<open>one round of \<open>for rf.lastApplied < rf.commitIndex\<close>: it ends, it hands out one command, or it
     goes round again with the lock held and nothing changed (\<open>continue\<close>)\<close>
  "apply_loop rf =
     (if lastApplied rf < commitIndex rf
      then (if lastApplied rf < SnapshotIndex rf then Inr (rf, ApplySpin)
            else let rf1 = rf\<lparr>lastApplied := lastApplied rf + 1\<rparr>
                 in go_bind (go_index (Log rf1) (idxInLog rf1 (lastApplied rf1))) (\<lambda>e.
                      Inr (rf1, ApplyCmd (commandMsg (Command e) (lastApplied rf1)))))
      else Inr (rf, ApplyIdle))"

definition apply_commit :: "'c raft \<Rightarrow> ('c raft \<times> 'c apply_result) go" where
  \<comment> \<open>the body after the snapshot: followers apply, the leader first advances its commit index\<close>
  "apply_commit rf =
     (if state rf \<noteq> Leader then apply_loop rf
      else if minMatchIndex rf > commitIndex rf
      then go_bind (go_index (Log rf) (idxInLog rf (minMatchIndex rf))) (\<lambda>e.
             if Term e \<noteq> CurrentTerm rf then Inr (rf, ApplyIdle)
             else apply_loop (rf\<lparr>commitIndex := minMatchIndex rf\<rparr>))
      else Inr (rf, ApplyIdle))"

definition apply_wake :: "'c raft \<Rightarrow> ('c raft \<times> 'c apply_result) go" where
  \<comment> \<open>\<open>case <-rf.notifyApply\<close>\<close>
  "apply_wake rf =
     (let rf0 = rf\<lparr>notifyApply := False\<rparr> in
      if SnapshotByte rf0 \<noteq> None \<and> lastApplied rf0 < SnapshotIndex rf0
      then Inr (rf0, ApplySnap (snapshotMsg rf0))
      else apply_commit rf0)"

definition apply_snap_done :: "int \<Rightarrow> 'c raft \<Rightarrow> ('c raft \<times> 'c apply_result) go" where
  \<comment> \<open>after the snapshot message with index \<open>applySi\<close> has been received\<close>
  "apply_snap_done applySi rf = apply_commit (rf\<lparr>lastApplied := max (lastApplied rf) applySi\<rparr>)"

text \<open>
  The loop of \<open>applyLogEntries\<close> when the service takes every message at once and no other critical
  section runs in between. It may not return, so it is a partial function: \<open>None\<close> is a loop that
  goes round for ever with the lock held.
\<close>

partial_function (option) apply_drain ::
  "'c raft \<Rightarrow> 'c ApplyMsg list \<Rightarrow> ('c raft \<times> 'c ApplyMsg list) go option" where
  "apply_drain rf acc =
     (case apply_loop rf of Inl e \<Rightarrow> Some (Inl e)
      | Inr (rf', r) \<Rightarrow>
          (case r of ApplyCmd m \<Rightarrow> apply_drain rf' (acc @ [m])
           | ApplySpin \<Rightarrow> apply_drain rf' acc
           | ApplySnap m \<Rightarrow> Some (Inr (rf', acc))
           | ApplyIdle \<Rightarrow> Some (Inr (rf', acc))))"

end
