(* ===== verification/Raft_Peer.thy ===== *)
theory Raft_Peer
  imports Raft_Leader
begin

text \<open>
  One Raft peer as a state machine: \<open>peer_step\<close> has one rule for every critical section of
  \<open>src/raft1/raft.go\<close>, with the messages a peer receives left open (any arguments and any replies).
  The theory proves what every step keeps: the shape of the state (\<open>wf_raft\<close>), that the stable
  storage holds the current persistent state whenever the lock is free (\<open>synced\<close>), that terms
  never fall, and that a vote cast in a term is never changed within that term. The contract is
  the locale \<open>peer_contract\<close>, and \<open>peer_step\<close> is its interpretation.
\<close>

definition wf_raft :: "'c raft \<Rightarrow> bool" where
  "wf_raft rf \<longleftrightarrow> Log rf \<noteq> [] \<and> me rf < npeers rf \<and>
     length (tickers rf) = npeers rf \<and> length (retry rf) = npeers rf \<and> length (notify rf) = npeers rf \<and>
     (state rf = Leader \<longrightarrow> ctx rf \<noteq> None \<and> length (nextIndex rf) = npeers rf \<and>
                              length (matchIndex rf) = npeers rf)"

definition synced :: "'c raft \<Rightarrow> bool" where
  \<comment> \<open>the persister holds the persistent state, or nothing has been persisted since \<open>Make\<close>\<close>
  "synced rf \<longleftrightarrow>
     (raftstate (persister rf) = nvStream rf \<or>
      raftstate (persister rf) = [] \<and> CurrentTerm rf = 0 \<and> VotedFor rf = -1 \<and>
      Log rf = [\<lparr>Term = 0, Command = None\<rparr>] \<and> SnapshotIndex rf = 0 \<and> SnapshotByte rf = None) \<and>
     snapshot (persister rf) = (case SnapshotByte rf of None \<Rightarrow> [] | Some b \<Rightarrow> b)"

text \<open>
  The critical sections are in three groups: \<open>plain_step\<close> has all but two of those a peer goes
  through outside of elections. Of the other two, \<open>append_append\<close> is the second half of an
  \<open>AppendEntries\<close> call, which may come at any later time, and \<open>install_snapshot\<close> is
  \<open>InstallSnapshot\<close>; only they can cut the log.
\<close>

inductive plain_step :: "'c raft \<Rightarrow> 'c raft \<Rightarrow> bool" where
  request_vote: "RequestVote rf args = Inr (rf', reply) \<Longrightarrow> plain_step rf rf'"
| append_check: "AppendEntries_check rf args' = Inr (rf', ph) \<Longrightarrow> plain_step rf rf'"
| take_snapshot: "Snapshot rf index snap = Inr rf' \<Longrightarrow> plain_step rf rf'"
| start_command: "Start rf command = (rf', res) \<Longrightarrow> plain_step rf rf'"
| kill: "plain_step rf (Kill rf)"
| drain_rst: "plain_step rf (drainRst i rf)"
| ticker_fire: "tickerFire rf = (rf', tok) \<Longrightarrow> plain_step rf rf'"
| heartbeat: "plain_step rf (heartbeatFire i rf)"
| abort_election: "plain_step rf (abortElection rf)"
| end_election: "plain_step rf (endElection rf)"
| worker_quit: "plain_step rf (workerQuit rf)"
| send_guard: "sendGuard rf wt wc = (rf', go_on) \<Longrightarrow> plain_step rf rf'"
| await_notify: "awaitNotify rf i isRetry = Some rf' \<Longrightarrow> plain_step rf rf'"
| send_prepare: "sendPrepare rf i wt wc isRetry = Inr (rf', act) \<Longrightarrow> plain_step rf rf'"
| send_is_reply: "plain_step rf (sendIS_reply rf i t wc isreply)"
| send_failed: "plain_step rf (sendFailed rf i wc)"
| send_ae_reply: "sendAE_reply rf i args' wc aereply = Inr rf' \<Longrightarrow> plain_step rf rf'"
| broadcast: "boardcast_begin rf = Inr (rf', go_on) \<Longrightarrow> plain_step rf rf'"
| broadcast_one: "boardcast_one rf i = Inr (rf', go_on) \<Longrightarrow> plain_step rf rf'"
| apply_wake: "apply_wake rf = Inr (rf', res') \<Longrightarrow> plain_step rf rf'"
| apply_snap: "apply_snap_done si rf = Inr (rf', res') \<Longrightarrow> plain_step rf rf'"
| apply_round: "apply_loop rf = Inr (rf', res') \<Longrightarrow> plain_step rf rf'"

inductive local_step :: "'c raft \<Rightarrow> 'c raft \<Rightarrow> bool" where
  plain: "plain_step rf rf' \<Longrightarrow> local_step rf rf'"
| append_append: "Entries args' \<noteq> [] \<Longrightarrow> AppendEntries_append rf args' = Inr rf' \<Longrightarrow> local_step rf rf'"
| install_snapshot: "InstallSnapshot rf isargs = Inr (rf', isreply) \<Longrightarrow> local_step rf rf'"

inductive peer_step :: "'c raft \<Rightarrow> 'c raft \<Rightarrow> bool" where
  local: "local_step rf rf' \<Longrightarrow> peer_step rf rf'"
| start_election: "startElection rf = Some (rf', et) \<Longrightarrow> peer_step rf rf'"
| count_vote: "countVote rf et vc reply = (rf', out) \<Longrightarrow> peer_step rf rf'"

subsection \<open>What every step keeps\<close>

text \<open>
  A step is described by the relation \<open>contract_ok\<close>: the identity of the peer stays, the shape
  stays, the storage stays in step, terms do not fall, a vote is not changed within its term, and
  only winning an election makes a leader.
\<close>

definition contract_ok :: "'c raft \<Rightarrow> 'c raft \<Rightarrow> bool" where
  "contract_ok rf rf' \<longleftrightarrow>
     me rf' = me rf \<and> npeers rf' = npeers rf \<and>
     (wf_raft rf \<longrightarrow> wf_raft rf') \<and> (wf_raft rf \<longrightarrow> synced rf \<longrightarrow> synced rf') \<and>
     CurrentTerm rf \<le> CurrentTerm rf' \<and>
     (CurrentTerm rf' = CurrentTerm rf \<longrightarrow> VotedFor rf \<noteq> -1 \<longrightarrow> VotedFor rf' = VotedFor rf)"

lemma persist_simps [simp]:
  "npeers (persist rf) = npeers rf" "me (persist rf) = me rf" "dead (persist rf) = dead rf"
  "CurrentTerm (persist rf) = CurrentTerm rf" "VotedFor (persist rf) = VotedFor rf"
  "Log (persist rf) = Log rf" "commitIndex (persist rf) = commitIndex rf"
  "lastApplied (persist rf) = lastApplied rf" "notifyApply (persist rf) = notifyApply rf"
  "nextIndex (persist rf) = nextIndex rf" "matchIndex (persist rf) = matchIndex rf"
  "state (persist rf) = state rf" "SnapshotIndex (persist rf) = SnapshotIndex rf"
  "SnapshotTerm (persist rf) = SnapshotTerm rf" "SnapshotByte (persist rf) = SnapshotByte rf"
  "tickers (persist rf) = tickers rf" "retry (persist rf) = retry rf" "notify (persist rf) = notify rf"
  "ctx (persist rf) = ctx rf" "cancelled (persist rf) = cancelled rf"
  "raftstate (persister (persist rf)) = nvStream rf"
  "snapshot (persister (persist rf)) = (case SnapshotByte rf of None \<Rightarrow> [] | Some b \<Rightarrow> b)"
  by (simp_all add: persist_def)

lemma synced_persist [simp]: "synced (persist rf)"
  by (simp add: synced_def nvStream_def)

lemma wf_persist [simp]: "wf_raft (persist rf) = wf_raft rf"
  by (simp add: wf_raft_def)

lemma synced_cong:
  assumes "persister rf' = persister rf" "CurrentTerm rf' = CurrentTerm rf" "VotedFor rf' = VotedFor rf"
    "Log rf' = Log rf" "SnapshotIndex rf' = SnapshotIndex rf" "SnapshotByte rf' = SnapshotByte rf"
  shows "synced rf' = synced rf"
  using assms by (simp add: synced_def nvStream_def)

lemma contract_refl [simp]: "contract_ok rf rf"
  by (simp add: contract_ok_def)

lemma contract_trans: "contract_ok rf rf1 \<Longrightarrow> contract_ok rf1 rf2 \<Longrightarrow> contract_ok rf rf2"
  unfolding contract_ok_def by (metis order.antisym order.trans)

lemma contract_frame:
  assumes "me rf' = me rf" "npeers rf' = npeers rf" "persister rf' = persister rf"
    "CurrentTerm rf' = CurrentTerm rf" "VotedFor rf' = VotedFor rf" "Log rf' = Log rf"
    "SnapshotIndex rf' = SnapshotIndex rf" "SnapshotByte rf' = SnapshotByte rf"
    and "wf_raft rf \<Longrightarrow> wf_raft rf'"
  shows "contract_ok rf rf'"
  using assms synced_cong [of rf' rf] by (auto simp: contract_ok_def)

lemma stepDown_Inr:
  assumes "stepDown rf = Inr rf'"
  obtains X where "rf' = rf\<lparr>state := Follower, cancelled := X\<rparr>"
  using assms that [of "cancelled rf'"]
  by (auto simp: stepDown_def cancelCtx_def split: if_splits option.splits)

lemma stepDown_contract: "stepDown rf = Inr rf' \<Longrightarrow> contract_ok rf rf'"
  by (elim stepDown_Inr) (auto intro!: contract_frame simp: wf_raft_def)

lemma wf_resetTicker [simp]: "wf_raft (resetTicker i rf) = wf_raft rf"
  by (simp add: wf_raft_def resetTicker_def)

lemma resetTicker_contract [simp]: "contract_ok rf (resetTicker i rf)"
  by (rule contract_frame) (simp_all add: resetTicker_def wf_raft_def)

lemma wakeApply_contract [simp]: "contract_ok rf (wakeApply rf)"
  by (rule contract_frame) (simp_all add: wakeApply_def wf_raft_def)

lemma adoptTerm_contract [simp]: "contract_ok rf (adoptTerm t rf)"
  by (auto simp: adoptTerm_def contract_ok_def wf_raft_def)

lemma advanceCommit_contract [simp]: "contract_ok rf (advanceCommit args rf)"
  by (rule contract_frame) (auto simp: advanceCommit_def wakeApply_def wf_raft_def)

lemma persistLog_contract: "l \<noteq> [] \<Longrightarrow> contract_ok rf (persist (rf\<lparr>Log := l\<rparr>))"
  by (auto simp: contract_ok_def wf_raft_def)

lemma RequestVote_contract:
  assumes "RequestVote rf args = Inr (rf', reply)"
  shows "contract_ok rf rf'"
proof -
  have same: "contract_ok rf (resetTicker (me rf) (persist (rf\<lparr>VotedFor := c\<rparr>)))"
    if "VotedFor rf = -1 \<or> VotedFor rf = c" for c
    using that by (intro contract_trans [OF _ resetTicker_contract]) (auto simp: contract_ok_def wf_raft_def)
  have newer: "contract_ok rf rf2 \<and> contract_ok rf (persist ((resetTicker (me rf2) rf2)\<lparr>VotedFor := c\<rparr>))"
    if t: "CurrentTerm rf < t" and sd: "stepDown (persist (rf\<lparr>CurrentTerm := t\<rparr>)) = Inr rf2" for t rf2 c
  proof -
    obtain X where rf2: "rf2 = (persist (rf\<lparr>CurrentTerm := t\<rparr>))\<lparr>state := Follower, cancelled := X\<rparr>"
      using sd by (rule stepDown_Inr)
    have "synced rf2" unfolding rf2 using synced_persist [of "rf\<lparr>CurrentTerm := t\<rparr>"]
      by (simp add: synced_def nvStream_def)
    with t show ?thesis by (auto simp: rf2 contract_ok_def wf_raft_def resetTicker_def)
  qed
  show ?thesis
  proof (cases "rvTerm args \<le> CurrentTerm rf")
    case True
    with assms same show ?thesis by (auto simp: RequestVote_def split: if_splits)
  next
    case False
    with assms obtain rf2 where "stepDown (persist (rf\<lparr>CurrentTerm := rvTerm args\<rparr>)) = Inr rf2"
      and "rf' = rf2 \<or> rf' = persist ((resetTicker (me rf2) rf2)\<lparr>VotedFor := CandidateId args\<rparr>)"
      by (auto simp: RequestVote_def go_inv split: if_splits)
    with newer [of "rvTerm args"] False show ?thesis by auto
  qed
qed

lemma AppendEntries_check_contract:
  assumes "AppendEntries_check rf args = Inr (rf', ph)"
  shows "contract_ok rf rf'"
proof (cases "aeTerm args < CurrentTerm rf")
  case True with assms show ?thesis by (simp add: AppendEntries_check_def)
next
  case False
  with assms obtain rf1 where sd: "stepDown rf = Inr rf1"
    and rf': "rf' = resetTicker (me (adoptTerm (aeTerm args) rf1)) (adoptTerm (aeTerm args) rf1) \<or>
              rf' = advanceCommit args (resetTicker (me (adoptTerm (aeTerm args) rf1)) (adoptTerm (aeTerm args) rf1))"
    by (auto simp: AppendEntries_check_def go_inv Let_def split: if_splits option.splits)
  from stepDown_contract [OF sd] have "contract_ok rf (adoptTerm (aeTerm args) rf1)"
    by (rule contract_trans) simp
  then have "contract_ok rf (resetTicker (me (adoptTerm (aeTerm args) rf1)) (adoptTerm (aeTerm args) rf1))"
    by (rule contract_trans) simp
  with rf' show ?thesis by (auto intro: contract_trans)
qed

lemma AppendEntries_append_Inr:
  assumes "AppendEntries_append rf args = Inr rf'" and "Entries args \<noteq> []"
  obtains "rf' = rf" | l where "l \<noteq> []" "rf' = advanceCommit args (persist (rf\<lparr>Log := l\<rparr>))"
proof (cases "commitIndex rf > PrevLogIndex args")
  case True
  with assms(1) consider "rf' = rf"
    | "rf' = advanceCommit args (persist (rf\<lparr>Log := take (nat (commitIndex rf + 1 - SnapshotIndex rf)) (Log rf) @
                drop (nat (commitIndex rf - PrevLogIndex args)) (Entries args)\<rparr>))"
      "int (length (Entries args)) > commitIndex rf - PrevLogIndex args"
    by (auto simp: AppendEntries_append_def go_inv split: if_splits)
  then show ?thesis
  proof cases
    case 2
    show ?thesis by (rule that(2) [OF _ 2(1)]) (use 2(2) True in auto)
  qed (rule that(1))
next
  case False
  with assms that show ?thesis by (auto simp: AppendEntries_append_def go_inv)
qed

lemma AppendEntries_append_contract:
  assumes "AppendEntries_append rf args = Inr rf'" and "Entries args \<noteq> []"
  shows "contract_ok rf rf'"
  using assms by (elim AppendEntries_append_Inr)
    (auto intro: contract_trans [OF persistLog_contract advanceCommit_contract])

lemma replaceLog_Inr:
  assumes "replaceLog rf args = Inr rf'"
  obtains l where "Log rf \<noteq> [] \<Longrightarrow> l \<noteq> []" "rf' = persist (rf\<lparr>Log := l, SnapshotIndex := LastIncludedIndex args,
                                 commitIndex := max (commitIndex rf) (LastIncludedIndex args)\<rparr>)"
proof -
  from assms obtain l where l: "rf' = persist (rf\<lparr>Log := l, SnapshotIndex := LastIncludedIndex args,
                                 commitIndex := max (commitIndex rf) (LastIncludedIndex args)\<rparr>)"
    and "l = [\<lparr>Term = LastIncludedTerm args, Command = None\<rparr>] \<or>
         SnapshotIndex rf \<le> LastIncludedIndex args \<and> LastIncludedIndex args - SnapshotIndex rf < int (length (Log rf)) \<and>
         l = drop (nat (LastIncludedIndex args - SnapshotIndex rf)) (Log rf)"
    by (auto simp: replaceLog_def go_inv split: if_splits)
  then have "Log rf \<noteq> [] \<Longrightarrow> l \<noteq> []" by auto
  with l that show ?thesis by blast
qed

lemma InstallSnapshot_Inr:
  assumes "InstallSnapshot rf args = Inr (rf', reply)" and "isTerm args \<ge> CurrentTerm rf"
  obtains rf3 where "stepDown (adoptTerm (isTerm args) (wakeApply rf)) = Inr rf3"
      "rf' = resetTicker (me rf3) rf3"
  | rf3 where "stepDown (adoptTerm (isTerm args) (wakeApply rf)) = Inr rf3"
      "replaceLog (installData (resetTicker (me rf3) rf3) args) args = Inr rf'"
  using assms by (auto simp: InstallSnapshot_def go_inv Let_def split: if_splits)

lemma InstallSnapshot_contract:
  assumes "InstallSnapshot rf args = Inr (rf', reply)"
  shows "contract_ok rf rf'"
proof (cases "isTerm args < CurrentTerm rf")
  case True with assms show ?thesis by (simp add: InstallSnapshot_def)
next
  case False
  have reach: "contract_ok rf rf3" if "stepDown (adoptTerm (isTerm args) (wakeApply rf)) = Inr rf3" for rf3
    using contract_trans [OF wakeApply_contract adoptTerm_contract] stepDown_contract [OF that]
    by (rule contract_trans)
  have le: "isTerm args \<ge> CurrentTerm rf" using False by simp
  show ?thesis using assms le
  proof (cases rule: InstallSnapshot_Inr)
    case (1 rf3)
    then show ?thesis by (auto intro: contract_trans [OF reach])
  next
    case (2 rf3)
    from 2(2) have "contract_ok rf3 rf'"
      by (elim replaceLog_Inr) (auto simp: contract_ok_def wf_raft_def resetTicker_def installData_def)
    with reach [OF 2(1)] show ?thesis by (rule contract_trans)
  qed
qed

lemma leaderDemoted_contract:
  "CurrentTerm rf = t \<Longrightarrow> t < t' \<Longrightarrow> contract_ok rf (leaderDemoted rf t t' wc)"
  by (auto simp: leaderDemoted_def contract_ok_def wf_raft_def synced_def nvStream_def)

lemma leaderDemoted_contract':
  "t < t' \<Longrightarrow> contract_ok rf (leaderDemoted rf t t' wc)"
  using leaderDemoted_contract [of rf t t' wc]
  by (cases "CurrentTerm rf = t") (simp_all add: leaderDemoted_def)

lemma Snapshot_contract:
  assumes "Snapshot rf index snap = Inr rf'"
  shows "contract_ok rf rf'"
  using assms
  by (auto simp: Snapshot_def go_inv Let_def contract_ok_def wf_raft_def synced_def nvStream_def Loglen_def
      split: if_splits)

lemma winElection_contract [simp]: "contract_ok rf (winElection rf)"
  by (rule contract_frame) (simp_all add: winElection_def resetTicker_def wf_raft_def)

lemma countVote_contract: "countVote rf et vc reply = (rf', out) \<Longrightarrow> contract_ok rf rf'"
  by (auto simp: countVote_def contract_ok_def [of rf "persist _"] wf_raft_def split: if_splits)

lemma startElection_contract: "startElection rf = Some (rf', et) \<Longrightarrow> contract_ok rf rf'"
  by (auto simp: startElection_def contract_ok_def wf_raft_def Let_def split: if_splits)

lemma Start_contract: "Start rf c = (rf', res) \<Longrightarrow> contract_ok rf rf'"
  by (auto simp: Start_def intro: persistLog_contract split: if_splits)

lemma sendAE_reply_contract:
  assumes "sendAE_reply rf i args wc reply = Inr rf'"
  shows "contract_ok rf rf'"
proof -
  have "contract_ok rf (sendAE_success rf i args wc)"
    by (rule contract_frame) (auto simp: sendAE_success_def wakeApply_def wf_raft_def Let_def)
  moreover have "contract_ok rf (rf\<lparr>retry := (retry rf)[i := True], nextIndex := (nextIndex rf)[i := n]\<rparr>)" for n
    by (rule contract_frame) (auto simp: wf_raft_def)
  ultimately show ?thesis using assms
    by (auto simp: sendAE_reply_def sendAE_failure_def go_inv intro: leaderDemoted_contract' split: if_splits)
qed

lemma sendIS_reply_contract: "contract_ok rf (sendIS_reply rf i t wc reply)"
proof (cases "isrTerm reply > t")
  case True
  then show ?thesis by (simp add: sendIS_reply_def leaderDemoted_contract')
next
  case False
  then show ?thesis
    by (intro contract_frame) (auto simp: sendIS_reply_def wakeApply_def wf_raft_def)
qed

lemma sendPrepare_contract:
  assumes "sendPrepare rf i wt wc isRetry = Inr (rf', act)"
  shows "contract_ok rf rf'"
  using assms
  by (intro contract_frame)
     (auto simp: sendPrepare_def sendAE_prepare_def go_inv Let_def wf_raft_def resetTicker_def split: if_splits)

lemma apply_loop_contract: "apply_loop rf = Inr (rf', res) \<Longrightarrow> contract_ok rf rf'"
  by (intro contract_frame) (auto simp: apply_loop_def go_inv Let_def wf_raft_def split: if_splits)

lemma apply_commit_contract:
  assumes "apply_commit rf = Inr (rf', res)"
  shows "contract_ok rf rf'"
proof -
  have "contract_ok rf (rf\<lparr>commitIndex := n\<rparr>)" for n
    by (rule contract_frame) (auto simp: wf_raft_def)
  with assms show ?thesis
    by (auto simp: apply_commit_def go_inv intro: apply_loop_contract contract_trans [OF _ apply_loop_contract]
        split: if_splits)
qed

lemma contract_field_updates:
  "contract_ok rf (rf\<lparr>notifyApply := b\<rparr>)" "contract_ok rf (rf\<lparr>lastApplied := n\<rparr>)"
  "contract_ok rf (Kill rf)" "contract_ok rf (drainRst i rf)" "contract_ok rf (heartbeatFire i rf)"
  "contract_ok rf (abortElection rf)" "contract_ok rf (endElection rf)" "contract_ok rf (sendFailed rf i wc)"
  by (rule contract_frame; simp add: wf_raft_def Kill_def drainRst_def heartbeatFire_def wakeApply_def
      abortElection_def endElection_def sendFailed_def Let_def)+

text \<open>Every critical section honours the contract.\<close>

lemma plain_step_contract: "plain_step rf rf' \<Longrightarrow> contract_ok rf rf'"
proof (induction rule: plain_step.induct)
  case (ticker_fire rf rf' tok)
  then show ?case
    by (intro contract_frame) (auto simp: tickerFire_def wf_raft_def split: if_splits)
next
  case (send_guard rf wt wc rf' go_on)
  then show ?case
    by (intro contract_frame) (auto simp: sendGuard_def wf_raft_def split: if_splits)
next
  case (await_notify rf i isRetry rf')
  then show ?case
    by (intro contract_frame) (auto simp: awaitNotify_def wf_raft_def split: if_splits)
next
  case (worker_quit rf)
  then show ?case
    by (intro contract_frame) (auto simp: workerQuit_def wf_raft_def)
next
  case (broadcast rf rf' go_on)
  then show ?case
    by (intro contract_frame)
       (auto simp: boardcast_begin_def cancelCtx_def wakeApply_def go_inv wf_raft_def split: if_splits option.splits)
next
  case (broadcast_one rf i rf' go_on)
  then show ?case
    by (intro contract_frame)
       (auto simp: boardcast_one_def resetTicker_def wf_raft_def split: if_splits option.splits)
next
  case (apply_wake rf rf' res)
  then show ?case
    by (auto simp: apply_wake_def Let_def intro: contract_field_updates contract_trans [OF _ apply_commit_contract]
        split: if_splits)
next
  case (apply_snap si rf rf' res)
  then show ?case
    by (auto simp: apply_snap_done_def intro: contract_field_updates contract_trans [OF _ apply_commit_contract])
qed (blast intro: RequestVote_contract AppendEntries_check_contract Snapshot_contract Start_contract
      sendPrepare_contract sendIS_reply_contract sendAE_reply_contract apply_loop_contract
      contract_field_updates)+

lemma local_step_contract: "local_step rf rf' \<Longrightarrow> contract_ok rf rf'"
  by (auto elim!: local_step.cases intro: plain_step_contract AppendEntries_append_contract InstallSnapshot_contract)

lemma peer_step_contract: "peer_step rf rf' \<Longrightarrow> contract_ok rf rf'"
  by (auto elim!: peer_step.cases intro: local_step_contract startElection_contract countVote_contract)

text \<open>
  Only the vote count makes a leader: after any other step a leader was a leader before, in the
  same term.
\<close>

lemma stepDown_state: "stepDown rf = Inr rf' \<Longrightarrow> state rf' = Follower"
  by (elim stepDown_Inr) simp

lemma small_frames [simp]:
  "state (wakeApply rf) = state rf" "CurrentTerm (wakeApply rf) = CurrentTerm rf" "me (wakeApply rf) = me rf"
  "state (resetTicker i rf) = state rf" "CurrentTerm (resetTicker i rf) = CurrentTerm rf"
  "state (advanceCommit args rf) = state rf" "CurrentTerm (advanceCommit args rf) = CurrentTerm rf"
  "state (adoptTerm t rf) = state rf" "state (installData rf isargs) = state rf"
  by (simp_all add: wakeApply_def resetTicker_def advanceCommit_def adoptTerm_def installData_def)

lemma RequestVote_leader:
  assumes "RequestVote rf rv = Inr (rf', r1)" and "state rf' = Leader"
  shows "state rf = Leader \<and> CurrentTerm rf' = CurrentTerm rf"
  using assms by (auto simp: RequestVote_def go_inv dest: stepDown_state split: if_splits)

lemma AppendEntries_check_state:
  assumes "AppendEntries_check rf ae = Inr (rf', ph)"
  shows "rf' = rf \<or> state rf' = Follower"
proof (cases "aeTerm ae < CurrentTerm rf")
  case True with assms show ?thesis by (simp add: AppendEntries_check_def)
next
  case False
  with assms obtain rf1 c where "stepDown rf = Inr rf1"
    and "rf' = resetTicker c (adoptTerm (aeTerm ae) rf1) \<or>
         rf' = advanceCommit ae (resetTicker c (adoptTerm (aeTerm ae) rf1))"
    by (auto simp: AppendEntries_check_def go_bind_Inr_iff Let_def split: if_splits option.splits)
  then show ?thesis by (auto dest: stepDown_state)
qed

lemma AppendEntries_append_state:
  assumes "AppendEntries_append rf ae = Inr rf'"
  shows "state rf' = state rf \<and> CurrentTerm rf' = CurrentTerm rf"
proof -
  from assms have "rf' = rf \<or> (\<exists>l. rf' = advanceCommit ae (persist (rf\<lparr>Log := l\<rparr>)))"
    by (auto simp: AppendEntries_append_def go_bind_Inr_iff split: if_splits)
  then show ?thesis by auto
qed

lemma InstallSnapshot_leader:
  assumes "InstallSnapshot rf sn = Inr (rf', r3)" and "state rf' = Leader"
  shows "state rf = Leader \<and> CurrentTerm rf' = CurrentTerm rf"
proof (cases "isTerm sn < CurrentTerm rf")
  case True with assms show ?thesis by (auto simp: InstallSnapshot_def)
next
  case False
  then have "isTerm sn \<ge> CurrentTerm rf" by simp
  with assms(1) have "state rf' = Follower"
  proof (cases rule: InstallSnapshot_Inr)
    case (1 rf3) then show ?thesis by (auto dest: stepDown_state)
  next
    case (2 rf3)
    from 2(2) show ?thesis by (elim replaceLog_Inr) (auto simp: stepDown_state [OF 2(1)])
  qed
  with assms(2) show ?thesis by simp
qed

lemma sender_not_leader:
  "sendPrepare rf i wt wc isRetry = Inr (rf', act) \<Longrightarrow> state rf' = Leader \<Longrightarrow> state rf = Leader \<and> CurrentTerm rf' = CurrentTerm rf"
  "sendAE_reply rf i ae wc reply = Inr rf' \<Longrightarrow> state rf' = Leader \<Longrightarrow> state rf = Leader \<and> CurrentTerm rf' = CurrentTerm rf"
  "state (sendIS_reply rf i t wc isreply) = Leader \<Longrightarrow> state rf = Leader \<and> CurrentTerm (sendIS_reply rf i t wc isreply) = CurrentTerm rf"
  by (auto simp: sendPrepare_def sendAE_prepare_def sendAE_reply_def sendAE_success_def sendAE_failure_def
      sendIS_reply_def leaderDemoted_def wakeApply_def resetTicker_def go_inv Let_def split: if_splits)

lemma apply_loop_frame:
  "apply_loop rf = Inr (rf', res) \<Longrightarrow> state rf' = state rf \<and> CurrentTerm rf' = CurrentTerm rf"
  by (auto simp: apply_loop_def go_bind_Inr_iff Let_def split: if_splits)

lemma apply_commit_frame:
  assumes "apply_commit rf = Inr (rf', res)"
  shows "state rf' = state rf \<and> CurrentTerm rf' = CurrentTerm rf"
proof -
  from assms have "rf' = rf \<or> apply_loop rf = Inr (rf', res) \<or>
      apply_loop (rf\<lparr>commitIndex := minMatchIndex rf\<rparr>) = Inr (rf', res)"
    by (auto simp: apply_commit_def go_bind_Inr_iff split: if_splits)
  then show ?thesis by (auto dest: apply_loop_frame)
qed

lemma apply_wake_frame:
  assumes "apply_wake rf = Inr (rf', res)"
  shows "state rf' = state rf \<and> CurrentTerm rf' = CurrentTerm rf"
proof -
  from assms have "rf' = rf\<lparr>notifyApply := False\<rparr> \<or> apply_commit (rf\<lparr>notifyApply := False\<rparr>) = Inr (rf', res)"
    by (auto simp: apply_wake_def Let_def split: if_splits)
  then show ?thesis by (auto dest: apply_commit_frame)
qed

lemma apply_snap_done_frame:
  "apply_snap_done si rf = Inr (rf', res) \<Longrightarrow> state rf' = state rf \<and> CurrentTerm rf' = CurrentTerm rf"
  unfolding apply_snap_done_def by (drule apply_commit_frame) simp

lemma plain_step_leader:
  assumes "plain_step rf rf'" and "state rf' = Leader"
  shows "state rf = Leader \<and> CurrentTerm rf' = CurrentTerm rf"
  using assms
proof (cases rule: plain_step.cases)
  case (request_vote args reply) with assms(2) show ?thesis by (blast dest: RequestVote_leader)
next
  case (append_check args' ph) with assms(2) show ?thesis by (auto dest: AppendEntries_check_state)
next
  case (send_prepare i wt wc isRetry act) with assms(2) show ?thesis by (blast dest: sender_not_leader)
next
  case (send_is_reply i t wc isreply) with assms(2) show ?thesis by (blast dest: sender_not_leader)
next
  case (send_ae_reply i args' wc aereply) with assms(2) show ?thesis by (blast dest: sender_not_leader)
next
  case (apply_wake res') with assms(2) show ?thesis by (auto dest: apply_wake_frame)
next
  case (apply_snap si res') with assms(2) show ?thesis by (auto dest: apply_snap_done_frame)
next
  case (apply_round res') with assms(2) show ?thesis by (auto dest: apply_loop_frame)
qed (use assms(2) in \<open>auto simp: Snapshot_def Start_def Kill_def drainRst_def tickerFire_def heartbeatFire_def
      wakeApply_def abortElection_def endElection_def workerQuit_def sendGuard_def awaitNotify_def sendFailed_def boardcast_begin_def cancelCtx_def
      boardcast_one_def resetTicker_def go_inv Let_def split: if_splits option.splits\<close>)

lemma local_step_leader:
  assumes "local_step rf rf'" and "state rf' = Leader"
  shows "state rf = Leader \<and> CurrentTerm rf' = CurrentTerm rf"
  using assms
proof (cases rule: local_step.cases)
  case (append_append args') with assms(2) show ?thesis by (auto dest: AppendEntries_append_state)
next
  case (install_snapshot isargs isreply) with assms(2) show ?thesis by (blast dest: InstallSnapshot_leader)
qed (use assms(2) plain_step_leader in blast)

subsection \<open>The contract as an interface, and runs of a peer\<close>

text \<open>
  The cluster and the recovery argument use a peer only through this interface: any relation
  whose steps honour the contract, run any number of times.
\<close>

locale peer_contract =
  fixes step :: "'c raft \<Rightarrow> 'c raft \<Rightarrow> bool"
  assumes step_ok: "step rf rf' \<Longrightarrow> contract_ok rf rf'"
begin

lemma run_ok: "step\<^sup>*\<^sup>* rf rf' \<Longrightarrow> contract_ok rf rf'"
  by (induction rule: rtranclp_induct) (auto intro: contract_trans step_ok)

lemma run_keeps_shape: "step\<^sup>*\<^sup>* rf rf' \<Longrightarrow> wf_raft rf \<Longrightarrow> wf_raft rf'"
  using run_ok by (auto simp: contract_ok_def)

lemma run_keeps_synced: "step\<^sup>*\<^sup>* rf rf' \<Longrightarrow> wf_raft rf \<Longrightarrow> synced rf \<Longrightarrow> synced rf'"
  using run_ok by (auto simp: contract_ok_def)

lemma run_vote_once:
  "step\<^sup>*\<^sup>* rf rf' \<Longrightarrow> VotedFor rf \<noteq> -1 \<Longrightarrow> CurrentTerm rf' = CurrentTerm rf \<Longrightarrow> VotedFor rf' = VotedFor rf"
  using run_ok by (auto simp: contract_ok_def)

end

interpretation peer: peer_contract peer_step
  by unfold_locales (rule peer_step_contract)

subsection \<open>Restarting a peer\<close>

lemma decodeNv_nvStream [simp]: "decodeNv (nvStream rf) = Some (CurrentTerm rf, VotedFor rf, Log rf, SnapshotIndex rf)"
  by (simp add: decodeNv_def nvStream_def)

lemma newRaft_wf: "i < n \<Longrightarrow> wf_raft (newRaft n i ps)"
  by (simp add: wf_raft_def newRaft_def)

lemma Make_fresh: "Make n i MakePersister = Inr (newRaft n i MakePersister)"
  by (simp add: Make_def readPersist_def MakePersister_def newRaft_def)

lemma Make_recovers:
  assumes wf: "wf_raft rf" and sync: "synced rf"
  obtains rf' where "Make (npeers rf) (me rf) (Copy (persister rf)) = Inr rf'"
    "CurrentTerm rf' = CurrentTerm rf" "VotedFor rf' = VotedFor rf" "Log rf' = Log rf"
    "SnapshotIndex rf' = SnapshotIndex rf" "me rf' = me rf" "npeers rf' = npeers rf"
    "state rf' = Follower" "wf_raft rf'" "synced rf'"
proof (cases "raftstate (persister rf) = nvStream rf")
  case True
  define r1 where "r1 = (newRaft (npeers rf) (me rf) (persister rf))
      \<lparr>CurrentTerm := CurrentTerm rf, VotedFor := VotedFor rf, Log := Log rf, SnapshotIndex := SnapshotIndex rf\<rparr>"
  have stream: "nvStream rf \<noteq> []" by (simp add: nvStream_def)
  have mk: "Make (npeers rf) (me rf) (Copy (persister rf)) =
      (if snapshot (persister rf) \<noteq> []
       then Inr (wakeApply (r1\<lparr>SnapshotByte := Some (snapshot (persister rf)), SnapshotTerm := Term (Log rf ! 0)\<rparr>))
       else Inr r1)"
    using wf True stream
    by (auto simp: Make_def readPersist_def r1_def newRaft_def go_index_def wf_raft_def Let_def Suc_le_eq)
  have "wf_raft r1" using wf by (auto simp: wf_raft_def r1_def newRaft_def)
  moreover have "synced r1" if "snapshot (persister rf) = []"
    using that True by (simp add: synced_def r1_def newRaft_def nvStream_def)
  ultimately show ?thesis using that mk True
    by (cases "snapshot (persister rf) = []")
       (auto simp: r1_def newRaft_def wf_raft_def synced_def nvStream_def wakeApply_def)
next
  case False
  with sync have "raftstate (persister rf) = []" "CurrentTerm rf = 0" "VotedFor rf = -1"
    "Log rf = [\<lparr>Term = 0, Command = None\<rparr>]" "SnapshotIndex rf = 0" "snapshot (persister rf) = []"
    by (auto simp: synced_def)
  then show ?thesis using that wf
    by (auto simp: Make_def readPersist_def newRaft_def wf_raft_def synced_def)
qed

end
