(* ===== verification/Raft_Cluster.thy ===== *)
theory Raft_Cluster
  imports Raft_Peer
begin

text \<open>
  A cluster of Raft peers: any number of peers that take local steps (\<open>Raft_Peer.local_step\<close>), run
  elections (\<open>ElectionWorker\<close> and the \<open>GetVote\<close> goroutines of \<open>src/raft1/raft.go\<close>), crash and
  restart from their stable storage, over a network that may delay, reorder and lose requests and
  replies (\<open>src/labrpc/labrpc.go\<close>: a call runs its handler at most once). The theory proves Election
  Safety: over a whole run at most one peer ever becomes leader in a term.

  A \<open>GetVote\<close> goroutine is identified by its candidate, the term of its election and the peer it
  asks, and \<open>gv\<close> is where it stands. AppendEntries and InstallSnapshot traffic is left open: a
  local step may handle any such message, so the result does not depend on what leaders send.
  \<open>grants\<close> and \<open>leads\<close> are history variables: the votes that were cast and the elections that were
  won; no step reads them.
\<close>

subsection \<open>Quorums\<close>

definition electionQuorum :: "nat \<Rightarrow> nat set \<Rightarrow> bool" where
  \<comment> \<open>\<open>voteCount >= len(rf.peers)/2+1\<close>\<close>
  "electionQuorum n V \<longleftrightarrow> V \<subseteq> {..<n} \<and> n div 2 + 1 \<le> card V"

definition commitQuorum :: "nat \<Rightarrow> nat set \<Rightarrow> bool" where
  \<comment> \<open>the peers at or above the entry \<open>len(tmpMatchIndex)/2\<close> of the sorted match indices\<close>
  "commitQuorum n V \<longleftrightarrow> V \<subseteq> {..<n} \<and> n - n div 2 \<le> card V"

locale quorums =
  fixes elects :: "'q set \<Rightarrow> bool" and commits :: "'q set \<Rightarrow> bool"
  assumes elect_elect: "elects A \<Longrightarrow> elects B \<Longrightarrow> A \<inter> B \<noteq> {}"
    and elect_commit: "elects A \<Longrightarrow> commits B \<Longrightarrow> A \<inter> B \<noteq> {}"
begin

lemma same_choice:
  assumes "elects A" and "elects B"
    and "\<And>v. v \<in> A \<Longrightarrow> choice v = x" and "\<And>v. v \<in> B \<Longrightarrow> choice v = y"
  shows "x = y"
  using elect_elect [OF assms(1,2)] assms(3,4) by blast

end

interpretation raftq: quorums "electionQuorum n" "commitQuorum n" for n
  by unfold_locales (rule card_subsets_intersect [of _ n]; auto simp: electionQuorum_def commitQuorum_def)+

subsection \<open>Cluster states and steps\<close>

datatype gv =
    GvNone
  | GvSpawned
  | GvCalling RequestVoteArgs
  | GvReplied RequestVoteArgs RequestVoteReply
  | GvQueued RequestVoteArgs RequestVoteReply
  | GvDone

record worker =
  ElectionTerm :: int
  voteCount :: nat
  received :: nat
  voters :: "nat set"

record 'c cluster =
  srv :: "nat \<Rightarrow> 'c raft"
  gvote :: "nat \<Rightarrow> int \<Rightarrow> nat \<Rightarrow> gv"
  elect :: "nat \<Rightarrow> worker option"
  quit :: "nat set"
  grants :: "(nat \<times> int \<times> nat) set"
  leads :: "(int \<times> nat) set"

definition init_cluster :: "nat \<Rightarrow> 'c cluster" where
  "init_cluster n =
     \<lparr>srv = (\<lambda>i. newRaft n i MakePersister), gvote = (\<lambda>_ _ _. GvNone), elect = (\<lambda>_. None), quit = {},
      grants = {}, leads = {}\<rparr>"

definition setGv :: "nat \<Rightarrow> int \<Rightarrow> nat \<Rightarrow> gv \<Rightarrow> 'c cluster \<Rightarrow> 'c cluster" where
  "setGv i et p g s = s\<lparr>gvote := (gvote s)(i := (gvote s i)(et := (gvote s i et)(p := g)))\<rparr>"

definition setSrv :: "nat \<Rightarrow> 'c raft \<Rightarrow> 'c cluster \<Rightarrow> 'c cluster" where
  "setSrv i rf s = s\<lparr>srv := (srv s)(i := rf)\<rparr>"

definition afterVote :: "worker \<Rightarrow> nat \<Rightarrow> RequestVoteReply \<Rightarrow> vote_outcome \<Rightarrow> worker option" where
  \<comment> \<open>the worker after a counted reply of peer \<open>p\<close>: it goes on or the election is over\<close>
  "afterVote w p reply out =
     (case out of
        VoteGoOn k \<Rightarrow> Some (w\<lparr>voteCount := k, received := Suc (received w),
                             voters := (if VoteGranted reply then insert p (voters w) else voters w)\<rparr>)
      | _ \<Rightarrow> None)"

inductive cluster_step :: "nat \<Rightarrow> 'c cluster \<Rightarrow> 'c cluster \<Rightarrow> bool" for n where
  peer_local:
    "i < n \<Longrightarrow> local_step (srv s i) rf' \<Longrightarrow> cluster_step n s (setSrv i rf' s)"
| election_start:
    "i < n \<Longrightarrow> i \<notin> quit s \<Longrightarrow> elect s i = None \<Longrightarrow> startElection (srv s i) = Some (rf', et) \<Longrightarrow>
     cluster_step n s ((setSrv i rf' s)
       \<lparr>gvote := (gvote s)(i := (gvote s i)(et := (\<lambda>p. if p < n \<and> p \<noteq> i then GvSpawned else GvNone))),
        elect := (elect s)(i := Some \<lparr>ElectionTerm = et, voteCount = 1, received = 0, voters = {i}\<rparr>),
        grants := insert (i, et, i) (grants s)\<rparr>)"
| getvote_send:
    "i < n \<Longrightarrow> gvote s i et p = GvSpawned \<Longrightarrow> GetVote_args (srv s i) = Inr (Some args) \<Longrightarrow>
     cluster_step n s (setGv i et p (GvCalling args) s)"
| getvote_quit:
    "i < n \<Longrightarrow> gvote s i et p = GvSpawned \<Longrightarrow> GetVote_args (srv s i) = Inr None \<Longrightarrow>
     cluster_step n s (setGv i et p GvDone s)"
| request_handled:
    "i < n \<Longrightarrow> p < n \<Longrightarrow> gvote s i et p = GvCalling args \<Longrightarrow> RequestVote (srv s p) args = Inr (rf', reply) \<Longrightarrow>
     cluster_step n s ((setSrv p rf' (setGv i et p (GvReplied args reply) s))
       \<lparr>grants := (if VoteGranted reply then insert (p, rvTerm args, i) (grants s) else grants s)\<rparr>)"
| request_lost:
    "i < n \<Longrightarrow> gvote s i et p = GvCalling args \<Longrightarrow>
     cluster_step n s (setGv i et p (GvQueued args (GetVote_result None)) s)"
| reply_arrives:
    "i < n \<Longrightarrow> gvote s i et p = GvReplied args reply \<Longrightarrow>
     cluster_step n s (setGv i et p (GvQueued args (GetVote_result (Some reply))) s)"
| reply_lost:
    "i < n \<Longrightarrow> gvote s i et p = GvReplied args reply \<Longrightarrow>
     cluster_step n s (setGv i et p (GvQueued args (GetVote_result None)) s)"
| vote_counted:
    "i < n \<Longrightarrow> elect s i = Some w \<Longrightarrow> gvote s i (ElectionTerm w) p = GvQueued args reply \<Longrightarrow>
     countVote (srv s i) (ElectionTerm w) (voteCount w) reply = (rf', out) \<Longrightarrow>
     cluster_step n s ((setSrv i rf' (setGv i (ElectionTerm w) p GvDone s))
       \<lparr>leads := (if out = VoteWon then insert (ElectionTerm w, i) (leads s) else leads s),
        elect := (elect s)(i := afterVote w p reply out)\<rparr>)"
| election_stale:
    "i < n \<Longrightarrow> elect s i = Some w \<Longrightarrow> CurrentTerm (srv s i) \<noteq> ElectionTerm w \<Longrightarrow>
     cluster_step n s (s\<lparr>elect := (elect s)(i := None)\<rparr>)"
| election_aborted:
    "i < n \<Longrightarrow> elect s i = Some w \<Longrightarrow> ElectionAbort (srv s i) \<Longrightarrow>
     cluster_step n s ((setSrv i (abortElection (srv s i)) s)\<lparr>elect := (elect s)(i := None)\<rparr>)"
| election_over:
    "i < n \<Longrightarrow> elect s i = Some w \<Longrightarrow> received w = n - 1 \<Longrightarrow>
     cluster_step n s ((setSrv i (endElection (srv s i)) s)\<lparr>elect := (elect s)(i := None)\<rparr>)"
| worker_quits:
    "i < n \<Longrightarrow> elect s i = None \<Longrightarrow> ElectionAbort (srv s i) \<Longrightarrow>
     cluster_step n s ((setSrv i (workerQuit (srv s i)) s)\<lparr>quit := insert i (quit s)\<rparr>)"
| crash_restart:
    "i < n \<Longrightarrow> Make n i (Copy (persister (srv s i))) = Inr rf' \<Longrightarrow>
     cluster_step n s ((setSrv i rf' s)\<lparr>elect := (elect s)(i := None), quit := quit s - {i}\<rparr>)"

inductive reachable :: "nat \<Rightarrow> 'c cluster \<Rightarrow> bool" for n where
  init: "reachable n (init_cluster n)"
| step: "reachable n s \<Longrightarrow> cluster_step n s s' \<Longrightarrow> reachable n s'"

subsection \<open>The invariant\<close>

definition peers_ok :: "nat \<Rightarrow> 'c cluster \<Rightarrow> bool" where
  "peers_ok n s \<longleftrightarrow>
     (\<forall>i < n. wf_raft (srv s i) \<and> synced (srv s i) \<and> me (srv s i) = i \<and> npeers (srv s i) = n)"

definition grants_ok :: "nat \<Rightarrow> 'c cluster \<Rightarrow> bool" where
  \<comment> \<open>a vote that was cast is still on record while its term lasts, and is unique\<close>
  "grants_ok n s \<longleftrightarrow>
     (\<forall>v t c. (v, t, c) \<in> grants s \<longrightarrow> v < n \<and>
        (t < CurrentTerm (srv s v) \<or> t = CurrentTerm (srv s v) \<and> VotedFor (srv s v) = int c)) \<and>
     (\<forall>v t c c'. (v, t, c) \<in> grants s \<longrightarrow> (v, t, c') \<in> grants s \<longrightarrow> c = c')"

fun gv_ok :: "'c cluster \<Rightarrow> nat \<Rightarrow> int \<Rightarrow> nat \<Rightarrow> gv \<Rightarrow> bool" where
  "gv_ok s i et p GvNone = True"
| "gv_ok s i et p GvSpawned = (et \<le> CurrentTerm (srv s i))"
| "gv_ok s i et p (GvCalling a) =
     (et \<le> rvTerm a \<and> rvTerm a \<le> CurrentTerm (srv s i) \<and> CandidateId a = int i)"
| "gv_ok s i et p (GvReplied a r) =
     (et \<le> rvTerm a \<and> rvTerm a \<le> CurrentTerm (srv s i) \<and> (VoteGranted r \<longrightarrow> (p, rvTerm a, i) \<in> grants s))"
| "gv_ok s i et p (GvQueued a r) =
     (et \<le> rvTerm a \<and> rvTerm a \<le> CurrentTerm (srv s i) \<and> (VoteGranted r \<longrightarrow> (p, rvTerm a, i) \<in> grants s))"
| "gv_ok s i et p GvDone = (et \<le> CurrentTerm (srv s i))"

definition worker_ok :: "nat \<Rightarrow> 'c cluster \<Rightarrow> nat \<Rightarrow> worker \<Rightarrow> bool" where
  "worker_ok n s i w \<longleftrightarrow>
     ElectionTerm w \<le> CurrentTerm (srv s i) \<and> i \<in> voters w \<and> voters w \<subseteq> {..<n} \<and>
     card (voters w) = voteCount w \<and>
     (\<forall>v \<in> voters w. (v, ElectionTerm w, i) \<in> grants s \<and> (v = i \<or> gvote s i (ElectionTerm w) v = GvDone))"

definition leads_ok :: "nat \<Rightarrow> 'c cluster \<Rightarrow> bool" where
  "leads_ok n s \<longleftrightarrow>
     (\<forall>t i. (t, i) \<in> leads s \<longrightarrow> (\<exists>V. electionQuorum n V \<and> (\<forall>v \<in> V. (v, t, i) \<in> grants s))) \<and>
     (\<forall>i < n. state (srv s i) = Leader \<longrightarrow> (CurrentTerm (srv s i), i) \<in> leads s)"

definition cluster_inv :: "nat \<Rightarrow> 'c cluster \<Rightarrow> bool" where
  "cluster_inv n s \<longleftrightarrow> peers_ok n s \<and> grants_ok n s \<and>
     (\<forall>i < n. \<forall>et p. gv_ok s i et p (gvote s i et p) \<and> (p = i \<longrightarrow> gvote s i et p = GvNone)) \<and>
     (\<forall>i < n. \<forall>w. elect s i = Some w \<longrightarrow> worker_ok n s i w) \<and> leads_ok n s"

lemma setSrv_simps [simp]:
  "srv (setSrv i rf s) = (srv s)(i := rf)" "gvote (setSrv i rf s) = gvote s" "elect (setSrv i rf s) = elect s"
  "grants (setSrv i rf s) = grants s" "leads (setSrv i rf s) = leads s" "quit (setSrv i rf s) = quit s"
  by (simp_all add: setSrv_def)

lemma setGv_simps [simp]:
  "srv (setGv i et p g s) = srv s" "elect (setGv i et p g s) = elect s" "grants (setGv i et p g s) = grants s"
  "leads (setGv i et p g s) = leads s" "quit (setGv i et p g s) = quit s"
  "gvote (setGv i et p g s) = (gvote s)(i := (gvote s i)(et := (gvote s i et)(p := g)))"
  by (simp_all add: setGv_def)

lemma gv_ok_cong:
  assumes "CurrentTerm (srv s i) \<le> CurrentTerm (srv s' i)" and "grants s \<subseteq> grants s'" and "gv_ok s i et p g"
  shows "gv_ok s' i et p g"
  using assms by (cases g) auto

lemma inv_setSrv:
  assumes inv: "cluster_inv n s" and i: "i < n" and c: "contract_ok (srv s i) rf'"
    and l: "state rf' = Leader \<Longrightarrow> state (srv s i) = Leader \<and> CurrentTerm rf' = CurrentTerm (srv s i)"
  shows "cluster_inv n (setSrv i rf' s)"
proof -
  let ?s = "setSrv i rf' s"
  have mono: "CurrentTerm (srv s j) \<le> CurrentTerm (srv ?s j)" for j
    using c by (simp add: contract_ok_def)
  have "peers_ok n ?s" using inv i c by (simp add: cluster_inv_def peers_ok_def contract_ok_def)
  moreover have "grants_ok n ?s"
    using inv c by (fastforce simp: cluster_inv_def grants_ok_def contract_ok_def)
  moreover have "gv_ok ?s j et p (gvote ?s j et p) \<and> (p = j \<longrightarrow> gvote ?s j et p = GvNone)" if "j < n" for j et p
    using inv that gv_ok_cong [OF mono] by (simp add: cluster_inv_def)
  moreover have "worker_ok n ?s j w" if "j < n" "elect ?s j = Some w" for j w
  proof -
    have "worker_ok n s j w" using inv that by (simp add: cluster_inv_def)
    then show ?thesis using mono [of j] by (simp add: worker_ok_def)
  qed
  moreover have "leads_ok n ?s" using inv i l by (simp add: cluster_inv_def leads_ok_def)
  ultimately show ?thesis by (simp add: cluster_inv_def)
qed

lemma inv_grant:
  assumes inv: "cluster_inv n s" and v: "v < n" and t: "CurrentTerm (srv s v) = t" and c: "VotedFor (srv s v) = int c"
  shows "cluster_inv n (s\<lparr>grants := insert (v, t, c) (grants s)\<rparr>)"
proof -
  let ?s = "s\<lparr>grants := insert (v, t, c) (grants s)\<rparr>"
  have uniq: "c' = c" if "(v, t, c') \<in> grants s" for c'
  proof -
    have "grants_ok n s" using inv by (simp add: cluster_inv_def)
    with that t c have "VotedFor (srv s v) = int c'" unfolding grants_ok_def by blast
    with c show ?thesis by simp
  qed
  have "grants_ok n ?s" using inv v t c uniq unfolding cluster_inv_def grants_ok_def
    by simp
  moreover have "gv_ok ?s j et p (gvote ?s j et p) \<and> (p = j \<longrightarrow> gvote ?s j et p = GvNone)" if "j < n" for j et p
    using inv that gv_ok_cong [of s j ?s et p "gvote s j et p"] by (auto simp: cluster_inv_def)
  moreover have "worker_ok n ?s j w" if "j < n" "elect ?s j = Some w" for j w
    using inv that by (auto simp: cluster_inv_def worker_ok_def)
  moreover have "peers_ok n ?s" using inv by (simp add: cluster_inv_def peers_ok_def)
  moreover have "leads_ok n ?s" using inv unfolding cluster_inv_def leads_ok_def
    by simp blast
  ultimately show ?thesis by (simp add: cluster_inv_def)
qed

lemma inv_setGv:
  assumes inv: "cluster_inv n s" and i: "i < n" and g: "gv_ok s i et p g" and old: "gvote s i et p \<noteq> GvDone"
    and some: "gvote s i et p \<noteq> GvNone"
  shows "cluster_inv n (setGv i et p g s)"
proof -
  let ?s = "setGv i et p g s"
  have same: "gv_ok ?s j e q x = gv_ok s j e q x" for j e q x by (cases x) auto
  have "worker_ok n ?s j w" if "j < n" "elect ?s j = Some w" for j w
  proof -
    have "worker_ok n s j w" using inv that by (simp add: cluster_inv_def)
    with old show ?thesis by (auto simp: worker_ok_def)
  qed
  moreover have "p \<noteq> i" using inv i some by (auto simp: cluster_inv_def)
  ultimately show ?thesis using inv i g
    by (auto simp: cluster_inv_def same peers_ok_def grants_ok_def leads_ok_def)
qed

lemma inv_quit [simp]: "cluster_inv n (s\<lparr>quit := Q\<rparr>) = cluster_inv n s"
proof -
  have same: "gv_ok (s\<lparr>quit := Q\<rparr>) j e q g = gv_ok s j e q g" for j e q g by (cases g) auto
  show ?thesis
    by (simp add: cluster_inv_def same peers_ok_def grants_ok_def leads_ok_def worker_ok_def)
qed

lemma inv_elect:
  assumes "cluster_inv n s" and "\<And>w. x = Some w \<Longrightarrow> worker_ok n s i w"
  shows "cluster_inv n (s\<lparr>elect := (elect s)(i := x)\<rparr>)"
proof -
  let ?s = "s\<lparr>elect := (elect s)(i := x)\<rparr>"
  have same: "gv_ok ?s j e q g = gv_ok s j e q g" "worker_ok n ?s j w = worker_ok n s j w" for j e q g w
    by (cases g) (auto simp: worker_ok_def)
  show ?thesis using assms
    by (auto simp: cluster_inv_def same peers_ok_def grants_ok_def leads_ok_def)
qed

subsection \<open>Every step keeps the invariant\<close>

lemma cluster_invD:
  assumes "cluster_inv n s" and "i < n"
  shows "wf_raft (srv s i)" "synced (srv s i)" "me (srv s i) = i" "npeers (srv s i) = n"
    "gv_ok s i et p (gvote s i et p)" "elect s i = Some w \<Longrightarrow> worker_ok n s i w"
    "state (srv s i) = Leader \<Longrightarrow> (CurrentTerm (srv s i), i) \<in> leads s" "grants_ok n s"
  using assms by (auto simp: cluster_inv_def peers_ok_def leads_ok_def)

lemma inv_local: "cluster_inv n s \<Longrightarrow> i < n \<Longrightarrow> local_step (srv s i) rf' \<Longrightarrow> cluster_inv n (setSrv i rf' s)"
  by (rule inv_setSrv) (auto dest: local_step_contract local_step_leader)

lemma GetVote_args_Some:
  assumes "GetVote_args rf = Inr (Some args)"
  shows "rvTerm args = CurrentTerm rf" "CandidateId args = int (me rf)"
  using assms by (auto simp: GetVote_args_def go_inv split: if_splits)

lemma RequestVote_granted:
  assumes "RequestVote rf args = Inr (rf', reply)" and "VoteGranted reply"
  shows "CurrentTerm rf' = rvTerm args" "VotedFor rf' = CandidateId args"
  using assms
  by (auto simp: RequestVote_def go_bind_Inr_iff resetTicker_def stepDown_def cancelCtx_def split: if_splits option.splits)

lemma inv_election_start:
  assumes inv: "cluster_inv n s" and i: "i < n" and st: "startElection (srv s i) = Some (rf', et)"
  shows "cluster_inv n ((setSrv i rf' s)
       \<lparr>gvote := (gvote s)(i := (gvote s i)(et := (\<lambda>p. if p < n \<and> p \<noteq> i then GvSpawned else GvNone))),
        elect := (elect s)(i := Some \<lparr>ElectionTerm = et, voteCount = 1, received = 0, voters = {i}\<rparr>),
        grants := insert (i, et, i) (grants s)\<rparr>)" (is "cluster_inv n ?t")
proof -
  note D = cluster_invD [OF inv i]
  have rf': "CurrentTerm rf' = CurrentTerm (srv s i) + 1" "VotedFor rf' = int i" "state rf' = Candidate"
    "et = CurrentTerm rf'"
    using st D(3) by (auto simp: startElection_def Let_def split: if_splits)
  have "cluster_inv n (setSrv i rf' s)"
    by (rule inv_setSrv [OF inv i startElection_contract [OF st]]) (simp add: rf')
  then have g: "cluster_inv n ((setSrv i rf' s)\<lparr>grants := insert (i, et, i) (grants (setSrv i rf' s))\<rparr>)"
    (is "cluster_inv n ?g") by (rule inv_grant) (simp_all add: i rf')
  have same: "gv_ok ?t j e q x = gv_ok ?g j e q x" for j e q x by (cases x) auto
  have "worker_ok n ?t j w" if "j < n" "elect ?t j = Some w" for j w
  proof (cases "j = i")
    case True with that i rf' show ?thesis by (auto simp: worker_ok_def)
  next
    case False
    with that g have "worker_ok n ?g j w" by (auto simp: cluster_inv_def)
    with False show ?thesis by (auto simp: worker_ok_def)
  qed
  moreover have "gv_ok ?t j e q (gvote ?t j e q) \<and> (q = j \<longrightarrow> gvote ?t j e q = GvNone)" if "j < n" for j e q
  proof -
    have "gv_ok ?g j e q (gvote ?g j e q) \<and> (q = j \<longrightarrow> gvote ?g j e q = GvNone)"
      using g that by (simp add: cluster_inv_def)
    then show ?thesis unfolding same using rf' by auto
  qed
  moreover have "peers_ok n ?t" "grants_ok n ?t" "leads_ok n ?t"
    using g by (simp_all add: cluster_inv_def peers_ok_def grants_ok_def leads_ok_def)
  ultimately show ?thesis by (simp add: cluster_inv_def)
qed

lemma inv_request_handled:
  assumes inv: "cluster_inv n s" and i: "i < n" and p: "p < n" and g: "gvote s i et p = GvCalling args"
    and h: "RequestVote (srv s p) args = Inr (rf', reply)"
  shows "cluster_inv n ((setSrv p rf' (setGv i et p (GvReplied args reply) s))
       \<lparr>grants := (if VoteGranted reply then insert (p, rvTerm args, i) (grants s) else grants s)\<rparr>)"
    (is "cluster_inv n ?t")
proof -
  let ?s1 = "setSrv p rf' s"
  let ?s2 = "?s1\<lparr>grants := (if VoteGranted reply then insert (p, rvTerm args, i) (grants s) else grants s)\<rparr>"
  have a: "CandidateId args = int i" "et \<le> rvTerm args" "rvTerm args \<le> CurrentTerm (srv s i)"
    using cluster_invD(5) [OF inv i, of et p] g by simp_all
  have s1: "cluster_inv n ?s1" using inv_local [OF inv p local_step.plain [OF plain_step.request_vote [OF h]]] .
  have s2: "cluster_inv n ?s2"
  proof (cases "VoteGranted reply")
    case True
    with RequestVote_granted [OF h True] a(1) inv_grant [OF s1 p, of "rvTerm args" i] show ?thesis by simp
  qed (use s1 in \<open>simp add: setSrv_def\<close>)
  have "CurrentTerm (srv s i) \<le> CurrentTerm (srv ?s2 i)"
    using RequestVote_contract [OF h] by (simp add: contract_ok_def)
  then have "cluster_inv n (setGv i et p (GvReplied args reply) ?s2)"
    using a(2,3) g by (intro inv_setGv [OF s2 i]) auto
  moreover have "setGv i et p (GvReplied args reply) ?s2 = ?t"
    by (simp add: setGv_def setSrv_def)
  ultimately show ?thesis by simp
qed

lemma inv_crash:
  assumes inv: "cluster_inv n s" and i: "i < n" and mk: "Make n i (Copy (persister (srv s i))) = Inr rf'"
  shows "cluster_inv n ((setSrv i rf' s)\<lparr>elect := (elect s)(i := None), quit := quit s - {i}\<rparr>)"
proof -
  note D = cluster_invD [OF inv i]
  obtain r where "Make (npeers (srv s i)) (me (srv s i)) (Copy (persister (srv s i))) = Inr r"
    "CurrentTerm r = CurrentTerm (srv s i)" "VotedFor r = VotedFor (srv s i)" "me r = me (srv s i)"
    "npeers r = npeers (srv s i)" "state r = Follower" "wf_raft r" "synced r"
    using Make_recovers [OF D(1,2)] by metis
  with mk D(3,4) have "contract_ok (srv s i) rf'" "state rf' = Follower" by (auto simp: contract_ok_def)
  then have "cluster_inv n (setSrv i rf' s)" by (intro inv_setSrv [OF inv i]) auto
  from inv_elect [OF this, of None i] show ?thesis unfolding inv_quit by simp
qed

lemma countVote_cases:
  assumes "countVote rf et vc reply = (rf', out)"
  obtains (stale) "out = VoteStale" "rf' = rf" "CurrentTerm rf \<noteq> et"
  | (demoted) "out = VoteDemoted" "state rf' = Follower"
  | (won) "out = VoteWon" "rf' = winElection rf" "CurrentTerm rf = et" "VoteGranted reply" "npeers rf div 2 + 1 \<le> vc + 1"
  | (granted) "out = VoteGoOn (vc + 1)" "rf' = rf" "CurrentTerm rf = et" "VoteGranted reply"
  | (refused) "out = VoteGoOn vc" "rf' = rf" "\<not> VoteGranted reply"
  using assms by (auto simp: countVote_def split: if_splits)

lemma winElection_simps [simp]:
  "state (winElection rf) = Leader" "CurrentTerm (winElection rf) = CurrentTerm rf"
  "VotedFor (winElection rf) = VotedFor rf"
  by (simp_all add: winElection_def resetTicker_def)

text \<open>A counted vote was cast in the election's own term, by a peer not counted before.\<close>

lemma counted_vote:
  assumes inv: "cluster_inv n s" and i: "i < n" and w: "elect s i = Some w"
    and g: "gvote s i (ElectionTerm w) p = GvQueued args reply"
    and ct: "CurrentTerm (srv s i) = ElectionTerm w" and vg: "VoteGranted reply"
  shows "(p, ElectionTerm w, i) \<in> grants s" "p < n" "p \<notin> voters w"
proof -
  have "gv_ok s i (ElectionTerm w) p (GvQueued args reply)"
    using cluster_invD(5) [OF inv i, of "ElectionTerm w" p] g by simp
  with ct vg show gr: "(p, ElectionTerm w, i) \<in> grants s" by auto
  then show "p < n" using cluster_invD(8) [OF inv i] by (auto simp: grants_ok_def)
  have "p \<noteq> i" using inv i g by (auto simp: cluster_inv_def)
  with cluster_invD(6) [OF inv i w] g show "p \<notin> voters w" by (auto simp: worker_ok_def)
qed

lemma inv_won:
  assumes inv: "cluster_inv n s" and i: "i < n" and Q: "electionQuorum n V"
    and gr: "\<forall>v \<in> V. (v, CurrentTerm (srv s i), i) \<in> grants s"
  shows "cluster_inv n ((setSrv i (winElection (srv s i)) s)
           \<lparr>leads := insert (CurrentTerm (srv s i), i) (leads s)\<rparr>)" (is "cluster_inv n ?t")
proof -
  let ?m = "setSrv i ((winElection (srv s i))\<lparr>state := Follower\<rparr>) s"
  have "contract_ok (srv s i) ((winElection (srv s i))\<lparr>state := Follower\<rparr>)"
    by (rule contract_frame) (simp_all add: winElection_def resetTicker_def wf_raft_def)
  then have m: "cluster_inv n ?m" by (intro inv_setSrv [OF inv i]) auto
  have same: "gv_ok ?t j e q x = gv_ok ?m j e q x" "worker_ok n ?t j w = worker_ok n ?m j w" for j e q x w
    by (cases x) (auto simp: worker_ok_def)
  have "peers_ok n ?t"
    using inv i by (auto simp: cluster_inv_def peers_ok_def winElection_def resetTicker_def wf_raft_def synced_def nvStream_def)
  moreover have "CurrentTerm (srv ?t v) = CurrentTerm (srv s v)" "VotedFor (srv ?t v) = VotedFor (srv s v)" for v
    by simp_all
  then have "grants_ok n ?t" using inv unfolding cluster_inv_def grants_ok_def by simp
  moreover have "leads_ok n ?t" using inv Q gr by (auto simp: cluster_inv_def leads_ok_def)
  ultimately show ?thesis using m by (simp add: cluster_inv_def same)
qed

lemma inv_vote_counted:
  assumes inv: "cluster_inv n s" and i: "i < n" and w: "elect s i = Some w"
    and g: "gvote s i (ElectionTerm w) p = GvQueued args reply"
    and cv: "countVote (srv s i) (ElectionTerm w) (voteCount w) reply = (rf', out)"
  shows "cluster_inv n ((setSrv i rf' (setGv i (ElectionTerm w) p GvDone s))
       \<lparr>leads := (if out = VoteWon then insert (ElectionTerm w, i) (leads s) else leads s),
        elect := (elect s)(i := afterVote w p reply out)\<rparr>)"
proof -
  let ?s0 = "setGv i (ElectionTerm w) p GvDone s"
  note W = cluster_invD(6) [OF inv i w]
  have s0: "cluster_inv n ?s0" using g W by (intro inv_setGv [OF inv i]) (auto simp: worker_ok_def)
  have w0: "elect ?s0 i = Some w" "worker_ok n ?s0 i w" using w cluster_invD(6) [OF s0 i] by simp_all
  note C = counted_vote [OF inv i w g]
  have add: "electionQuorum n (insert p (voters w))" "\<forall>v \<in> insert p (voters w). (v, ElectionTerm w, i) \<in> grants s"
    if "CurrentTerm (srv s i) = ElectionTerm w" "VoteGranted reply" "n div 2 + 1 \<le> voteCount w + 1"
    using C that W finite_subset [of "voters w" "{..<n}"] by (auto simp: worker_ok_def electionQuorum_def)
  have card: "card (insert p (voters w)) = voteCount w + 1" if "CurrentTerm (srv s i) = ElectionTerm w" "VoteGranted reply"
    using C that W finite_subset [of "voters w" "{..<n}"] by (auto simp: worker_ok_def)
  from cv show ?thesis
  proof (cases rule: countVote_cases)
    case stale
    with inv_elect [OF s0, of None i] show ?thesis by (simp add: afterVote_def setSrv_def setGv_def)
  next
    case demoted
    have "cluster_inv n (setSrv i rf' ?s0)"
      using demoted countVote_contract [OF cv] by (intro inv_setSrv [OF s0 i]) auto
    from inv_elect [OF this, of None i] demoted show ?thesis by (simp add: afterVote_def setSrv_def setGv_def)
  next
    case won
    with cluster_invD(4) [OF inv i] have q: "n div 2 + 1 \<le> voteCount w + 1" by simp
    have "cluster_inv n ((setSrv i (winElection (srv ?s0 i)) ?s0)\<lparr>leads := insert (CurrentTerm (srv ?s0 i), i) (leads ?s0)\<rparr>)"
      using add(2) [OF won(3,4) q] won(3) by (intro inv_won [OF s0 i add(1) [OF won(3,4) q]]) auto
    from inv_elect [OF this, of None i] won show ?thesis by (simp add: afterVote_def setSrv_def setGv_def)
  next
    case granted
    have "worker_ok n ?s0 i (w\<lparr>voteCount := voteCount w + 1, received := Suc (received w), voters := insert p (voters w)\<rparr>)"
      using w0(2) C(1,2) [OF granted(3,4)] card [OF granted(3,4)] by (auto simp: worker_ok_def)
    with inv_elect [OF s0, of "afterVote w p reply out" i] granted show ?thesis
      by (simp add: afterVote_def setSrv_def setGv_def)
  next
    case refused
    have "worker_ok n ?s0 i (w\<lparr>voteCount := voteCount w, received := Suc (received w)\<rparr>)"
      using w0(2) by (auto simp: worker_ok_def)
    with inv_elect [OF s0, of "afterVote w p reply out" i] refused show ?thesis
      by (simp add: afterVote_def setSrv_def setGv_def)
  qed
qed

lemma cluster_step_inv:
  assumes "cluster_step n s s'" and inv: "cluster_inv n s"
  shows "cluster_inv n s'"
  using assms
proof (induction rule: cluster_step.induct)
  case (peer_local i s rf') then show ?case by (blast intro: inv_local)
next
  case (election_start i s rf' et) then show ?case by (blast intro: inv_election_start)
next
  case (getvote_send i s et p args)
  note D = cluster_invD [OF getvote_send.prems getvote_send.hyps(1)]
  have "gv_ok s i et p (GvCalling args)"
    using GetVote_args_Some [OF getvote_send.hyps(3)] D(3) D(5) [of et p] getvote_send.hyps(2) by simp
  with getvote_send show ?case by (intro inv_setGv) auto
next
  case (getvote_quit i s et p)
  with cluster_invD(5) [OF getvote_quit.prems getvote_quit.hyps(1), of et p] show ?case by (intro inv_setGv) auto
next
  case (request_handled i p s et args rf' reply) then show ?case by (intro inv_request_handled)
next
  case (request_lost i s et p args)
  with cluster_invD(5) [OF request_lost.prems request_lost.hyps(1), of et p] show ?case
    by (intro inv_setGv) (auto simp: GetVote_result_def)
next
  case (reply_arrives i s et p args reply)
  with cluster_invD(5) [OF reply_arrives.prems reply_arrives.hyps(1), of et p] show ?case
    by (intro inv_setGv) (auto simp: GetVote_result_def)
next
  case (reply_lost i s et p args reply)
  with cluster_invD(5) [OF reply_lost.prems reply_lost.hyps(1), of et p] show ?case
    by (intro inv_setGv) (auto simp: GetVote_result_def)
next
  case (vote_counted i s w p args reply rf' out) then show ?case by (intro inv_vote_counted)
next
  case (election_stale i s w) then show ?case by (intro inv_elect) auto
next
  case (election_aborted i s w)
  from inv_local [OF election_aborted.prems election_aborted.hyps(1) local_step.plain [OF plain_step.abort_election]]
    inv_elect [of n "setSrv i (abortElection (srv s i)) s" None i] show ?case by simp
next
  case (election_over i s w)
  from inv_local [OF election_over.prems election_over.hyps(1) local_step.plain [OF plain_step.end_election]]
    inv_elect [of n "setSrv i (endElection (srv s i)) s" None i] show ?case by simp
next
  case (worker_quits i s)
  from inv_local [OF worker_quits.prems worker_quits.hyps(1) local_step.plain [OF plain_step.worker_quit]] show ?case by simp
next
  case (crash_restart i s rf') then show ?case by (intro inv_crash)
qed

lemma init_cluster_inv: "cluster_inv n (init_cluster n)"
  by (simp add: cluster_inv_def init_cluster_def peers_ok_def grants_ok_def leads_ok_def newRaft_wf)
     (simp add: newRaft_def synced_def MakePersister_def)

lemma reachable_inv: "reachable n s \<Longrightarrow> cluster_inv n s"
  by (induction rule: reachable.induct) (auto intro: init_cluster_inv cluster_step_inv)

subsection \<open>Election safety\<close>

lemma leads_unique:
  assumes "cluster_inv n s" and "(t, i) \<in> leads s" and "(t, j) \<in> leads s"
  shows "i = j"
proof -
  have L: "leads_ok n s" and G: "grants_ok n s" using assms(1) by (simp_all add: cluster_inv_def)
  obtain V where V: "electionQuorum n V" "\<forall>v \<in> V. (v, t, i) \<in> grants s"
    using L assms(2) unfolding leads_ok_def by blast
  obtain W where W: "electionQuorum n W" "\<forall>v \<in> W. (v, t, j) \<in> grants s"
    using L assms(3) unfolding leads_ok_def by blast
  obtain v where "v \<in> V" "v \<in> W" using raftq.elect_elect [OF V(1) W(1)] by blast
  with V(2) W(2) G show ?thesis unfolding grants_ok_def by blast
qed

text \<open>
  Property C1 (Election Safety). In every reachable state of a cluster of \<open>n\<close> peers, with any
  interleaving of critical sections, lost, delayed and reordered messages and crashes with restart:
  two elections that were ever won in the same term were won by the same peer, and two peers that
  are leaders of the same term are the same peer.
\<close>

theorem election_safety:
  assumes "reachable n s"
  shows "(\<forall>t i j. (t, i) \<in> leads s \<longrightarrow> (t, j) \<in> leads s \<longrightarrow> i = j) \<and>
    (\<forall>i < n. \<forall>j < n. state (srv s i) = Leader \<longrightarrow> state (srv s j) = Leader \<longrightarrow>
       CurrentTerm (srv s i) = CurrentTerm (srv s j) \<longrightarrow> i = j)"
proof -
  have inv: "cluster_inv n s" using assms by (rule reachable_inv)
  have "i = j" if "i < n" "j < n" "state (srv s i) = Leader" "state (srv s j) = Leader"
    "CurrentTerm (srv s i) = CurrentTerm (srv s j)" for i j
    using that cluster_invD(7) [OF inv] leads_unique [OF inv] by metis
  with leads_unique [OF inv] show ?thesis by blast
qed

text \<open>A run of three peers in which peer 0 wins the election of term 1 with the vote of peer 1.\<close>

definition ex_args :: RequestVoteArgs where
  "ex_args = \<lparr>rvTerm = 1, CandidateId = 0, LastLogIndex = 0, LastLogTerm = 0\<rparr>"

lemma example_run: "\<exists>s :: nat cluster. reachable 3 s \<and> (1, 0) \<in> leads s \<and> state (srv s 0) = Leader"
proof -
  define s0 :: "nat cluster" where "s0 = init_cluster 3"
  obtain r0 where r0: "startElection (srv s0 0) = Some (r0, 1)" "state r0 = Candidate" "CurrentTerm r0 = 1"
      "GetVote_args r0 = Inr (Some ex_args)" "npeers r0 = 3"
    by (auto simp: s0_def init_cluster_def startElection_def newRaft_def Let_def GetVote_args_def go_index_def
        ex_args_def Loglen_def persist_def)
  define s1 where "s1 = (setSrv 0 r0 s0)
       \<lparr>gvote := (gvote s0)(0 := (gvote s0 0)(1 := (\<lambda>p. if p < 3 \<and> p \<noteq> 0 then GvSpawned else GvNone))),
        elect := (elect s0)(0 := Some \<lparr>ElectionTerm = 1, voteCount = 1, received = 0, voters = {0}\<rparr>),
        grants := insert (0, 1, 0) (grants s0)\<rparr>"
  have s1: "reachable 3 s1" unfolding s1_def
    by (rule reachable.step [OF reachable.init], fold s0_def, rule cluster_step.election_start)
       (simp_all add: r0, simp_all add: s0_def init_cluster_def)
  define s2 where "s2 = setGv 0 1 1 (GvCalling ex_args) s1"
  have s2: "reachable 3 s2" unfolding s2_def
    by (rule reachable.step [OF s1 cluster_step.getvote_send]) (simp_all add: s1_def r0)
  obtain r1 reply where r1: "RequestVote (srv s2 1) ex_args = Inr (r1, reply)" "reply = \<lparr>rvrTerm = 1, VoteGranted = True\<rparr>"
    by (simp add: s2_def s1_def s0_def init_cluster_def newRaft_def RequestVote_def ex_args_def stepDown_def
        voteRejected_def Loglen_def)
  define s3 where "s3 = (setSrv 1 r1 (setGv 0 1 1 (GvReplied ex_args reply) s2))
       \<lparr>grants := (if VoteGranted reply then insert (1, rvTerm ex_args, 0) (grants s2) else grants s2)\<rparr>"
  have s3: "reachable 3 s3" unfolding s3_def
    by (rule reachable.step [OF s2 cluster_step.request_handled]) (use r1(1) in \<open>simp_all add: s2_def\<close>)
  define s4 where "s4 = setGv 0 1 1 (GvQueued ex_args (GetVote_result (Some reply))) s3"
  have s4: "reachable 3 s4" unfolding s4_def
    by (rule reachable.step [OF s3 cluster_step.reply_arrives]) (simp_all add: s3_def)
  have cv: "countVote (srv s4 0) 1 1 reply = (winElection r0, VoteWon)"
    by (simp add: s4_def s3_def s2_def s1_def countVote_def r0 r1(2))
  have "cluster_step 3 s4 ((setSrv 0 (winElection r0) (setGv 0 1 1 GvDone s4))
       \<lparr>leads := (if VoteWon = VoteWon then insert (1, 0) (leads s4) else leads s4),
        elect := (elect s4)(0 := afterVote \<lparr>ElectionTerm = 1, voteCount = 1, received = 0, voters = {0}\<rparr> 1 reply VoteWon)\<rparr>)"
    using cluster_step.vote_counted [of 0 3 s4 "\<lparr>ElectionTerm = 1, voteCount = 1, received = 0, voters = {0}\<rparr>" 1 ex_args reply
        "winElection r0" VoteWon] cv
    by (simp add: s4_def s3_def s2_def s1_def GetVote_result_def)
  from reachable.step [OF s4 this] show ?thesis by (intro exI) (erule conjI, simp)
qed

theorem election_safety_witness:
  "\<exists>s :: nat cluster. reachable 3 s \<and> (1, 0) \<in> leads s \<and> (\<forall>j. (1, j) \<in> leads s \<longrightarrow> j = 0)"
proof -
  obtain s :: "nat cluster" where s: "reachable 3 s" "(1, 0) \<in> leads s" using example_run by blast
  have "\<forall>j. (1, j) \<in> leads s \<longrightarrow> j = 0" using election_safety [OF s(1)] s(2) by blast
  with s show ?thesis by blast
qed

end
