(* ===== verification/Raft_Props.thy ===== *)
theory Raft_Props
  imports Raft_Cluster
begin

text \<open>
  Properties of a single Raft peer: crash recovery, votes, the two log searches, replication,
  commitment and application. Each is about the critical sections defined in \<open>Raft_State\<close>,
  \<open>Raft_RPC\<close>, \<open>Raft_Election\<close> and \<open>Raft_Leader\<close>.
\<close>

subsection \<open>Recovery and votes\<close>

text \<open>
  Property C2 (crash recovery). Whatever sequence of critical sections a peer has run since it was
  created, restarting it from a copy of its stable storage succeeds and gives back exactly the
  term, the vote, the log and the snapshot index it had at that moment: every handler persists
  before it lets go of the lock.
\<close>

theorem crash_recovery:
  assumes "i < n" and "peer_step\<^sup>*\<^sup>* (newRaft n i MakePersister) rf"
  shows "\<exists>rf'. Make n i (Copy (persister rf)) = Inr rf' \<and> CurrentTerm rf' = CurrentTerm rf \<and>
           VotedFor rf' = VotedFor rf \<and> Log rf' = Log rf \<and> SnapshotIndex rf' = SnapshotIndex rf"
proof -
  let ?r = "newRaft n i MakePersister"
  have wf0: "wf_raft ?r" using assms(1) by (rule newRaft_wf)
  have sy0: "synced ?r" by (simp add: newRaft_def synced_def MakePersister_def)
  have "me rf = i" "npeers rf = n"
    using peer.run_ok [OF assms(2)] by (simp_all add: contract_ok_def newRaft_def)
  with Make_recovers [OF peer.run_keeps_shape [OF assms(2) wf0] peer.run_keeps_synced [OF assms(2) wf0 sy0]]
  show ?thesis by metis
qed

theorem crash_recovery_witness:
  "\<exists>rf rf' :: nat raft. peer_step\<^sup>*\<^sup>* (newRaft 3 0 MakePersister) rf \<and> CurrentTerm rf = 1 \<and>
     Make 3 0 (Copy (persister rf)) = Inr rf' \<and> CurrentTerm rf' = 1 \<and> VotedFor rf' = 0"
proof -
  let ?r = "newRaft 3 0 MakePersister :: nat raft"
  obtain rf where st: "startElection ?r = Some (rf, 1)" "CurrentTerm rf = 1" "VotedFor rf = 0"
    by (auto simp: startElection_def newRaft_def Let_def)
  have run: "peer_step\<^sup>*\<^sup>* ?r rf" using st(1) by (blast intro: peer_step.start_election)
  with crash_recovery [of 0 3 rf, OF _ run] st show ?thesis by auto
qed

text \<open>
  Property C14 (one vote per term). Over any run of critical sections of a peer, the term never
  falls, and while the term stays the same a vote that was cast is not changed.
\<close>

theorem vote_once_per_term:
  assumes "peer_step\<^sup>*\<^sup>* rf rf'"
  shows "CurrentTerm rf \<le> CurrentTerm rf' \<and>
    (CurrentTerm rf' = CurrentTerm rf \<longrightarrow> VotedFor rf \<noteq> -1 \<longrightarrow> VotedFor rf' = VotedFor rf)"
  using peer.run_ok [OF assms] peer.run_vote_once [OF assms] by (simp add: contract_ok_def)

theorem vote_once_per_term_witness:
  "\<exists>rf' :: nat raft. peer_step\<^sup>*\<^sup>* (newRaft 3 0 MakePersister) rf' \<and> 0 \<le> CurrentTerm rf' \<and> VotedFor rf' = 0"
proof -
  let ?r = "newRaft 3 0 MakePersister :: nat raft"
  obtain rf where st: "startElection ?r = Some (rf, 1)" "VotedFor rf = 0"
    by (auto simp: startElection_def newRaft_def Let_def)
  have run: "peer_step\<^sup>*\<^sup>* ?r rf" using st(1) by (blast intro: peer_step.start_election)
  from vote_once_per_term [OF run] run st show ?thesis by (auto simp: newRaft_def)
qed

lemma voteRejected_frame [simp]:
  "voteRejected (rf\<lparr>CurrentTerm := t\<rparr>) args = voteRejected rf args"
  "voteRejected (rf\<lparr>state := r\<rparr>) args = voteRejected rf args"
  "voteRejected (rf\<lparr>cancelled := X\<rparr>) args = voteRejected rf args"
  "voteRejected (persist rf) args = voteRejected rf args"
  by (simp_all add: voteRejected_def Loglen_def)

lemma RequestVote_grantE:
  assumes "RequestVote rf args = Inr (rf', reply)" and "VoteGranted reply"
  obtains "CurrentTerm rf \<le> rvTerm args" "\<not> voteRejected rf args" "raftstate (persister rf') = nvStream rf'"
proof (cases "rvTerm args \<le> CurrentTerm rf")
  case True
  with assms that show ?thesis by (auto simp: RequestVote_def resetTicker_def nvStream_def split: if_splits)
next
  case False
  with assms obtain rf2 where sd: "stepDown (persist (rf\<lparr>CurrentTerm := rvTerm args\<rparr>)) = Inr rf2"
    and h: "\<not> voteRejected rf2 args" "rf' = persist ((resetTicker (me rf2) rf2)\<lparr>VotedFor := CandidateId args\<rparr>)"
    by (auto simp: RequestVote_def go_bind_Inr_iff split: if_splits)
  note h(1)
  moreover have "voteRejected rf2 args = voteRejected rf args"
    using sd by (elim stepDown_Inr) simp
  ultimately show ?thesis using that h False by (auto simp: nvStream_def)
qed

text \<open>
  Voting rule. A granted vote is for a candidate whose term is not behind and whose
  log is at least as up to date as the voter's (a later last term, or the same last term and a log
  at least as long); the voter then is in the candidate's term, has recorded the vote, and has
  written both to stable storage before it replies.
\<close>

theorem granted_vote:
  assumes "wf_raft rf" and "RequestVote rf args = Inr (rf', reply)" and "VoteGranted reply"
  shows "CurrentTerm rf \<le> rvTerm args \<and> CurrentTerm rf' = rvTerm args \<and> VotedFor rf' = CandidateId args \<and>
    raftstate (persister rf') = nvStream rf' \<and>
    (Term (last (Log rf)) < LastLogTerm args \<or>
     Term (last (Log rf)) = LastLogTerm args \<and> Loglen rf - 1 \<le> LastLogIndex args)"
proof -
  from assms(2,3) obtain le: "CurrentTerm rf \<le> rvTerm args" "\<not> voteRejected rf args" "raftstate (persister rf') = nvStream rf'"
    by (rule RequestVote_grantE)
  moreover from le(2) have "Term (last (Log rf)) < LastLogTerm args \<or>
     Term (last (Log rf)) = LastLogTerm args \<and> Loglen rf - 1 \<le> LastLogIndex args"
    using assms(1) by (auto simp: voteRejected_def wf_raft_def)
  ultimately show ?thesis using RequestVote_granted [OF assms(2,3)] by simp
qed

theorem granted_vote_witness:
  "\<exists>rf' reply. RequestVote (newRaft 3 1 MakePersister :: nat raft) ex_args = Inr (rf', reply) \<and> VoteGranted reply \<and>
     VotedFor rf' = 0 \<and> raftstate (persister rf') = nvStream rf'"
proof -
  let ?r = "newRaft 3 1 MakePersister :: nat raft"
  obtain rf' reply where h: "RequestVote ?r ex_args = Inr (rf', reply)" "VoteGranted reply"
    by (auto simp: newRaft_def RequestVote_def ex_args_def stepDown_def voteRejected_def Loglen_def)
  moreover have "wf_raft ?r" by (rule newRaft_wf) simp
  ultimately show ?thesis using granted_vote [of ?r ex_args rf' reply] by (auto simp: ex_args_def)
qed

subsection \<open>Searching a term\<close>

lemma findFirst_loop_returns:
  assumes "0 \<le> low" and "low \<le> high" and "high < int (length lg)"
  shows "\<exists>r. findFirst_loop lg t low high = Inr r \<and> low \<le> r \<and> r \<le> high"
  using assms
proof (induction lg t low high rule: findFirst_loop.induct)
  case (1 lg t low high)
  show ?case
  proof (cases "low < high")
    case False
    then have "findFirst_loop lg t low high = Inr low" by (simp add: findFirst_loop.simps [of lg t low high])
    with "1.prems" show ?thesis by simp
  next
    case True
    define mid where "mid = (low + high) div 2"
    have mid: "low \<le> mid" "mid < high" using True by (auto simp: mid_def)
    have idx: "go_index lg mid = Inr (lg ! nat mid)" using mid "1.prems" by (auto simp: go_index_def)
    have unfold: "findFirst_loop lg t low high =
        (if Term (lg ! nat mid) < t then findFirst_loop lg t (mid + 1) high else findFirst_loop lg t low mid)"
      using True idx by (simp add: findFirst_loop.simps [of lg t low high] mid_def)
    show ?thesis
    proof (cases "Term (lg ! nat mid) < t")
      case less: True
      from "1.IH"(1) [OF True mid_def idx less] "1.prems" mid show ?thesis using less by (auto simp: unfold)
    next
      case ge: False
      from "1.IH"(2) [OF True mid_def idx ge] "1.prems" mid show ?thesis using ge by (auto simp: unfold)
    qed
  qed
qed

text \<open>
  Back-off search of the follower. On a log whose terms do not decrease and whose
  position 0 carries the snapshot term, \<open>findFirstIndex\<close> started at the position of a conflicting
  entry returns the first position of that entry's term: from there to the conflict all entries
  have that term, and every earlier entry has a smaller one.
\<close>

theorem findFirstIndex_first:
  assumes "sorted (map Term (Log rf))" and "0 \<le> k" and "k < int (length (Log rf))"
    and "Term (Log rf ! 0) = SnapshotTerm rf" and "SnapshotTerm rf < Term (Log rf ! nat k)"
  shows "\<exists>r. findFirstIndex rf (Term (Log rf ! nat k)) k = Inr r \<and> 0 < r \<and> r \<le> k \<and>
    (\<forall>j. r \<le> j \<and> j \<le> k \<longrightarrow> Term (Log rf ! nat j) = Term (Log rf ! nat k)) \<and>
    (\<forall>j. 0 \<le> j \<and> j < r \<longrightarrow> Term (Log rf ! nat j) < Term (Log rf ! nat k))"
proof -
  let ?t = "Term (Log rf ! nat k)"
  from findFirst_loop_correct [OF assms(1), of 0 k ?t] assms(2,3) obtain r where
    r: "findFirst_loop (Log rf) ?t 0 k = Inr r" "0 \<le> r" "r \<le> k"
      "\<forall>i. 0 \<le> i \<and> i < r \<longrightarrow> Term (Log rf ! nat i) < ?t" "r < k \<longrightarrow> ?t \<le> Term (Log rf ! nat r)"
    by auto
  have ge: "?t \<le> Term (Log rf ! nat r)" using r(3,5) by (cases "r = k") auto
  have "r \<noteq> 0" using ge assms(4,5) by auto
  have mono: "Term (Log rf ! nat a) \<le> Term (Log rf ! nat b)" if "0 \<le> a" "a \<le> b" "b \<le> k" for a b
    using sorted_nth_mono [OF assms(1), of "nat a" "nat b"] that assms(3) by auto
  have eq: "Term (Log rf ! nat j) = ?t" if "r \<le> j" "j \<le> k" for j
    using mono [of r j] mono [of j k] that ge r(2) by simp
  have "findFirstIndex rf ?t k = Inr r" using r(1) \<open>r \<noteq> 0\<close> assms(5) by (simp add: findFirstIndex_def)
  moreover have "0 < r" using r(2) \<open>r \<noteq> 0\<close> by simp
  ultimately show ?thesis using r(3,4) eq by blast
qed

definition ex_log :: "nat logEntry list" where
  "ex_log = [\<lparr>Term = 0, Command = None\<rparr>, \<lparr>Term = 1, Command = Some 7\<rparr>, \<lparr>Term = 2, Command = Some 8\<rparr>,
             \<lparr>Term = 2, Command = Some 9\<rparr>]"

theorem findFirstIndex_first_witness:
  "findFirstIndex ((newRaft 3 0 MakePersister)\<lparr>Log := ex_log\<rparr>) 2 3 = Inr 2"
proof -
  let ?r = "(newRaft 3 0 MakePersister)\<lparr>Log := ex_log\<rparr>"
  have k: "Term (Log ?r ! nat 3) = 2" by (simp add: newRaft_def ex_log_def)
  have hyps: "sorted (map Term (Log ?r))" "(3::int) < int (length (Log ?r))" "Term (Log ?r ! 0) = SnapshotTerm ?r"
    "SnapshotTerm ?r < Term (Log ?r ! nat 3)" by (simp_all add: newRaft_def ex_log_def)
  from findFirstIndex_first [OF hyps(1) _ hyps(2-4), unfolded k] obtain r where
    r: "findFirstIndex ?r 2 3 = Inr r" "0 < r" "r \<le> 3"
      "\<forall>j. r \<le> j \<and> j \<le> 3 \<longrightarrow> Term (Log ?r ! nat j) = 2" "\<forall>j. 0 \<le> j \<and> j < r \<longrightarrow> Term (Log ?r ! nat j) < 2"
    by auto
  have "\<not> r \<le> 1" using r(4) [rule_format, of 1] by (auto simp: newRaft_def ex_log_def)
  moreover have "\<not> 2 < r" using r(5) [rule_format, of 2] by (auto simp: newRaft_def ex_log_def)
  ultimately have "r = 2" using r(2,3) by linarith
  with r(1) show ?thesis by simp
qed

text \<open>
  Back-off search of the leader. On a log whose terms do not decrease, whenever the
  base entry's term is at most the wanted term, \<open>findLastIndex\<close> stops and returns the last position
  whose term is at most the wanted term.
\<close>

theorem findLastIndex_last:
  assumes "sorted (map Term (Log rf))" and "Log rf \<noteq> []" and "SnapshotTerm rf \<le> t"
    and "Term (Log rf ! 0) \<le> t"
  shows "\<exists>r. findLastIndex rf t = Inr r \<and> last_at_most (Log rf) t r"
  using findLast_loop_correct [OF assms(1), of 0 "int (length (Log rf)) - 1" t] assms
  by (simp add: findLastIndex_def Suc_le_eq)

theorem findLastIndex_last_witness:
  "\<exists>r. findLastIndex ((newRaft 3 0 MakePersister)\<lparr>Log := ex_log\<rparr>) 1 = Inr r \<and> last_at_most ex_log 1 r"
  using findLastIndex_last [of "(newRaft 3 0 MakePersister)\<lparr>Log := ex_log\<rparr>" 1] by (simp add: newRaft_def ex_log_def)

end
