(* ===== verification/Raft_Replication.thy ===== *)
theory Raft_Replication
  imports Raft_Props
begin

text \<open>
  Properties of log replication: the message a leader builds, what a follower does with it, when a
  leader commits, and how committed entries reach the service. The definitions are those of
  \<open>Raft_RPC\<close> and \<open>Raft_Leader\<close>.
\<close>

subsection \<open>The handler of AppendEntries\<close>

definition prev_matches :: "'c raft \<Rightarrow> 'c AppendEntriesArgs \<Rightarrow> bool" where
  \<comment> \<open>the log has an entry at \<open>PrevLogIndex\<close>, with the term \<open>PrevLogTerm\<close>\<close>
  "prev_matches rf args = (case entry_at rf (PrevLogIndex args) of None \<Rightarrow> False | Some e \<Rightarrow> Term e = PrevLogTerm args)"

lemma prev_matches_bounds:
  "prev_matches rf args \<Longrightarrow> SnapshotIndex rf \<le> PrevLogIndex args \<and> PrevLogIndex args < Loglen rf"
  by (simp add: prev_matches_def entry_at_def split: if_splits)

lemma aeConflict_None_iff: "aeConflict rf args = Inr None \<longleftrightarrow> prev_matches rf args"
proof (cases "PrevLogIndex args < Loglen rf")
  case True
  show ?thesis
  proof (cases "SnapshotIndex rf \<le> PrevLogIndex args")
    case ge: True
    let ?e = "Log rf ! nat (PrevLogIndex args - SnapshotIndex rf)"
    have "go_index (Log rf) (idxInLog rf (PrevLogIndex args)) = Inr ?e"
      using True ge by (auto simp: go_index_Inr_iff idxInLog_def Loglen_def)
    then show ?thesis using True ge
      by (auto simp: aeConflict_def prev_matches_def entry_at_def go_bind_Inr_iff idxInLog_def Loglen_def)
  next
    case False
    then show ?thesis using True
      by (simp add: aeConflict_def prev_matches_def entry_at_def idxInLog_def Loglen_def go_index_def)
  qed
qed (simp add: aeConflict_def prev_matches_def entry_at_def)

lemma adoptTerm_frame [simp]:
  "Log (adoptTerm t rf) = Log rf" "SnapshotIndex (adoptTerm t rf) = SnapshotIndex rf"
  "commitIndex (adoptTerm t rf) = commitIndex rf" "me (adoptTerm t rf) = me rf"
  "CurrentTerm (adoptTerm t rf) = max t (CurrentTerm rf)" "tickers (adoptTerm t rf) = tickers rf"
  by (simp_all add: adoptTerm_def)

lemma resetTicker_frame [simp]:
  "Log (resetTicker i rf) = Log rf" "SnapshotIndex (resetTicker i rf) = SnapshotIndex rf"
  "commitIndex (resetTicker i rf) = commitIndex rf" "CurrentTerm (resetTicker i rf) = CurrentTerm rf"
  by (simp_all add: resetTicker_def)

lemma advanceCommit_frame [simp]:
  "Log (advanceCommit args rf) = Log rf" "SnapshotIndex (advanceCommit args rf) = SnapshotIndex rf"
  "CurrentTerm (advanceCommit args rf) = CurrentTerm rf"
  by (simp_all add: advanceCommit_def wakeApply_def)

lemma advanceCommit_bounds:
  "commitIndex rf < Loglen rf \<Longrightarrow> commitIndex rf \<le> commitIndex (advanceCommit args rf) \<and>
     commitIndex (advanceCommit args rf) < Loglen rf"
  by (auto simp: advanceCommit_def wakeApply_def)

lemma stepDown_frame:
  assumes "stepDown rf = Inr rf1"
  shows "Log rf1 = Log rf" "SnapshotIndex rf1 = SnapshotIndex rf" "commitIndex rf1 = commitIndex rf"
    "CurrentTerm rf1 = CurrentTerm rf"
  using assms by (auto elim!: stepDown_Inr)

lemma stepDown_total: "wf_raft rf \<Longrightarrow> \<exists>rf1. stepDown rf = Inr rf1"
  by (cases "ctx rf") (auto simp: stepDown_def cancelCtx_def wf_raft_def)

lemma Loglen_cong: "Log rf' = Log rf \<Longrightarrow> SnapshotIndex rf' = SnapshotIndex rf \<Longrightarrow> Loglen rf' = Loglen rf"
  by (simp add: Loglen_def)

lemma entry_at_cong: "Log rf' = Log rf \<Longrightarrow> SnapshotIndex rf' = SnapshotIndex rf \<Longrightarrow> entry_at rf' i = entry_at rf i"
  by (simp add: entry_at_def Loglen_def)

lemma AppendEntries_check_frame:
  assumes "AppendEntries_check rf args = Inr (rf', ph)"
  shows "Log rf' = Log rf" "SnapshotIndex rf' = SnapshotIndex rf"
    "commitIndex rf < Loglen rf \<Longrightarrow> commitIndex rf \<le> commitIndex rf' \<and> commitIndex rf' < Loglen rf"
proof -
  consider "rf' = rf"
    | rf1 where "stepDown rf = Inr rf1" "rf' = resetTicker (me rf1) (adoptTerm (aeTerm args) rf1)"
    | rf1 where "stepDown rf = Inr rf1" "rf' = advanceCommit args (resetTicker (me rf1) (adoptTerm (aeTerm args) rf1))"
    using assms by (auto simp: AppendEntries_check_def go_inv Let_def split: if_splits option.splits)
  then have "Log rf' = Log rf \<and> SnapshotIndex rf' = SnapshotIndex rf \<and>
     (commitIndex rf < Loglen rf \<longrightarrow> commitIndex rf \<le> commitIndex rf' \<and> commitIndex rf' < Loglen rf)"
  proof cases
    case (3 rf1)
    let ?q = "resetTicker (me rf1) (adoptTerm (aeTerm args) rf1)"
    have q: "Loglen ?q = Loglen rf" "commitIndex ?q = commitIndex rf"
      by (simp_all add: Loglen_def stepDown_frame [OF 3(1)])
    show ?thesis using advanceCommit_bounds [of ?q args] q 3(2) by (simp add: stepDown_frame [OF 3(1)])
  qed (simp_all add: stepDown_frame)
  then show "Log rf' = Log rf" "SnapshotIndex rf' = SnapshotIndex rf"
    "commitIndex rf < Loglen rf \<Longrightarrow> commitIndex rf \<le> commitIndex rf' \<and> commitIndex rf' < Loglen rf"
    by simp_all
qed

lemma AppendEntries_check_cases:
  assumes "AppendEntries_check rf args = Inr (rf', ph)" and "CurrentTerm rf \<le> aeTerm args"
  obtains (conflict) rf1 r where "stepDown rf = Inr rf1" "rf' = resetTicker (me rf1) (adoptTerm (aeTerm args) rf1)"
      "ph = AeReply r" "\<not> Success r" "aerTerm r = CurrentTerm rf'"
  | (append) rf1 where "stepDown rf = Inr rf1" "rf' = resetTicker (me rf1) (adoptTerm (aeTerm args) rf1)"
      "prev_matches rf' args" "Entries args \<noteq> []"
      "ph = AePending \<lparr>aerTerm = CurrentTerm rf', Success = True, XTerm = 0, XIndex = 0, XLength = 0\<rparr>"
  | (heartbeat) rf1 q where "stepDown rf = Inr rf1" "q = resetTicker (me rf1) (adoptTerm (aeTerm args) rf1)"
      "prev_matches q args" "Entries args = []" "rf' = advanceCommit args q"
      "ph = AeReply \<lparr>aerTerm = CurrentTerm rf', Success = True, XTerm = 0, XIndex = 0, XLength = 0\<rparr>"
proof -
  obtain rf1 where sd: "stepDown rf = Inr rf1"
    using assms by (auto simp: AppendEntries_check_def go_bind_Inr_iff)
  define q where "q = resetTicker (me rf1) (adoptTerm (aeTerm args) rf1)"
  have fail: "\<not> Success r' \<and> aerTerm r' = CurrentTerm q" if "aeConflict q args = Inr (Some r')" for r'
    using that by (auto simp: aeConflict_def go_bind_Inr_iff split: if_splits)
  obtain c where c: "aeConflict q args = Inr c"
    using assms sd by (auto simp: AppendEntries_check_def go_bind_Inr_iff Let_def q_def)
  show ?thesis
  proof (cases c)
    case (Some r')
    then have "rf' = q" "ph = AeReply r'"
      using assms sd c by (simp_all add: AppendEntries_check_def Let_def q_def)
    then show ?thesis using conflict sd fail c Some by (auto simp: q_def)
  next
    case None
    then have "prev_matches q args" using c by (simp add: aeConflict_None_iff)
    then show ?thesis
      using assms sd c None append [OF sd] heartbeat [OF sd]
      by (cases "Entries args = []") (simp_all add: AppendEntries_check_def Let_def q_def)
  qed
qed

lemma prev_matches_cong:
  assumes "Log rf' = Log rf" "SnapshotIndex rf' = SnapshotIndex rf"
  shows "prev_matches rf' args = prev_matches rf args"
  using entry_at_cong [OF assms] by (simp add: prev_matches_def)

lemma AppendEntries_check_ok:
  assumes "AppendEntries_check rf args = Inr (rf', ph)" and "ph = AePending r \<or> ph = AeReply r \<and> Success r"
  shows "prev_matches rf args" "CurrentTerm rf \<le> aeTerm args" "CurrentTerm rf' = aeTerm args"
    "ph = AePending r \<Longrightarrow> Entries args \<noteq> [] \<and> commitIndex rf' = commitIndex rf"
    "ph = AeReply r \<Longrightarrow> Entries args = []"
proof -
  show le: "CurrentTerm rf \<le> aeTerm args"
    using assms by (auto simp: AppendEntries_check_def split: if_splits)
  show "prev_matches rf args" using assms(1) le
  proof (cases rule: AppendEntries_check_cases)
    case (append rf1)
    then show ?thesis using prev_matches_cong AppendEntries_check_frame(1,2) [OF assms(1)] by blast
  next
    case (heartbeat rf1 q)
    then show ?thesis using prev_matches_cong [of q rf args] by (simp add: stepDown_frame)
  qed (use assms(2) in auto)
  show "CurrentTerm rf' = aeTerm args" "ph = AePending r \<Longrightarrow> Entries args \<noteq> [] \<and> commitIndex rf' = commitIndex rf"
    "ph = AeReply r \<Longrightarrow> Entries args = []"
    using assms(1) le assms(2) by (cases rule: AppendEntries_check_cases; simp add: stepDown_frame)+
qed

lemma AppendEntries_append_log:
  assumes "AppendEntries_append rf args = Inr rf'" and "prev_matches rf args" and "Entries args \<noteq> []"
  obtains (same) "rf' = rf" "PrevLogIndex args + int (length (Entries args)) \<le> commitIndex rf"
  | (grown) b where "b = max (commitIndex rf) (PrevLogIndex args)" "SnapshotIndex rf \<le> b" "b < Loglen rf"
      "b < PrevLogIndex args + int (length (Entries args))"
      "rf' = advanceCommit args (persist (rf\<lparr>Log := take (nat (b + 1 - SnapshotIndex rf)) (Log rf) @
                                              drop (nat (b - PrevLogIndex args)) (Entries args)\<rparr>))"
proof (cases "commitIndex rf > PrevLogIndex args")
  case True
  show ?thesis
  proof (cases "int (length (Entries args)) \<le> commitIndex rf - PrevLogIndex args")
    case le: True
    with True assms same show ?thesis by (simp add: AppendEntries_append_def)
  next
    case False
    with True assms prev_matches_bounds [OF assms(2)] grown [of "commitIndex rf"] show ?thesis
      by (simp add: AppendEntries_append_def go_inv Loglen_def)
  qed
next
  case False
  with assms prev_matches_bounds [OF assms(2)] grown [of "PrevLogIndex args"] show ?thesis
    by (simp add: AppendEntries_append_def go_inv Loglen_def)
qed

text \<open>The entries of a log that was cut after index \<open>b\<close> and extended by the tail of a message.\<close>

lemma spliced_log:
  fixes rf :: "'c raft"
  defines "l p es b \<equiv> take (nat (b + 1 - SnapshotIndex rf)) (Log rf) @ drop (nat (b - p)) es"
  assumes "SnapshotIndex rf \<le> p" "p \<le> b" "b < Loglen rf" "b < p + int (length es)"
    and "SnapshotIndex rf' = SnapshotIndex rf" "Log rf' = l p es b"
  shows "Loglen rf' = p + 1 + int (length es)"
    and "i \<le> b \<Longrightarrow> entry_at rf' i = entry_at rf i"
    and "b < p + 1 + int k \<Longrightarrow> k < length es \<Longrightarrow> entry_at rf' (p + 1 + int k) = Some (es ! k)"
proof -
  show len: "Loglen rf' = p + 1 + int (length es)" using assms by (simp add: Loglen_def)
  show "entry_at rf' i = entry_at rf i" if "i \<le> b"
  proof (cases "SnapshotIndex rf \<le> i")
    case True
    then have "l p es b ! nat (i - SnapshotIndex rf) = Log rf ! nat (i - SnapshotIndex rf)"
      using that assms(2-5) by (simp add: l_def Loglen_def nth_append)
    then show ?thesis using len that True assms by (simp add: entry_at_def)
  qed (simp add: entry_at_def assms)
  show "entry_at rf' (p + 1 + int k) = Some (es ! k)" if k: "b < p + 1 + int k" "k < length es"
  proof -
    have "\<not> nat (p + 1 + int k - SnapshotIndex rf) < nat (b + 1 - SnapshotIndex rf)"
      using k assms(2,3) by simp
    moreover have "nat (b - p) + (nat (p + 1 + int k - SnapshotIndex rf) - nat (b + 1 - SnapshotIndex rf)) = k"
      using k assms(2,3) by simp
    ultimately have "l p es b ! nat (p + 1 + int k - SnapshotIndex rf) = es ! k"
      using assms(2-5) by (simp add: l_def Loglen_def nth_append)
    then show ?thesis using k len assms by (simp add: entry_at_def)
  qed
qed

lemma AppendEntries_append_keeps:
  assumes "AppendEntries_append rf args = Inr rf'" and "prev_matches rf args" and "Entries args \<noteq> []"
  shows "SnapshotIndex rf' = SnapshotIndex rf \<and>
    (\<forall>i \<le> max (commitIndex rf) (PrevLogIndex args). entry_at rf' i = entry_at rf i) \<and>
    (\<forall>k < length (Entries args). commitIndex rf < PrevLogIndex args + 1 + int k \<longrightarrow>
       entry_at rf' (PrevLogIndex args + 1 + int k) = Some (Entries args ! k)) \<and>
    (commitIndex rf < Loglen rf \<longrightarrow> commitIndex rf \<le> commitIndex rf' \<and> commitIndex rf' < Loglen rf') \<and>
    (commitIndex rf < PrevLogIndex args + int (length (Entries args)) \<longrightarrow>
       Loglen rf' = PrevLogIndex args + 1 + int (length (Entries args)))"
  using assms
proof (cases rule: AppendEntries_append_log)
  case same
  then show ?thesis by auto
next
  case (grown b)
  let ?p = "PrevLogIndex args"
  have bp: "SnapshotIndex rf \<le> ?p" "?p \<le> b" "commitIndex rf \<le> b"
    using grown(1) prev_matches_bounds [OF assms(2)] by auto
  define q where "q = persist (rf\<lparr>Log := take (nat (b + 1 - SnapshotIndex rf)) (Log rf) @
                                drop (nat (b - ?p)) (Entries args)\<rparr>)"
  have rf': "rf' = advanceCommit args q" using grown(5) by (simp add: q_def)
  have snap: "SnapshotIndex rf' = SnapshotIndex rf" by (simp add: rf' q_def)
  note splice = spliced_log [OF bp(1,2) grown(3,4) snap, unfolded rf', simplified q_def, simplified]
  have "Loglen q = Loglen rf'" by (simp add: rf' Loglen_def)
  moreover have "commitIndex q = commitIndex rf" by (simp add: q_def)
  ultimately have "commitIndex rf \<le> commitIndex rf' \<and> commitIndex rf' < Loglen rf'"
    using advanceCommit_bounds [of q args] splice(1) bp(3) grown(4) by (simp add: rf' q_def)
  then show ?thesis using splice snap grown(1) by (simp add: rf' q_def)
qed

lemma AppendEntries_cases:
  assumes "AppendEntries rf args = Inr (rf', reply)"
  obtains (answered) "AppendEntries_check rf args = Inr (rf', AeReply reply)"
  | (appended) rf1 where "AppendEntries_check rf args = Inr (rf1, AePending reply)"
      "AppendEntries_append rf1 args = Inr rf'"
proof -
  from assms obtain rf1 ph where "AppendEntries_check rf args = Inr (rf1, ph)"
    by (auto simp: AppendEntries_def go_inv)
  with assms that show ?thesis by (cases ph) (auto simp: AppendEntries_def go_inv)
qed

lemma AppendEntries_check_pending:
  assumes "AppendEntries_check rf args = Inr (rf1, AePending r)"
  shows "prev_matches rf1 args" "Entries args \<noteq> []" "commitIndex rf1 = commitIndex rf"
    "\<And>i. entry_at rf1 i = entry_at rf i" "Loglen rf1 = Loglen rf"
  using AppendEntries_check_ok [OF assms] AppendEntries_check_frame [OF assms]
    prev_matches_cong [of rf1 rf args] entry_at_cong [of rf1 rf] Loglen_cong [of rf1 rf] by auto

text \<open>
  A committed entry is not overwritten. \<open>AppendEntries\<close> leaves every entry up to the
  commit index as it was, whatever the message says; the commit index does not fall and stays
  within the log.
\<close>

lemma AppendEntries_keeps_committed:
  assumes "AppendEntries rf args = Inr (rf', reply)" and "i \<le> commitIndex rf"
  shows "entry_at rf' i = entry_at rf i"
  using assms(1)
proof (cases rule: AppendEntries_cases)
  case answered
  show ?thesis using AppendEntries_check_frame [OF answered] entry_at_cong [of rf' rf] by simp
next
  case (appended rf1)
  note h = AppendEntries_check_pending [OF appended(1)]
  show ?thesis using AppendEntries_append_keeps [OF appended(2) h(1,2)] assms(2) h(3-5) by auto
qed

theorem committed_entries_kept:
  assumes "commitIndex rf < Loglen rf" and "AppendEntries rf args = Inr (rf', reply)"
  shows "(\<forall>i \<le> commitIndex rf. entry_at rf' i = entry_at rf i) \<and>
    commitIndex rf \<le> commitIndex rf' \<and> commitIndex rf' < Loglen rf'"
  using assms(2)
proof (cases rule: AppendEntries_cases)
  case answered
  show ?thesis
    using AppendEntries_check_frame [OF answered] assms(1) entry_at_cong [of rf' rf] Loglen_cong [of rf' rf] by simp
next
  case (appended rf1)
  note h = AppendEntries_check_pending [OF appended(1)]
  show ?thesis using AppendEntries_append_keeps [OF appended(2) h(1,2)] assms(1) h(3-5) by auto
qed

definition ex_append :: "nat AppendEntriesArgs" where
  "ex_append = \<lparr>aeTerm = 1, aeLeaderId = 0, PrevLogIndex = 0, PrevLogTerm = 0,
                Entries = [\<lparr>Term = 1, Command = Some 5\<rparr>], LeaderCommit = 1\<rparr>"

lemma ex_append_runs:
  "\<exists>rf' reply. AppendEntries (newRaft 3 1 MakePersister) ex_append = Inr (rf', reply) \<and> Success reply"
  by (simp add: newRaft_def ex_append_def AppendEntries_def AppendEntries_check_def AppendEntries_append_def
      stepDown_def adoptTerm_def aeConflict_def resetTicker_def persist_def Loglen_def idxInLog_def
      go_index_def go_slice_to_def advanceCommit_def wakeApply_def)

theorem committed_entries_kept_witness:
  "\<exists>rf' reply. AppendEntries (newRaft 3 1 MakePersister) ex_append = Inr (rf', reply) \<and>
     0 \<le> commitIndex rf' \<and> commitIndex rf' < Loglen rf'"
proof -
  let ?r = "newRaft 3 1 MakePersister"
  obtain rf' reply where h: "AppendEntries ?r ex_append = Inr (rf', reply)" using ex_append_runs by blast
  have "commitIndex ?r < Loglen ?r" by (simp add: newRaft_def Loglen_def)
  from committed_entries_kept [OF this h] h show ?thesis by (auto simp: newRaft_def)
qed

text \<open>
  What a success means: when \<open>AppendEntries\<close> answers with success the follower is in
  the leader's term, its own log had the previous entry the message names, everything up to that
  entry is unchanged, and every entry of the message above the commit index now stands in the log
  at its index.
\<close>

lemma AppendEntries_success:
  assumes "AppendEntries rf args = Inr (rf', reply)" and "Success reply"
  shows "CurrentTerm rf' = aeTerm args \<and> prev_matches rf args \<and>
    (\<forall>i \<le> PrevLogIndex args. entry_at rf' i = entry_at rf i) \<and>
    (\<forall>k < length (Entries args). commitIndex rf < PrevLogIndex args + 1 + int k \<longrightarrow>
       entry_at rf' (PrevLogIndex args + 1 + int k) = Some (Entries args ! k))"
  using assms(1)
proof (cases rule: AppendEntries_cases)
  case answered
  show ?thesis
    using AppendEntries_check_frame(1,2) [OF answered] AppendEntries_check_ok [OF answered, of reply] assms(2)
      entry_at_cong [of rf' rf] by simp
next
  case (appended rf1)
  note h = AppendEntries_check_pending [OF appended(1)]
  have "CurrentTerm rf' = CurrentTerm rf1"
    using appended(2) h(2) by (elim AppendEntries_append_Inr) simp_all
  then show ?thesis
    using AppendEntries_append_keeps [OF appended(2) h(1,2)] AppendEntries_check_ok [OF appended(1), of reply] h(3,4)
    by auto
qed

lemma AppendEntries_snapshot:
  assumes "AppendEntries rf args = Inr (rf', reply)"
  shows "SnapshotIndex rf' = SnapshotIndex rf"
  using assms
proof (cases rule: AppendEntries_cases)
  case answered
  then show ?thesis by (rule AppendEntries_check_frame(2))
next
  case (appended rf1)
  note h = AppendEntries_check_pending [OF appended(1)]
  show ?thesis
    using AppendEntries_append_keeps [OF appended(2) h(1,2)] AppendEntries_check_frame(2) [OF appended(1)] by simp
qed

lemma aeConflict_total:
  assumes "SnapshotIndex rf \<le> PrevLogIndex args"
  shows "\<exists>c. aeConflict rf args = Inr c"
proof (cases "PrevLogIndex args < Loglen rf")
  case True
  let ?k = "idxInLog rf (PrevLogIndex args)"
  have k: "0 \<le> ?k" "?k < int (length (Log rf))" using True assms by (simp_all add: idxInLog_def Loglen_def)
  obtain r where "findFirst_loop (Log rf) (Term (Log rf ! nat ?k)) 0 ?k = Inr r"
    using findFirst_loop_returns [of 0 ?k "Log rf"] k by blast
  with True k show ?thesis by (auto simp: aeConflict_def findFirstIndex_def go_index_def)
qed (simp add: aeConflict_def)

lemma aeConflict_compacted:
  assumes "PrevLogIndex args < SnapshotIndex rf"
  shows "aeConflict rf args = Inl IndexOutOfRange"
  using assms by (simp add: aeConflict_def Loglen_def idxInLog_def go_index_def)

lemma AppendEntries_append_stops:
  assumes "prev_matches rf args"
  shows "if Loglen rf \<le> commitIndex rf \<and> commitIndex rf < PrevLogIndex args + int (length (Entries args))
    then AppendEntries_append rf args = Inl SliceOutOfRange else \<exists>rf'. AppendEntries_append rf args = Inr rf'"
  using prev_matches_bounds [OF assms]
  by (auto simp: AppendEntries_append_def go_slice_to_def go_slice_from_def Loglen_def)

text \<open>
  Property C22 (when the handler stops). A peer whose arrays have the right shape answers every
  \<open>AppendEntries\<close> message but two kinds, both only when the message is not stale. It stops with an
  index error when the previous entry the message names lies behind its snapshot. And it stops
  when it slices its log up to a commit index that lies beyond the log, which needs a previous
  entry that matches and a message that reaches beyond the commit index. (The slice is checked
  against the length of the log; Go checks the capacity and may bring old entries back instead.)
\<close>

theorem append_entries_stops:
  assumes "wf_raft rf"
  shows "if CurrentTerm rf \<le> aeTerm args \<and> PrevLogIndex args < SnapshotIndex rf
      then AppendEntries rf args = Inl IndexOutOfRange
    else if CurrentTerm rf \<le> aeTerm args \<and> prev_matches rf args \<and> Loglen rf \<le> commitIndex rf \<and>
        commitIndex rf < PrevLogIndex args + int (length (Entries args))
      then AppendEntries rf args = Inl SliceOutOfRange
    else \<exists>rf' reply. AppendEntries rf args = Inr (rf', reply)"
proof (cases "CurrentTerm rf \<le> aeTerm args")
  case True
  obtain rf1 where sd: "stepDown rf = Inr rf1" using stepDown_total [OF assms(1)] by blast
  define q where "q = resetTicker (me rf1) (adoptTerm (aeTerm args) rf1)"
  have q: "SnapshotIndex q = SnapshotIndex rf" "Log q = Log rf" by (simp_all add: q_def stepDown_frame [OF sd])
  show ?thesis
  proof (cases "PrevLogIndex args < SnapshotIndex rf")
    case behind: True
    have "AppendEntries_check rf args = Inl IndexOutOfRange"
      using aeConflict_compacted [of args q] behind q True sd by (simp add: AppendEntries_check_def Let_def q_def)
    then show ?thesis using behind True by (simp add: AppendEntries_def)
  next
    case False
    then obtain c where c: "aeConflict q args = Inr c" using aeConflict_total [of q args] q by auto
    then obtain rf2 ph where ck: "AppendEntries_check rf args = Inr (rf2, ph)"
      using True sd by (cases c; cases "Entries args = []") (auto simp: AppendEntries_check_def Let_def q_def)
    show ?thesis
    proof (cases ph)
      case (AePending r)
      note h = AppendEntries_check_pending [OF ck [unfolded AePending]]
      have "prev_matches rf args" using AppendEntries_check_ok(1) [OF ck, of r] AePending by simp
      then show ?thesis using AppendEntries_append_stops [OF h(1)] h(3,5) True False ck AePending
        by (auto simp: AppendEntries_def split: if_splits)
    next
      case (AeReply r)
      have "Entries args = []" if "prev_matches rf args"
      proof -
        have "aeConflict q args = Inr None" using that prev_matches_cong [OF q(2,1)] by (simp add: aeConflict_None_iff)
        then have "c = None" using c by simp
        then show ?thesis using ck c AeReply True sd
          by (auto simp: AppendEntries_check_def Let_def q_def split: if_splits)
      qed
      then show ?thesis using False ck AeReply by (auto simp: AppendEntries_def dest: prev_matches_bounds)
    qed
  qed
qed (auto simp: AppendEntries_def AppendEntries_check_def)

theorem append_entries_stops_witness:
  "AppendEntries ((newRaft 3 1 MakePersister)\<lparr>SnapshotIndex := 4, commitIndex := 4\<rparr>) ex_append = Inl IndexOutOfRange"
  using append_entries_stops [of "(newRaft 3 1 MakePersister)\<lparr>SnapshotIndex := 4, commitIndex := 4\<rparr>" ex_append]
  by (simp add: newRaft_def wf_raft_def Loglen_def ex_append_def)

subsection \<open>The message a leader sends\<close>

text \<open>
  The message matches the leader's log: an \<open>AppendEntries\<close> message built by a leader
  names an entry of its log as the previous one and carries exactly the rest of the log, in
  order, in the leader's term and with the leader's commit index.
\<close>

lemma sendPrepare_message:
  assumes "0 \<le> SnapshotIndex rf" and "sendPrepare rf server wt wc isRetry = Inr (rf', SendAE args)"
  shows "state rf = Leader \<and> aeTerm args = CurrentTerm rf \<and> CurrentTerm rf = wt \<and> prev_matches rf args \<and>
    PrevLogIndex args + 1 + int (length (Entries args)) = Loglen rf \<and>
    LeaderCommit args = commitIndex rf \<and>
    (\<forall>k < length (Entries args). entry_at rf (PrevLogIndex args + 1 + int k) = Some (Entries args ! k))"
proof -
  define rf1 where "rf1 = (if nextIndex rf ! server > Loglen rf
                   then rf\<lparr>nextIndex := (nextIndex rf)[server := Loglen rf]\<rparr> else rf)"
  have same: "Log rf1 = Log rf" "SnapshotIndex rf1 = SnapshotIndex rf" "CurrentTerm rf1 = CurrentTerm rf"
    "state rf1 = state rf" "commitIndex rf1 = commitIndex rf" by (simp_all add: rf1_def)
  define nx where "nx = nextIndex rf1 ! server"
  have ct: "CurrentTerm rf = wt" using assms(2) by (auto simp: sendPrepare_def split: if_splits)
  have gt: "SnapshotIndex rf < nx" and pr: "sendAE_prepare rf1 server wc isRetry = Inr (rf', SendAE args)"
    using assms(2) ct same by (auto simp: sendPrepare_def rf1_def [symmetric] nx_def Let_def split: if_splits)
  from pr have slices: "nx - SnapshotIndex rf \<le> int (length (Log rf))"
    and st: "state rf = Leader"
    and args: "args = \<lparr>aeTerm = CurrentTerm rf, aeLeaderId = int (me rf1), PrevLogIndex = nx - 1,
       PrevLogTerm = Term (Log rf ! nat (nx - 1 - SnapshotIndex rf)),
       Entries = drop (nat (nx - SnapshotIndex rf)) (Log rf), LeaderCommit = commitIndex rf\<rparr>"
    using gt assms(1)
    by (auto simp: sendAE_prepare_def go_inv Let_def idxInLog_def same nx_def split: if_splits)
  have prev: "prev_matches rf args" using slices gt by (simp add: prev_matches_def entry_at_def args Loglen_def)
  have len: "PrevLogIndex args + 1 + int (length (Entries args)) = Loglen rf"
    using slices gt by (simp add: args Loglen_def)
  have ent: "entry_at rf (PrevLogIndex args + 1 + int k) = Some (Entries args ! k)" if "k < length (Entries args)" for k
  proof -
    have "nat (nx + int k - SnapshotIndex rf) = nat (nx - SnapshotIndex rf) + k" using gt by simp
    then show ?thesis using that slices gt by (simp add: entry_at_def args Loglen_def)
  qed
  have "aeTerm args = CurrentTerm rf" "LeaderCommit args = commitIndex rf" by (simp_all add: args)
  then show ?thesis using st ct prev len ent by simp
qed

text \<open>
  Two logs match when agreeing on the term of an index makes them agree on everything before it
  that neither has compacted.
\<close>

definition same_term_at :: "'c raft \<Rightarrow> 'c raft \<Rightarrow> int \<Rightarrow> bool" where
  "same_term_at a b i =
     (case (entry_at a i, entry_at b i) of (Some e, Some e') \<Rightarrow> Term e = Term e' | _ \<Rightarrow> False)"

definition logs_match :: "'c raft \<Rightarrow> 'c raft \<Rightarrow> bool" where
  "logs_match a b \<longleftrightarrow> (\<forall>i j. same_term_at a b i \<longrightarrow> SnapshotIndex a < j \<longrightarrow> SnapshotIndex b < j \<longrightarrow> j \<le> i \<longrightarrow>
     entry_at a j = entry_at b j)"

text \<open>
  Property C3 (a successful append and log matching). Let a leader build an \<open>AppendEntries\<close>
  message from its log and let a follower whose log matches the leader's answer it with success.
  Then, as far as neither has compacted its log, the follower agrees with the leader's log as of
  the sending up to the previous entry and, above its own commit index, up to the end. The entries
  up to the follower's commit index are as before, whatever the message says there. So if those
  the message covers are the leader's, the two logs agree up to the end and still match; this is
  always so when the follower's commit index does not lie beyond the previous entry.
\<close>

theorem replication_keeps_matching:
  assumes "0 \<le> SnapshotIndex ld"
    and "sendPrepare ld server wt wc isRetry = Inr (ld', SendAE args)"
    and "logs_match ld fo"
    and "AppendEntries fo args = Inr (fo', reply)" and "Success reply"
  shows "(\<forall>j. SnapshotIndex ld < j \<longrightarrow> SnapshotIndex fo < j \<longrightarrow> j < Loglen ld \<longrightarrow>
      j \<le> PrevLogIndex args \<or> commitIndex fo < j \<longrightarrow> entry_at fo' j = entry_at ld j) \<and>
    (\<forall>j \<le> max (commitIndex fo) (PrevLogIndex args). entry_at fo' j = entry_at fo j) \<and>
    ((\<forall>j. PrevLogIndex args < j \<longrightarrow> j \<le> commitIndex fo \<longrightarrow> j < Loglen ld \<longrightarrow> entry_at fo j = entry_at ld j) \<longrightarrow>
      (\<forall>j. SnapshotIndex ld < j \<longrightarrow> SnapshotIndex fo < j \<longrightarrow> j < Loglen ld \<longrightarrow> entry_at fo' j = entry_at ld j) \<and>
      logs_match ld fo')"
proof -
  let ?p = "PrevLogIndex args"
  note msg = sendPrepare_message [OF assms(1,2)] and suc = AppendEntries_success [OF assms(4,5)]
  have snap: "SnapshotIndex fo' = SnapshotIndex fo" using AppendEntries_snapshot [OF assms(4)] .
  have "same_term_at ld fo ?p" using msg suc by (auto simp: same_term_at_def prev_matches_def split: option.splits)
  then have below: "entry_at fo' j = entry_at ld j"
    if "SnapshotIndex ld < j" "SnapshotIndex fo < j" "j \<le> ?p" for j
    using that assms(3) suc by (auto simp: logs_match_def)
  have above: "entry_at fo' j = entry_at ld j" if "?p < j" "j < Loglen ld" "commitIndex fo < j" for j
  proof -
    define k where "k = nat (j - ?p - 1)"
    have "j = ?p + 1 + int k" "k < length (Entries args)" "commitIndex fo < ?p + 1 + int k"
      using that msg by (auto simp: k_def)
    then show ?thesis using msg suc by simp
  qed
  have kept: "entry_at fo' j = entry_at fo j" if "j \<le> max (commitIndex fo) ?p" for j
    using suc AppendEntries_keeps_committed [OF assms(4)] that by (cases "j \<le> ?p") auto
  have agree: "(\<forall>j. SnapshotIndex ld < j \<longrightarrow> SnapshotIndex fo < j \<longrightarrow> j < Loglen ld \<longrightarrow> entry_at fo' j = entry_at ld j) \<and>
      logs_match ld fo'"
    if com: "\<forall>j. ?p < j \<longrightarrow> j \<le> commitIndex fo \<longrightarrow> j < Loglen ld \<longrightarrow> entry_at fo j = entry_at ld j"
  proof -
    have whole: "entry_at fo' j = entry_at ld j" if "SnapshotIndex ld < j" "SnapshotIndex fo < j" "j < Loglen ld" for j
      using below [of j] above [of j] kept [of j] com that by (cases "j \<le> ?p"; cases "commitIndex fo < j") auto
    have "logs_match ld fo'"
      unfolding logs_match_def
    proof (intro allI impI)
      fix i j assume h: "same_term_at ld fo' i" "SnapshotIndex ld < j" "SnapshotIndex fo' < j" "j \<le> i"
      have "i < Loglen ld" using h(1) by (auto simp: same_term_at_def entry_at_def split: if_splits)
      then show "entry_at ld j = entry_at fo' j" using whole [of j] h snap by simp
    qed
    with whole show ?thesis by blast
  qed
  have "entry_at fo' j = entry_at ld j"
    if "SnapshotIndex ld < j" "SnapshotIndex fo < j" "j < Loglen ld" "j \<le> ?p \<or> commitIndex fo < j" for j
    using below [of j] above [of j] that by (cases "j \<le> ?p") auto
  with kept agree show ?thesis by blast
qed

definition ex_leader :: "nat raft" where
  \<comment> \<open>peer 0 of three, leading term 1, after one command\<close>
  "ex_leader = fst (Start (winElection ((newRaft 3 0 MakePersister)\<lparr>CurrentTerm := 1, VotedFor := 0\<rparr>)) (Some 5))"

lemma upt_0_3: "[0..<3] = [0, 1, 2]"
  by (simp add: upt_rec)

lemma ex_leader_simps [simp]:
  "Log ex_leader = [\<lparr>Term = 0, Command = None\<rparr>, \<lparr>Term = 1, Command = Some 5\<rparr>]"
  "nextIndex ex_leader = [0, 1, 1]" "matchIndex ex_leader = [0, 0, 0]" "CurrentTerm ex_leader = 1"
  "state ex_leader = Leader" "commitIndex ex_leader = 0" "SnapshotIndex ex_leader = 0" "me ex_leader = 0"
  "npeers ex_leader = 3" "lastApplied ex_leader = 0"
  by (simp_all add: ex_leader_def Start_def killed_def winElection_def newRaft_def Loglen_def resetTicker_def
      upt_0_3)

lemma ex_leader_sends:
  "sendPrepare ex_leader 1 1 0 False = Inr (ex_leader, SendAE (ex_append\<lparr>LeaderCommit := 0\<rparr>))"
  by (simp add: sendPrepare_def sendAE_prepare_def Loglen_def idxInLog_def go_slice_from_def go_index_def ex_append_def)

theorem replication_keeps_matching_witness:
  "\<exists>fo' reply. AppendEntries (newRaft 3 1 MakePersister) (ex_append\<lparr>LeaderCommit := 0\<rparr>) = Inr (fo', reply) \<and>
     entry_at fo' 1 = entry_at ex_leader 1 \<and> logs_match ex_leader fo'"
proof -
  let ?r = "newRaft 3 1 MakePersister :: nat raft" and ?a = "ex_append\<lparr>LeaderCommit := 0\<rparr>"
  obtain fo' reply where h: "AppendEntries ?r ?a = Inr (fo', reply)" "Success reply"
    by (simp add: newRaft_def ex_append_def AppendEntries_def AppendEntries_check_def AppendEntries_append_def
      stepDown_def adoptTerm_def aeConflict_def resetTicker_def persist_def Loglen_def idxInLog_def
      go_index_def go_slice_to_def advanceCommit_def wakeApply_def)
  have m: "logs_match ex_leader ?r"
    by (auto simp: logs_match_def same_term_at_def entry_at_def newRaft_def Loglen_def split: if_splits)
  have s: "SnapshotIndex ?r = 0" "commitIndex ?r = 0" by (simp_all add: newRaft_def)
  have "0 \<le> SnapshotIndex ex_leader" by simp
  from replication_keeps_matching [OF this ex_leader_sends m h] s
  have "entry_at fo' 1 = entry_at ex_leader 1" "logs_match ex_leader fo'"
    by (simp_all add: Loglen_def ex_append_def)
  with h(1) show ?thesis by blast
qed

subsection \<open>Committing\<close>

lemma tmpMatchIndex_length [simp]: "length (tmpMatchIndex rf) = npeers rf"
  by (simp add: tmpMatchIndex_def)

lemma minMatch_quorum:
  assumes "0 < npeers rf"
  shows "commitQuorum (npeers rf) {i. i < npeers rf \<and> minMatchIndex rf \<le> tmpMatchIndex rf ! i}"
  using sort_nth_filter_ge [of "npeers rf div 2" "tmpMatchIndex rf"] assms
  by (auto simp: commitQuorum_def minMatchIndex_def length_filter_nth_card)

lemma apply_loop_commitIndex: "apply_loop rf = Inr (rf', res) \<Longrightarrow> commitIndex rf' = commitIndex rf"
  by (auto simp: apply_loop_def go_inv Let_def split: if_splits)

lemma apply_commit_advances:
  assumes "apply_commit rf = Inr (rf', res)" and "commitIndex rf' \<noteq> commitIndex rf"
  shows "state rf = Leader" "commitIndex rf' = minMatchIndex rf" "commitIndex rf < minMatchIndex rf"
    "SnapshotIndex rf \<le> minMatchIndex rf" "minMatchIndex rf < Loglen rf"
    "Term (Log rf ! nat (minMatchIndex rf - SnapshotIndex rf)) = CurrentTerm rf"
proof -
  show st: "state rf = Leader" using assms apply_loop_commitIndex by (auto simp: apply_commit_def split: if_splits)
  show gt: "commitIndex rf < minMatchIndex rf" using assms st by (auto simp: apply_commit_def split: if_splits)
  from assms st gt have idx: "go_index (Log rf) (idxInLog rf (minMatchIndex rf)) =
      Inr (Log rf ! nat (minMatchIndex rf - SnapshotIndex rf))"
    by (auto simp: apply_commit_def go_inv idxInLog_def)
  then show "SnapshotIndex rf \<le> minMatchIndex rf" "minMatchIndex rf < Loglen rf"
    by (auto simp: go_inv idxInLog_def Loglen_def)
  show tm: "Term (Log rf ! nat (minMatchIndex rf - SnapshotIndex rf)) = CurrentTerm rf"
    using assms st gt idx by (auto simp: apply_commit_def split: if_splits)
  have "apply_loop (rf\<lparr>commitIndex := minMatchIndex rf\<rparr>) = Inr (rf', res)"
    using assms st gt idx tm by (simp add: apply_commit_def)
  from apply_loop_commitIndex [OF this] show "commitIndex rf' = minMatchIndex rf" by simp
qed

text \<open>
  Property C6 (commit rule of the leader). Only a leader moves its commit index in
  \<open>applyLogEntries\<close>; it moves it up, to an entry of its own term. At least half of the peers,
  rounded up, have a match index (the last index of its own log for the leader itself) that has
  reached that entry: more than half when the number of peers is odd, exactly half may do when it
  is even. In both cases these peers meet every set of voters that can elect a leader.
\<close>

theorem leader_commit_rule:
  assumes "wf_raft rf" and "apply_commit rf = Inr (rf', res)" and "commitIndex rf' \<noteq> commitIndex rf"
  shows "state rf = Leader \<and> commitIndex rf < commitIndex rf' \<and>
    (\<exists>e. entry_at rf (commitIndex rf') = Some e \<and> Term e = CurrentTerm rf) \<and>
    npeers rf \<le> 2 * card {i. i < npeers rf \<and> commitIndex rf' \<le> tmpMatchIndex rf ! i} \<and>
    (\<forall>V. electionQuorum (npeers rf) V \<longrightarrow> (\<exists>i \<in> V. commitIndex rf' \<le> tmpMatchIndex rf ! i))"
proof -
  note adv = apply_commit_advances [OF assms(2,3)]
  have q: "commitQuorum (npeers rf) {i. i < npeers rf \<and> minMatchIndex rf \<le> tmpMatchIndex rf ! i}"
    using assms(1) by (intro minMatch_quorum) (auto simp: wf_raft_def)
  then have half: "npeers rf \<le> 2 * card {i. i < npeers rf \<and> minMatchIndex rf \<le> tmpMatchIndex rf ! i}"
    by (auto simp: commitQuorum_def)
  from q have "\<exists>i \<in> V. minMatchIndex rf \<le> tmpMatchIndex rf ! i" if "electionQuorum (npeers rf) V" for V
    using raftq.elect_commit [OF that] by blast
  then show ?thesis using adv half by (simp add: entry_at_def)
qed

theorem leader_commit_rule_witness:
  "\<exists>rf' res. apply_commit (ex_leader\<lparr>matchIndex := [0, 1, 0]\<rparr>) = Inr (rf', res) \<and> commitIndex rf' = 1 \<and>
     (\<exists>i \<in> {1, 2}. commitIndex rf' \<le> tmpMatchIndex (ex_leader\<lparr>matchIndex := [0, 1, 0]\<rparr>) ! i)"
proof -
  let ?r = "ex_leader\<lparr>matchIndex := [0, 1, 0]\<rparr>"
  have wf: "wf_raft ?r"
    by (simp add: ex_leader_def Start_def killed_def winElection_def newRaft_def resetTicker_def wf_raft_def persist_def)
  have mm: "minMatchIndex ?r = 1" by (simp add: minMatchIndex_def tmpMatchIndex_def Loglen_def)
  obtain rf' res where h: "apply_commit ?r = Inr (rf', res)" "commitIndex rf' = 1"
    by (simp add: apply_commit_def apply_loop_def mm go_index_def idxInLog_def)
  have "electionQuorum (npeers ?r) {1, 2}" by (simp add: electionQuorum_def)
  with leader_commit_rule [OF wf h(1)] h show ?thesis by auto
qed

subsection \<open>Applying\<close>

definition appliedMsgs :: "'c raft \<Rightarrow> int \<Rightarrow> int \<Rightarrow> 'c ApplyMsg list" where
  \<comment> \<open>the messages for the indices from \<open>i\<close> to \<open>j\<close>, each once and in order\<close>
  "appliedMsgs rf i j = map (\<lambda>k. commandMsg (Command (Log rf ! nat (k - SnapshotIndex rf))) k) [i..j]"

lemma apply_drain_idle: "commitIndex rf \<le> lastApplied rf \<Longrightarrow> apply_drain rf acc = Some (Inr (rf, acc))"
  by (subst apply_drain.simps) (simp add: apply_loop_def)

lemma apply_drain_next:
  assumes "SnapshotIndex rf \<le> lastApplied rf" "lastApplied rf < commitIndex rf" "commitIndex rf < Loglen rf"
  shows "apply_drain rf acc = apply_drain (rf\<lparr>lastApplied := lastApplied rf + 1\<rparr>)
    (acc @ [commandMsg (Command (Log rf ! nat (lastApplied rf + 1 - SnapshotIndex rf))) (lastApplied rf + 1)])"
  using assms by (subst apply_drain.simps) (simp add: apply_loop_def idxInLog_def go_index_def Loglen_def)

lemma apply_drain_all:
  assumes "SnapshotIndex rf \<le> lastApplied rf" "lastApplied rf \<le> commitIndex rf" "commitIndex rf < Loglen rf"
  shows "apply_drain rf acc = Some (Inr (rf\<lparr>lastApplied := commitIndex rf\<rparr>,
    acc @ appliedMsgs rf (lastApplied rf + 1) (commitIndex rf)))"
  using assms
proof (induction "nat (commitIndex rf - lastApplied rf)" arbitrary: rf acc)
  case 0
  then show ?case by (simp add: apply_drain_idle appliedMsgs_def)
next
  case (Suc m)
  let ?r = "rf\<lparr>lastApplied := lastApplied rf + 1\<rparr>"
  have lt: "lastApplied rf < commitIndex rf" using Suc.hyps(2) by simp
  have "m = nat (commitIndex ?r - lastApplied ?r)" using Suc.hyps(2) by simp
  from Suc.hyps(1) [OF this] have IH: "apply_drain ?r acc' = Some (Inr (rf\<lparr>lastApplied := commitIndex rf\<rparr>,
      acc' @ appliedMsgs rf (lastApplied rf + 2) (commitIndex rf)))" for acc'
    using Suc.prems lt by (simp add: Loglen_def appliedMsgs_def add.assoc)
  show ?case unfolding apply_drain_next [OF Suc.prems(1) lt Suc.prems(3)] IH
    using lt by (simp add: appliedMsgs_def upto_rec1 [of "lastApplied rf + 1"] add.assoc)
qed

text \<open>
  Property C7 (application in order). Once the snapshot is behind the last applied index and the
  commit index lies in the log, the apply loop ends: it has handed the service one message for
  every index above the last applied one up to the commit index, in order, each with the command
  the log has there, and has moved the last applied index to the commit index.
\<close>

theorem apply_in_order:
  assumes "SnapshotIndex rf \<le> lastApplied rf" "lastApplied rf \<le> commitIndex rf" "commitIndex rf < Loglen rf"
  shows "\<exists>ms. apply_drain rf [] = Some (Inr (rf\<lparr>lastApplied := commitIndex rf\<rparr>, ms)) \<and>
    map CommandIndex ms = [lastApplied rf + 1..commitIndex rf] \<and>
    (\<forall>m \<in> set ms. CommandValid m \<and> (\<exists>e. entry_at rf (CommandIndex m) = Some e \<and> amCommand m = Command e))"
proof -
  let ?ms = "appliedMsgs rf (lastApplied rf + 1) (commitIndex rf)"
  have "map CommandIndex ?ms = [lastApplied rf + 1..commitIndex rf]"
    by (simp add: appliedMsgs_def commandMsg_def comp_def)
  moreover have "\<forall>m \<in> set ?ms. CommandValid m \<and> (\<exists>e. entry_at rf (CommandIndex m) = Some e \<and> amCommand m = Command e)"
    using assms by (auto simp: appliedMsgs_def commandMsg_def entry_at_def)
  ultimately show ?thesis using apply_drain_all [OF assms, of "[]"] by auto
qed

theorem apply_in_order_witness:
  "\<exists>ms. apply_drain (ex_leader\<lparr>commitIndex := 1\<rparr>) [] = Some (Inr (ex_leader\<lparr>commitIndex := 1, lastApplied := 1\<rparr>, ms)) \<and>
     map CommandIndex ms = [1]"
  using apply_in_order [of "ex_leader\<lparr>commitIndex := 1\<rparr>"] by (auto simp: Loglen_def)

text \<open>
  The loop does not return from a state in which the last applied index lies below both the
  snapshot and the commit index.
\<close>

lemma apply_drain_spins:
  assumes "apply_drain rf acc = Some y"
  shows "\<not> (lastApplied rf < SnapshotIndex rf \<and> lastApplied rf < commitIndex rf)"
proof (rule apply_drain.raw_induct [OF _ assms, of "\<lambda>rf acc y. \<not> (lastApplied rf < SnapshotIndex rf \<and> lastApplied rf < commitIndex rf)"])
  fix drain :: "'c raft \<Rightarrow> 'c ApplyMsg list \<Rightarrow> ('c raft \<times> 'c ApplyMsg list) go option" and rf acc y
  assume IH: "\<And>rf acc y. drain rf acc = Some y \<Longrightarrow> \<not> (lastApplied rf < SnapshotIndex rf \<and> lastApplied rf < commitIndex rf)"
    and body: "(case apply_loop rf of Inl e \<Rightarrow> Some (Inl e)
      | Inr (rf', r) \<Rightarrow> (case r of ApplyCmd m \<Rightarrow> drain rf' (acc @ [m]) | ApplySpin \<Rightarrow> drain rf' acc
           | ApplySnap m \<Rightarrow> Some (Inr (rf', acc)) | ApplyIdle \<Rightarrow> Some (Inr (rf', acc)))) = Some y"
  show "\<not> (lastApplied rf < SnapshotIndex rf \<and> lastApplied rf < commitIndex rf)"
  proof
    assume h: "lastApplied rf < SnapshotIndex rf \<and> lastApplied rf < commitIndex rf"
    then have "drain rf acc = Some y" using body by (simp add: apply_loop_def)
    then show False using IH h by blast
  qed
qed

end
