(* ===== verification/Rfsrv.thy ===== *)
theory Rfsrv
  imports Raft_Replication "HOL-Library.Countable"
begin

text \<open>
  The service the Raft tests run on top of a peer (\<open>src/raft1/server.go\<close>) and the checks it makes
  across peers (\<open>checkLogs\<close>, \<open>nCommitted\<close>, \<open>checkOneLeader\<close>, \<open>checkTerms\<close> and \<open>checkNoLeader\<close> of
  \<open>src/raft1/test.go\<close>). It reads the messages of the apply channel, remembers the command of every
  index, stops the program when two peers apply different commands at an index or a peer applies
  out of order, and takes a snapshot every ten entries.

  \<open>enc\<close> and \<open>dec\<close> stand for the encoding of a snapshot (an index and a list of commands) by
  \<open>labgob\<close>. A map from indices to commands is a HOL map; a nil command is \<open>None\<close>.
\<close>

definition SnapShotInterval :: int where "SnapShotInterval = 10"

record 'c rfsrv =
  rsLastApplied :: int
  logs :: "int \<Rightarrow> 'c option option"

record 'c Test =
  srvs :: "'c rfsrv list"
  maxIndex :: int

type_synonym 'c snap = "int \<times> 'c option list"

subsection \<open>Checking a message\<close>

definition commitConflict :: "'c rfsrv list \<Rightarrow> 'c ApplyMsg \<Rightarrow> bool" where
  \<comment> \<open>some server has already committed a different value for this entry\<close>
  "commitConflict ss m = list_ex (\<lambda>rs. case logs rs (CommandIndex m) of None \<Rightarrow> False | Some old \<Rightarrow> old \<noteq> amCommand m) ss"

definition checkLogs :: "'c Test \<Rightarrow> nat \<Rightarrow> 'c ApplyMsg \<Rightarrow> 'c Test \<times> bool \<times> bool" where
  \<comment> \<open>the flags: an error message is returned; the previous index is there\<close>
  "checkLogs ts i m =
     (let me = srvs ts ! i;
          err = commitConflict (srvs ts) m;
          prevok = (logs me (CommandIndex m - 1) \<noteq> None)
      in (ts\<lparr>srvs := (srvs ts)[i := me\<lparr>logs := (logs me)(CommandIndex m \<mapsto> amCommand m)\<rparr>],
             maxIndex := max (maxIndex ts) (CommandIndex m)\<rparr>, err, prevok))"

definition applier :: "nat \<Rightarrow> 'c Test \<Rightarrow> 'c ApplyMsg \<Rightarrow> 'c Test go" where
  \<comment> \<open>one message; an error ends in \<open>log.Fatalf\<close>\<close>
  "applier i ts m =
     (if \<not> CommandValid m then Inr ts
      else case checkLogs ts i m of (ts1, err, prevok) \<Rightarrow>
             if err \<or> CommandIndex m > 1 \<and> \<not> prevok then Inl LogFatal else Inr ts1)"

fun applier_all :: "nat \<Rightarrow> 'c Test \<Rightarrow> 'c ApplyMsg list \<Rightarrow> 'c Test go" where
  \<comment> \<open>\<open>for m := range applyCh\<close>\<close>
  "applier_all i ts [] = Inr ts"
| "applier_all i ts (m # ms) = go_bind (applier i ts m) (\<lambda>ts1. applier_all i ts1 ms)"

subsection \<open>Snapshots of the service\<close>

definition ingestSnap :: "(byte list \<Rightarrow> 'c snap option) \<Rightarrow> 'c rfsrv \<Rightarrow> byte list option \<Rightarrow> int \<Rightarrow> ('c rfsrv \<times> bool) go" where
  \<comment> \<open>the flag is false when an error message is returned\<close>
  "ingestSnap dec rs snap index =
     (case snap of None \<Rightarrow> Inl LogFatal
      | Some b \<Rightarrow> (case dec b of None \<Rightarrow> Inl LogFatal
        | Some (lastIncludedIndex, xlog) \<Rightarrow>
            if index \<noteq> -1 \<and> index \<noteq> lastIncludedIndex then Inr (rs, False)
            else Inr (rs\<lparr>logs := (\<lambda>j. if 0 \<le> j \<and> j < int (length xlog) then Some (xlog ! nat j) else None),
                         rsLastApplied := lastIncludedIndex\<rparr>, True)))"

definition makeSnap :: "'c rfsrv \<Rightarrow> int \<Rightarrow> 'c snap" where
  \<comment> \<open>the commands from index 0 on; a missing one is nil\<close>
  "makeSnap rs index =
     (index, map (\<lambda>j. case logs rs j of None \<Rightarrow> None | Some c \<Rightarrow> c) [0..index])"

definition applierSnap ::
  "('c snap \<Rightarrow> byte list) \<Rightarrow> (byte list \<Rightarrow> 'c snap option) \<Rightarrow> nat \<Rightarrow> 'c Test \<Rightarrow> 'c ApplyMsg \<Rightarrow> ('c Test \<times> (int \<times> byte list) option) go" where
  \<comment> \<open>one message; the second component is the call \<open>rs.raft.Snapshot(index, bytes)\<close>, if it is made\<close>
  "applierSnap enc dec i ts m =
     (if SnapshotValid m
      then go_bind (ingestSnap dec (srvs ts ! i) (amSnapshot m) (amSnapshotIndex m)) (\<lambda>(rs, ok).
             if ok then Inr (ts\<lparr>srvs := (srvs ts)[i := rs]\<rparr>, None) else Inl LogFatal)
      else if CommandValid m
      then (if CommandIndex m \<noteq> rsLastApplied (srvs ts ! i) + 1 then Inl LogFatal
            else case checkLogs ts i m of (ts1, err, prevok) \<Rightarrow>
              let rs = (srvs ts1 ! i)\<lparr>rsLastApplied := CommandIndex m\<rparr>;
                  ts2 = ts1\<lparr>srvs := (srvs ts1)[i := rs]\<rparr>
              in if err \<or> CommandIndex m > 1 \<and> \<not> prevok then Inl LogFatal
                 else Inr (ts2, if (CommandIndex m + 1) mod SnapShotInterval = 0
                                then Some (CommandIndex m, enc (makeSnap rs (CommandIndex m))) else None))
      else Inr (ts, None))"

subsection \<open>Checks over all peers\<close>

definition Logs :: "'c rfsrv \<Rightarrow> int \<Rightarrow> 'c option option" where
  \<comment> \<open>\<open>None\<close>: there is no entry\<close>
  "Logs rs i = logs rs i"

declare Logs_def [simp]

fun nCommitted_loop :: "'c rfsrv list \<Rightarrow> int \<Rightarrow> nat \<times> 'c option \<Rightarrow> (nat \<times> 'c option) go" where
  "nCommitted_loop [] index (cnt, cmd) = Inr (cnt, cmd)"
| "nCommitted_loop (rs # ss) index (cnt, cmd) =
     (case Logs rs index of None \<Rightarrow> nCommitted_loop ss index (cnt, cmd)
      | Some cmd1 \<Rightarrow> if cnt > 0 \<and> cmd \<noteq> cmd1 then Inl LogFatal
                     else nCommitted_loop ss index (cnt + 1, cmd1))"

definition nCommitted :: "'c Test \<Rightarrow> int \<Rightarrow> (nat \<times> 'c option) go" where
  "nCommitted ts index = nCommitted_loop (srvs ts) index (0, None)"

definition leadersOf :: "(bool \<times> 'c raft) list \<Rightarrow> (int \<times> nat) list" where
  \<comment> \<open>term and number of every connected peer that says it leads\<close>
  "leadersOf ps = map (\<lambda>(i, _, rf). (CurrentTerm rf, i))
     (filter (\<lambda>(i, conn, rf). conn \<and> snd (GetState rf)) (enumerate 0 ps))"

definition checkOneLeader_round :: "(bool \<times> 'c raft) list \<Rightarrow> nat option go" where
  \<comment> \<open>one of the ten rounds: stop on two leaders of a term, else the leader of the last term\<close>
  "checkOneLeader_round ps =
     (let ls = leadersOf ps in
      if \<not> distinct (map fst ls) then Inl LogFatal
      else Inr (if ls = [] then None else map_of ls (Max (set (map fst ls)))))"

fun checkTerms_loop :: "(bool \<times> 'c raft) list \<Rightarrow> int \<Rightarrow> int go" where
  "checkTerms_loop [] t = Inr t"
| "checkTerms_loop ((conn, rf) # ps) t =
     (if \<not> conn then checkTerms_loop ps t
      else if t = -1 then checkTerms_loop ps (CurrentTerm rf)
      else if t \<noteq> CurrentTerm rf then Inl LogFatal else checkTerms_loop ps t)"

definition checkNoLeader :: "(bool \<times> 'c raft) list \<Rightarrow> unit go" where
  "checkNoLeader ps = (if list_ex (\<lambda>(conn, rf). conn \<and> snd (GetState rf)) ps then Inl LogFatal else Inr ())"

subsection \<open>Snapshots give the log back\<close>

text \<open>
  A snapshot of the service is complete. Let the encoding give back what was encoded.
  A service that takes a snapshot at an index and later restores it from the message Raft hands back
  has the same commands as before at every index up to that one (index 0, which holds no command, is
  nil), and goes on after that index.
\<close>

theorem snapshot_restores_logs:
  assumes "\<And>x. dec (enc x) = Some x" and "0 \<le> index" and "\<And>j. 1 \<le> j \<Longrightarrow> j \<le> index \<Longrightarrow> logs rs j \<noteq> None"
  shows "\<exists>rs'. ingestSnap dec old (Some (enc (makeSnap rs index))) index = Inr (rs', True) \<and>
    rsLastApplied rs' = index \<and> (\<forall>j. 1 \<le> j \<and> j \<le> index \<longrightarrow> logs rs' j = logs rs j) \<and>
    (\<forall>j. index < j \<longrightarrow> logs rs' j = None)"
proof -
  let ?xs = "map (\<lambda>j. case logs rs j of None \<Rightarrow> None | Some c \<Rightarrow> c) [0..index]"
  have len: "int (length ?xs) = index + 1" using assms(2) by simp
  have nth: "?xs ! nat j = (case logs rs j of None \<Rightarrow> None | Some c \<Rightarrow> c)" if "0 \<le> j" "j \<le> index" for j
    using that by simp
  have "logs rs j = Some (?xs ! nat j)" if "1 \<le> j" "j \<le> index" for j
    using nth [of j] assms(3) [OF that] that by (auto split: option.splits)
  then show ?thesis using assms(1,2) len by (simp add: ingestSnap_def makeSnap_def)
qed

definition ex_enc :: "nat snap \<Rightarrow> byte list" where
  \<comment> \<open>some encoding\<close>
  "ex_enc x = replicate (to_nat x) 0"

definition ex_dec :: "byte list \<Rightarrow> nat snap option" where
  "ex_dec b = Some (from_nat (length b))"

theorem snapshot_restores_logs_witness:
  "\<exists>rs' :: nat rfsrv. ingestSnap ex_dec \<lparr>rsLastApplied = 0, logs = (\<lambda>_. None)\<rparr>
       (Some (ex_enc (makeSnap \<lparr>rsLastApplied = 1, logs = [1 \<mapsto> Some 7]\<rparr> 1))) 1 = Inr (rs', True) \<and>
     logs rs' 1 = Some (Some 7) \<and> rsLastApplied rs' = 1"
proof -
  let ?rs = "\<lparr>rsLastApplied = 1, logs = [1 \<mapsto> Some 7]\<rparr> :: nat rfsrv"
  have code: "ex_dec (ex_enc x) = Some x" for x by (simp add: ex_enc_def ex_dec_def)
  have all: "logs ?rs j \<noteq> None" if "1 \<le> j" "j \<le> 1" for j using that by auto
  from snapshot_restores_logs [of ex_dec ex_enc 1 ?rs "\<lparr>rsLastApplied = 0, logs = (\<lambda>_. None)\<rparr>", OF code _ all]
  show ?thesis by auto
qed

subsection \<open>Messages in order are accepted, disagreeing ones are not\<close>

definition agrees :: "'c rfsrv list \<Rightarrow> 'c raft \<Rightarrow> int \<Rightarrow> bool" where
  \<comment> \<open>what the services have recorded from index \<open>a\<close> on is what the peer's log has there\<close>
  "agrees ss rf a \<longleftrightarrow> (\<forall>rs \<in> set ss. \<forall>k c. a \<le> k \<longrightarrow> k \<le> commitIndex rf \<longrightarrow> logs rs k = Some c \<longrightarrow>
     c = Command (Log rf ! nat (k - SnapshotIndex rf)))"

definition recorded :: "nat \<Rightarrow> 'c raft \<Rightarrow> int \<Rightarrow> 'c Test \<Rightarrow> 'c Test" where
  \<comment> \<open>service \<open>i\<close> has recorded the peer's command at index \<open>a\<close>\<close>
  "recorded i rf a ts = ts\<lparr>srvs := (srvs ts)[i := (srvs ts ! i)\<lparr>logs := (logs (srvs ts ! i))
     (a \<mapsto> Command (Log rf ! nat (a - SnapshotIndex rf)))\<rparr>], maxIndex := max (maxIndex ts) a\<rparr>"

lemma recorded_simps [simp]:
  "length (srvs (recorded i rf a ts)) = length (srvs ts)"
  "j \<noteq> i \<Longrightarrow> srvs (recorded i rf a ts) ! j = srvs ts ! j"
  "i < length (srvs ts) \<Longrightarrow> logs (srvs (recorded i rf a ts) ! i) =
     (logs (srvs ts ! i))(a \<mapsto> Command (Log rf ! nat (a - SnapshotIndex rf)))"
  by (simp_all add: recorded_def)

lemma applier_next:
  assumes "a = 1 \<or> logs (srvs ts ! i) (a - 1) \<noteq> None"
  shows "applier i ts (commandMsg (Command (Log rf ! nat (a - SnapshotIndex rf))) a) =
    (if \<exists>rs \<in> set (srvs ts). \<exists>c. logs rs a = Some c \<and> c \<noteq> Command (Log rf ! nat (a - SnapshotIndex rf))
     then Inl LogFatal else Inr (recorded i rf a ts))"
  using assms
  by (auto simp: applier_def checkLogs_def Let_def commandMsg_def commitConflict_def list_ex_iff recorded_def split: option.splits)

lemma agrees_split:
  "a \<le> commitIndex rf \<Longrightarrow> agrees ss rf a \<longleftrightarrow> agrees ss rf (a + 1) \<and>
     \<not> (\<exists>rs \<in> set ss. \<exists>c. logs rs a = Some c \<and> c \<noteq> Command (Log rf ! nat (a - SnapshotIndex rf)))"
  unfolding agrees_def by (smt (verit, ccfv_threshold))

lemma agrees_nth:
  "agrees ss rf a \<longleftrightarrow> (\<forall>j < length ss. \<forall>k c. a \<le> k \<longrightarrow> k \<le> commitIndex rf \<longrightarrow> logs (ss ! j) k = Some c \<longrightarrow>
     c = Command (Log rf ! nat (k - SnapshotIndex rf)))"
  by (simp add: agrees_def all_set_conv_all_nth)

lemma agrees_recorded:
  assumes "i < length (srvs ts)"
  shows "agrees (srvs (recorded i rf a ts)) rf (a + 1) = agrees (srvs ts) rf (a + 1)"
proof -
  have "logs (srvs (recorded i rf a ts) ! j) k = logs (srvs ts ! j) k" if "a + 1 \<le> k" for j k
    using that assms by (cases "j = i") simp_all
  then show ?thesis by (simp add: agrees_nth)
qed

lemma applier_all_exact:
  assumes "i < length (srvs ts)" and "1 \<le> a" and "a = 1 \<or> logs (srvs ts ! i) (a - 1) \<noteq> None"
  shows "if agrees (srvs ts) rf a
    then \<exists>ts1. applier_all i ts (appliedMsgs rf a (commitIndex rf)) = Inr ts1 \<and>
      (\<forall>k. logs (srvs ts1 ! i) k = (if a \<le> k \<and> k \<le> commitIndex rf
         then Some (Command (Log rf ! nat (k - SnapshotIndex rf))) else logs (srvs ts ! i) k)) \<and>
      (\<forall>j. j \<noteq> i \<longrightarrow> srvs ts1 ! j = srvs ts ! j)
    else applier_all i ts (appliedMsgs rf a (commitIndex rf)) = Inl LogFatal"
  using assms
proof (induction "nat (commitIndex rf + 1 - a)" arbitrary: a ts)
  case 0
  then show ?case by (auto simp: appliedMsgs_def agrees_def)
next
  case (Suc n)
  let ?ts = "recorded i rf a ts"
  have le: "a \<le> commitIndex rf" using Suc.hyps(2) by simp
  have ms: "appliedMsgs rf a (commitIndex rf) =
      commandMsg (Command (Log rf ! nat (a - SnapshotIndex rf))) a # appliedMsgs rf (a + 1) (commitIndex rf)"
    using le by (simp add: appliedMsgs_def upto_rec1)
  have "n = nat (commitIndex rf + 1 - (a + 1))" using Suc.hyps(2) by simp
  note IH = Suc.hyps(1) [OF this, of ?ts]
  show ?case
  proof (cases "\<exists>rs \<in> set (srvs ts). \<exists>c. logs rs a = Some c \<and> c \<noteq> Command (Log rf ! nat (a - SnapshotIndex rf))")
    case True
    then show ?thesis using agrees_split [OF le, of "srvs ts"] applier_next [OF Suc.prems(3), of rf] by (simp add: ms)
  next
    case False
    have "applier i ts (commandMsg (Command (Log rf ! nat (a - SnapshotIndex rf))) a) = Inr ?ts"
      unfolding applier_next [OF Suc.prems(3)] using False by (simp only: if_False)
    then have run: "applier_all i ts (appliedMsgs rf a (commitIndex rf)) = applier_all i ?ts (appliedMsgs rf (a + 1) (commitIndex rf))"
      by (simp add: ms)
    have ag: "agrees (srvs ts) rf a = agrees (srvs ?ts) rf (a + 1)"
      using False agrees_split [OF le, of "srvs ts"] agrees_recorded [OF Suc.prems(1), of rf a] by blast
    have shift: "(if a + 1 \<le> k \<and> k \<le> commitIndex rf then Some (Command (Log rf ! nat (k - SnapshotIndex rf)))
        else logs (srvs ?ts ! i) k) = (if a \<le> k \<and> k \<le> commitIndex rf
        then Some (Command (Log rf ! nat (k - SnapshotIndex rf))) else logs (srvs ts ! i) k)" for k
      using Suc.prems(1) le by auto
    have pre: "i < length (srvs ?ts)" "1 \<le> a + 1" "a + 1 = 1 \<or> logs (srvs ?ts ! i) (a + 1 - 1) \<noteq> None"
      using Suc.prems by simp_all
    show ?thesis unfolding run ag using IH [OF pre, unfolded shift]
      by (cases "agrees (srvs ?ts) rf (a + 1)") (simp_all split del: if_split)
  qed
qed

end
