(* ===== verification/Raft_Restart.thy ===== *)
theory Raft_Restart
  imports Tester_Group Rfsrv
begin

text \<open>
  Restarting a Raft server through the test harness: the harness (\<open>Tester_Group\<close>) stops a server,
  keeps a copy of its stable storage and starts it again, and the server (\<open>newRfsrv\<close> and \<open>mksrv\<close> of
  \<open>src/raft1\<close>) makes a new Raft peer and a new service from it. The theory proves that what the peer
  had promised survives this.
\<close>

datatype 'c tsvc = SvcRf "'c rfsrv" | SvcRaft "'c raft"

definition newRfsrv :: "(byte list \<Rightarrow> 'c snap option) \<Rightarrow> nat \<Rightarrow> nat \<Rightarrow> 'c persister \<Rightarrow> bool \<Rightarrow> ('c rfsrv \<times> 'c raft) go" where
  "newRfsrv dec n i ps snap =
     (let s = \<lparr>rsLastApplied = 0, logs = (\<lambda>_. None)\<rparr> in
      go_bind (Make n i ps) (\<lambda>rf.
        if snap \<and> length (ReadSnapshot ps) > 0
        then go_bind (ingestSnap dec s (Some (ReadSnapshot ps)) (-1)) (\<lambda>(rs, ok). if ok then Inr (rs, rf) else Inl LogFatal)
        else Inr (s, rf)))"

definition mksrv :: "(byte list \<Rightarrow> 'c snap option) \<Rightarrow> nat \<Rightarrow> bool \<Rightarrow> ('e, 'c, 'c tsvc) starter" where
  "mksrv dec n snap es g i ps =
     go_bind (newRfsrv dec n i ps snap) (\<lambda>(rs, rf). Inr [SvcRf rs, SvcRaft rf])"

definition rfsrv_Kill :: "'c persister \<Rightarrow> 'c persister" where
  \<comment> \<open>what \<open>Kill\<close> of the service does to the persister\<close>
  "rfsrv_Kill ps = Save ps (ReadRaftState ps) (ReadSnapshot ps)"

definition restart ::
  "(int \<Rightarrow> string) \<Rightarrow> ('e, 'c, 'svc) starter \<Rightarrow> 'e list \<Rightarrow> nat \<Rightarrow> nat \<Rightarrow> 'e net \<times> ('e, 'c, 'svc) ServerGrp \<Rightarrow>
   ('e net \<times> ('e, 'c, 'svc) ServerGrp) go" where
  "restart itoa mks names obj i s = go_bind (StartServer itoa mks names obj i s) ConnectAll"

lemma rfsrv_Kill_same: "rfsrv_Kill ps = ps"
  by (simp add: rfsrv_Kill_def)

lemma crash_total:
  assumes "peer_step\<^sup>*\<^sup>* (newRaft 3 0 MakePersister) rf"
  shows "\<exists>rf'. Make (npeers rf) (me rf) (Copy (persister rf)) = Inr rf'"
proof -
  have "synced (newRaft 3 0 MakePersister)" by (simp add: newRaft_def synced_def MakePersister_def)
  then show ?thesis
    using Make_recovers peer.run_keeps_shape [OF assms] peer.run_keeps_synced [OF assms] newRaft_wf [of 0 3] by (metis zero_less_numeral)
qed

lemma mksrv_law:
  assumes "mksrv dec n True es g i ps = Inr ss"
  obtains rs rf where "ss = [SvcRf rs, SvcRaft rf]" "Make n i ps = Inr rf"
    "if ReadSnapshot ps = [] then rs = \<lparr>rsLastApplied = 0, logs = (\<lambda>_. None)\<rparr>
     else \<exists>old. ingestSnap dec old (Some (ReadSnapshot ps)) (-1) = Inr (rs, True)"
proof (cases "ReadSnapshot ps = []")
  case True
  with assms that show ?thesis by (auto simp: mksrv_def newRfsrv_def go_inv Let_def)
next
  case False
  with assms that show ?thesis by (auto simp: mksrv_def newRfsrv_def go_inv Let_def split: if_splits)
qed

lemma ShutdownServer_law:
  assumes "ShutdownServer itoa i (net, sg) = Inr (net1, sg1)"
  shows "i < N sg" "gid sg1 = gid sg" "N sg1 = N sg" "gsrvs sg1 ! i = shutdownServer (gsrvs sg ! i)" "gsrvs sg1 = (gsrvs sg)[i := shutdownServer (gsrvs sg ! i)]"
  using assms by (auto simp: ShutdownServer_def DisconnectAll_def disconnect_def inGrp_def go_inv Let_def N_def split: if_splits)

text \<open>
  Property C38 (a restart through the harness). Let the persister the harness keeps for server \<open>i\<close> be
  the one its Raft peer, after any run of critical sections, has written to. Shutting the server
  down and starting it again hands the peer's term, vote, log and snapshot index to the new peer;
  the new service starts from the snapshot the peer had saved, if there was one; the other servers
  are left alone.
\<close>

theorem restart_recovers_raft:
  assumes "i < n" and "peer_step\<^sup>*\<^sup>* (newRaft n i MakePersister) rf" and "saved (gsrvs sg ! i) = Some (persister rf)"
    and "ShutdownServer itoa i (net, sg) = Inr (net1, sg1)"
    and "StartServer itoa (mksrv dec n True) names obj i (net1, sg1) = Inr (net2, sg2)"
  shows "\<exists>rs rf'. svcs (gsrvs sg2 ! i) = [SvcRf rs, SvcRaft rf'] \<and> CurrentTerm rf' = CurrentTerm rf \<and> VotedFor rf' = VotedFor rf \<and>
    Log rf' = Log rf \<and> SnapshotIndex rf' = SnapshotIndex rf \<and> saved (gsrvs sg2 ! i) = Some (persister rf) \<and>
    (case SnapshotByte rf of None \<Rightarrow> rsLastApplied rs = 0
     | Some b \<Rightarrow> b \<noteq> [] \<longrightarrow> (\<exists>xlog. dec b = Some (rsLastApplied rs, xlog) \<and>
         (\<forall>j. 0 \<le> j \<and> j < int (length xlog) \<longrightarrow> logs rs j = Some (xlog ! nat j)))) \<and>
    (\<forall>j < N sg. j \<noteq> i \<longrightarrow> gsrvs sg2 ! j = gsrvs sg ! j)"
proof -
  note sh = ShutdownServer_law [OF assms(4)]
  have "synced (newRaft n i MakePersister)" by (simp add: newRaft_def synced_def MakePersister_def)
  then have ok: "wf_raft rf" "synced rf"
    using peer.run_keeps_shape [OF assms(2)] peer.run_keeps_synced [OF assms(2)] newRaft_wf [OF assms(1)] by blast+
  have id: "me rf = i" "npeers rf = n" using peer.run_ok [OF assms(2)] by (simp_all add: contract_ok_def newRaft_def)
  have sv: "saved (shutdownServer (gsrvs sg ! i)) = Some (persister rf)" using assms(3) by (simp add: shutdownServer_def)
  obtain ss where ss: "mksrv dec n True names (gid sg1) i (persister rf) = Inr ss" "svcs (gsrvs sg2 ! i) = ss"
    "saved (gsrvs sg2 ! i) = Some (persister rf)" "\<forall>j < N sg. j \<noteq> i \<longrightarrow> gsrvs sg2 ! j = gsrvs sg ! j"
    using sh by (rule_tac StartServer_law [OF assms(5)]) (auto simp: sv N_def)
  obtain rs rf1 where r: "ss = [SvcRf rs, SvcRaft rf1]" "Make n i (persister rf) = Inr rf1"
    "if ReadSnapshot (persister rf) = [] then rs = \<lparr>rsLastApplied = 0, logs = (\<lambda>_. None)\<rparr>
     else \<exists>old. ingestSnap dec old (Some (ReadSnapshot (persister rf))) (-1) = Inr (rs, True)"
    by (rule mksrv_law [OF ss(1)])
  have "CurrentTerm rf1 = CurrentTerm rf" "VotedFor rf1 = VotedFor rf" "Log rf1 = Log rf" "SnapshotIndex rf1 = SnapshotIndex rf"
    using Make_recovers [OF ok] r(2) by (auto simp: id)
  moreover have "snapshot (persister rf) = (case SnapshotByte rf of None \<Rightarrow> [] | Some b \<Rightarrow> b)" using ok(2) by (simp add: synced_def)
  then have "case SnapshotByte rf of None \<Rightarrow> rsLastApplied rs = 0
     | Some b \<Rightarrow> b \<noteq> [] \<longrightarrow> (\<exists>xlog. dec b = Some (rsLastApplied rs, xlog) \<and>
         (\<forall>j. 0 \<le> j \<and> j < int (length xlog) \<longrightarrow> logs rs j = Some (xlog ! nat j)))"
    using r(3) by (auto simp: ReadSnapshot_def clone_def ingestSnap_def split: option.splits if_splits)
  ultimately show ?thesis using ss(2-4) r(1) by blast
qed

definition ex_servers :: "nat persister \<Rightarrow> (nat, nat, 'svc) ServerGrp" where
  \<comment> \<open>three servers that share a persister value\<close>
  "ex_servers ps = \<lparr>gsrvs = map (\<lambda>a. \<lparr>saved = Some ps, svcs = [], endNames = map (\<lambda>b. 3 * a + b) [0..<3]\<rparr>) [0..<3],
     servernames = [], gid = 0, connected = [True, True, True]\<rparr>"

lemma ex_shutdown:
  obtains rf :: "nat raft" and net1 and sg1 :: "(nat, nat, 'svc) ServerGrp" and rf1
  where "peer_step\<^sup>*\<^sup>* (newRaft 3 0 MakePersister) rf" "CurrentTerm rf = 1" "VotedFor rf = 0" "snapshot (persister rf) = []"
    "ShutdownServer (\<lambda>_. []) 0 (MakeNetwork, ex_servers (persister rf)) = Inr (net1, sg1)" "ends net1 = []"
    "Make 3 0 (persister rf) = Inr rf1"
proof -
  let ?r = "newRaft 3 0 MakePersister :: nat raft"
  obtain rf where st: "startElection ?r = Some (rf, 1)" "CurrentTerm rf = 1" "VotedFor rf = 0"
    by (auto simp: startElection_def newRaft_def Let_def)
  have run: "peer_step\<^sup>*\<^sup>* ?r rf" using st(1) by (blast intro: peer_step.start_election)
  have sn: "snapshot (persister rf) = []" using st(1) by (auto simp: startElection_def newRaft_def persist_def)
  let ?sg = "ex_servers (persister rf) :: (nat, nat, 'svc) ServerGrp"
  have "inGrp ?sg (0 # all ?sg)" by (simp add: inGrp_def all_def N_def ex_servers_def list_all_iff)
  then obtain net1 sg1 where sh: "ShutdownServer (\<lambda>_. []) 0 (MakeNetwork, ?sg) = Inr (net1, sg1)"
    by (simp add: ShutdownServer_def DisconnectAll_def disconnect_def Let_def)
  have e0: "ends net1 = []" using sh
    by (auto simp: ShutdownServer_def DisconnectAll_def disconnect_def Server_disconnect_def DeleteServer_def Let_def go_inv
        MakeNetwork_def split: if_splits)
  have mk: "Make 3 0 (persister rf) = Make (npeers rf) (me rf) (Copy (persister rf))"
    using st(1) by (auto simp: startElection_def newRaft_def Let_def)
  obtain rf1 where "Make 3 0 (persister rf) = Inr rf1" using crash_total [OF run] by (auto simp: mk)
  with that run st(2,3) sn sh e0 show ?thesis by blast
qed

theorem restart_recovers_raft_witness:
  "\<exists>rf sg1 sg2 net1 net2 rs rf'. peer_step\<^sup>*\<^sup>* (newRaft 3 0 MakePersister) rf \<and> CurrentTerm rf = 1 \<and>
     ShutdownServer (\<lambda>_. []) 0 (MakeNetwork, ex_servers (persister rf)) = Inr (net1, sg1) \<and>
     StartServer (\<lambda>_. []) (mksrv ex_dec 3 True) [10, 11, 12] 0 0 (net1, sg1) = Inr (net2, sg2) \<and>
     svcs (gsrvs sg2 ! 0) = [SvcRf rs, SvcRaft rf'] \<and> CurrentTerm rf' = 1 \<and> VotedFor rf' = 0"
proof -
  obtain rf net1 rf1 and sg1 :: "(nat, nat, nat tsvc) ServerGrp"
    where ex: "peer_step\<^sup>*\<^sup>* (newRaft 3 0 MakePersister) rf" "CurrentTerm rf = 1" "VotedFor rf = 0" "snapshot (persister rf) = []"
      "ShutdownServer (\<lambda>_. []) 0 (MakeNetwork, ex_servers (persister rf)) = Inr (net1, sg1)" "ends net1 = []"
      "Make 3 0 (persister rf) = Inr rf1" by (rule ex_shutdown)
  have "\<exists>s2. StartServer (\<lambda>_. []) (mksrv ex_dec 3 True) [10, 11, 12] 0 0 (net1, sg1) = Inr s2"
    using ShutdownServer_law [OF ex(5)] ex(4,6,7)
    by (simp add: StartServer_def startServer_def makeServer_def MakeEnd_def Connect_def mksrv_def newRfsrv_def
        shutdownServer_def ex_servers_def N_def Let_def)
  then obtain net2 sg2 where start: "StartServer (\<lambda>_. []) (mksrv ex_dec 3 True) [10, 11, 12] 0 0 (net1, sg1) = Inr (net2, sg2)" by auto
  have "saved (gsrvs (ex_servers (persister rf)) ! 0) = Some (persister rf)" by (simp add: ex_servers_def)
  from restart_recovers_raft [OF _ ex(1) this ex(5) start] ex(1,2,3,5) start show ?thesis by force
qed

end
