(* ===== verification/Kvsrv.thy ===== *)
theory Kvsrv
  imports Go_Prelude "HOL-Library.List_Lexorder" "HOL-Library.Char_ord"
begin

text \<open>
  The key/value service: the RPC types (\<open>src/kvsrv1/rpc/rpc.go\<close>), the server
  (\<open>src/kvsrv1/server.go\<close>), the clerk (\<open>src/kvsrv1/client.go\<close>) and the sequential model the tests
  check histories against (\<open>src/models1/kv.go\<close>).

  A handler of the server is a function on its state. The clerk's retry loops run over the list of
  what the network does to each attempt: the puts of other clients that the server handles before
  it, and whether the request or the reply is lost. The list ends when the loop is still retrying
  (\<open>None\<close>). The interface of a versioned store is the locale \<open>versioned_kv\<close>, and the server is its
  interpretation.
\<close>

subsection \<open>RPC types\<close>

type_synonym Err = string

definition OK :: Err where "OK = ''OK''"
definition ErrNoKey :: Err where "ErrNoKey = ''ErrNoKey''"
definition ErrVersion :: Err where "ErrVersion = ''ErrVersion''"
definition ErrMaybe :: Err where "ErrMaybe = ''ErrMaybe''"
definition ErrWrongLeader :: Err where "ErrWrongLeader = ''ErrWrongLeader''"
definition ErrWrongGroup :: Err where "ErrWrongGroup = ''ErrWrongGroup''"

lemma Err_distinct [simp]:
  "OK \<noteq> ErrNoKey" "OK \<noteq> ErrVersion" "OK \<noteq> ErrMaybe" "ErrNoKey \<noteq> OK" "ErrNoKey \<noteq> ErrVersion" "ErrNoKey \<noteq> ErrMaybe"
  "ErrVersion \<noteq> OK" "ErrVersion \<noteq> ErrNoKey" "ErrVersion \<noteq> ErrMaybe" "ErrMaybe \<noteq> OK" "ErrMaybe \<noteq> ErrNoKey" "ErrMaybe \<noteq> ErrVersion"
  by (simp_all add: OK_def ErrNoKey_def ErrVersion_def ErrMaybe_def)

type_synonym Tversion = "64 word"

record PutArgs =
  pKey :: string
  pValue :: string
  pVersion :: Tversion

record GetReply =
  gValue :: string
  gVersion :: Tversion
  gErr :: Err

subsection \<open>The server\<close>

record StoreValue =
  Value :: string
  Version :: Tversion

record KVServer =
  kvStore :: "string \<Rightarrow> StoreValue option"

definition MakeKVServer :: KVServer where
  "MakeKVServer = \<lparr>kvStore = Map.empty\<rparr>"

definition Get :: "KVServer \<Rightarrow> string \<Rightarrow> GetReply" where
  \<comment> \<open>a missing key leaves value and version of the reply at their zero values\<close>
  "Get kv key =
     (case kvStore kv key of
        Some v \<Rightarrow> \<lparr>gValue = Value v, gVersion = Version v, gErr = OK\<rparr>
      | None \<Rightarrow> \<lparr>gValue = [], gVersion = 0, gErr = ErrNoKey\<rparr>)"

definition Put :: "KVServer \<Rightarrow> PutArgs \<Rightarrow> KVServer \<times> Err" where
  "Put kv args =
     (case kvStore kv (pKey args) of
        Some v \<Rightarrow>
          if Version v = pVersion args
          then (kv\<lparr>kvStore := (kvStore kv)(pKey args \<mapsto> \<lparr>Value = pValue args, Version = pVersion args + 1\<rparr>)\<rparr>, OK)
          else (kv, ErrVersion)
      | None \<Rightarrow>
          if pVersion args = 0
          then (kv\<lparr>kvStore := (kvStore kv)(pKey args \<mapsto> \<lparr>Value = pValue args, Version = 1\<rparr>)\<rparr>, OK)
          else (kv, ErrNoKey))"

subsection \<open>The clerk\<close>

datatype fate = RequestLost | ReplyLost | Delivered

type_synonym network = "(PutArgs list \<times> fate) list"

definition run_puts :: "KVServer \<Rightarrow> PutArgs list \<Rightarrow> KVServer" where
  \<comment> \<open>puts of other clients, handled by the server one after the other\<close>
  "run_puts = foldl (\<lambda>kv a. fst (Put kv a))"

fun Clerk_Get :: "network \<Rightarrow> string \<Rightarrow> KVServer \<Rightarrow> (KVServer \<times> GetReply) option" where
  "Clerk_Get [] key kv = None"
| "Clerk_Get ((others, f) # net) key kv =
     (let kv1 = run_puts kv others in
      if f = Delivered then Some (kv1, Get kv1 key) else Clerk_Get net key kv1)"

fun Clerk_Put_loop :: "network \<Rightarrow> PutArgs \<Rightarrow> bool \<Rightarrow> KVServer \<Rightarrow> (KVServer \<times> Err) option" where
  "Clerk_Put_loop [] args retry kv = None"
| "Clerk_Put_loop ((others, f) # net) args retry kv =
     (let kv1 = run_puts kv others in
      case f of
        RequestLost \<Rightarrow> Clerk_Put_loop net args True kv1
      | ReplyLost \<Rightarrow> Clerk_Put_loop net args True (fst (Put kv1 args))
      | Delivered \<Rightarrow>
          let (kv2, err) = Put kv1 args
          in if err = ErrVersion \<and> retry then Some (kv2, ErrMaybe) else Some (kv2, err))"

definition Clerk_Put :: "network \<Rightarrow> string \<Rightarrow> string \<Rightarrow> Tversion \<Rightarrow> KVServer \<Rightarrow> (KVServer \<times> Err) option" where
  "Clerk_Put net key value version kv =
     Clerk_Put_loop net \<lparr>pKey = key, pValue = value, pVersion = version\<rparr> False kv"

subsection \<open>The sequential model of the tests\<close>

record KvInput =
  kiOp :: "8 word"
  kiKey :: string
  kiValue :: string
  kiVersion :: "64 word"

record KvOutput =
  koValue :: string
  koVersion :: "64 word"
  koErr :: string

record KvState =
  ksValue :: string
  ksVersion :: "64 word"

definition KvModel_Init :: KvState where
  "KvModel_Init = \<lparr>ksValue = [], ksVersion = 0\<rparr>"

definition KvModel_Step :: "KvState \<Rightarrow> KvInput \<Rightarrow> KvOutput \<Rightarrow> bool \<times> KvState option" where
  \<comment> \<open>\<open>None\<close> is the value \<open>"<invalid>"\<close> of an operation that does not exist\<close>
  "KvModel_Step st inp out =
     (if kiOp inp = 0 then (koValue out = ksValue st, Some st)
      else if kiOp inp = 1
      then (if ksVersion st = kiVersion inp
            then (koErr out = ''OK'' \<or> koErr out = ''ErrMaybe'',
                  Some \<lparr>ksValue = kiValue inp, ksVersion = ksVersion st + 1\<rparr>)
            else (koErr out = ''ErrVersion'' \<or> koErr out = ''ErrMaybe'', Some st))
      else (False, None))"

definition DescribeOperation :: "(64 word \<Rightarrow> string) \<Rightarrow> KvInput \<Rightarrow> KvOutput \<Rightarrow> string" where
  \<comment> \<open>\<open>dec\<close> writes a version in decimal\<close>
  "DescribeOperation dec inp out =
     (if kiOp inp = 0
      then ''get('' @ [CHR 0x27] @ kiKey inp @ [CHR 0x27] @ '') -> ('' @ [CHR 0x27] @ koValue out @ [CHR 0x27] @ '', '' @ [CHR 0x27] @
           dec (koVersion out) @ [CHR 0x27] @ '', '' @ [CHR 0x27] @ koErr out @ [CHR 0x27] @ '')''
      else if kiOp inp = 1
      then ''put('' @ [CHR 0x27] @ kiKey inp @ [CHR 0x27] @ '', '' @ [CHR 0x27] @ kiValue inp @ [CHR 0x27] @ '', '' @ [CHR 0x27] @
           dec (kiVersion inp) @ [CHR 0x27] @ '') -> ('' @ [CHR 0x27] @ koErr out @ [CHR 0x27] @ '')''
      else ''<invalid>'')"

lemma DescribeOperation_invalid: "DescribeOperation dec inp out = ''<invalid>'' \<longleftrightarrow> snd (KvModel_Step st inp out) = None"
  by (simp add: DescribeOperation_def KvModel_Step_def)

fun groupKeys :: "(KvInput \<times> 'o) list \<Rightarrow> (string \<times> (KvInput \<times> 'o) list) list" where
  \<comment> \<open>\<open>m[key] = append(m[key], v)\<close> over the history, keys in order of first use\<close>
  "groupKeys [] = []"
| "groupKeys (v # vs) =
     (kiKey (fst v), v # filter (\<lambda>w. kiKey (fst w) = kiKey (fst v)) vs) #
     filter (\<lambda>g. fst g \<noteq> kiKey (fst v)) (groupKeys vs)"

definition KvModel_Partition :: "(KvInput \<times> 'o) list \<Rightarrow> (KvInput \<times> 'o) list list" where
  "KvModel_Partition history =
     (let m = groupKeys history in map (\<lambda>k. the (map_of m k)) (sort (map fst m)))"

definition absKv :: "KVServer \<Rightarrow> string \<Rightarrow> KvState" where
  \<comment> \<open>the abstract state of one key: a missing key is the initial state\<close>
  "absKv kv key = (case kvStore kv key of None \<Rightarrow> KvModel_Init
                   | Some v \<Rightarrow> \<lparr>ksValue = Value v, ksVersion = Version v\<rparr>)"

subsection \<open>Versioned stores\<close>

text \<open>
  The contract of a store whose puts are conditional on a 64-bit version. A version that has been
  left is not seen again until \<open>2 ^ 64\<close> puts have been applied.
\<close>

locale versioned_kv =
  fixes ver :: "'s \<Rightarrow> 'k \<Rightarrow> 64 word" and put :: "'s \<Rightarrow> 'a \<Rightarrow> 's"
    and pkey :: "'a \<Rightarrow> 'k" and pver :: "'a \<Rightarrow> 64 word"
  assumes put_hit: "ver s (pkey a) = pver a \<Longrightarrow> ver (put s a) (pkey a) = pver a + 1"
    and put_miss: "ver s (pkey a) \<noteq> pver a \<Longrightarrow> put s a = s"
    and put_other: "k \<noteq> pkey a \<Longrightarrow> ver (put s a) k = ver s k"
begin

lemma put_version:
  assumes "unat (ver s k) + 1 < 2 ^ 64"
  shows "unat (ver s k) \<le> unat (ver (put s a) k)" "unat (ver (put s a) k) \<le> unat (ver s k) + 1"
proof -
  have "unat (ver s k + 1) = unat (ver s k) + 1"
    using assms by (simp add: unat_word_ariths)
  moreover have "ver (put s a) k = ver s k \<or> ver (put s a) k = ver s k + 1"
    using put_hit [of s a] put_miss [of s a] put_other [of k a s] by (cases "k = pkey a") metis+
  ultimately show "unat (ver s k) \<le> unat (ver (put s a) k)" "unat (ver (put s a) k) \<le> unat (ver s k) + 1"
    by auto
qed

lemma puts_version:
  assumes "unat (ver s k) + length as < 2 ^ 64"
  shows "unat (ver s k) \<le> unat (ver (foldl put s as) k) \<and>
    unat (ver (foldl put s as) k) \<le> unat (ver s k) + length as"
  using assms
proof (induction as arbitrary: s)
  case (Cons a as)
  have one: "unat (ver s k) + 1 < 2 ^ 64" using Cons.prems by simp
  note step = put_version [OF one, of a]
  have "unat (ver (put s a) k) + length as < 2 ^ 64" using step(2) Cons.prems by simp
  from Cons.IH [OF this] step show ?case by simp
qed simp

text \<open>A put that has been applied once is refused from then on.\<close>

lemma put_once:
  assumes "unat (pver a) < unat (ver s (pkey a))"
  shows "put s a = s"
  using assms by (intro put_miss) auto

end

definition verOf :: "KVServer \<Rightarrow> string \<Rightarrow> Tversion" where
  "verOf kv key = ksVersion (absKv kv key)"

lemma verOf_simps:
  "verOf kv key = (case kvStore kv key of None \<Rightarrow> 0 | Some v \<Rightarrow> Version v)"
  by (simp add: verOf_def absKv_def KvModel_Init_def split: option.splits)

interpretation kv: versioned_kv verOf "\<lambda>kv a. fst (Put kv a)" pKey pVersion
  by unfold_locales (auto simp: verOf_simps Put_def split: option.splits)

subsection \<open>One put against the model\<close>

definition put_input :: "PutArgs \<Rightarrow> KvInput" where
  "put_input a = \<lparr>kiOp = 1, kiKey = pKey a, kiValue = pValue a, kiVersion = pVersion a\<rparr>"

definition put_output :: "Err \<Rightarrow> KvOutput" where
  "put_output e = \<lparr>koValue = [], koVersion = 0, koErr = e\<rparr>"

definition get_input :: "string \<Rightarrow> KvInput" where
  "get_input key = \<lparr>kiOp = 0, kiKey = key, kiValue = [], kiVersion = 0\<rparr>"

definition get_output :: "GetReply \<Rightarrow> KvOutput" where
  "get_output r = \<lparr>koValue = gValue r, koVersion = gVersion r, koErr = gErr r\<rparr>"

text \<open>
  Property C26 (the server refines the sequential model). A \<open>Get\<close> answers as the model wants and
  changes nothing. A \<open>Put\<close> moves its key as the model does and leaves the other keys alone, and the
  model accepts its answer, except for one case: on a missing key with a version other than 0 the
  server says \<open>ErrNoKey\<close>, as the interface documents, which the model accepts from no put.
\<close>

theorem server_refines_model:
  "KvModel_Step (absKv kv key) (get_input key) (get_output (Get kv key)) = (True, Some (absKv kv key)) \<and>
   (case Put kv a of (kv', e) \<Rightarrow>
      KvModel_Step (absKv kv (pKey a)) (put_input a) (put_output e) = (e \<noteq> ErrNoKey, Some (absKv kv' (pKey a))) \<and>
      (\<forall>k. k \<noteq> pKey a \<longrightarrow> absKv kv' k = absKv kv k) \<and>
      (e = ErrNoKey \<longleftrightarrow> kvStore kv (pKey a) = None \<and> pVersion a \<noteq> 0))"
  by (auto simp: Put_def Get_def absKv_def KvModel_Step_def KvModel_Init_def put_input_def put_output_def
      get_input_def get_output_def OK_def ErrNoKey_def ErrVersion_def split: option.splits)

theorem server_refines_model_witness:
  "Put MakeKVServer \<lparr>pKey = ''k'', pValue = ''v'', pVersion = 3\<rparr> = (MakeKVServer, ErrNoKey)"
  using server_refines_model [of MakeKVServer "''k''" "\<lparr>pKey = ''k'', pValue = ''v'', pVersion = 3\<rparr>"]
  by (simp add: Put_def MakeKVServer_def)

subsection \<open>The clerk's retries\<close>

fun attempts :: "network \<Rightarrow> network" where
  \<comment> \<open>the attempts up to the one whose reply arrives\<close>
  "attempts [] = []"
| "attempts ((others, f) # net) = (others, f) # (if f = Delivered then [] else attempts net)"

definition others_of :: "network \<Rightarrow> PutArgs list" where
  "others_of net = concat (map fst (attempts net))"

lemma others_of_simps [simp]:
  "others_of [] = []"
  "others_of ((ps, f) # net) = ps @ (if f = Delivered then [] else others_of net)"
  by (simp_all add: others_of_def)

lemma run_puts_simps [simp]:
  "run_puts kv [] = kv" "run_puts kv (ps @ qs) = run_puts (run_puts kv ps) qs"
  by (simp_all add: run_puts_def)

lemma Clerk_Put_loop_returns:
  "Clerk_Put_loop net args retry kv = None \<longleftrightarrow> (\<forall>(ps, f) \<in> set net. f \<noteq> Delivered)"
  by (induction net args retry kv rule: Clerk_Put_loop.induct)
    (auto simp: Let_def split: fate.splits prod.splits)

lemma Put_result:
  assumes "Put kv a = (kv', e)"
  shows "e = OK \<longleftrightarrow> verOf kv (pKey a) = pVersion a" "e \<noteq> OK \<Longrightarrow> kv' = kv"
    "e = ErrNoKey \<longleftrightarrow> kvStore kv (pKey a) = None \<and> pVersion a \<noteq> 0" "e = OK \<or> e = ErrVersion \<or> e = ErrNoKey"
  using assms by (auto simp: Put_def verOf_simps split: option.splits if_splits)

lemma applied_version:
  assumes "Put kv a = (kv', OK)" and "unat (verOf kv (pKey a)) + 1 < 2 ^ 64"
  shows "unat (verOf kv' (pKey a)) = unat (verOf kv (pKey a)) + 1" "unat (pVersion a) < unat (verOf kv' (pKey a))"
proof -
  have v: "verOf kv (pKey a) = pVersion a" using Put_result(1) [OF assms(1)] by simp
  from kv.put_hit [of kv a, OF v] have "verOf kv' (pKey a) = pVersion a + 1" using assms(1) by simp
  moreover have "unat (pVersion a + 1) = unat (pVersion a) + 1"
    using assms(2) v by (simp add: unat_word_ariths)
  ultimately show "unat (verOf kv' (pKey a)) = unat (verOf kv (pKey a)) + 1" "unat (pVersion a) < unat (verOf kv' (pKey a))"
    using v by simp_all
qed

lemma run_puts_version:
  "unat (verOf kv k) + length ps < 2 ^ 64 \<Longrightarrow>
   unat (verOf kv k) \<le> unat (verOf (run_puts kv ps) k) \<and> unat (verOf (run_puts kv ps) k) \<le> unat (verOf kv k) + length ps"
  unfolding run_puts_def by (rule kv.puts_version)

lemma verOf_pos_present: "0 < unat (verOf kv k) \<Longrightarrow> kvStore kv k \<noteq> None"
  by (auto simp: verOf_simps split: option.splits)

text \<open>Once the put has been applied, every later attempt is refused and the clerk says so.\<close>

lemma Clerk_Put_after:
  assumes "unat (pVersion a) < unat (verOf kv (pKey a))"
    and "unat (verOf kv (pKey a)) + length (others_of net) < 2 ^ 64"
    and "Clerk_Put_loop net a True kv = Some (kv', e)"
  shows "kv' = run_puts kv (others_of net) \<and> e = ErrMaybe"
  using assms
proof (induction net arbitrary: kv)
  case (Cons x net)
  obtain ps f where x: "x = (ps, f)" by (cases x)
  define kv1 where "kv1 = run_puts kv ps"
  have bound: "unat (verOf kv (pKey a)) \<le> unat (verOf kv1 (pKey a))"
    "unat (verOf kv1 (pKey a)) \<le> unat (verOf kv (pKey a)) + length ps"
    using run_puts_version [of kv "pKey a" ps] Cons.prems(2) by (simp_all add: kv1_def x)
  have gt: "unat (pVersion a) < unat (verOf kv1 (pKey a))" using bound(1) Cons.prems(1) by simp
  obtain kv2 e2 where p: "Put kv1 a = (kv2, e2)" by (cases "Put kv1 a")
  have "e2 \<noteq> OK" using Put_result(1) [OF p] gt by auto
  moreover have "e2 \<noteq> ErrNoKey" using Put_result(3) [OF p] verOf_pos_present [of kv1 "pKey a"] gt by auto
  ultimately have refused: "kv2 = kv1" "e2 = ErrVersion" using Put_result(2,4) [OF p] by auto
  show ?case
  proof (cases "f = Delivered")
    case True
    then show ?thesis using Cons.prems(3) p refused by (simp add: x kv1_def [symmetric])
  next
    case False
    then have "Clerk_Put_loop net a True kv1 = Some (kv', e)"
      using Cons.prems(3) p refused by (cases f) (simp_all add: x kv1_def [symmetric])
    moreover have "unat (verOf kv1 (pKey a)) + length (others_of net) < 2 ^ 64"
      using bound(2) Cons.prems(2) False by (simp add: x)
    ultimately show ?thesis using Cons.IH [OF gt] False by (simp add: x kv1_def)
  qed
qed simp

text \<open>The clerk's put takes effect once, at one point among the puts of the other clients.\<close>

definition linearizes :: "KVServer \<Rightarrow> PutArgs \<Rightarrow> Err \<Rightarrow> PutArgs list \<Rightarrow> KVServer \<Rightarrow> bool" where
  "linearizes kv a e others kv' \<longleftrightarrow>
     (\<exists>pre post. others = pre @ post \<and> kv' = run_puts (fst (Put (run_puts kv pre) a)) post \<and>
        (e \<noteq> ErrNoKey \<longrightarrow> fst (KvModel_Step (absKv (run_puts kv pre) (pKey a)) (put_input a) (put_output e))) \<and>
        (e = ErrNoKey \<longrightarrow> Put (run_puts kv pre) a = (run_puts kv pre, ErrNoKey)))"

lemma linearizes_prefix:
  "linearizes (run_puts kv ps) a e others kv' \<Longrightarrow> linearizes kv a e (ps @ others) kv'"
  unfolding linearizes_def by (metis append.assoc run_puts_simps(2))

lemma model_accepts:
  assumes "Put kv a = (kv', e)" and "e \<noteq> ErrNoKey"
  shows "fst (KvModel_Step (absKv kv (pKey a)) (put_input a) (put_output e))"
    "fst (KvModel_Step (absKv kv (pKey a)) (put_input a) (put_output ErrMaybe))"
  using assms by (auto simp: Put_def absKv_def KvModel_Step_def KvModel_Init_def put_input_def put_output_def
      OK_def ErrNoKey_def ErrVersion_def ErrMaybe_def split: option.splits if_splits)

lemma Clerk_Put_loop_linearizes:
  assumes "unat (verOf kv (pKey a)) + length (others_of net) + 1 < 2 ^ 64"
    and "Clerk_Put_loop net a retry kv = Some (kv', e)"
  shows "linearizes kv a e (others_of net) kv'"
  using assms
proof (induction net arbitrary: kv retry)
  case (Cons x net)
  obtain ps f where x: "x = (ps, f)" by (cases x)
  define kv1 where "kv1 = run_puts kv ps"
  have bound: "unat (verOf kv1 (pKey a)) \<le> unat (verOf kv (pKey a)) + length ps"
    using run_puts_version [of kv "pKey a" ps] Cons.prems(1) by (simp add: kv1_def x)
  have room: "unat (verOf kv1 (pKey a)) + length (others_of net) + 1 < 2 ^ 64" if "f \<noteq> Delivered"
    using bound Cons.prems(1) that by (simp add: x)
  obtain kv2 e2 where p: "Put kv1 a = (kv2, e2)" by (cases "Put kv1 a")
  show ?case
  proof (cases f)
    case RequestLost
    then have "linearizes kv1 a e (others_of net) kv'"
      using Cons.IH [OF room, of True] Cons.prems(2) by (simp add: x kv1_def [symmetric])
    then show ?thesis using linearizes_prefix RequestLost by (simp add: x kv1_def)
  next
    case ReplyLost
    then have run: "Clerk_Put_loop net a True kv2 = Some (kv', e)"
      using Cons.prems(2) p by (simp add: x kv1_def [symmetric])
    show ?thesis
    proof (cases "e2 = OK")
      case True
      note av = applied_version [OF p [unfolded True]]
      have "unat (verOf kv1 (pKey a)) + 1 < 2 ^ 64" using room ReplyLost by simp
      note av = av [OF this]
      have "kv' = run_puts kv2 (others_of net) \<and> e = ErrMaybe"
        by (rule Clerk_Put_after [OF av(2) _ run]) (use av(1) room ReplyLost in simp)
      moreover have "linearizes kv1 a ErrMaybe (others_of net) (run_puts kv2 (others_of net))"
        unfolding linearizes_def using p True model_accepts(2) [OF p]
        by (intro exI [of _ "[]"] exI [of _ "others_of net"]) simp
      ultimately show ?thesis using linearizes_prefix ReplyLost by (simp add: x kv1_def)
    next
      case False
      then have "kv2 = kv1" using Put_result(2) [OF p] by simp
      then have "linearizes kv1 a e (others_of net) kv'" using Cons.IH [OF room run [unfolded \<open>kv2 = kv1\<close>]] ReplyLost by simp
      then show ?thesis using linearizes_prefix ReplyLost by (simp add: x kv1_def)
    qed
  next
    case Delivered
    then have res: "kv' = kv2" "e = (if e2 = ErrVersion \<and> retry then ErrMaybe else e2)"
      using Cons.prems(2) p by (auto simp: x kv1_def [symmetric] split: if_splits)
    have "linearizes kv1 a e [] kv'"
      unfolding linearizes_def using p res model_accepts [OF p] Put_result(2) [OF p]
      by (intro exI [of _ "[]"]) auto
    then show ?thesis using linearizes_prefix [of kv ps a e "[]"] Delivered by (simp add: x kv1_def)
  qed
qed simp

text \<open>
  Property C10 (the clerk's put is linearizable). However often requests and replies are lost and
  whatever other clients put in between, a \<open>Put\<close> of the clerk that returns has had the effect of
  exactly one execution of the server's \<open>Put\<close> at one point among the other puts, at which the
  sequential model accepts what the clerk returned; \<open>ErrNoKey\<close> means that the server itself said so.
  It returns as soon as one reply arrives. (No 64-bit version is used up in the course of one call.)
\<close>

theorem clerk_put_linearizable:
  assumes "unat (verOf kv key) + length (others_of net) + 1 < 2 ^ 64" and "\<exists>ps. (ps, Delivered) \<in> set net"
  shows "\<exists>kv' e. Clerk_Put net key value version kv = Some (kv', e) \<and>
    linearizes kv \<lparr>pKey = key, pValue = value, pVersion = version\<rparr> e (others_of net) kv'"
proof -
  let ?a = "\<lparr>pKey = key, pValue = value, pVersion = version\<rparr>"
  obtain kv' e where "Clerk_Put_loop net ?a False kv = Some (kv', e)"
    using Clerk_Put_loop_returns [of net ?a False kv] assms(2) by (cases "Clerk_Put_loop net ?a False kv") auto
  with Clerk_Put_loop_linearizes [of kv ?a net False kv' e] assms(1) show ?thesis by (simp add: Clerk_Put_def)
qed

theorem clerk_put_linearizable_witness:
  "\<exists>kv' e. Clerk_Put [([], ReplyLost), ([], Delivered)] ''k'' ''v'' 0 MakeKVServer = Some (kv', e) \<and>
     linearizes MakeKVServer \<lparr>pKey = ''k'', pValue = ''v'', pVersion = 0\<rparr> e [] kv'"
  using clerk_put_linearizable [of MakeKVServer "''k''" "[([], ReplyLost), ([], Delivered)]" "''v''" 0]
  by (simp add: verOf_simps MakeKVServer_def)

lemma Clerk_Get_result:
  "\<exists>ps. (ps, Delivered) \<in> set net \<Longrightarrow>
   Clerk_Get net key kv = Some (run_puts kv (others_of net), Get (run_puts kv (others_of net)) key)"
  by (induction net key kv rule: Clerk_Get.induct) (auto simp: Let_def)

lemma Put_OK_stores: "Put kv a = (kv', OK) \<Longrightarrow> kvStore kv' (pKey a) = Some \<lparr>Value = pValue a, Version = pVersion a + 1\<rparr>"
  by (auto simp: Put_def split: option.splits if_splits)

lemma Clerk_Put_loop_definite:
  assumes "unat (verOf kv (pKey a)) + length (others_of net) + 1 < 2 ^ 64"
    and "Clerk_Put_loop net a retry kv = Some (kv', e)" and "e \<noteq> ErrMaybe"
  shows "e = OK \<and> kvStore kv' (pKey a) = Some \<lparr>Value = pValue a, Version = pVersion a + 1\<rparr> \<or>
    (e = ErrVersion \<or> e = ErrNoKey) \<and> kv' = run_puts kv (others_of net)"
  using assms
proof (induction net arbitrary: kv retry)
  case (Cons x net)
  obtain ps f where x: "x = (ps, f)" by (cases x)
  define kv1 where "kv1 = run_puts kv ps"
  have bound: "unat (verOf kv1 (pKey a)) \<le> unat (verOf kv (pKey a)) + length ps"
    using run_puts_version [of kv "pKey a" ps] Cons.prems(1) by (simp add: kv1_def x)
  have room: "unat (verOf kv1 (pKey a)) + length (others_of net) + 1 < 2 ^ 64" if "f \<noteq> Delivered"
    using bound Cons.prems(1) that by (simp add: x)
  obtain kv2 e2 where p: "Put kv1 a = (kv2, e2)" by (cases "Put kv1 a")
  show ?case
  proof (cases "f = Delivered")
    case True
    then have "kv' = kv2" "e = e2" using Cons.prems(2,3) p by (auto simp: x kv1_def [symmetric] split: if_splits)
    then show ?thesis using True Put_result [OF p] p Put_OK_stores [of kv1 a kv2] by (auto simp: x kv1_def)
  next
    case False
    define kv3 where "kv3 = (if f = ReplyLost then kv2 else kv1)"
    have run: "Clerk_Put_loop net a True kv3 = Some (kv', e)"
      using Cons.prems(2) p False by (cases f) (simp_all add: x kv1_def [symmetric] kv3_def)
    have "e2 \<noteq> OK" if lost: "f = ReplyLost"
    proof
      assume ok: "e2 = OK"
      have "unat (verOf kv1 (pKey a)) + 1 < 2 ^ 64" using room False by simp
      note av = applied_version [OF p [unfolded ok] this]
      from Clerk_Put_after [OF av(2) _ run [unfolded kv3_def, simplified lost, simplified]] av(1) room False
      show False using Cons.prems(3) by simp
    qed
    then have "kv3 = kv1" using Put_result(2) [OF p] by (simp add: kv3_def)
    with Cons.IH [OF room [OF False] _ Cons.prems(3), of True] run False show ?thesis by (simp add: x kv1_def)
  qed
qed simp

text \<open>
  What the clerk's answers promise. Unless the clerk answers \<open>ErrMaybe\<close>, its answer is
  definite: \<open>OK\<close> means that the key now holds the value under the next version, \<open>ErrVersion\<close> and
  \<open>ErrNoKey\<close> mean that no attempt of this put has had any effect.
\<close>

theorem clerk_put_definite:
  assumes "unat (verOf kv key) + length (others_of net) + 1 < 2 ^ 64"
    and "Clerk_Put net key value version kv = Some (kv', e)"
  shows "e = OK \<and> kvStore kv' key = Some \<lparr>Value = value, Version = version + 1\<rparr> \<or>
    (e = ErrVersion \<or> e = ErrNoKey) \<and> kv' = run_puts kv (others_of net) \<or> e = ErrMaybe"
  using Clerk_Put_loop_definite [of kv "\<lparr>pKey = key, pValue = value, pVersion = version\<rparr>" net False kv' e] assms
  by (auto simp: Clerk_Put_def)

theorem clerk_put_definite_witness:
  "\<exists>kv'. Clerk_Put [([], RequestLost), ([], Delivered)] ''k'' ''v'' 0 MakeKVServer = Some (kv', OK) \<and>
     kvStore kv' ''k'' = Some \<lparr>Value = ''v'', Version = 1\<rparr>"
proof -
  let ?net = "[([], RequestLost), ([], Delivered)]"
  obtain kv' where h: "Clerk_Put ?net ''k'' ''v'' 0 MakeKVServer = Some (kv', OK)"
    by (simp add: Clerk_Put_def Put_def MakeKVServer_def)
  from clerk_put_definite [OF _ h] have "kvStore kv' ''k'' = Some \<lparr>Value = ''v'', Version = 1\<rparr>"
    by (simp add: verOf_simps MakeKVServer_def)
  with h show ?thesis by blast
qed

subsection \<open>Partitioning a history\<close>

lemma groupKeys_key: "g \<in> set (groupKeys h) \<Longrightarrow> w \<in> set (snd g) \<Longrightarrow> kiKey (fst w) = fst g"
  by (induction h rule: groupKeys.induct) auto

lemma groupKeys_distinct: "distinct (map fst (groupKeys h))"
proof (induction h rule: groupKeys.induct)
  case (2 v vs)
  have "distinct (map fst (filter P (groupKeys vs)))" for P
    using "2.IH" by (simp add: distinct_map_filter)
  then show ?case by auto
qed simp

lemma concat_filter_groups:
  assumes "\<And>g w. g \<in> set gs \<Longrightarrow> w \<in> set (snd g) \<Longrightarrow> kiKey (fst w) = fst g"
  shows "mset (concat (map snd (filter (\<lambda>g. fst g \<noteq> k) gs))) =
    filter_mset (\<lambda>w. kiKey (fst w) \<noteq> k) (mset (concat (map snd gs)))"
  using assms
proof (induction gs)
  case (Cons g gs)
  have "filter_mset (\<lambda>w. kiKey (fst w) \<noteq> k) (mset (snd g)) = (if fst g = k then {#} else mset (snd g))"
    using Cons.prems [of g] by (auto simp: filter_empty_conv filter_id_conv simp flip: mset_filter)
  with Cons.IH Cons.prems show ?case by (simp add: filter_union_mset)
qed simp

lemma groupKeys_mset: "mset (concat (map snd (groupKeys h))) = mset h"
proof (induction h rule: groupKeys.induct)
  case (2 v vs)
  have "mset (concat (map snd (filter (\<lambda>g. fst g \<noteq> kiKey (fst v)) (groupKeys vs)))) =
      filter_mset (\<lambda>w. kiKey (fst w) \<noteq> kiKey (fst v)) (mset vs)"
    using concat_filter_groups [of "groupKeys vs"] groupKeys_key "2.IH" by metis
  moreover have "mset vs = filter_mset (\<lambda>w. kiKey (fst w) = kiKey (fst v)) (mset vs) +
      filter_mset (\<lambda>w. kiKey (fst w) \<noteq> kiKey (fst v)) (mset vs)"
    by (rule multiset_partition)
  ultimately show ?case by simp
qed simp

text \<open>
  Partition of a history. \<open>Partition\<close> loses and invents no operation, every part holds
  operations on one key only, and no key is spread over two parts: checking the parts one by one
  against the model of a single key checks the whole history.
\<close>

theorem partition_by_key:
  "mset (concat (KvModel_Partition h)) = mset h \<and>
   (\<exists>keys. distinct keys \<and> length keys = length (KvModel_Partition h) \<and>
      (\<forall>i < length keys. \<forall>w \<in> set (KvModel_Partition h ! i). kiKey (fst w) = keys ! i))"
proof -
  let ?m = "groupKeys h" and ?ks = "sort (map fst (groupKeys h))"
  have d: "distinct (map fst ?m)" by (rule groupKeys_distinct)
  have look: "the (map_of ?m (fst g)) = snd g" if "g \<in> set ?m" for g
    using map_of_is_SomeI [OF d, of "fst g" "snd g"] that by simp
  have part: "KvModel_Partition h = map (\<lambda>k. the (map_of ?m k)) ?ks" by (simp add: KvModel_Partition_def Let_def)
  have "mset (KvModel_Partition h) = image_mset (\<lambda>k. the (map_of ?m k)) (mset (map fst ?m))"
    by (simp add: part)
  also have "\<dots> = mset (map snd ?m)"
    using look by (auto simp: image_mset.compositionality comp_def intro!: image_mset_cong)
  finally have "mset (concat (KvModel_Partition h)) = mset (concat (map snd ?m))"
    by (simp only: mset_concat_sum)
  moreover have "\<forall>i < length ?ks. \<forall>w \<in> set (KvModel_Partition h ! i). kiKey (fst w) = ?ks ! i"
  proof (intro allI impI ballI)
    fix i w assume i: "i < length ?ks" and w: "w \<in> set (KvModel_Partition h ! i)"
    have "?ks ! i \<in> set ?ks" using i by (rule nth_mem)
    then obtain g where g: "g \<in> set ?m" "fst g = ?ks ! i" by auto
    with w i look [OF g(1)] have "w \<in> set (snd g)" by (simp add: part)
    with groupKeys_key [OF g(1)] g(2) show "kiKey (fst w) = ?ks ! i" by simp
  qed
  ultimately show ?thesis using d groupKeys_mset [of h]
    by (intro conjI exI [of _ ?ks]) (simp_all add: part)
qed

theorem partition_by_key_witness:
  "mset (concat (KvModel_Partition [(get_input ''b'', 1::nat), (get_input ''a'', 2), (get_input ''b'', 3)])) =
   {#(get_input ''b'', 1), (get_input ''a'', 2), (get_input ''b'', 3)#}"
  using partition_by_key [of "[(get_input ''b'', 1::nat), (get_input ''a'', 2), (get_input ''b'', 3)]"] by simp

end
