(* ===== verification/Rsm.thy ===== *)
theory Rsm
  imports Kvsrv Raft_State
begin

text \<open>
  The tests of the replicated state machine (\<open>src/kvraft1/rsm/server.go\<close>, \<open>src/kvraft1/rsm/test.go\<close>): the counter
  that is replicated and the drivers that submit requests and compare counters. In the repository the
  replicated state machine itself (\<open>src/kvraft1/rsm/rsm.go\<close>) is a frame: \<open>Submit\<close> always answers that the
  server is not the leader. The drivers therefore take what the servers answer from what they see
  in each round, and \<open>Submit\<close> is one such answer.

  As in \<open>Raft_Test\<close>, a driver is a function of what it sees; the end of the list is the end of the time
  allowed. A snapshot is the stream of values that was encoded, as in \<open>Persister\<close>.
\<close>

subsection \<open>The counter\<close>

datatype req = Inc | Null | Dec | OtherReq

datatype rep = IncRep int | NullRep

record rsmSrv =
  counter :: int
  running :: bool     \<comment> \<open>\<open>rsm\<close> is not nil\<close>

definition makeRsmSrv :: rsmSrv where
  "makeRsmSrv = \<lparr>counter = 0, running = True\<rparr>"

definition DoOp :: "req \<Rightarrow> rsmSrv \<Rightarrow> (rsmSrv \<times> rep) go" where
  "DoOp r rs = (case r of
       Inc \<Rightarrow> let rs1 = rs\<lparr>counter := counter rs + 1\<rparr> in Inr (rs1, IncRep (counter rs1))
     | Null \<Rightarrow> Inr (rs, NullRep)
     | _ \<Rightarrow> Inl LogFatal)"

definition rsm_Snapshot :: "rsmSrv \<Rightarrow> 'c gobval list" where
  "rsm_Snapshot rs = [GobInt (counter rs)]"

definition Restore :: "'c gobval list \<Rightarrow> rsmSrv \<Rightarrow> rsmSrv go" where
  "Restore d rs = (case DecodeInt d of None \<Rightarrow> Inl LogFatal | Some (n, _) \<Rightarrow> Inr (rs\<lparr>counter := n\<rparr>))"

definition rsm_Kill :: "rsmSrv \<Rightarrow> rsmSrv" where
  "rsm_Kill rs = rs\<lparr>running := False\<rparr>"

definition Submit :: "req \<Rightarrow> Err \<times> rep option" where
  "Submit r = (ErrWrongLeader, None)"

subsection \<open>The drivers\<close>

record rsmobs =
  roConn :: "bool list"                       \<comment> \<open>which servers are connected\<close>
  roSrvs :: "rsmSrv list"
  roSubmit :: "nat \<Rightarrow> req \<Rightarrow> Err \<times> rep option"  \<comment> \<open>what a server answers to \<open>Submit\<close>\<close>

definition inPartition :: "nat \<Rightarrow> nat list option \<Rightarrow> bool" where
  "inPartition s p = (case p of None \<Rightarrow> True | Some is \<Rightarrow> list_ex (\<lambda>i. s = i) is)"

fun askServers :: "nat list option \<Rightarrow> req \<Rightarrow> rsmobs \<Rightarrow> nat \<Rightarrow> nat \<Rightarrow> (nat \<times> rep option) option" where
  \<comment> \<open>the loop over the servers, with the number of servers still to ask\<close>
  "askServers p r ob 0 index = None"
| "askServers p r ob (Suc k) index =
     (let next = askServers p r ob k ((index + 1) mod length (roSrvs ob)) in
      if roConn ob ! index \<and> running (roSrvs ob ! index) \<and> inPartition index p
      then case roSubmit ob index r of (err, rep) \<Rightarrow> if err = OK then Some (index, rep) else next
      else next)"

fun onePartition :: "nat list option \<Rightarrow> req \<Rightarrow> rsmobs list \<Rightarrow> nat \<Rightarrow> nat \<times> rep option" where
  \<comment> \<open>the field \<open>leader\<close> of the test, and the reply\<close>
  "onePartition p r [] leader = (leader, None)"
| "onePartition p r (ob # obs) leader =
     (case askServers p r ob (length (roSrvs ob)) leader of
        Some (index, rep) \<Rightarrow> (index, rep)
      | None \<Rightarrow> onePartition p r obs leader)"

definition oneInc :: "rsmobs list \<Rightarrow> nat \<Rightarrow> (nat \<times> int option) go" where
  \<comment> \<open>the type assertion stops on a reply of another type\<close>
  "oneInc obs leader = (case onePartition None Inc obs leader of
       (l, None) \<Rightarrow> Inr (l, None)
     | (l, Some (IncRep n)) \<Rightarrow> Inr (l, Some n)
     | (l, Some NullRep) \<Rightarrow> Inl BadAssertion)"

definition oneNull :: "rsmobs list \<Rightarrow> nat \<Rightarrow> (nat \<times> bool) go" where
  \<comment> \<open>is there a reply?\<close>
  "oneNull obs leader = (case onePartition None Null obs leader of
       (l, None) \<Rightarrow> Inr (l, False)
     | (l, Some NullRep) \<Rightarrow> Inr (l, True)
     | (l, Some (IncRep n)) \<Rightarrow> Inl BadAssertion)"

definition countValue :: "int \<Rightarrow> rsmSrv list \<Rightarrow> nat" where
  "countValue v ss = length (filter (\<lambda>s. counter s = v) ss)"

fun checkCounter_loop :: "int \<Rightarrow> nat \<Rightarrow> rsmSrv list list \<Rightarrow> unit go" where
  "checkCounter_loop v nsrv [] = Inl LogFatal"
| "checkCounter_loop v nsrv (ss # obs) = (if countValue v ss \<ge> nsrv then Inr () else checkCounter_loop v nsrv obs)"

definition checkCounter :: "int \<Rightarrow> nat \<Rightarrow> rsmSrv list list \<Rightarrow> unit go" where
  "checkCounter v nsrv obs = checkCounter_loop v nsrv (take 30 obs)"

fun rsm_Leader :: "nat \<Rightarrow> 'c raft option list list \<Rightarrow> bool \<times> nat" where
  \<comment> \<open>over the services of a group; a service that is not a Raft peer is \<open>None\<close>\<close>
  "rsm_Leader i [] = (False, 0)"
| "rsm_Leader i (ss # sss) = (if list_ex (\<lambda>s. case s of None \<Rightarrow> False | Some rf \<Rightarrow> snd (GetState rf)) ss then (True, i) else rsm_Leader (i + 1) sss)"

subsection \<open>What the drivers find\<close>

definition willing :: "nat list option \<Rightarrow> req \<Rightarrow> rsmobs \<Rightarrow> nat \<Rightarrow> bool" where
  \<comment> \<open>the server can be asked and accepts the request\<close>
  "willing p r ob i \<longleftrightarrow> i < length (roSrvs ob) \<and> roConn ob ! i \<and> running (roSrvs ob ! i) \<and> inPartition i p \<and> fst (roSubmit ob i r) = OK"

lemma askServers_next:
  "index < length (roSrvs ob) \<Longrightarrow> askServers p r ob (Suc k) index =
     (if willing p r ob index then Some (index, snd (roSubmit ob index r)) else askServers p r ob k ((index + 1) mod length (roSrvs ob)))"
  by (auto simp: willing_def Let_def split: prod.splits)

declare askServers.simps(2) [simp del]

lemma askServers_sound:
  "index < length (roSrvs ob) \<Longrightarrow> askServers p r ob k index = Some (i, rep) \<Longrightarrow> willing p r ob i \<and> rep = snd (roSubmit ob i r)"
proof (induction k arbitrary: index)
  case (Suc k)
  then have "(index + 1) mod length (roSrvs ob) < length (roSrvs ob)" by (cases "roSrvs ob") auto
  with Suc show ?case by (auto simp: askServers_next split: if_splits)
qed simp

lemma askServers_visits:
  assumes "askServers p r ob k index = None" and "m < k" and "index < length (roSrvs ob)"
  shows "\<not> willing p r ob ((index + m) mod length (roSrvs ob))"
  using assms
proof (induction k arbitrary: index m)
  case (Suc k)
  let ?n = "length (roSrvs ob)"
  have n: "(index + 1) mod ?n < ?n" using Suc.prems(3) by (cases "roSrvs ob") auto
  show ?case
  proof (cases m)
    case 0
    then show ?thesis using Suc.prems by (auto simp: askServers_next split: if_splits)
  next
    case (Suc m')
    have "askServers p r ob k ((index + 1) mod ?n) = None" using Suc.prems by (auto simp: askServers_next split: if_splits)
    from Suc.IH [OF this _ n, of m'] Suc.prems(2) Suc
    have "\<not> willing p r ob (((index + 1) mod ?n + m') mod ?n)" by simp
    then show ?thesis using Suc by (simp add: mod_add_left_eq)
  qed
qed simp

lemma askServers_None:
  assumes "index < length (roSrvs ob)"
  shows "askServers p r ob (length (roSrvs ob)) index = None \<longleftrightarrow> (\<forall>i. \<not> willing p r ob i)"
proof
  assume none: "askServers p r ob (length (roSrvs ob)) index = None"
  show "\<forall>i. \<not> willing p r ob i"
  proof (intro allI notI)
    fix i assume w: "willing p r ob i"
    then have i: "i < length (roSrvs ob)" by (simp add: willing_def)
    obtain m where m: "1 \<le> m" "m \<le> length (roSrvs ob)" "(index + m) mod length (roSrvs ob) = i"
      using cycle_covers [OF i, of index] by blast
    show False
    proof (cases "m < length (roSrvs ob)")
      case True
      from askServers_visits [OF none this assms] m(3) w show False by simp
    next
      case False
      then have "i = index" using m assms by simp
      with askServers_visits [OF none _ assms, of 0] assms w show False by fastforce
    qed
  qed
next
  assume none: "\<forall>i. \<not> willing p r ob i"
  show "askServers p r ob (length (roSrvs ob)) index = None"
    using askServers_sound [OF assms, of p r "length (roSrvs ob)"] none by (cases "askServers p r ob (length (roSrvs ob)) index") auto
qed

text \<open>
  Who answers a request. A request is answered in the first round in which a server is willing, by
  such a server, which is then taken for the leader; without one the driver gives up with the leader
  unchanged. With the \<open>Submit\<close> of the repository no server is ever willing.
\<close>

theorem one_partition_finds:
  assumes "\<forall>ob \<in> set obs. leader < length (roSrvs ob)"
  shows "(\<forall>ob. (\<exists>i. willing p r ob i) \<and> obs = pre @ ob # post \<and> (\<forall>ob' \<in> set pre. \<forall>i. \<not> willing p r ob' i) \<longrightarrow>
       (\<exists>i. willing p r ob i \<and> onePartition p r obs leader = (i, snd (roSubmit ob i r)))) \<and>
    ((\<forall>ob \<in> set obs. \<forall>i. \<not> willing p r ob i) \<longrightarrow> onePartition p r obs leader = (leader, None)) \<and>
    ((\<forall>ob \<in> set obs. roSubmit ob = (\<lambda>_. Submit)) \<longrightarrow> onePartition p r obs leader = (leader, None))"
proof -
  have skip: "onePartition p r (pre @ obs') leader = onePartition p r obs' leader"
    if "\<forall>ob' \<in> set pre. \<forall>i. \<not> willing p r ob' i" "\<forall>ob \<in> set pre. leader < length (roSrvs ob)" for pre obs'
    using that by (induction pre) (simp_all add: askServers_None [THEN iffD2])
  have none: "onePartition p r obs leader = (leader, None)" if "\<forall>ob \<in> set obs. \<forall>i. \<not> willing p r ob i"
    using skip [of obs "[]"] that assms by simp
  have "\<exists>i. willing p r ob i \<and> onePartition p r obs leader = (i, snd (roSubmit ob i r))"
    if h: "\<exists>i. willing p r ob i" "obs = pre @ ob # post" "\<forall>ob' \<in> set pre. \<forall>i. \<not> willing p r ob' i" for ob
  proof -
    have l: "leader < length (roSrvs ob)" using assms h(2) by simp
    obtain i rep where a: "askServers p r ob (length (roSrvs ob)) leader = Some (i, rep)"
      using askServers_None [OF l, of p r] h(1) by (cases "askServers p r ob (length (roSrvs ob)) leader") auto
    from askServers_sound [OF l a] skip [of pre "ob # post"] h assms a show ?thesis by auto
  qed
  moreover have "\<not> willing p r ob i" if "roSubmit ob = (\<lambda>_. Submit)" for ob i
    using that by (simp add: willing_def Submit_def OK_def ErrWrongLeader_def)
  ultimately show ?thesis using none by blast
qed

definition doAll :: "req list \<Rightarrow> rsmSrv \<Rightarrow> rsmSrv go" where
  "doAll = go_each (\<lambda>r rs. go_bind (DoOp r rs) (\<lambda>(rs1, _). Inr rs1))"

lemma doAll_counts:
  "set rs \<subseteq> {Inc, Null} \<Longrightarrow> doAll rs s = Inr (s\<lparr>counter := counter s + int (count_list rs Inc)\<rparr>)"
  by (induction rs arbitrary: s) (auto simp: doAll_def DoOp_def Let_def)

text \<open>
  Replicas agree. Servers that execute the same requests have the same counter, also when some of them
  start from a snapshot that another one took on the way, and \<open>checkCounter\<close> accepts them.
\<close>

theorem replicas_agree:
  assumes "set rs1 \<subseteq> {Inc, Null}" and "set rs2 \<subseteq> {Inc, Null}"
  shows "\<exists>mid full fromSnap. doAll rs1 makeRsmSrv = Inr mid \<and> doAll (rs1 @ rs2) makeRsmSrv = Inr full \<and>
    go_bind (Restore (rsm_Snapshot mid :: 'c gobval list) makeRsmSrv) (doAll rs2) = Inr fromSnap \<and> counter fromSnap = counter full \<and>
    checkCounter (int (count_list (rs1 @ rs2) Inc)) 2 [[full, fromSnap]] = Inr ()"
proof -
  have "set (rs1 @ rs2) \<subseteq> {Inc, Null}" using assms by simp
  from doAll_counts [OF this] doAll_counts [OF assms(1)] doAll_counts [OF assms(2)] show ?thesis
    by (simp add: Restore_def rsm_Snapshot_def makeRsmSrv_def checkCounter_def countValue_def)
qed

end
