(* ===== verification/Labgob.thy ===== *)
theory Labgob
  imports Go_Prelude
begin

text \<open>
  The wrapper around \<open>encoding/gob\<close> (\<open>src/labgob/labgob.go\<close>): its walk over types that counts fields
  with lower-case names, and its walk over values that warns about decoding into a variable that is
  not at its default.

  The types of a program are numbers, and an environment says of each what reflection says: the
  fields of a struct, the element of a slice, array or pointer, element and key of a map. So types
  may be recursive. \<open>checkItems\<close> is the recursion of \<open>checkType\<close> together with the loop over fields;
  it is a partial function, and that it ends is a theorem. Field names are ASCII. The encoder and
  the decoder of the standard library are parameters.
\<close>

subsection \<open>State and types\<close>

record gobstate =
  errorCount :: int
  checked :: "nat set"
  warned :: "string list"     \<comment> \<open>the names of the printed warnings\<close>

datatype tkind =
    KStruct "(string \<times> nat) list"
  | KElem nat
  | KMap nat nat    \<comment> \<open>element and key\<close>
  | KOther

type_synonym tenv = "tkind list"

definition kindOf :: "tenv \<Rightarrow> nat \<Rightarrow> tkind" where
  "kindOf \<Gamma> t = (if t < length \<Gamma> then \<Gamma> ! t else KOther)"

definition upperField :: "string \<Rightarrow> bool" where
  \<comment> \<open>\<open>unicode.IsUpper\<close> of the first character\<close>
  "upperField n \<longleftrightarrow> n \<noteq> [] \<and> 65 \<le> (of_char (hd n) :: nat) \<and> (of_char (hd n) :: nat) \<le> 90"

subsection \<open>Checking types\<close>

definition inside :: "tenv \<Rightarrow> nat \<Rightarrow> (string option \<times> nat) list" where
  \<comment> \<open>the types \<open>checkType\<close> goes on with, those of fields with the name of the field\<close>
  "inside \<Gamma> t = (case kindOf \<Gamma> t of
       KStruct fs \<Rightarrow> map (\<lambda>(n, u). (Some n, u)) fs
     | KElem u \<Rightarrow> [(None, u)]
     | KMap u k \<Rightarrow> [(None, u), (None, k)]
     | KOther \<Rightarrow> [])"

definition complain :: "string option \<Rightarrow> gobstate \<Rightarrow> gobstate" where
  "complain f st = (case f of None \<Rightarrow> st
     | Some n \<Rightarrow> if upperField n then st else st\<lparr>errorCount := errorCount st + 1\<rparr>)"

partial_function (option) checkItems :: "tenv \<Rightarrow> (string option \<times> nat) list \<Rightarrow> gobstate \<Rightarrow> gobstate option" where
  "checkItems \<Gamma> items st =
     (case items of [] \<Rightarrow> Some st
      | (f, t) # rest \<Rightarrow>
          let st0 = complain f st in
          Option.bind (if t \<in> checked st0 then Some st0
                       else checkItems \<Gamma> (inside \<Gamma> t) (st0\<lparr>checked := insert t (checked st0)\<rparr>))
            (checkItems \<Gamma> rest))"

definition checkType :: "tenv \<Rightarrow> nat \<Rightarrow> gobstate \<Rightarrow> gobstate option" where
  "checkType \<Gamma> t st = checkItems \<Gamma> [(None, t)] st"

subsection \<open>Checking values\<close>

datatype gval =
    VStruct "(string \<times> gval) list"
  | VPtr "gval option"
  | VBasic string bool    \<comment> \<open>the name of the type; is it the zero value?\<close>
  | VOther

function checkDefault1 :: "gval \<Rightarrow> nat \<Rightarrow> string \<Rightarrow> gobstate \<Rightarrow> gobstate" where
  "checkDefault1 v depth name st =
     (if depth > 3 then st
      else case v of
        VStruct fs \<Rightarrow> fold (\<lambda>(n, vv). checkDefault1 vv (depth + 1) (if name \<noteq> [] then name @ ''.'' @ n else n)) fs st
      | VPtr p \<Rightarrow> (case p of None \<Rightarrow> st | Some w \<Rightarrow> checkDefault1 w (depth + 1) name st)
      | VBasic tname zero \<Rightarrow>
          if zero then st
          else st\<lparr>warned := (if errorCount st < 1 then warned st @ [if name = [] then tname else name] else warned st),
                  errorCount := errorCount st + 1\<rparr>
      | VOther \<Rightarrow> st)"
  by pat_completeness auto
termination
  by (relation "measure (\<lambda>(v, d, n, st). 4 - d)") auto

declare checkDefault1.simps [simp del]

type_synonym iface = "(nat \<times> gval) option"    \<comment> \<open>an interface value: its type and value, or nil\<close>

definition checkValue :: "tenv \<Rightarrow> iface \<Rightarrow> gobstate \<Rightarrow> gobstate go option" where
  \<comment> \<open>the type of nil is nil, and asking it for its kind panics\<close>
  "checkValue \<Gamma> e st = (case e of None \<Rightarrow> Some (Inl NilDeref)
     | Some (t, v) \<Rightarrow> map_option Inr (checkType \<Gamma> t st))"

definition checkDefault :: "iface \<Rightarrow> gobstate \<Rightarrow> gobstate" where
  "checkDefault e st = (case e of None \<Rightarrow> st | Some (t, v) \<Rightarrow> checkDefault1 v 1 [] st)"

definition Encode :: "(iface \<Rightarrow> 'r) \<Rightarrow> tenv \<Rightarrow> iface \<Rightarrow> gobstate \<Rightarrow> (gobstate \<times> 'r) go option" where
  "Encode gob \<Gamma> e st = map_option (\<lambda>r. go_bind r (\<lambda>st1. Inr (st1, gob e))) (checkValue \<Gamma> e st)"

definition Decode :: "(iface \<Rightarrow> 'r) \<Rightarrow> tenv \<Rightarrow> iface \<Rightarrow> gobstate \<Rightarrow> (gobstate \<times> 'r) go option" where
  "Decode gob \<Gamma> e st = map_option (\<lambda>r. go_bind r (\<lambda>st1. Inr (checkDefault e st1, gob e))) (checkValue \<Gamma> e st)"

definition Register :: "tenv \<Rightarrow> iface \<Rightarrow> gobstate \<Rightarrow> gobstate go option" where
  "Register = checkValue"

definition EncodeValue :: "(iface \<Rightarrow> 'r) \<Rightarrow> tenv \<Rightarrow> iface \<Rightarrow> gobstate \<Rightarrow> (gobstate \<times> 'r) go option" where
  \<comment> \<open>of the interface value that a reflected value holds\<close>
  "EncodeValue gob \<Gamma> e st = map_option (\<lambda>r. go_bind r (\<lambda>st1. Inr (st1, gob e))) (checkValue \<Gamma> e st)"

definition RegisterName :: "tenv \<Rightarrow> string \<Rightarrow> iface \<Rightarrow> gobstate \<Rightarrow> gobstate go option" where
  "RegisterName \<Gamma> name e st = checkValue \<Gamma> e st"

subsection \<open>The walk over types ends\<close>

definition lowers :: "(string option \<times> nat) list \<Rightarrow> int" where
  \<comment> \<open>the number of lower-case names\<close>
  "lowers items = int (length (filter (\<lambda>(f, t). case f of None \<Rightarrow> False | Some n \<Rightarrow> \<not> upperField n) items))"

definition refers :: "tenv \<Rightarrow> (nat \<times> nat) set" where
  "refers \<Gamma> = {(t, u). u \<in> snd ` set (inside \<Gamma> t)}"

lemma lowers_simps:
  "lowers [] = 0" "lowers ((f, t) # items) = errorCount (complain f st) - errorCount st + lowers items"
  by (auto simp: lowers_def complain_def split: option.splits)

lemma complain_checked [simp]: "checked (complain f st) = checked st"
  by (simp add: complain_def split: option.splits)

definition walked :: "tenv \<Rightarrow> (string option \<times> nat) list \<Rightarrow> gobstate \<Rightarrow> gobstate \<Rightarrow> bool" where
  \<comment> \<open>what a walk over the items has done\<close>
  "walked \<Gamma> items st st' \<longleftrightarrow> (let new = checked st' - checked st in
     checked st \<subseteq> checked st' \<and> snd ` set items \<subseteq> checked st' \<and> finite new \<and>
     (\<forall>t \<in> new. snd ` set (inside \<Gamma> t) \<subseteq> checked st' \<and> (\<exists>u \<in> snd ` set items. (u, t) \<in> (refers \<Gamma>)\<^sup>*)) \<and>
     errorCount st' = errorCount st + lowers items + (\<Sum>t \<in> new. lowers (inside \<Gamma> t)))"

lemma walked_skip:
  assumes "walked \<Gamma> rest (complain f st) st'" and "t \<in> checked st"
  shows "walked \<Gamma> ((f, t) # rest) st st'"
  using assms by (auto simp: walked_def Let_def lowers_simps(2) [of f t rest st])

lemma walked_visit:
  assumes "t \<notin> checked st" and "walked \<Gamma> (inside \<Gamma> t) ((complain f st)\<lparr>checked := insert t (checked st)\<rparr>) st1"
    and "walked \<Gamma> rest st1 st'"
  shows "walked \<Gamma> ((f, t) # rest) st st'"
proof -
  let ?n1 = "checked st1 - insert t (checked st)" and ?n2 = "checked st' - checked st1"
  have w1: "insert t (checked st) \<subseteq> checked st1" "snd ` set (inside \<Gamma> t) \<subseteq> checked st1" "finite ?n1"
    "\<forall>u \<in> ?n1. snd ` set (inside \<Gamma> u) \<subseteq> checked st1 \<and> (\<exists>w \<in> snd ` set (inside \<Gamma> t). (w, u) \<in> (refers \<Gamma>)\<^sup>*)"
    "errorCount st1 = errorCount (complain f st) + lowers (inside \<Gamma> t) + (\<Sum>t \<in> ?n1. lowers (inside \<Gamma> t))"
    using assms(2) by (simp_all add: walked_def Let_def)
  have w2: "checked st1 \<subseteq> checked st'" "snd ` set rest \<subseteq> checked st'" "finite ?n2"
    "\<forall>u \<in> ?n2. snd ` set (inside \<Gamma> u) \<subseteq> checked st' \<and> (\<exists>w \<in> snd ` set rest. (w, u) \<in> (refers \<Gamma>)\<^sup>*)"
    "errorCount st' = errorCount st1 + lowers rest + (\<Sum>t \<in> ?n2. lowers (inside \<Gamma> t))"
    using assms(3) by (simp_all add: walked_def Let_def)
  have new: "checked st' - checked st = insert t (?n1 \<union> ?n2)" using w1(1) w2(1) assms(1) by auto
  have sum: "(\<Sum>t \<in> checked st' - checked st. lowers (inside \<Gamma> t)) =
      lowers (inside \<Gamma> t) + (\<Sum>t \<in> ?n1. lowers (inside \<Gamma> t)) + (\<Sum>t \<in> ?n2. lowers (inside \<Gamma> t))"
    unfolding new using w1(1,3) w2(3) sum.union_disjoint [of ?n1 ?n2 "\<lambda>t. lowers (inside \<Gamma> t)"] by (subst sum.insert) auto
  have from_t: "(t, u) \<in> (refers \<Gamma>)\<^sup>*" if "u \<in> ?n1" for u
  proof -
    obtain w where "w \<in> snd ` set (inside \<Gamma> t)" "(w, u) \<in> (refers \<Gamma>)\<^sup>*" using w1(4) \<open>u \<in> ?n1\<close> by blast
    then show ?thesis by (intro converse_rtrancl_into_rtrancl [of t w]) (auto simp: refers_def)
  qed
  have "snd ` set (inside \<Gamma> u) \<subseteq> checked st' \<and> (\<exists>w \<in> snd ` set ((f, t) # rest). (w, u) \<in> (refers \<Gamma>)\<^sup>*)"
    if u: "u \<in> checked st' - checked st" for u
  proof -
    consider "u = t" | "u \<in> ?n1" | "u \<in> ?n2" using u unfolding new by blast
    then show ?thesis
    proof cases
      case 1
      then show ?thesis using w1(2) w2(1) by auto
    next
      case 2
      then have "snd ` set (inside \<Gamma> u) \<subseteq> checked st'" using w1(4) w2(1) by blast
      then show ?thesis using from_t [OF 2] by auto
    next
      case 3
      with w2(4) have "snd ` set (inside \<Gamma> u) \<subseteq> checked st'" "\<exists>w \<in> snd ` set rest. (w, u) \<in> (refers \<Gamma>)\<^sup>*" by blast+
      then show ?thesis by auto
    qed
  qed
  moreover have "finite (checked st' - checked st)" unfolding new using w1(3) w2(3) by simp
  moreover have "errorCount st' = errorCount st + lowers ((f, t) # rest) + (\<Sum>t \<in> checked st' - checked st. lowers (inside \<Gamma> t))"
    using w1(5) w2(5) lowers_simps(2) [of f t rest st] by (simp add: sum)
  ultimately show ?thesis using w1(1) w2(1,2) unfolding walked_def Let_def by auto
qed

lemma checkItems_walks:
  assumes "card ({..<length \<Gamma>} - checked st) \<le> n"
  shows "\<exists>st'. checkItems \<Gamma> items st = Some st' \<and> walked \<Gamma> items st st'"
  using assms
proof (induction n arbitrary: items st rule: less_induct)
  case (less n)
  show ?case using less.prems
  proof (induction items arbitrary: st)
    case Nil
    then show ?case by (subst checkItems.simps) (simp add: walked_def lowers_simps)
  next
    case (Cons item rest)
    obtain f t where item: "item = (f, t)" by (cases item)
    show ?case
    proof (cases "t \<in> checked st")
      case True
      obtain st' where "checkItems \<Gamma> rest (complain f st) = Some st'" "walked \<Gamma> rest (complain f st) st'"
        using Cons.IH [of "complain f st"] Cons.prems by auto
      then show ?thesis using True walked_skip [of \<Gamma> rest f st st' t] by (subst checkItems.simps) (simp add: item Let_def)
    next
      case False
      let ?st0 = "(complain f st)\<lparr>checked := insert t (checked st)\<rparr>"
      have "\<exists>st1. checkItems \<Gamma> (inside \<Gamma> t) ?st0 = Some st1 \<and> walked \<Gamma> (inside \<Gamma> t) ?st0 st1"
      proof (cases "t < length \<Gamma>")
        case True
        then have "card ({..<length \<Gamma>} - checked ?st0) < card ({..<length \<Gamma>} - checked st)"
          using False by (intro psubset_card_mono) auto
        then have "card ({..<length \<Gamma>} - checked ?st0) < n" using Cons.prems by linarith
        from less.IH [OF this order.refl] show ?thesis .
      next
        case False
        then have "inside \<Gamma> t = []" by (simp add: inside_def kindOf_def)
        then show ?thesis by (auto simp: checkItems.simps [of \<Gamma> "[]"] walked_def lowers_simps Let_def insert_Diff_if)
      qed
      then obtain st1 where st1: "checkItems \<Gamma> (inside \<Gamma> t) ?st0 = Some st1" "walked \<Gamma> (inside \<Gamma> t) ?st0 st1" by blast
      then have "checked st \<subseteq> checked st1" by (auto simp: walked_def Let_def)
      then have "card ({..<length \<Gamma>} - checked st1) \<le> card ({..<length \<Gamma>} - checked st)" by (intro card_mono) auto
      then obtain st' where st': "checkItems \<Gamma> rest st1 = Some st'" "walked \<Gamma> rest st1 st'"
        using Cons.IH [of st1] Cons.prems by auto
      have "checkItems \<Gamma> (item # rest) st = Some st'"
        using False st1(1) st'(1) by (subst checkItems.simps) (simp add: item Let_def)
      then show ?thesis using walked_visit [OF False st1(2) st'(2)] by (auto simp: item)
    qed
  qed
qed

definition walk_closed :: "tenv \<Rightarrow> gobstate \<Rightarrow> bool" where
  \<comment> \<open>whatever a checked type refers to has been checked: so it is before the first and after every call\<close>
  "walk_closed \<Gamma> st \<longleftrightarrow> (\<forall>t \<in> checked st. snd ` set (inside \<Gamma> t) \<subseteq> checked st)"

lemma closed_reach:
  assumes "walk_closed \<Gamma> st" and "t \<in> checked st" and "(t, u) \<in> (refers \<Gamma>)\<^sup>*"
  shows "u \<in> checked st"
  using assms(3,2) by (induction rule: rtrancl_induct) (use assms(1) in \<open>auto simp: walk_closed_def refers_def\<close>)

text \<open>
  Property C36 (checking a type ends). Whatever types a program has, recursive ones too, \<open>checkType\<close>
  ends. It has then checked exactly the types that were checked before and those the type refers to,
  at any depth, and has counted the lower-case fields of each newly checked struct once; a second
  call does nothing.
\<close>

theorem checkType_ends:
  assumes "walk_closed \<Gamma> st"
  shows "\<exists>st'. checkType \<Gamma> t st = Some st' \<and> walk_closed \<Gamma> st' \<and>
    checked st' = checked st \<union> {u. (t, u) \<in> (refers \<Gamma>)\<^sup>*} \<and>
    errorCount st' = errorCount st + (\<Sum>u \<in> {u. (t, u) \<in> (refers \<Gamma>)\<^sup>*} - checked st. lowers (inside \<Gamma> u)) \<and>
    checkType \<Gamma> t st' = Some st'"
proof -
  obtain st' where st': "checkType \<Gamma> t st = Some st'" "walked \<Gamma> [(None, t)] st st'"
    using checkItems_walks [of \<Gamma> st _ "[(None, t)]", OF order.refl] by (auto simp: checkType_def)
  then have w: "checked st \<subseteq> checked st'" "t \<in> checked st'"
    "\<forall>u \<in> checked st' - checked st. snd ` set (inside \<Gamma> u) \<subseteq> checked st' \<and> (t, u) \<in> (refers \<Gamma>)\<^sup>*"
    "errorCount st' = errorCount st + (\<Sum>t \<in> checked st' - checked st. lowers (inside \<Gamma> t))"
    by (auto simp: walked_def Let_def lowers_def)
  have cl: "walk_closed \<Gamma> st'" unfolding walk_closed_def using assms w(1,3) unfolding walk_closed_def by blast
  have eq: "checked st' = checked st \<union> {u. (t, u) \<in> (refers \<Gamma>)\<^sup>*}"
    using w(1,3) closed_reach [OF cl w(2)] by blast
  then have "checked st' - checked st = {u. (t, u) \<in> (refers \<Gamma>)\<^sup>*} - checked st" by auto
  moreover have "checkType \<Gamma> t st' = Some st'"
    using w(2) by (simp add: checkType_def complain_def checkItems.simps [of \<Gamma> "[(None, t)]"] checkItems.simps [of \<Gamma> "[]"])
  ultimately show ?thesis using st'(1) cl eq w(4) by auto
qed

definition ex_types :: tenv where
  \<comment> \<open>\<open>type T0 struct { Val T2; next *T0 }\<close>\<close>
  "ex_types = [KStruct [(''Val'', 2), (''next'', 1)], KElem 0, KOther]"

theorem checkType_ends_witness:
  "\<exists>st'. checkType ex_types 0 \<lparr>errorCount = 0, checked = {}, warned = []\<rparr> = Some st' \<and> errorCount st' = 1 \<and> checked st' = {0, 1, 2}"
proof -
  let ?st = "\<lparr>errorCount = 0, checked = {}, warned = []\<rparr>"
  obtain st' where st': "checkType ex_types 0 ?st = Some st'" "checked st' = {u. (0, u) \<in> (refers ex_types)\<^sup>*}"
    "errorCount st' = (\<Sum>u \<in> {u. (0, u) \<in> (refers ex_types)\<^sup>*}. lowers (inside ex_types u))"
    using checkType_ends [of ex_types ?st 0] by (auto simp: walk_closed_def)
  have r: "refers ex_types = {(0, 2), (0, 1), (1, 0)}"
  proof -
    have "u \<in> snd ` set (inside ex_types t) \<longleftrightarrow> (t, u) \<in> {(0, 2), (0, 1), (1, 0)}" for t u
    proof (cases "t < 3")
      case True
      then have "t \<in> {0, 1, 2}" by auto
      then show ?thesis by (auto simp: inside_def kindOf_def ex_types_def)
    qed (auto simp: inside_def kindOf_def ex_types_def)
    then show ?thesis by (auto simp: refers_def)
  qed
  have "u \<in> {0, 1, 2}" if "(0, u) \<in> (refers ex_types)\<^sup>*" for u
    using that by (induction rule: rtrancl_induct) (auto simp: r)
  moreover have "(0, u) \<in> (refers ex_types)\<^sup>*" if "u \<in> {0, 1, 2}" for u
    using that by (auto simp: r intro: r_into_rtrancl)
  ultimately have set: "{u. (0, u) \<in> (refers ex_types)\<^sup>*} = {0, 1, 2}" by blast
  have "lowers (inside ex_types 0) = 1" "lowers (inside ex_types 1) = 0" "lowers (inside ex_types 2) = 0"
    by (simp_all add: lowers_def inside_def kindOf_def ex_types_def upperField_def)
  with st' show ?thesis unfolding set by auto
qed

subsection \<open>The walk over values\<close>

fun depths :: "gval \<Rightarrow> nat list" where
  \<comment> \<open>how many steps down in the value its non-default basic values are\<close>
  "depths (VStruct fs) = map Suc (concat (map (\<lambda>p. depths (snd p)) fs))"
| "depths (VPtr None) = []"
| "depths (VPtr (Some v)) = map Suc (depths v)"
| "depths (VBasic n zero) = (if zero then [] else [0])"
| "depths VOther = []"

definition upTo :: "nat \<Rightarrow> nat list \<Rightarrow> int" where
  "upTo k ds = int (length (filter (\<lambda>d. d < k) ds))"

lemma upTo_simps [simp]:
  "upTo k [] = 0" "upTo k (xs @ ys) = upTo k xs + upTo k ys" "0 \<le> upTo k ds" "upTo 0 ds = 0"
  "0 < k \<Longrightarrow> upTo k (map Suc ds) = upTo (k - 1) ds" "upTo k [d] = (if d < k then 1 else 0)"
  by (auto simp: upTo_def filter_map comp_def intro!: arg_cong [of _ _ "\<lambda>P. length (filter P ds)"])

definition counted :: "int \<Rightarrow> gobstate \<Rightarrow> gobstate \<Rightarrow> bool" where
  \<comment> \<open>\<open>k\<close> more errors, and a warning if they are the first ones\<close>
  "counted k st st' \<longleftrightarrow> errorCount st' = errorCount st + k \<and> checked st' = checked st \<and>
     length (warned st') = length (warned st) + (if errorCount st < 1 \<and> 0 < k then 1 else 0)"

lemma counted_trans:
  "counted j st st1 \<Longrightarrow> counted k st1 st2 \<Longrightarrow> 0 \<le> errorCount st \<Longrightarrow> 0 \<le> j \<Longrightarrow> 0 \<le> k \<Longrightarrow> counted (j + k) st st2"
  by (auto simp: counted_def)

lemma checkDefault1_counts:
  "0 \<le> errorCount st \<Longrightarrow> counted (upTo (4 - depth) (depths v)) st (checkDefault1 v depth name st)"
proof (induction v depth name st rule: checkDefault1.induct)
  case (1 v depth name st)
  show ?case
  proof (cases "depth > 3")
    case True
    then show ?thesis by (simp add: checkDefault1.simps [of v] counted_def)
  next
    case False
    then have k: "0 < 4 - depth" "4 - (depth + 1) = 4 - depth - 1" by auto
    show ?thesis
    proof (cases v)
      case (VStruct fs)
      let ?f = "\<lambda>(n, vv). checkDefault1 vv (depth + 1) (if name \<noteq> [] then name @ ''.'' @ n else n)"
      have "counted (upTo (4 - depth - 1) (concat (map (\<lambda>p. depths (snd p)) gs))) st' (fold ?f gs st')"
        if "set gs \<subseteq> set fs" "0 \<le> errorCount st'" for gs st'
        using that
      proof (induction gs arbitrary: st')
        case Nil
        then show ?case by (simp add: counted_def)
      next
        case (Cons g gs)
        have one: "counted (upTo (4 - depth - 1) (depths (snd g))) st' (?f g st')"
          using "1.IH"(1) [OF False VStruct, of g "fst g" "snd g" st'] Cons.prems k by (cases g) auto
        then have "0 \<le> errorCount (?f g st')" using Cons.prems(2) by (auto simp: counted_def)
        with Cons have "counted (upTo (4 - depth - 1) (concat (map (\<lambda>p. depths (snd p)) gs))) (?f g st') (fold ?f gs (?f g st'))" by simp
        from counted_trans [OF one this Cons.prems(2)] show ?case by simp
      qed
      from this [of fs st] "1.prems" show ?thesis using False k by (simp add: VStruct checkDefault1.simps [of "VStruct fs"])
    next
      case (VPtr p)
      then show ?thesis using False k "1.IH"(2) [OF False VPtr] "1.prems"
        by (cases p) (simp_all add: checkDefault1.simps [of "VPtr _"] counted_def)
    qed (use False k in \<open>simp_all add: checkDefault1.simps [of "VBasic _ _"] checkDefault1.simps [of VOther] counted_def\<close>)
  qed
qed

text \<open>
  How deep defaults are checked. \<open>checkDefault\<close> counts exactly the basic values that are
  not at their default and lie less than three steps down in the value: for the pointer to a struct
  that RPCs decode into, these are the fields of the struct; what lies inside a field is not looked
  at. A warning is printed for the first of them only, and only when nothing has been counted before.
\<close>

theorem checkDefault_counts:
  assumes "0 \<le> errorCount st"
  shows "counted (upTo 3 (depths v)) st (checkDefault (Some (t, v)) st) \<and>
    counted (upTo 1 (concat (map (\<lambda>p. depths (snd p)) fs))) st (checkDefault (Some (t, VPtr (Some (VStruct fs)))) st)"
proof -
  have "upTo 3 (depths (VPtr (Some (VStruct fs)))) = upTo 1 (concat (map (\<lambda>p. depths (snd p)) fs))"
    by (simp only: depths.simps upTo_simps) (simp del: map_map)
  then show ?thesis
    using checkDefault1_counts [OF assms, of 1 v "[]"] checkDefault1_counts [OF assms, of 1 "VPtr (Some (VStruct fs))" "[]"]
    by (simp add: checkDefault_def)
qed

theorem checkDefault_counts_witness:
  "errorCount (checkDefault (Some (0, VPtr (Some (VStruct [(''Term'', VBasic ''int'' False), (''Log'', VStruct [(''N'', VBasic ''int'' False)])]))))
     \<lparr>errorCount = 0, checked = {}, warned = []\<rparr>) = 1"
  using checkDefault_counts [of "\<lparr>errorCount = 0, checked = {}, warned = []\<rparr>" VOther 0
    "[(''Term'', VBasic ''int'' False), (''Log'', VStruct [(''N'', VBasic ''int'' False)])]"]
  by (simp add: counted_def upTo_def)

end
