(* ===== verification/Tester_Config.thy ===== *)
theory Tester_Config
  imports Tester_Group
begin

text \<open>
  Clients of the test harness (\<open>src/tester1/clnts.go\<close>): the ends a client makes to servers and which
  servers a client may reach.

  A client's map of ends is an association list with different keys. A nil list of allowed servers
  is \<open>None\<close>. Clients are pointers in the code and numbers here.
\<close>

subsection \<open>Clients\<close>

record 'e Clnt =
  cends :: "(string \<times> 'e) list"
  csrvs :: "string list option"

definition makeClntTo :: "string list option \<Rightarrow> 'e Clnt" where
  "makeClntTo srvs = \<lparr>cends = [], csrvs = srvs\<rparr>"

definition allowedL :: "'e Clnt \<Rightarrow> string \<Rightarrow> bool" where
  "allowedL clnt server = (case csrvs clnt of None \<Rightarrow> True | Some ns \<Rightarrow> list_ex (\<lambda>n. n = server) ns)"

definition Clnt_makeEnd :: "'e \<Rightarrow> string \<Rightarrow> 'e net \<times> 'e Clnt \<Rightarrow> ('e net \<times> 'e Clnt \<times> 'e) go" where
  \<comment> \<open>\<open>name\<close> is the random name of a new end\<close>
  "Clnt_makeEnd name server = (\<lambda>(net, clnt).
     case map_of (cends clnt) server of Some e \<Rightarrow> Inr (net, clnt, e)
     | None \<Rightarrow> go_bind (MakeEnd net name) (\<lambda>net1.
         Inr (Enable (Connect net1 name server) name (allowedL clnt server),
              clnt\<lparr>cends := (server, name) # cends clnt\<rparr>, name)))"

definition Clnt_Call :: "'e \<Rightarrow> string \<Rightarrow> coins \<Rightarrow> ('e net \<Rightarrow> 'e net) \<Rightarrow> 'e net \<times> 'e Clnt \<Rightarrow> ('e net \<times> 'e Clnt \<times> bool) go" where
  \<comment> \<open>\<open>meanwhile\<close> is what happens to the network while the handler runs; the flag is the result of the call\<close>
  "Clnt_Call name server c meanwhile s =
     go_bind (Clnt_makeEnd name server s) (\<lambda>(net, clnt, e).
       let net1 = takeReq net []; net2 = meanwhile net1
       in Inr (net2, clnt, replied (processReq net1 net2 e c)))"

definition enableEnds :: "(string \<times> 'e \<Rightarrow> bool) \<Rightarrow> bool \<Rightarrow> 'e Clnt \<Rightarrow> 'e net \<Rightarrow> 'e net" where
  \<comment> \<open>the loop over \<open>clnt.ends\<close> that sets some of them\<close>
  "enableEnds P v clnt net = fold (\<lambda>p net. if P p then Enable net (snd p) v else net) (cends clnt) net"

definition Clnt_ConnectAll :: "'e net \<times> 'e Clnt \<Rightarrow> 'e net \<times> 'e Clnt" where
  "Clnt_ConnectAll = (\<lambda>(net, clnt). (enableEnds (\<lambda>_. True) True clnt net, clnt\<lparr>csrvs := None\<rparr>))"

definition ConnectTo :: "string list option \<Rightarrow> 'e net \<times> 'e Clnt \<Rightarrow> 'e net \<times> 'e Clnt" where
  "ConnectTo srvs = (\<lambda>(net, clnt).
     let clnt1 = clnt\<lparr>csrvs := srvs\<rparr> in (enableEnds (\<lambda>(s, e). allowedL clnt1 s) True clnt1 net, clnt1))"

definition Disconnect :: "string \<Rightarrow> 'e net \<times> 'e Clnt \<Rightarrow> 'e net \<times> 'e Clnt" where
  "Disconnect srv = (\<lambda>(net, clnt). (enableEnds (\<lambda>(s, e). s = srv) False clnt net, clnt))"

definition Clnt_DisconnectAll :: "'e net \<times> 'e Clnt \<Rightarrow> 'e net \<times> 'e Clnt" where
  "Clnt_DisconnectAll = (\<lambda>(net, clnt). (enableEnds (\<lambda>_. True) False clnt net, clnt\<lparr>csrvs := Some []\<rparr>))"

definition remove :: "'e Clnt \<Rightarrow> 'e net \<Rightarrow> 'e net go" where
  "remove clnt = go_each (\<lambda>p net. DeleteEnd net (snd p)) (cends clnt)"

type_synonym 'e Clnts = "(nat \<times> 'e Clnt) list"

definition Clnts_makeEnd :: "'e \<Rightarrow> string \<Rightarrow> 'e net \<Rightarrow> 'e net go" where
  \<comment> \<open>the random name is an argument\<close>
  "Clnts_makeEnd name servername net = go_bind (MakeEnd net name) (\<lambda>net1. Inr (Enable (Connect net1 name servername) name True))"

definition MakeClientTo :: "nat \<Rightarrow> string list option \<Rightarrow> 'e Clnts \<Rightarrow> 'e Clnts" where
  \<comment> \<open>\<open>p\<close> is the new pointer\<close>
  "MakeClientTo p srvs clnts = (p, makeClntTo srvs) # clnts"

definition MakeClient :: "nat \<Rightarrow> 'e Clnts \<Rightarrow> 'e Clnts" where
  "MakeClient p = MakeClientTo p None"

definition DeleteClient :: "nat \<Rightarrow> 'e net \<times> 'e Clnts \<Rightarrow> ('e net \<times> 'e Clnts) go" where
  "DeleteClient p = (\<lambda>(net, clnts). case map_of clnts p of None \<Rightarrow> Inr (net, clnts)
     | Some c \<Rightarrow> go_bind (remove c net) (\<lambda>net1. Inr (net1, filter (\<lambda>q. fst q \<noteq> p) clnts)))"

definition Clnts_cleanup :: "'e net \<times> 'e Clnts \<Rightarrow> ('e net \<times> 'e Clnts) go" where
  "Clnts_cleanup = (\<lambda>(net, clnts). go_bind (go_each (\<lambda>q. remove (snd q)) clnts net) (\<lambda>net1. Inr (net1, [])))"

subsection \<open>Which servers a client reaches\<close>

definition consistent :: "'e net \<times> 'e Clnt \<Rightarrow> bool" where
  \<comment> \<open>an end is enabled exactly when its server is allowed\<close>
  "consistent = (\<lambda>(net, clnt). distinct (map snd (cends clnt)) \<and> set (map snd (cends clnt)) \<subseteq> set (ends net) \<and>
     (\<forall>(s, e) \<in> set (cends clnt). enabled net e \<longleftrightarrow> allowedL clnt s))"

lemma enableEnds_law:
  assumes "distinct (map snd (cends clnt))" and "(s, e) \<in> set (cends clnt)"
  shows "enabled (enableEnds P v clnt net) e = (if P (s, e) then v else enabled net e)"
proof -
  have "inj_on snd (set (cends clnt))" using assms(1) by (simp only: distinct_map)
  from inj_onD [OF this] have "p = (s, e)" if "p \<in> set (cends clnt)" "snd p = e" for p
    using that assms(2) by simp
  then have "(\<exists>p \<in> set (cends clnt). P p \<and> snd p = e) \<longleftrightarrow> P (s, e)" using assms(2) by (metis snd_conv)
  then show ?thesis by (simp add: enableEnds_def enabled_fold_Enable)
qed

lemma enableEnds_ends [simp]: "ends (enableEnds P v clnt net) = ends net"
  by (simp add: enableEnds_def)

text \<open>
  Restricting a client. A client keeps its ends in step with the servers it is allowed
  to reach when it makes a new end, and \<open>ConnectAll\<close>, \<open>DisconnectAll\<close> and \<open>ConnectTo\<close> after
  \<open>DisconnectAll\<close> bring them in step from any state. \<open>ConnectTo\<close> alone only enables: an end that was
  enabled stays so, also when its server is no longer allowed.
\<close>

theorem client_restrictions:
  assumes "distinct (map snd (cends clnt))" and "set (map snd (cends clnt)) \<subseteq> set (ends net)"
  shows "(consistent (net, clnt) \<longrightarrow> (\<forall>name server net' clnt' e. Clnt_makeEnd name server (net, clnt) = Inr (net', clnt', e) \<longrightarrow>
        consistent (net', clnt') \<and> map_of (cends clnt') server = Some e)) \<and>
    consistent (Clnt_ConnectAll (net, clnt)) \<and> consistent (Clnt_DisconnectAll (net, clnt)) \<and>
    consistent (ConnectTo srvs (Clnt_DisconnectAll (net, clnt))) \<and>
    (\<forall>(s, e) \<in> set (cends clnt). enabled (fst (ConnectTo srvs (net, clnt))) e \<longleftrightarrow>
        enabled net e \<or> allowedL (clnt\<lparr>csrvs := srvs\<rparr>) s)"
proof (intro conjI impI allI)
  note law = enableEnds_law [OF assms(1)]
  have dist: "distinct (map snd (cends (clnt\<lparr>csrvs := x\<rparr>)))" for x using assms(1) by simp
  show "consistent (Clnt_ConnectAll (net, clnt))" "consistent (Clnt_DisconnectAll (net, clnt))"
    using assms law by (auto simp: consistent_def Clnt_ConnectAll_def Clnt_DisconnectAll_def allowedL_def)
  show "consistent (ConnectTo srvs (Clnt_DisconnectAll (net, clnt)))"
    using assms law enableEnds_law [OF dist] by (auto simp: consistent_def ConnectTo_def Clnt_DisconnectAll_def Let_def split: if_splits)
  show "\<forall>(s, e) \<in> set (cends clnt). enabled (fst (ConnectTo srvs (net, clnt))) e \<longleftrightarrow>
      enabled net e \<or> allowedL (clnt\<lparr>csrvs := srvs\<rparr>) s"
    using enableEnds_law [OF dist] by (auto simp: ConnectTo_def Let_def)
  fix name server net' clnt' e
  assume c: "consistent (net, clnt)" and m: "Clnt_makeEnd name server (net, clnt) = Inr (net', clnt', e)"
  show "consistent (net', clnt')"
  proof (cases "map_of (cends clnt) server")
    case None
    with m have new: "name \<notin> set (ends net)" "clnt' = clnt\<lparr>cends := (server, name) # cends clnt\<rparr>"
      "net' = Enable (Connect (net\<lparr>ends := name # ends net, enabled := (enabled net)(name := False),
         connections := (connections net)(name := None)\<rparr>) name server) name (allowedL clnt server)"
      by (auto simp: Clnt_makeEnd_def MakeEnd_def split: if_splits)
    have old: "e \<noteq> name" if "(s, e) \<in> set (cends clnt)" for s e using that assms(2) new(1) by force
    have "name \<notin> set (map snd (cends clnt))" using assms(2) new(1) by auto
    with c old assms show ?thesis unfolding new(2,3)
      by (auto simp: consistent_def Enable_def Connect_def allowedL_def)
  qed (use c m in \<open>auto simp: Clnt_makeEnd_def\<close>)
  show "map_of (cends clnt') server = Some e"
    using m by (auto simp: Clnt_makeEnd_def go_inv split: option.splits)
qed

theorem client_restrictions_witness:
  "\<exists>net clnt. Clnt_makeEnd (7::nat) ''a'' (MakeNetwork, makeClntTo None) = Inr (net, clnt, 7) \<and> consistent (net, clnt) \<and>
     consistent (Clnt_DisconnectAll (net, clnt)) \<and> enabled (fst (ConnectTo (Some []) (net, clnt))) 7 \<and>
     \<not> consistent (ConnectTo (Some []) (net, clnt))"
proof -
  obtain net clnt where m: "Clnt_makeEnd (7::nat) ''a'' (MakeNetwork, makeClntTo None) = Inr (net, clnt, 7)"
    "cends clnt = [(''a'', 7)]" "ends net = [7]" "enabled net 7"
    by (auto simp: Clnt_makeEnd_def makeClntTo_def MakeEnd_def MakeNetwork_def Enable_def Connect_def allowedL_def)
  have c0: "consistent (MakeNetwork, makeClntTo None)" by (simp add: consistent_def makeClntTo_def)
  have "consistent (net, clnt)"
    using client_restrictions [of "makeClntTo None :: nat Clnt" MakeNetwork None] c0 m(1) by (auto simp: makeClntTo_def)
  moreover have "enabled (fst (ConnectTo (Some []) (net, clnt))) 7" "consistent (Clnt_DisconnectAll (net, clnt))"
    using client_restrictions [of clnt net "Some []"] m by auto
  moreover from this have "\<not> consistent (ConnectTo (Some []) (net, clnt))"
    using m(2) by (auto simp: consistent_def ConnectTo_def allowedL_def Let_def)
  ultimately show ?thesis using m(1) by blast
qed

end
