(* ===== verification/Services.thy ===== *)
theory Services
  imports Raft_Restart Rsm Labgob Tester_Config
begin

text \<open>
  The replicated key/value service (\<open>src/kvraft1\<close>) and the sharded one (\<open>src/shardkv1\<close>) as they are in the
  repository: frames around Raft. \<open>MakeRSM\<close> and the two start functions make a Raft peer and register
  the types that are sent; the operations themselves are empty, and the clerks return zero
  values. The theory models them as they stand and proves what does hold of them: a restart of
  such a server through the test harness recovers its Raft peer, and the types it registers have no
  field the encoder would drop. That a server is also the state machine of its \<open>RSM\<close> is a pointer
  back that nothing follows yet; it is left out.
\<close>

subsection \<open>The replicated state machine\<close>

record 'c RSM =
  rsmMe :: nat
  rsmRf :: "'c raft option"        \<comment> \<open>nil when another Raft is to be plugged in\<close>
  rsmMax :: int

definition MakeRSM :: "bool \<Rightarrow> 'e list \<Rightarrow> nat \<Rightarrow> 'c persister \<Rightarrow> int \<Rightarrow> 'c RSM go" where
  "MakeRSM useRaftStateMachine es i ps maxraftstate =
     (let rsm = \<lparr>rsmMe = i, rsmRf = None, rsmMax = maxraftstate\<rparr> in
      if \<not> useRaftStateMachine then go_bind (Make (length es) i ps) (\<lambda>rf. Inr (rsm\<lparr>rsmRf := Some rf\<rparr>)) else Inr rsm)"

definition RSM_Raft :: "'c RSM \<Rightarrow> 'c raft option" where
  "RSM_Raft rsm = rsmRf rsm"

subsection \<open>The key/value server\<close>

definition kvsrv_Kill :: "KVServer \<Rightarrow> KVServer" where
  "kvsrv_Kill kv = kv"

definition kvsrv_StartKVServer :: "('e, 'c, KVServer) starter" where
  \<comment> \<open>the persister is not used: a restart begins with an empty store\<close>
  "kvsrv_StartKVServer es g i ps = Inr [MakeKVServer]"

subsection \<open>The replicated key/value service\<close>

record 'c kvraftSrv =
  ksMe :: nat
  ksDead :: "32 word"
  ksRsm :: "'c RSM"

definition kvraft_DoOp :: "'q \<Rightarrow> 'c kvraftSrv \<Rightarrow> 'c kvraftSrv \<times> 'r option" where
  "kvraft_DoOp req kv = (kv, None)"

definition kvraft_Snapshot :: "'c kvraftSrv \<Rightarrow> byte list option" where
  "kvraft_Snapshot kv = None"

definition kvraft_Restore :: "byte list \<Rightarrow> 'c kvraftSrv \<Rightarrow> 'c kvraftSrv" where
  "kvraft_Restore data kv = kv"

definition kvraft_Get :: "string \<Rightarrow> GetReply \<Rightarrow> 'c kvraftSrv \<Rightarrow> 'c kvraftSrv \<times> GetReply" where
  \<comment> \<open>the reply stays as it was handed in\<close>
  "kvraft_Get key reply kv = (kv, reply)"

definition kvraft_Put :: "PutArgs \<Rightarrow> Err \<Rightarrow> 'c kvraftSrv \<Rightarrow> 'c kvraftSrv \<times> Err" where
  "kvraft_Put args reply kv = (kv, reply)"

definition kvraft_Kill :: "'c kvraftSrv \<Rightarrow> 'c kvraftSrv" where
  "kvraft_Kill kv = kv\<lparr>ksDead := 1\<rparr>"

definition kvraft_killed :: "'c kvraftSrv \<Rightarrow> bool" where
  "kvraft_killed kv \<longleftrightarrow> ksDead kv = 1"

record repClerk =
  rcServers :: "string list"

definition kvraft_MakeClerk :: "string list \<Rightarrow> repClerk" where
  "kvraft_MakeClerk names = \<lparr>rcServers = names\<rparr>"

definition kvraft_Clerk_Get :: "repClerk \<Rightarrow> string \<Rightarrow> string \<times> Tversion \<times> Err" where
  "kvraft_Clerk_Get ck key = ([], 0, [])"

definition kvraft_Clerk_Put :: "repClerk \<Rightarrow> string \<Rightarrow> string \<Rightarrow> Tversion \<Rightarrow> Err" where
  "kvraft_Clerk_Put ck key val version = []"

subsection \<open>The sharded key/value service\<close>

record FreezeShardArgs =
  fzShard :: int
  fzNum :: int

record FreezeShardReply =
  fzState :: "byte list option"
  fzrNum :: int
  fzErr :: Err

record InstallShardArgs =
  inShard :: int
  inState :: "byte list option"
  inNum :: int

record DeleteShardArgs =
  dlShard :: int
  dlNum :: int

record 'c shardSrv =
  ssMe :: nat
  ssDead :: "32 word"
  ssRsm :: "'c RSM"
  ssGid :: int

definition shardgrp_DoOp :: "'q \<Rightarrow> 'c shardSrv \<Rightarrow> 'c shardSrv \<times> 'r option" where
  "shardgrp_DoOp req kv = (kv, None)"

definition shardgrp_Snapshot :: "'c shardSrv \<Rightarrow> byte list option" where
  "shardgrp_Snapshot kv = None"

definition shardgrp_Restore :: "byte list \<Rightarrow> 'c shardSrv \<Rightarrow> 'c shardSrv" where
  "shardgrp_Restore data kv = kv"

definition shardgrp_Get :: "string \<Rightarrow> GetReply \<Rightarrow> 'c shardSrv \<Rightarrow> 'c shardSrv \<times> GetReply" where
  "shardgrp_Get key reply kv = (kv, reply)"

definition shardgrp_Put :: "PutArgs \<Rightarrow> Err \<Rightarrow> 'c shardSrv \<Rightarrow> 'c shardSrv \<times> Err" where
  "shardgrp_Put args reply kv = (kv, reply)"

definition FreezeShard :: "FreezeShardArgs \<Rightarrow> FreezeShardReply \<Rightarrow> 'c shardSrv \<Rightarrow> 'c shardSrv \<times> FreezeShardReply" where
  "FreezeShard args reply kv = (kv, reply)"

definition InstallShard :: "InstallShardArgs \<Rightarrow> Err \<Rightarrow> 'c shardSrv \<Rightarrow> 'c shardSrv \<times> Err" where
  "InstallShard args reply kv = (kv, reply)"

definition DeleteShard :: "DeleteShardArgs \<Rightarrow> Err \<Rightarrow> 'c shardSrv \<Rightarrow> 'c shardSrv \<times> Err" where
  "DeleteShard args reply kv = (kv, reply)"

definition shardgrp_Kill :: "'c shardSrv \<Rightarrow> 'c shardSrv" where
  "shardgrp_Kill kv = kv\<lparr>ssDead := 1\<rparr>"

definition shardgrp_killed :: "'c shardSrv \<Rightarrow> bool" where
  "shardgrp_killed kv \<longleftrightarrow> ssDead kv = 1"

definition shardgrp_MakeClerk :: "string list \<Rightarrow> repClerk" where
  "shardgrp_MakeClerk names = \<lparr>rcServers = names\<rparr>"

definition shardgrp_Clerk_Get :: "repClerk \<Rightarrow> string \<Rightarrow> string \<times> Tversion \<times> Err" where
  "shardgrp_Clerk_Get ck key = ([], 0, [])"

definition shardgrp_Clerk_Put :: "repClerk \<Rightarrow> string \<Rightarrow> string \<Rightarrow> Tversion \<Rightarrow> Err" where
  "shardgrp_Clerk_Put ck key val version = []"

definition Clerk_FreezeShard :: "repClerk \<Rightarrow> int \<Rightarrow> int \<Rightarrow> byte list option \<times> Err" where
  "Clerk_FreezeShard ck s num = (None, [])"

definition Clerk_InstallShard :: "repClerk \<Rightarrow> int \<Rightarrow> byte list option \<Rightarrow> int \<Rightarrow> Err" where
  "Clerk_InstallShard ck s st num = []"

definition Clerk_DeleteShard :: "repClerk \<Rightarrow> int \<Rightarrow> int \<Rightarrow> Err" where
  "Clerk_DeleteShard ck s num = []"

record ShardCtrler =
  scKilled :: "32 word"
  scServer :: string             \<comment> \<open>the server of its key/value clerk\<close>

definition MakeShardCtrler :: "(int \<Rightarrow> string) \<Rightarrow> ShardCtrler" where
  "MakeShardCtrler itoa = \<lparr>scKilled = 0, scServer = ServerName itoa 0 0\<rparr>"

definition InitController :: "ShardCtrler \<Rightarrow> ShardCtrler" where
  "InitController sck = sck"

definition InitConfig :: "'cfg \<Rightarrow> ShardCtrler \<Rightarrow> ShardCtrler" where
  "InitConfig cfg sck = sck"

definition ChangeConfigTo :: "'cfg \<Rightarrow> ShardCtrler \<Rightarrow> ShardCtrler" where
  "ChangeConfigTo new sck = sck"

definition Query :: "ShardCtrler \<Rightarrow> 'cfg option" where
  "Query sck = None"

definition shardkv_MakeClerk :: "ShardCtrler \<Rightarrow> ShardCtrler" where
  \<comment> \<open>a clerk holds its controller\<close>
  "shardkv_MakeClerk sck = sck"

definition shardkv_Clerk_Get :: "ShardCtrler \<Rightarrow> string \<Rightarrow> string \<times> Tversion \<times> Err" where
  "shardkv_Clerk_Get ck key = ([], 0, [])"

definition shardkv_Clerk_Put :: "ShardCtrler \<Rightarrow> string \<Rightarrow> string \<Rightarrow> Tversion \<Rightarrow> Err" where
  "shardkv_Clerk_Put ck key val version = []"

subsection \<open>Starting a server\<close>

definition sentTypes :: tenv where
  \<comment> \<open>0 \<open>Op\<close>, 1 \<open>PutArgs\<close>, 2 \<open>GetArgs\<close>, 3 \<open>FreezeShardArgs\<close>, 4 \<open>InstallShardArgs\<close>, 5 \<open>DeleteShardArgs\<close>, 6 a basic type, 7 a slice of bytes\<close>
  "sentTypes = [KStruct [], KStruct [(''Key'', 6), (''Value'', 6), (''Version'', 6)], KStruct [(''Key'', 6)],
     KStruct [(''Shard'', 6), (''Num'', 6)], KStruct [(''Shard'', 6), (''State'', 7), (''Num'', 6)], KStruct [(''Shard'', 6), (''Num'', 6)],
     KOther, KElem 6]"

fun registerAll :: "nat list \<Rightarrow> gobstate \<Rightarrow> gobstate go option" where
  \<comment> \<open>one call of \<open>labgob.Register\<close> after the other, with zero values of these types\<close>
  "registerAll [] st = Some (Inr st)"
| "registerAll (t # ts) st = (case Register sentTypes (Some (t, VStruct [])) st of
     None \<Rightarrow> None | Some (Inl e) \<Rightarrow> Some (Inl e) | Some (Inr st1) \<Rightarrow> registerAll ts st1)"

definition kvraft_registers :: "gobstate \<Rightarrow> gobstate go option" where
  "kvraft_registers = registerAll [0, 1, 2]"

definition shardgrp_registers :: "gobstate \<Rightarrow> gobstate go option" where
  "shardgrp_registers = registerAll [1, 2, 3, 4, 5, 0]"

datatype 'c isvc = SvcKV "'c kvraftSrv" | SvcShard "'c shardSrv" | SvcPeer "'c raft option"

definition StartKVServer :: "bool \<Rightarrow> int \<Rightarrow> ('e, 'c, 'c isvc) starter" where
  \<comment> \<open>after the registrations\<close>
  "StartKVServer useRSM maxraftstate es g i ps =
     go_bind (MakeRSM useRSM es i ps maxraftstate) (\<lambda>rsm.
       Inr [SvcKV \<lparr>ksMe = i, ksDead = 0, ksRsm = rsm\<rparr>, SvcPeer (RSM_Raft rsm)])"

definition StartServerShardGrp :: "bool \<Rightarrow> int \<Rightarrow> ('e, 'c, 'c isvc) starter" where
  "StartServerShardGrp useRSM maxraftstate es g i ps =
     go_bind (MakeRSM useRSM es i ps maxraftstate) (\<lambda>rsm.
       Inr [SvcShard \<lparr>ssMe = i, ssDead = 0, ssRsm = rsm, ssGid = g\<rparr>, SvcPeer (RSM_Raft rsm)])"

subsection \<open>Restarting a service that runs on Raft\<close>

text \<open>
  A start function that makes a Raft peer from the persister it is given. The restart argument needs
  no more of a service than this.
\<close>

locale raft_starter =
  fixes start :: "('e, 'c, 'svc) starter" and raftOf :: "'svc list \<Rightarrow> 'c raft option" and n :: nat
  assumes start_makes: "start es g i ps = Inr ss \<Longrightarrow> length es = n \<Longrightarrow> \<exists>rf. raftOf ss = Some rf \<and> Make n i ps = Inr rf"
begin

lemma restart_recovers:
  assumes "i < n" and "length names = n" and "peer_step\<^sup>*\<^sup>* (newRaft n i MakePersister) rf" and "saved (gsrvs sg ! i) = Some (persister rf)"
    and "ShutdownServer itoa i (net, sg) = Inr (net1, sg1)" and "StartServer itoa start names obj i (net1, sg1) = Inr (net2, sg2)"
  shows "\<exists>rf'. raftOf (svcs (gsrvs sg2 ! i)) = Some rf' \<and> CurrentTerm rf' = CurrentTerm rf \<and> VotedFor rf' = VotedFor rf \<and>
    Log rf' = Log rf \<and> SnapshotIndex rf' = SnapshotIndex rf \<and> saved (gsrvs sg2 ! i) = Some (persister rf) \<and>
    (\<forall>j < N sg. j \<noteq> i \<longrightarrow> gsrvs sg2 ! j = gsrvs sg ! j)"
proof -
  note sh = ShutdownServer_law [OF assms(5)]
  have "synced (newRaft n i MakePersister)" by (simp add: newRaft_def synced_def MakePersister_def)
  then have ok: "wf_raft rf" "synced rf"
    using peer.run_keeps_shape [OF assms(3)] peer.run_keeps_synced [OF assms(3)] newRaft_wf [OF assms(1)] by blast+
  have id: "me rf = i" "npeers rf = n" using peer.run_ok [OF assms(3)] by (simp_all add: contract_ok_def newRaft_def)
  have sv: "saved (shutdownServer (gsrvs sg ! i)) = Some (persister rf)" using assms(4) by (simp add: shutdownServer_def)
  obtain ss where ss: "start names (gid sg1) i (persister rf) = Inr ss" "svcs (gsrvs sg2 ! i) = ss"
    "saved (gsrvs sg2 ! i) = Some (persister rf)" "\<forall>j < N sg. j \<noteq> i \<longrightarrow> gsrvs sg2 ! j = gsrvs sg ! j"
    using sh by (rule_tac StartServer_law [OF assms(6)]) (auto simp: sv N_def)
  from start_makes [OF ss(1) assms(2)] obtain rf1 where r: "raftOf ss = Some rf1" "Make n i (persister rf) = Inr rf1" by blast
  have "CurrentTerm rf1 = CurrentTerm rf" "VotedFor rf1 = VotedFor rf" "Log rf1 = Log rf" "SnapshotIndex rf1 = SnapshotIndex rf"
    using Make_recovers [OF ok] r(2) by (auto simp: id)
  then show ?thesis using ss(2-4) r(1) by blast
qed

end

fun peerOf :: "'c isvc list \<Rightarrow> 'c raft option" where
  "peerOf [_, SvcPeer (Some rf)] = Some rf"
| "peerOf _ = None"

fun testPeerOf :: "'c tsvc list \<Rightarrow> 'c raft option" where
  "testPeerOf [_, SvcRaft rf] = Some rf"
| "testPeerOf _ = None"

lemma MakeRSM_raft: "MakeRSM False es i ps mx = Inr rsm \<Longrightarrow> \<exists>rf. RSM_Raft rsm = Some rf \<and> Make (length es) i ps = Inr rf"
  by (auto simp: MakeRSM_def RSM_Raft_def go_inv Let_def)

interpretation kvraft: raft_starter "StartKVServer False mx" peerOf n
  by unfold_locales (auto simp: StartKVServer_def go_inv dest!: MakeRSM_raft)

interpretation shardgrp: raft_starter "StartServerShardGrp False mx" peerOf n
  by unfold_locales (auto simp: StartServerShardGrp_def go_inv dest!: MakeRSM_raft)

interpretation rfsrv: raft_starter "mksrv dec n snap" testPeerOf n
  by unfold_locales (auto simp: mksrv_def newRfsrv_def go_inv Let_def split: if_splits)

text \<open>
  A service on Raft restarts. Let the persister the harness keeps for server \<open>i\<close> of a
  replicated or sharded key/value service be the one its Raft peer, after any run of critical
  sections, has written to. Shutting the server down and starting it again hands the peer's term,
  vote, log and snapshot index to the peer of the new server, and leaves the other servers alone.
\<close>

theorem service_restarts:
  assumes "mks = StartKVServer False mx \<or> mks = StartServerShardGrp False mx" and "i < n" and "length names = n"
    and "peer_step\<^sup>*\<^sup>* (newRaft n i MakePersister) rf" and "saved (gsrvs sg ! i) = Some (persister rf)"
    and "ShutdownServer itoa i (net, sg) = Inr (net1, sg1)" and "StartServer itoa mks names obj i (net1, sg1) = Inr (net2, sg2)"
  shows "\<exists>rf'. peerOf (svcs (gsrvs sg2 ! i)) = Some rf' \<and> CurrentTerm rf' = CurrentTerm rf \<and> VotedFor rf' = VotedFor rf \<and>
    Log rf' = Log rf \<and> SnapshotIndex rf' = SnapshotIndex rf \<and> saved (gsrvs sg2 ! i) = Some (persister rf) \<and>
    (\<forall>j < N sg. j \<noteq> i \<longrightarrow> gsrvs sg2 ! j = gsrvs sg ! j)"
  using assms(1)
proof
  assume "mks = StartKVServer False mx"
  from kvraft.restart_recovers [OF assms(2-6) assms(7) [unfolded this]] show ?thesis .
next
  assume "mks = StartServerShardGrp False mx"
  from shardgrp.restart_recovers [OF assms(2-6) assms(7) [unfolded this]] show ?thesis .
qed

theorem service_restarts_witness:
  "\<exists>(rf :: nat raft) sg1 sg2 net1 net2 rf'. peer_step\<^sup>*\<^sup>* (newRaft 3 0 MakePersister) rf \<and> CurrentTerm rf = 1 \<and>
     ShutdownServer (\<lambda>_. []) 0 (MakeNetwork, ex_servers (persister rf)) = Inr (net1, sg1) \<and>
     StartServer (\<lambda>_. []) (StartKVServer False (-1)) [10, 11, 12] 0 0 (net1, sg1) = Inr (net2, sg2) \<and>
     peerOf (svcs (gsrvs sg2 ! 0)) = Some rf' \<and> CurrentTerm rf' = 1 \<and> VotedFor rf' = 0"
proof -
  obtain rf net1 rf1 and sg1 :: "(nat, nat, nat isvc) ServerGrp"
    where ex: "peer_step\<^sup>*\<^sup>* (newRaft 3 0 MakePersister) rf" "CurrentTerm rf = 1" "VotedFor rf = 0" "snapshot (persister rf) = []"
      "ShutdownServer (\<lambda>_. []) 0 (MakeNetwork, ex_servers (persister rf)) = Inr (net1, sg1)" "ends net1 = []"
      "Make 3 0 (persister rf) = Inr rf1" by (rule ex_shutdown)
  let ?mks = "StartKVServer False (-1) :: (nat, nat, nat isvc) starter"
  have "\<exists>s2. StartServer (\<lambda>_. []) ?mks [10, 11, 12] 0 0 (net1, sg1) = Inr s2"
    using ShutdownServer_law [OF ex(5)] ex(4,6,7)
    by (simp add: StartServer_def startServer_def makeServer_def MakeEnd_def Connect_def StartKVServer_def MakeRSM_def
        shutdownServer_def ex_servers_def N_def Let_def numeral_3_eq_3)
  then obtain net2 sg2 where start: "StartServer (\<lambda>_. []) ?mks [10, 11, 12] 0 0 (net1, sg1) = Inr (net2, sg2)" by auto
  have "saved (gsrvs (ex_servers (persister rf)) ! 0) = Some (persister rf)" by (simp add: ex_servers_def)
  from service_restarts [OF disjI1, OF refl _ _ ex(1) this ex(5) start] ex(1,2,3,5) start show ?thesis by fastforce
qed

subsection \<open>The types that are sent\<close>

lemma checkItems_step:
  "checkItems \<Gamma> [] st = Some st"
  "checkItems \<Gamma> ((f, t) # rest) st =
     Option.bind (if t \<in> checked (complain f st) then Some (complain f st)
                  else checkItems \<Gamma> (inside \<Gamma> t) ((complain f st)\<lparr>checked := insert t (checked (complain f st))\<rparr>))
       (checkItems \<Gamma> rest)"
  by (simp_all add: checkItems.simps [of \<Gamma> "[]"] checkItems.simps [of \<Gamma> "(f, t) # rest"] Let_def)

lemma sent_kinds [simp]: "kindOf sentTypes 0 = KStruct []" "kindOf sentTypes 1 = KStruct [(''Key'', 6), (''Value'', 6), (''Version'', 6)]"
  "kindOf sentTypes (Suc 0) = KStruct [(''Key'', 6), (''Value'', 6), (''Version'', 6)]"
  "kindOf sentTypes 2 = KStruct [(''Key'', 6)]" "kindOf sentTypes 3 = KStruct [(''Shard'', 6), (''Num'', 6)]"
  "kindOf sentTypes 4 = KStruct [(''Shard'', 6), (''State'', 7), (''Num'', 6)]" "kindOf sentTypes 5 = KStruct [(''Shard'', 6), (''Num'', 6)]"
  "kindOf sentTypes 6 = KOther" "kindOf sentTypes 7 = KElem 6"
  by (simp_all add: kindOf_def sentTypes_def)

text \<open>
  The types of a service are sent whole: registering them on a fresh wrapper ends and finds no field
  whose name is in lower case, which the encoder would leave out.
\<close>

theorem registrations_clean:
  "kvraft_registers \<lparr>errorCount = 0, checked = {}, warned = []\<rparr> = Some (Inr \<lparr>errorCount = 0, checked = {0, 1, 2, 6}, warned = []\<rparr>)"
  "shardgrp_registers \<lparr>errorCount = 0, checked = {}, warned = []\<rparr> = Some (Inr \<lparr>errorCount = 0, checked = {0, 1, 2, 3, 4, 5, 6, 7}, warned = []\<rparr>)"
  by (simp_all add: kvraft_registers_def shardgrp_registers_def Register_def checkValue_def checkType_def checkItems_step
      complain_def upperField_def inside_def) auto

end
