(* ===== verification/Tester_Annotation.thy ===== *)
theory Tester_Annotation
  imports Go_Prelude "HOL-Library.AList"
begin

text \<open>
  The time line of a test (\<open>src/tester1/annotation.go\<close>): points, intervals and continuous annotations,
  and what the harness writes about checks, partitions and crashes.

  The two global variables of the file are one state that the operations take and return; a nil
  \<open>finfo\<close> is \<open>None\<close>, and using it is the stop \<open>NilDeref\<close>. The time an operation reads from the clock is
  its argument \<open>t\<close>. The map of continuous annotations is an association list with different keys;
  its order is the order in which \<open>finalize\<close> goes over the map. An end that is not set is 0, as for
  the struct of the drawing library. Decimal numerals (\<open>%d\<close> and \<open>%v\<close>) are the parameter \<open>itoa\<close>.
  Drawing, signals and the names of files are left out.
\<close>

subsection \<open>State\<close>

record PAnnotation =
  aTag :: string
  aStart :: int
  aEnd :: int
  aDescription :: string
  aDetails :: string
  aBackgroundColor :: string

record Continuous =
  cstart :: int
  cdesp :: string
  cdetails :: string
  cbgcolor :: string

record Annotation =
  annotations :: "PAnnotation list"
  continuous :: "(string \<times> Continuous) list"
  finalized :: bool

record CheckerBegin =
  ckTs :: int
  ckDetails :: string

record FrameworkInfo =
  nservers :: nat
  fiConnected :: "bool list"
  fiCrashed :: "bool list"
  ckbegin :: CheckerBegin

record timeline =
  annotation :: Annotation
  finfo :: "FrameworkInfo option"

definition COLOR_INFO :: string where "COLOR_INFO = ''#FAFAFA''"
definition COLOR_NEUTRAL :: string where "COLOR_NEUTRAL = ''#FFECB3''"
definition COLOR_SUCCESS :: string where "COLOR_SUCCESS = ''#C8E6C9''"
definition COLOR_FAILURE :: string where "COLOR_FAILURE = ''#FFCDD2''"
definition COLOR_FAULT :: string where "COLOR_FAULT = ''#B3E5FC''"
definition COLOR_USER :: string where "COLOR_USER = ''#FFF176''"

definition TAG_CHECKER :: string where "TAG_CHECKER = ''$ Checker''"
definition TAG_PARTITION :: string where "TAG_PARTITION = ''$ Failure''"
definition TAG_INFO :: string where "TAG_INFO = ''$ Test Info''"

lemma TAG_distinct [simp]: "TAG_CHECKER \<noteq> TAG_PARTITION" "TAG_INFO \<noteq> TAG_PARTITION"
  by (simp_all add: TAG_CHECKER_def TAG_PARTITION_def TAG_INFO_def)

definition mkAnnotation :: Annotation where
  "mkAnnotation = \<lparr>annotations = [], continuous = [], finalized = False\<rparr>"

definition mkFrameworkInfo :: "nat \<Rightarrow> FrameworkInfo" where
  "mkFrameworkInfo n = \<lparr>nservers = n, fiConnected = replicate n True, fiCrashed = replicate n False,
     ckbegin = \<lparr>ckTs = 0, ckDetails = []\<rparr>\<rparr>"

subsection \<open>Annotations\<close>

definition addAnnotation :: "string \<Rightarrow> int \<Rightarrow> int \<Rightarrow> string \<Rightarrow> string \<Rightarrow> string \<Rightarrow> Annotation \<Rightarrow> Annotation" where
  \<comment> \<open>\<open>an.annotations = append(an.annotations, a)\<close>\<close>
  "addAnnotation tag s e desp details bg an = an\<lparr>annotations := annotations an @
     [\<lparr>aTag = tag, aStart = s, aEnd = e, aDescription = desp, aDetails = details, aBackgroundColor = bg\<rparr>]\<rparr>"

definition annotatePointColor :: "int \<Rightarrow> string \<Rightarrow> string \<Rightarrow> string \<Rightarrow> string \<Rightarrow> Annotation \<Rightarrow> Annotation" where
  "annotatePointColor t tag desp details bg = addAnnotation tag t 0 desp details bg"

definition annotateIntervalColor :: "int \<Rightarrow> string \<Rightarrow> int \<Rightarrow> string \<Rightarrow> string \<Rightarrow> string \<Rightarrow> Annotation \<Rightarrow> Annotation" where
  "annotateIntervalColor t tag s desp details bg = addAnnotation tag s t desp details bg"

definition annotateContinuousColor :: "int \<Rightarrow> string \<Rightarrow> string \<Rightarrow> string \<Rightarrow> string \<Rightarrow> Annotation \<Rightarrow> Annotation" where
  "annotateContinuousColor t tag desp details bg an =
     (let new = \<lparr>cstart = t, cdesp = desp, cdetails = details, cbgcolor = bg\<rparr> in
      case map_of (continuous an) tag of
        None \<Rightarrow> an\<lparr>continuous := AList.update tag new (continuous an)\<rparr>
      | Some cont \<Rightarrow>
          (addAnnotation tag (cstart cont) t (cdesp cont) (cdetails cont) (cbgcolor cont) an)
            \<lparr>continuous := AList.update tag new (continuous an)\<rparr>)"

definition annotateContinuousEnd :: "int \<Rightarrow> string \<Rightarrow> Annotation \<Rightarrow> Annotation" where
  \<comment> \<open>without an annotation to end, \<open>cont\<close> is the zero value and the code goes on\<close>
  "annotateContinuousEnd t tag an =
     (let cont = (case map_of (continuous an) tag of
                    None \<Rightarrow> \<lparr>cstart = 0, cdesp = [], cdetails = [], cbgcolor = []\<rparr>
                  | Some cont \<Rightarrow> cont)
      in (addAnnotation tag (cstart cont) t (cdesp cont) (cdetails cont) (cbgcolor cont) an)
           \<lparr>continuous := AList.delete tag (continuous an)\<rparr>)"

definition finalize :: "int \<Rightarrow> Annotation \<Rightarrow> PAnnotation list \<times> Annotation" where
  "finalize t an =
     (annotations an @ map (\<lambda>(tag, cont). \<lparr>aTag = tag, aStart = cstart cont, aEnd = t, aDescription = cdesp cont,
         aDetails = cdetails cont, aBackgroundColor = cbgcolor cont\<rparr>) (continuous an),
      an\<lparr>finalized := True\<rparr>)"

definition clear :: "Annotation \<Rightarrow> Annotation" where
  "clear an = an\<lparr>annotations := [], continuous := [], finalized := False\<rparr>"

definition endAnnotation :: "int \<Rightarrow> string \<Rightarrow> PAnnotation" where
  "endAnnotation t text = \<lparr>aTag = TAG_INFO, aStart = t, aEnd = 0, aDescription = text, aDetails = text,
     aBackgroundColor = COLOR_INFO\<rparr>"

definition cleanup :: "int \<Rightarrow> string \<Rightarrow> bool \<Rightarrow> string \<Rightarrow> bool \<Rightarrow> Annotation \<Rightarrow> PAnnotation list option \<times> Annotation" where
  \<comment> \<open>\<open>vis\<close> is \<open>VIS_ENABLE\<close>, and \<open>opens\<close> says whether the file can be opened; the first result is what is drawn\<close>
  "cleanup t vis failed text opens an =
     (if vis = ''never'' \<or> (\<not> failed \<and> vis \<noteq> ''always'') \<or> finalized an then (None, clear an)
      else let (x, an1) = finalize t an in
           if x = [] then (None, an1)
           else if \<not> opens then (None, an1) else (Some (x @ [endAnnotation t text]), an1))"

definition captureSignal :: "int \<Rightarrow> string \<Rightarrow> bool \<Rightarrow> Annotation \<Rightarrow> PAnnotation list option \<times> Annotation \<times> unit go" where
  \<comment> \<open>the goroutine, when an interrupt arrives: what is drawn, and that the process exits\<close>
  "captureSignal t vis opens an = (case cleanup t vis True ''interrupted'' opens an of (x, an1) \<Rightarrow> (x, an1, Inl LogFatal))"

lemma interrupt_draws:
  assumes "\<not> finalized an" and "vis \<noteq> ''never''" and "annotations an \<noteq> []"
  shows "\<exists>x an1. captureSignal t vis True an = (Some (annotations an @ x @ [endAnnotation t ''interrupted'']), an1, Inl LogFatal) \<and> finalized an1"
  using assms by (simp add: captureSignal_def cleanup_def finalize_def)

definition FinalizeAnnotations :: "int \<Rightarrow> string \<Rightarrow> timeline \<Rightarrow> PAnnotation list \<times> timeline" where
  "FinalizeAnnotations t text s =
     (let (x, an) = finalize t (annotation s) in (x @ [endAnnotation t text], s\<lparr>annotation := an\<rparr>))"

definition SetAnnotationFinalized :: "timeline \<Rightarrow> timeline" where
  "SetAnnotationFinalized s = s\<lparr>annotation := (annotation s)\<lparr>finalized := True\<rparr>\<rparr>"

definition withAnnotation :: "(Annotation \<Rightarrow> Annotation) \<Rightarrow> timeline \<Rightarrow> timeline" where
  "withAnnotation f s = s\<lparr>annotation := f (annotation s)\<rparr>"

definition AnnotatePointColor :: "int \<Rightarrow> string \<Rightarrow> string \<Rightarrow> string \<Rightarrow> string \<Rightarrow> timeline \<Rightarrow> timeline" where
  "AnnotatePointColor t tag desp details bg = withAnnotation (annotatePointColor t tag desp details bg)"

definition AnnotateIntervalColor :: "int \<Rightarrow> string \<Rightarrow> int \<Rightarrow> string \<Rightarrow> string \<Rightarrow> string \<Rightarrow> timeline \<Rightarrow> timeline" where
  "AnnotateIntervalColor t tag s desp details bg = withAnnotation (annotateIntervalColor t tag s desp details bg)"

definition AnnotateContinuousColor :: "int \<Rightarrow> string \<Rightarrow> string \<Rightarrow> string \<Rightarrow> string \<Rightarrow> timeline \<Rightarrow> timeline" where
  "AnnotateContinuousColor t tag desp details bg = withAnnotation (annotateContinuousColor t tag desp details bg)"

definition AnnotateContinuousEnd :: "int \<Rightarrow> string \<Rightarrow> timeline \<Rightarrow> timeline" where
  "AnnotateContinuousEnd t tag = withAnnotation (annotateContinuousEnd t tag)"

definition Annotate :: "int \<Rightarrow> string \<Rightarrow> string \<Rightarrow> string \<Rightarrow> timeline \<Rightarrow> timeline" where
  "Annotate t tag desp details = AnnotatePointColor t tag desp details COLOR_USER"

definition AnnotateInterval :: "int \<Rightarrow> string \<Rightarrow> int \<Rightarrow> string \<Rightarrow> string \<Rightarrow> timeline \<Rightarrow> timeline" where
  "AnnotateInterval t tag s desp details = AnnotateIntervalColor t tag s desp details COLOR_USER"

definition AnnotateContinuous :: "int \<Rightarrow> string \<Rightarrow> string \<Rightarrow> string \<Rightarrow> timeline \<Rightarrow> timeline" where
  "AnnotateContinuous t tag desp details = AnnotateContinuousColor t tag desp details COLOR_USER"

definition AnnotateInfo :: "int \<Rightarrow> string \<Rightarrow> string \<Rightarrow> timeline \<Rightarrow> timeline" where
  "AnnotateInfo t desp details = AnnotatePointColor t TAG_INFO desp details COLOR_INFO"

definition AnnotateInfoInterval :: "int \<Rightarrow> int \<Rightarrow> string \<Rightarrow> string \<Rightarrow> timeline \<Rightarrow> timeline" where
  "AnnotateInfoInterval t s desp details = AnnotateIntervalColor t TAG_INFO s desp details COLOR_INFO"

subsection \<open>The test framework\<close>

definition AnnotateTest :: "(int \<Rightarrow> string) \<Rightarrow> int \<Rightarrow> string \<Rightarrow> nat \<Rightarrow> timeline \<Rightarrow> timeline" where
  "AnnotateTest itoa t desp n s =
     (let details = desp @ '' ('' @ itoa (int n) @ '' servers)'' in
      AnnotateInfo t details details (s\<lparr>finfo := Some (mkFrameworkInfo n), annotation := clear (annotation s)\<rparr>))"

definition withFinfo :: "(FrameworkInfo \<Rightarrow> timeline go) \<Rightarrow> timeline \<Rightarrow> timeline go" where
  \<comment> \<open>\<open>finfo.mu.Lock()\<close>\<close>
  "withFinfo f s = (case finfo s of None \<Rightarrow> Inl NilDeref | Some fi \<Rightarrow> f fi)"

definition AnnotateCheckerBegin :: "int \<Rightarrow> string \<Rightarrow> timeline \<Rightarrow> timeline go" where
  "AnnotateCheckerBegin t details s =
     withFinfo (\<lambda>fi. Inr (s\<lparr>finfo := Some (fi\<lparr>ckbegin := \<lparr>ckTs = t, ckDetails = details\<rparr>\<rparr>)\<rparr>)) s"

definition AnnotateCheckerEnd :: "int \<Rightarrow> string \<Rightarrow> string \<Rightarrow> string \<Rightarrow> timeline \<Rightarrow> timeline go" where
  \<comment> \<open>the assignment at the end changes the local copy of \<open>finfo.ckbegin\<close> only\<close>
  "AnnotateCheckerEnd t desp details color s = withFinfo (\<lambda>fi.
     let ck = ckbegin fi in
     if ckTs ck = 0 then Inr (withAnnotation (annotatePointColor t TAG_CHECKER desp details color) s)
     else Inr (withAnnotation (annotateIntervalColor t TAG_CHECKER (ckTs ck) desp (ckDetails ck @ '': '' @ details) color) s)) s"

definition AnnotateCheckerSuccess :: "int \<Rightarrow> string \<Rightarrow> string \<Rightarrow> timeline \<Rightarrow> timeline go" where
  "AnnotateCheckerSuccess t desp details = AnnotateCheckerEnd t desp details COLOR_SUCCESS"

definition AnnotateCheckerFailure :: "int \<Rightarrow> string \<Rightarrow> string \<Rightarrow> timeline \<Rightarrow> timeline go" where
  "AnnotateCheckerFailure t desp details = AnnotateCheckerEnd t desp details COLOR_FAILURE"

definition isFinalized :: "Annotation \<Rightarrow> bool" where
  "isFinalized an = finalized an"

definition GetAnnotationFinalized :: "timeline \<Rightarrow> bool" where
  "GetAnnotationFinalized s = isFinalized (annotation s)"

definition AnnotateCheckerFailureBeforeExit ::
  "int \<Rightarrow> string \<Rightarrow> bool \<Rightarrow> string \<Rightarrow> string \<Rightarrow> timeline \<Rightarrow> (PAnnotation list option \<times> timeline) go" where
  \<comment> \<open>what is drawn, and the time line; \<open>vis\<close> and \<open>opens\<close> as for \<open>cleanup\<close>\<close>
  "AnnotateCheckerFailureBeforeExit t vis opens desp details s =
     go_bind (AnnotateCheckerFailure t desp details s) (\<lambda>s1.
       case cleanup t vis True ''test failed'' opens (annotation s1) of (x, an) \<Rightarrow> Inr (x, s1\<lparr>annotation := an\<rparr>))"

definition AnnotateCheckerNeutral :: "int \<Rightarrow> string \<Rightarrow> string \<Rightarrow> timeline \<Rightarrow> timeline go" where
  "AnnotateCheckerNeutral t desp details = AnnotateCheckerEnd t desp details COLOR_NEUTRAL"

fun joinWith :: "string \<Rightarrow> string list \<Rightarrow> string" where
  "joinWith sep [] = []"
| "joinWith sep [x] = x"
| "joinWith sep (x # xs) = x @ sep @ joinWith sep xs"

definition fmtInts :: "(int \<Rightarrow> string) \<Rightarrow> nat list \<Rightarrow> string" where
  \<comment> \<open>\<open>%v\<close> of a slice of integers\<close>
  "fmtInts itoa xs = ''['' @ joinWith '' '' (map (\<lambda>i. itoa (int i)) xs) @ '']''"

definition noFault :: "FrameworkInfo \<Rightarrow> bool" where
  "noFault fi \<longleftrightarrow> replicate (nservers fi) True = fiConnected fi \<and> replicate (nservers fi) False = fiCrashed fi"

definition faultText :: "(int \<Rightarrow> string) \<Rightarrow> FrameworkInfo \<Rightarrow> string" where
  \<comment> \<open>the loop over \<open>finfo.connected\<close>; both slices are as long as the number of servers\<close>
  "faultText itoa fi =
     (let ids = [0..<length (fiConnected fi)];
          crashes = filter (\<lambda>i. fiCrashed fi ! i) ids;
          conn = filter (\<lambda>i. \<not> fiCrashed fi ! i \<and> fiConnected fi ! i) ids;
          alone = filter (\<lambda>i. \<not> fiCrashed fi ! i \<and> \<not> fiConnected fi ! i) ids
      in ''partition = '' @ concat (map (\<lambda>i. ''['' @ itoa (int i) @ ''] '') alone) @
         (if conn \<noteq> [] then fmtInts itoa conn else []) @
         (if crashes \<noteq> [] then '' / crash = '' @ fmtInts itoa crashes else []))"

definition annotateFault :: "(int \<Rightarrow> string) \<Rightarrow> int \<Rightarrow> FrameworkInfo \<Rightarrow> Annotation \<Rightarrow> Annotation" where
  "annotateFault itoa t fi an =
     (if noFault fi then annotateContinuousEnd t TAG_PARTITION an
      else annotateContinuousColor t TAG_PARTITION (faultText itoa fi) (faultText itoa fi) COLOR_FAULT an)"

definition setFault :: "(int \<Rightarrow> string) \<Rightarrow> int \<Rightarrow> FrameworkInfo \<Rightarrow> timeline \<Rightarrow> timeline" where
  "setFault itoa t fi s = s\<lparr>finfo := Some fi, annotation := annotateFault itoa t fi (annotation s)\<rparr>"

definition AnnotateConnection :: "(int \<Rightarrow> string) \<Rightarrow> int \<Rightarrow> bool list \<Rightarrow> timeline \<Rightarrow> timeline go" where
  \<comment> \<open>\<open>copy\<close> copies as many flags as both slices have\<close>
  "AnnotateConnection itoa t connection s = withFinfo (\<lambda>fi.
     if fiConnected fi = connection then Inr s
     else Inr (setFault itoa t (fi\<lparr>fiConnected := take (length (fiConnected fi)) connection @
                                     drop (length connection) (fiConnected fi)\<rparr>) s)) s"

definition AnnotateTwoPartitions :: "(int \<Rightarrow> string) \<Rightarrow> int \<Rightarrow> nat list \<Rightarrow> nat list \<Rightarrow> timeline \<Rightarrow> timeline" where
  "AnnotateTwoPartitions itoa t p1 p2 =
     (let text = ''partition = '' @ fmtInts itoa p1 @ '' '' @ fmtInts itoa p2
      in withAnnotation (annotateContinuousColor t TAG_PARTITION text text COLOR_FAULT))"

definition AnnotateClearFailure :: "int \<Rightarrow> timeline \<Rightarrow> timeline go" where
  "AnnotateClearFailure t s = withFinfo (\<lambda>fi.
     Inr (s\<lparr>finfo := Some (fi\<lparr>fiCrashed := map (\<lambda>_. False) (fiCrashed fi), fiConnected := map (\<lambda>_. True) (fiConnected fi)\<rparr>),
            annotation := annotateContinuousEnd t TAG_PARTITION (annotation s)\<rparr>)) s"

definition setCrashed :: "bool \<Rightarrow> nat list \<Rightarrow> bool \<times> bool list \<Rightarrow> (bool \<times> bool list) go" where
  \<comment> \<open>the loop over \<open>servers\<close> with its variable \<open>changed\<close>\<close>
  "setCrashed v = go_each (\<lambda>id (changed, cr).
     if id < length cr then Inr (changed \<or> cr ! id \<noteq> v, cr[id := v]) else Inl IndexOutOfRange)"

definition AnnotateCrash :: "bool \<Rightarrow> (int \<Rightarrow> string) \<Rightarrow> int \<Rightarrow> nat list \<Rightarrow> timeline \<Rightarrow> timeline go" where
  "AnnotateCrash v itoa t servers s = withFinfo (\<lambda>fi.
     go_bind (setCrashed v servers (False, fiCrashed fi)) (\<lambda>(changed, cr).
       let fi1 = fi\<lparr>fiCrashed := cr\<rparr> in
       if \<not> changed then Inr (s\<lparr>finfo := Some fi1\<rparr>) else Inr (setFault itoa t fi1 s))) s"

definition AnnotateShutdown :: "(int \<Rightarrow> string) \<Rightarrow> int \<Rightarrow> nat list \<Rightarrow> timeline \<Rightarrow> timeline go" where
  "AnnotateShutdown = AnnotateCrash True"

definition AnnotateRestart :: "(int \<Rightarrow> string) \<Rightarrow> int \<Rightarrow> nat list \<Rightarrow> timeline \<Rightarrow> timeline go" where
  "AnnotateRestart = AnnotateCrash False"

definition AnnotateShutdownAll :: "(int \<Rightarrow> string) \<Rightarrow> int \<Rightarrow> timeline \<Rightarrow> timeline go" where
  "AnnotateShutdownAll itoa t s = withFinfo (\<lambda>fi. AnnotateShutdown itoa t [0..<nservers fi] s) s"

definition AnnotateRestartAll :: "(int \<Rightarrow> string) \<Rightarrow> int \<Rightarrow> timeline \<Rightarrow> timeline go" where
  "AnnotateRestartAll itoa t s = withFinfo (\<lambda>fi. AnnotateRestart itoa t [0..<nservers fi] s) s"

subsection \<open>The line of failures\<close>

text \<open>
  What may happen to the time line between two calls of \<open>AnnotateTest\<close> when \<open>Partition\<close> is not used:
  time passes, the harness reports connections, crashes and restarts and clears a failure, and
  checkers and users annotate under tags of their own.
\<close>

inductive fault_step :: "(int \<Rightarrow> string) \<Rightarrow> int \<times> timeline \<Rightarrow> int \<times> timeline \<Rightarrow> bool" for itoa where
  tick: "t \<le> t' \<Longrightarrow> fault_step itoa (t, s) (t', s)"
| connection: "AnnotateConnection itoa t conn s = Inr s' \<Longrightarrow> finfo s = Some fi \<Longrightarrow> length conn = nservers fi \<Longrightarrow>
    fault_step itoa (t, s) (t, s')"
| shutdown: "AnnotateShutdown itoa t ids s = Inr s' \<Longrightarrow> fault_step itoa (t, s) (t, s')"
| restart: "AnnotateRestart itoa t ids s = Inr s' \<Longrightarrow> fault_step itoa (t, s) (t, s')"
| clear_failure: "AnnotateClearFailure t s = Inr s' \<Longrightarrow> finfo s = Some fi \<Longrightarrow> \<not> noFault fi \<Longrightarrow> fault_step itoa (t, s) (t, s')"
| checker_begin: "AnnotateCheckerBegin t details s = Inr s' \<Longrightarrow> fault_step itoa (t, s) (t, s')"
| checker_end: "AnnotateCheckerEnd t desp details color s = Inr s' \<Longrightarrow> fault_step itoa (t, s) (t, s')"
| point: "tag \<noteq> TAG_PARTITION \<Longrightarrow> fault_step itoa (t, s) (t, withAnnotation (annotatePointColor t tag desp details bg) s)"
| interval: "tag \<noteq> TAG_PARTITION \<Longrightarrow> fault_step itoa (t, s) (t, withAnnotation (annotateIntervalColor t tag u desp details bg) s)"
| user_continuous: "tag \<noteq> TAG_PARTITION \<Longrightarrow> fault_step itoa (t, s) (t, withAnnotation (annotateContinuousColor t tag desp details bg) s)"
| user_continuous_end: "tag \<noteq> TAG_PARTITION \<Longrightarrow> fault_step itoa (t, s) (t, withAnnotation (annotateContinuousEnd t tag) s)"

definition faults :: "PAnnotation list \<Rightarrow> PAnnotation list" where
  "faults = filter (\<lambda>a. aTag a = TAG_PARTITION)"

definition in_order :: "int \<Rightarrow> PAnnotation list \<Rightarrow> bool" where
  \<comment> \<open>intervals one after the other, none of them later than \<open>t\<close>\<close>
  "in_order t as \<longleftrightarrow> sorted_wrt (\<lambda>a b. aEnd a \<le> aStart b) as \<and> (\<forall>a \<in> set as. aStart a \<le> aEnd a \<and> aEnd a \<le> t)"

lemma in_order_mono: "in_order t as \<Longrightarrow> t \<le> t' \<Longrightarrow> in_order t' as"
  by (auto simp: in_order_def)

lemma in_order_snoc: "in_order (aStart a) as \<Longrightarrow> aStart a \<le> aEnd a \<Longrightarrow> aEnd a \<le> t \<Longrightarrow> in_order t (as @ [a])"
  by (fastforce simp: in_order_def sorted_wrt_append)

definition ongoing :: "Annotation \<Rightarrow> string \<Rightarrow> Continuous option" where
  "ongoing an tag = map_of (continuous an) tag"

definition line_inv :: "(int \<Rightarrow> string) \<Rightarrow> int \<Rightarrow> FrameworkInfo \<Rightarrow> Annotation \<Rightarrow> bool" where
  \<comment> \<open>a failure is open exactly when there is one, and the closed ones are in order before it\<close>
  "line_inv itoa t fi an \<longleftrightarrow> distinct (map fst (continuous an)) \<and>
     (case ongoing an TAG_PARTITION of
        None \<Rightarrow> noFault fi \<and> in_order t (faults (annotations an))
      | Some c \<Rightarrow> \<not> noFault fi \<and> cdesp c = faultText itoa fi \<and> cstart c \<le> t \<and> in_order (cstart c) (faults (annotations an)))"

definition fault_inv :: "(int \<Rightarrow> string) \<Rightarrow> int \<times> timeline \<Rightarrow> bool" where
  "fault_inv itoa = (\<lambda>(t, s). \<exists>fi. finfo s = Some fi \<and> length (fiConnected fi) = nservers fi \<and> length (fiCrashed fi) = nservers fi \<and>
     line_inv itoa t fi (annotation s))"

lemma faults_simps [simp]:
  "faults [] = []" "faults (as @ bs) = faults as @ faults bs" "faults [a] = (if aTag a = TAG_PARTITION then [a] else [])"
  by (simp_all add: faults_def)

lemma addAnnotation_simps [simp]:
  "ongoing (addAnnotation tag s e d x b an) = ongoing an"
  "continuous (addAnnotation tag s e d x b an) = continuous an"
  "annotations (addAnnotation tag s e d x b an) = annotations an @
     [\<lparr>aTag = tag, aStart = s, aEnd = e, aDescription = d, aDetails = x, aBackgroundColor = b\<rparr>]"
  by (simp_all add: addAnnotation_def ongoing_def fun_eq_iff)

lemma continuous_effect:
  "ongoing (annotateContinuousColor t tag d x b an) k =
     (if k = tag then Some \<lparr>cstart = t, cdesp = d, cdetails = x, cbgcolor = b\<rparr> else ongoing an k)"
  "ongoing (annotateContinuousEnd t tag an) k = (if k = tag then None else ongoing an k)"
  "distinct (map fst (continuous an)) \<Longrightarrow> distinct (map fst (continuous (annotateContinuousColor t tag d x b an)))"
  "distinct (map fst (continuous an)) \<Longrightarrow> distinct (map fst (continuous (annotateContinuousEnd t tag an)))"
  by (simp_all add: ongoing_def annotateContinuousColor_def annotateContinuousEnd_def Let_def delete_conv' update_conv'
      distinct_delete distinct_update split: option.splits)

lemma faults_effect:
  "faults (annotations (annotateContinuousColor t tag d x b an)) =
     (case ongoing an tag of Some c \<Rightarrow>
        if tag = TAG_PARTITION
        then faults (annotations an) @ [\<lparr>aTag = tag, aStart = cstart c, aEnd = t, aDescription = cdesp c, aDetails = cdetails c,
               aBackgroundColor = cbgcolor c\<rparr>]
        else faults (annotations an)
      | None \<Rightarrow> faults (annotations an))"
  "ongoing an tag = Some c \<Longrightarrow> faults (annotations (annotateContinuousEnd t tag an)) =
     (if tag = TAG_PARTITION
      then faults (annotations an) @ [\<lparr>aTag = tag, aStart = cstart c, aEnd = t, aDescription = cdesp c, aDetails = cdetails c,
             aBackgroundColor = cbgcolor c\<rparr>]
      else faults (annotations an))"
  "tag \<noteq> TAG_PARTITION \<Longrightarrow> faults (annotations (annotateContinuousEnd t tag an)) = faults (annotations an)"
  "tag \<noteq> TAG_PARTITION \<Longrightarrow> faults (annotations (annotateContinuousColor t tag d x b an)) = faults (annotations an)"
  by (simp_all add: ongoing_def annotateContinuousColor_def annotateContinuousEnd_def Let_def split: option.splits)

lemma annotateFault_inv:
  assumes "line_inv itoa t fi an" and "noFault fi' \<Longrightarrow> \<not> noFault fi"
  shows "line_inv itoa t fi' (annotateFault itoa t fi' an)"
proof (cases "ongoing an TAG_PARTITION")
  case None
  then have n: "\<not> noFault fi'" "in_order t (faults (annotations an))" "distinct (map fst (continuous an))"
    using assms by (auto simp: line_inv_def)
  then show ?thesis using None by (simp add: line_inv_def annotateFault_def continuous_effect faults_effect)
next
  case (Some c)
  then have c: "cstart c \<le> t" "in_order (cstart c) (faults (annotations an))" "distinct (map fst (continuous an))"
    using assms(1) by (auto simp: line_inv_def)
  have "in_order t (faults (annotations an) @ [\<lparr>aTag = TAG_PARTITION, aStart = cstart c, aEnd = t, aDescription = cdesp c,
      aDetails = cdetails c, aBackgroundColor = cbgcolor c\<rparr>])"
    using c by (intro in_order_snoc) auto
  then show ?thesis using Some c(3)
    by (simp add: line_inv_def annotateFault_def continuous_effect faults_effect)
qed

lemma other_tag_inv:
  assumes "line_inv itoa t fi an" and "tag \<noteq> TAG_PARTITION"
  shows "line_inv itoa t fi (annotatePointColor u tag desp details bg an)"
    "line_inv itoa t fi (annotateIntervalColor u tag w desp details bg an)"
    "line_inv itoa t fi (annotateContinuousColor u tag desp details bg an)"
    "line_inv itoa t fi (annotateContinuousEnd u tag an)"
  using assms by (simp_all add: line_inv_def annotatePointColor_def annotateIntervalColor_def continuous_effect faults_effect(3,4) cong: option.case_cong)

lemma setCrashed_law:
  assumes "setCrashed v ids (ch, cr) = Inr (ch', cr')"
  shows "length cr' = length cr \<and> (ch' \<longleftrightarrow> ch \<or> (\<exists>i \<in> set ids. i < length cr \<and> cr ! i \<noteq> v)) \<and> (\<forall>i \<in> set ids. cr' ! i = v) \<and>
    (\<forall>i. i \<notin> set ids \<longrightarrow> cr' ! i = cr ! i) \<and> (\<forall>i \<in> set ids. i < length cr)"
  using assms unfolding setCrashed_def
proof (induction ids arbitrary: ch cr)
  case (Cons i ids)
  then have i: "i < length cr" by (auto split: if_splits)
  note IH = Cons.IH [of "ch \<or> cr ! i \<noteq> v" "cr[i := v]"]
  have "length cr' = length (cr[i := v]) \<and> (ch' \<longleftrightarrow> (ch \<or> cr ! i \<noteq> v) \<or> (\<exists>j \<in> set ids. j < length (cr[i := v]) \<and> cr[i := v] ! j \<noteq> v)) \<and>
    (\<forall>j \<in> set ids. cr' ! j = v) \<and> (\<forall>j. j \<notin> set ids \<longrightarrow> cr' ! j = cr[i := v] ! j) \<and> (\<forall>j \<in> set ids. j < length (cr[i := v]))"
    using IH Cons.prems i by simp
  with i show ?case by (auto simp: nth_list_update split: if_splits)
qed simp

lemma noFault_nth:
  assumes "length (fiConnected fi) = nservers fi" "length (fiCrashed fi) = nservers fi"
  shows "noFault fi \<longleftrightarrow> (\<forall>i < nservers fi. fiConnected fi ! i \<and> \<not> fiCrashed fi ! i)"
  using assms by (auto simp: noFault_def list_eq_iff_nth_eq)

lemma AnnotateCrash_inv:
  assumes "fault_inv itoa (t, s)" and "AnnotateCrash v itoa t ids s = Inr s'"
  shows "fault_inv itoa (t, s')"
proof -
  obtain fi where fi: "finfo s = Some fi" "length (fiConnected fi) = nservers fi" "length (fiCrashed fi) = nservers fi"
    "line_inv itoa t fi (annotation s)" using assms(1) by (auto simp: fault_inv_def)
  obtain ch cr where set: "setCrashed v ids (False, fiCrashed fi) = Inr (ch, cr)"
    "s' = (if ch then setFault itoa t (fi\<lparr>fiCrashed := cr\<rparr>) s else s\<lparr>finfo := Some (fi\<lparr>fiCrashed := cr\<rparr>)\<rparr>)"
    using assms(2) fi(1) by (auto simp: AnnotateCrash_def withFinfo_def go_inv Let_def split: if_splits)
  note law = setCrashed_law [OF set(1)]
  let ?fi = "fi\<lparr>fiCrashed := cr\<rparr>"
  have len: "length cr = nservers fi" using law fi(3) by simp
  show ?thesis
  proof (cases ch)
    case True
    with law obtain i where i: "i < nservers fi" "fiCrashed fi ! i \<noteq> v" "cr ! i = v" using fi(3) by auto
    have nf: "noFault ?fi \<longleftrightarrow> (\<forall>i < nservers fi. fiConnected fi ! i \<and> \<not> cr ! i)"
      using noFault_nth [of ?fi] fi(2) len by simp
    have "\<not> noFault fi" if "noFault ?fi"
    proof (cases v)
      case True
      with nf i that show ?thesis by auto
    next
      case False
      with i show ?thesis unfolding noFault_nth [OF fi(2,3)] by auto
    qed
    from annotateFault_inv [OF fi(4) this] have "line_inv itoa t ?fi (annotateFault itoa t ?fi (annotation s))" .
    with True fi(2) len show ?thesis by (simp add: set(2) fault_inv_def setFault_def)
  next
    case False
    then have "cr ! i = fiCrashed fi ! i" for i using law by (cases "i \<in> set ids") auto
    then have "cr = fiCrashed fi" using law by (simp add: nth_equalityI)
    with False fi show ?thesis by (simp add: set(2) fault_inv_def)
  qed
qed

lemma line_inv_ckbegin [simp]: "line_inv itoa t (fi\<lparr>ckbegin := x\<rparr>) an = line_inv itoa t fi an"
  by (simp add: line_inv_def noFault_def faultText_def cong: option.case_cong)

lemma fault_step_inv:
  assumes "fault_step itoa x y" and "fault_inv itoa x"
  shows "fault_inv itoa y"
  using assms
proof (induction rule: fault_step.induct)
  case (tick t t' s)
  then show ?case using in_order_mono by (fastforce simp: fault_inv_def line_inv_def split: option.splits)
next
  case (connection t conn s s' fi)
  then have fi: "length (fiConnected fi) = nservers fi" "length (fiCrashed fi) = nservers fi" "line_inv itoa t fi (annotation s)"
    by (auto simp: fault_inv_def)
  let ?fi = "fi\<lparr>fiConnected := conn\<rparr>"
  show ?case
  proof (cases "fiConnected fi = conn")
    case True
    then show ?thesis using connection by (simp add: AnnotateConnection_def withFinfo_def)
  next
    case False
    then have s': "s' = setFault itoa t ?fi s" using connection fi(1) by (simp add: AnnotateConnection_def withFinfo_def)
    have "\<not> noFault fi" if "noFault ?fi" using that False by (auto simp: noFault_def)
    from annotateFault_inv [OF fi(3) this] show ?thesis using fi(1,2) connection(3) by (simp add: s' fault_inv_def setFault_def)
  qed
next
  case (clear_failure t s s' fi)
  then have fi: "length (fiConnected fi) = nservers fi" "length (fiCrashed fi) = nservers fi" "line_inv itoa t fi (annotation s)"
    by (auto simp: fault_inv_def)
  let ?fi = "fi\<lparr>fiCrashed := map (\<lambda>_. False) (fiCrashed fi), fiConnected := map (\<lambda>_. True) (fiConnected fi)\<rparr>"
  have "noFault ?fi" using fi(1,2) by (simp add: noFault_def map_replicate_const)
  moreover have "line_inv itoa t ?fi (annotateFault itoa t ?fi (annotation s))"
    using annotateFault_inv [OF fi(3)] clear_failure(3) by blast
  ultimately show ?case using clear_failure(1,2) fi(1,2)
    by (auto simp: AnnotateClearFailure_def withFinfo_def fault_inv_def annotateFault_def)
next
  case (checker_begin t details s s')
  then show ?case by (auto simp: fault_inv_def AnnotateCheckerBegin_def withFinfo_def)
next
  case (checker_end t desp details color s s')
  then show ?case using other_tag_inv [OF _ TAG_distinct(1)]
    by (auto simp: fault_inv_def AnnotateCheckerEnd_def withFinfo_def withAnnotation_def Let_def split: if_splits)
qed (auto simp: AnnotateShutdown_def AnnotateRestart_def intro: AnnotateCrash_inv,
     auto simp: fault_inv_def withAnnotation_def intro: other_tag_inv)

lemma AnnotateTest_inv: "fault_inv itoa (t, AnnotateTest itoa t desp n s)"
  by (simp add: fault_inv_def AnnotateTest_def AnnotateInfo_def AnnotatePointColor_def withAnnotation_def annotatePointColor_def clear_def
      mkFrameworkInfo_def line_inv_def noFault_def in_order_def ongoing_def Let_def)

lemma faults_filter_ongoing:
  assumes "distinct (map fst cs)"
  shows "filter (\<lambda>p. fst p = k) cs = (case map_of cs k of None \<Rightarrow> [] | Some c \<Rightarrow> [(k, c)])"
  using assms
proof (induction cs)
  case (Cons p cs)
  have "filter (\<lambda>q. fst q = fst p) cs = []" using Cons.prems by (simp add: filter_empty_conv) (metis image_eqI)
  with Cons show ?case by (cases p) auto
qed simp

text \<open>
  Property C35 (the line of failures). As long as \<open>Partition\<close> is not used, a failure is open on the
  time line exactly when some server is disconnected or crashed, its text is that of the current
  state, and the failures of the finished time line follow one another without overlap and end no
  later than the time it is finished. Clearing when there is no failure breaks this: it adds a
  failure without a text that reaches from time 0 up to now.
\<close>

theorem fault_timeline:
  assumes "(fault_step itoa)\<^sup>*\<^sup>* (t0, AnnotateTest itoa t0 desp n s0) (t, s)"
  shows "\<exists>fi. finfo s = Some fi \<and>
    (case ongoing (annotation s) TAG_PARTITION of
       None \<Rightarrow> \<forall>i < nservers fi. fiConnected fi ! i \<and> \<not> fiCrashed fi ! i
     | Some c \<Rightarrow> cdesp c = faultText itoa fi \<and> (\<exists>i < nservers fi. \<not> fiConnected fi ! i \<or> fiCrashed fi ! i)) \<and>
    in_order t (faults (fst (finalize t (annotation s)))) \<and>
    (noFault fi \<longrightarrow> (\<exists>s'. AnnotateClearFailure t s = Inr s' \<and> faults (annotations (annotation s')) =
       faults (annotations (annotation s)) @ [\<lparr>aTag = TAG_PARTITION, aStart = 0, aEnd = t, aDescription = [], aDetails = [], aBackgroundColor = []\<rparr>]))"
proof -
  have "fault_inv itoa (t, s)"
    using assms by (induction rule: rtranclp_induct) (auto intro: AnnotateTest_inv fault_step_inv)
  then obtain fi where fi: "finfo s = Some fi" "length (fiConnected fi) = nservers fi" "length (fiCrashed fi) = nservers fi"
    "line_inv itoa t fi (annotation s)" by (auto simp: fault_inv_def)
  let ?o = "ongoing (annotation s) TAG_PARTITION"
  let ?f = "\<lambda>(tag, cont). \<lparr>aTag = tag, aStart = cstart cont, aEnd = t, aDescription = cdesp cont, aDetails = cdetails cont, aBackgroundColor = cbgcolor cont\<rparr>"
  have "faults (map ?f cs) = map ?f (filter (\<lambda>p. fst p = TAG_PARTITION) cs)" for cs :: "(string \<times> Continuous) list"
    by (auto simp: faults_def filter_map comp_def split_def)
  then have fin: "faults (fst (finalize t (annotation s))) = faults (annotations (annotation s)) @
      (case ?o of None \<Rightarrow> [] | Some c \<Rightarrow> [?f (TAG_PARTITION, c)])"
    using faults_filter_ongoing [of "continuous (annotation s)" TAG_PARTITION, folded ongoing_def] fi(4)
    by (cases ?o) (simp_all add: finalize_def line_inv_def)
  have ord: "in_order t (faults (fst (finalize t (annotation s))))"
    using fi(4) in_order_snoc by (auto simp: fin line_inv_def split: option.splits)
  have cur: "case ?o of None \<Rightarrow> noFault fi | Some c \<Rightarrow> cdesp c = faultText itoa fi \<and> \<not> noFault fi"
    using fi(4) by (auto simp: line_inv_def split: option.splits)
  have "?o = None" if "noFault fi" using that cur by (auto split: option.splits)
  then have "\<exists>s'. AnnotateClearFailure t s = Inr s' \<and> faults (annotations (annotation s')) =
       faults (annotations (annotation s)) @ [\<lparr>aTag = TAG_PARTITION, aStart = 0, aEnd = t, aDescription = [], aDetails = [], aBackgroundColor = []\<rparr>]"
    if "noFault fi" using that fi(1) by (simp add: AnnotateClearFailure_def withFinfo_def annotateContinuousEnd_def ongoing_def)
  moreover have "case ?o of None \<Rightarrow> \<forall>i < nservers fi. fiConnected fi ! i \<and> \<not> fiCrashed fi ! i
     | Some c \<Rightarrow> cdesp c = faultText itoa fi \<and> (\<exists>i < nservers fi. \<not> fiConnected fi ! i \<or> fiCrashed fi ! i)"
    using cur unfolding noFault_nth [OF fi(2,3)] by (auto split: option.splits)
  ultimately show ?thesis using fi(1) ord by blast
qed

theorem fault_timeline_witness:
  "\<exists>s s' s''. AnnotateShutdown (\<lambda>_. ''1'') 20 [1] (AnnotateTest (\<lambda>_. ''1'') 10 ''t'' 3 \<lparr>annotation = mkAnnotation, finfo = None\<rparr>) = Inr s \<and>
     ongoing (annotation s) TAG_PARTITION \<noteq> None \<and> in_order 30 (faults (fst (finalize 30 (annotation s)))) \<and>
     AnnotateRestart (\<lambda>_. ''1'') 30 [1] s = Inr s' \<and> AnnotateClearFailure 40 s' = Inr s'' \<and>
     map (\<lambda>a. (aStart a, aEnd a)) (faults (annotations (annotation s''))) = [(20, 30), (0, 40)]"
proof -
  let ?i = "\<lambda>_::int. ''1''"
  let ?s0 = "AnnotateTest ?i 10 ''t'' 3 \<lparr>annotation = mkAnnotation, finfo = None\<rparr>"
  have three: "replicate 3 x = [x, x, x]" for x :: bool by (simp add: numeral_3_eq_3)
  note eval = AnnotateTest_def AnnotateInfo_def AnnotatePointColor_def withAnnotation_def annotatePointColor_def addAnnotation_def clear_def mkAnnotation_def
    AnnotateShutdown_def AnnotateRestart_def AnnotateCrash_def withFinfo_def setCrashed_def setFault_def annotateFault_def
    noFault_def mkFrameworkInfo_def annotateContinuousColor_def annotateContinuousEnd_def Let_def three
  obtain s where s: "AnnotateShutdown ?i 20 [1] ?s0 = Inr s" "finfo s = Some ((mkFrameworkInfo 3)\<lparr>fiCrashed := [False, True, False]\<rparr>)"
    "map (\<lambda>a. (aStart a, aEnd a)) (faults (annotations (annotation s))) = []" "map_option cstart (ongoing (annotation s) TAG_PARTITION) = Some 20"
    by (simp add: eval ongoing_def)
  from s(4) obtain c where c: "ongoing (annotation s) TAG_PARTITION = Some c" "cstart c = 20" by auto
  have "\<exists>s'. AnnotateRestart ?i 30 [1] s = Inr s' \<and> finfo s' = Some (mkFrameworkInfo 3) \<and>
    faults (annotations (annotation s')) = faults (annotations (annotation s)) @
      [\<lparr>aTag = TAG_PARTITION, aStart = 20, aEnd = 30, aDescription = cdesp c, aDetails = cdetails c, aBackgroundColor = cbgcolor c\<rparr>]"
    using s(2) c by (simp add: eval ongoing_def)
  then obtain s' where s': "AnnotateRestart ?i 30 [1] s = Inr s'" "finfo s' = Some (mkFrameworkInfo 3)"
    "faults (annotations (annotation s')) = faults (annotations (annotation s)) @
      [\<lparr>aTag = TAG_PARTITION, aStart = 20, aEnd = 30, aDescription = cdesp c, aDetails = cdetails c, aBackgroundColor = cbgcolor c\<rparr>]"
    by (elim exE conjE) (rule that)
  have "fault_step ?i (10, ?s0) (20, ?s0)" "fault_step ?i (20, s) (30, s)" "fault_step ?i (30, s') (40, s')" by (rule tick, simp)+
  note ticks = this
  have run1: "(fault_step ?i)\<^sup>*\<^sup>* (10, ?s0) (30, s)"
    by (rule converse_rtranclp_into_rtranclp, rule ticks(1), rule converse_rtranclp_into_rtranclp, rule shutdown, rule s(1),
        rule r_into_rtranclp, rule ticks(2))
  have run2: "(fault_step ?i)\<^sup>*\<^sup>* (10, ?s0) (40, s')"
    by (rule rtranclp.rtrancl_into_rtrancl, rule rtranclp.rtrancl_into_rtrancl, rule run1, rule restart, rule s'(1), rule ticks(3))
  have nf: "noFault (mkFrameworkInfo 3)" by (simp add: noFault_def mkFrameworkInfo_def)
  from fault_timeline [OF run2] s'(2) nf obtain s'' where s'': "AnnotateClearFailure 40 s' = Inr s''"
    "faults (annotations (annotation s'')) = faults (annotations (annotation s')) @
      [\<lparr>aTag = TAG_PARTITION, aStart = 0, aEnd = 40, aDescription = [], aDetails = [], aBackgroundColor = []\<rparr>]" by auto
  have "in_order 30 (faults (fst (finalize 30 (annotation s))))" using fault_timeline [OF run1] by blast
  moreover have "ongoing (annotation s) TAG_PARTITION \<noteq> None" using s(4) by auto
  moreover have "map (\<lambda>a. (aStart a, aEnd a)) (faults (annotations (annotation s''))) = [(20, 30), (0, 40)]"
    using s(3) s'(3) s''(2) by simp
  ultimately show ?thesis using s(1) s'(1) s''(1)
    by (intro exI [of _ s] exI [of _ s'] exI [of _ s''] conjI)
qed

subsection \<open>Checkers\<close>

text \<open>
  The begin of a check stays. Once a check has begun at a time other than 0, every
  later end of a check, not only the first, is drawn as an interval from that begin: ending a check
  does not reset the begin, although the code means to.
\<close>

theorem checker_begin_stays:
  assumes "AnnotateCheckerBegin t d s = Inr s1" and "t \<noteq> 0"
  shows "\<exists>s2. go_each (\<lambda>(u, desp, details, color). AnnotateCheckerEnd u desp details color) es s1 = Inr s2 \<and>
    annotations (annotation s2) = annotations (annotation s) @
      map (\<lambda>(u, desp, details, color). \<lparr>aTag = TAG_CHECKER, aStart = t, aEnd = u, aDescription = desp,
             aDetails = d @ '': '' @ details, aBackgroundColor = color\<rparr>) es"
proof -
  obtain fi where "finfo s1 = Some fi" "ckbegin fi = \<lparr>ckTs = t, ckDetails = d\<rparr>" "annotations (annotation s1) = annotations (annotation s)"
    using assms(1) by (auto simp: AnnotateCheckerBegin_def withFinfo_def split: option.splits)
  then show ?thesis
  proof (induction es arbitrary: s s1)
    case (Cons e es)
    obtain u desp details color where e: "e = (u, desp, details, color)" by (cases e)
    let ?s2 = "withAnnotation (annotateIntervalColor u TAG_CHECKER t desp (d @ '': '' @ details) color) s1"
    have "AnnotateCheckerEnd u desp details color s1 = Inr ?s2"
      using Cons.prems assms(2) by (simp add: AnnotateCheckerEnd_def withFinfo_def)
    moreover have "finfo ?s2 = Some fi" "annotations (annotation ?s2) = annotations (annotation s) @
        [\<lparr>aTag = TAG_CHECKER, aStart = t, aEnd = u, aDescription = desp, aDetails = d @ '': '' @ details, aBackgroundColor = color\<rparr>]"
      using Cons.prems by (simp_all add: withAnnotation_def annotateIntervalColor_def addAnnotation_def)
    ultimately show ?case using Cons.IH [of ?s2 ?s2] Cons.prems(2) by (simp add: e)
  qed simp
qed

theorem checker_begin_stays_witness:
  "\<exists>s1 s2. AnnotateCheckerBegin 5 ''c'' (AnnotateTest (\<lambda>_. ''1'') 1 ''t'' 1 \<lparr>annotation = mkAnnotation, finfo = None\<rparr>) = Inr s1 \<and>
     go_each (\<lambda>(u, desp, details, color). AnnotateCheckerEnd u desp details color) [(6, ''a'', ''OK'', COLOR_SUCCESS), (9, ''b'', ''OK'', COLOR_SUCCESS)] s1 = Inr s2 \<and>
     map aStart (drop 1 (annotations (annotation s2))) = [5, 5]"
proof -
  let ?s = "AnnotateTest (\<lambda>_. ''1'') 1 ''t'' 1 \<lparr>annotation = mkAnnotation, finfo = None\<rparr>"
  obtain s1 where b: "AnnotateCheckerBegin 5 ''c'' ?s = Inr s1" "length (annotations (annotation ?s)) = 1"
    by (simp add: AnnotateCheckerBegin_def AnnotateTest_def AnnotateInfo_def AnnotatePointColor_def withAnnotation_def withFinfo_def Let_def clear_def
        annotatePointColor_def addAnnotation_def)
  from checker_begin_stays [OF b(1), of "[(6, ''a'', ''OK'', COLOR_SUCCESS), (9, ''b'', ''OK'', COLOR_SUCCESS)]"] b show ?thesis by fastforce
qed

end
