(* ===== verification/Tester_Setup.thy ===== *)
theory Tester_Setup
  imports Tester_Config Tester_Annotation
begin

text \<open>
  Configurations of the test harness (\<open>src/tester1/config.go\<close> and the groups of \<open>src/tester1/group.go\<close>): making
  a network with its first group of servers, starting and ending groups, and the counters around a
  test. The random names of ends and the objects of servers are arguments, as in \<open>Tester_Group\<close>; the
  time is an argument in seconds; what is printed at the end of a test is the result of \<open>End\<close>.
\<close>

subsection \<open>Groups\<close>

type_synonym ('e, 'c, 'svc) Groups = "(int \<times> ('e, 'c, 'svc) ServerGrp) list"

definition newGroups :: "('e, 'c, 'svc) Groups" where
  "newGroups = []"

definition Groups_cleanup :: "('svc \<Rightarrow> 'svc) \<Rightarrow> ('e, 'c, 'svc) Groups \<Rightarrow> ('e, 'c, 'svc) Groups" where
  "Groups_cleanup kill grps = map (\<lambda>(g, sg). (g, Grp_cleanup kill sg)) grps"

definition MakeGroup :: "(int \<Rightarrow> string) \<Rightarrow> int \<Rightarrow> 'e list list \<Rightarrow> 'e net \<times> ('e, 'c, 'svc) Groups \<Rightarrow> ('e net \<times> ('e, 'c, 'svc) Groups) go" where
  "MakeGroup itoa g nss = (\<lambda>(net, grps).
     go_bind (makeSrvGrp itoa g nss net) (\<lambda>(net1, sg). Inr (net1, AList.update g sg grps)))"

definition lookupGroup :: "('e, 'c, 'svc) Groups \<Rightarrow> int \<Rightarrow> ('e, 'c, 'svc) ServerGrp option" where
  "lookupGroup grps g = map_of grps g"

definition Groups_delete :: "int \<Rightarrow> ('e, 'c, 'svc) Groups \<Rightarrow> ('e, 'c, 'svc) Groups" where
  "Groups_delete g grps = AList.delete g grps"

subsection \<open>Configurations\<close>

record ('e, 'c, 'svc) Config =
  cfgNet :: "'e net"
  cfgGroups :: "('e, 'c, 'svc) Groups"
  cfgClnts :: "'e Clnts"
  cfgFailed :: bool       \<comment> \<open>\<open>t.Failed()\<close>\<close>
  cfgStart :: int
  cfgT0 :: int
  rpcs0 :: "32 word"
  cfgOps :: "32 word"

definition GRP0 :: int where "GRP0 = 0"

definition onGroup ::
  "('e net \<times> ('e, 'c, 'svc) ServerGrp \<Rightarrow> ('e net \<times> ('e, 'c, 'svc) ServerGrp) go) \<Rightarrow> int \<Rightarrow> ('e, 'c, 'svc) Config \<Rightarrow> ('e, 'c, 'svc) Config go" where
  \<comment> \<open>an operation on \<open>cfg.Group(gid)\<close>, which is nil for a group that is not there\<close>
  "onGroup f g cfg = (case lookupGroup (cfgGroups cfg) g of None \<Rightarrow> Inl NilDeref
     | Some sg \<Rightarrow> go_bind (f (cfgNet cfg, sg)) (\<lambda>(net, sg1).
         Inr (cfg\<lparr>cfgNet := net, cfgGroups := AList.update g sg1 (cfgGroups cfg)\<rparr>)))"

definition MakeGroupStart ::
  "(int \<Rightarrow> string) \<Rightarrow> ('e, 'c, 'svc) starter \<Rightarrow> int \<Rightarrow> 'e list list \<Rightarrow> (nat \<Rightarrow> 'e list) \<Rightarrow> (nat \<Rightarrow> nat) \<Rightarrow>
   ('e, 'c, 'svc) Config \<Rightarrow> ('e, 'c, 'svc) Config go" where
  "MakeGroupStart itoa mks g nss names obj cfg =
     go_bind (MakeGroup itoa g nss (cfgNet cfg, cfgGroups cfg)) (\<lambda>(net, grps).
       onGroup (StartServers itoa mks names obj) g (cfg\<lparr>cfgNet := net, cfgGroups := grps\<rparr>))"

definition MakeConfig ::
  "(int \<Rightarrow> string) \<Rightarrow> ('e, 'c, 'svc) starter \<Rightarrow> 'e list list \<Rightarrow> (nat \<Rightarrow> 'e list) \<Rightarrow> (nat \<Rightarrow> nat) \<Rightarrow> bool \<Rightarrow> int \<Rightarrow>
   ('e, 'c, 'svc) Config go" where
  "MakeConfig itoa mks nss names obj rel now =
     go_bind (MakeGroupStart itoa mks GRP0 nss names obj
        \<lparr>cfgNet = MakeNetwork, cfgGroups = [], cfgClnts = [], cfgFailed = False, cfgStart = 0, cfgT0 = 0, rpcs0 = 0, cfgOps = 0\<rparr>)
       (\<lambda>cfg. Inr (cfg\<lparr>cfgClnts := [], cfgStart := now, cfgNet := Reliable (cfgNet cfg) rel\<rparr>))"

definition SetReliable :: "bool \<Rightarrow> ('e, 'c, 'svc) Config \<Rightarrow> ('e, 'c, 'svc) Config" where
  "SetReliable yes cfg = cfg\<lparr>cfgNet := Reliable (cfgNet cfg) yes\<rparr>"

definition Config_IsReliable :: "('e, 'c, 'svc) Config \<Rightarrow> bool" where
  "Config_IsReliable cfg = IsReliable (cfgNet cfg)"

definition BytesTotal :: "('e, 'c, 'svc) Config \<Rightarrow> int" where
  "BytesTotal cfg = GetTotalBytes (cfgNet cfg)"

definition SetLongReordering :: "bool \<Rightarrow> ('e, 'c, 'svc) Config \<Rightarrow> ('e, 'c, 'svc) Config" where
  "SetLongReordering yes cfg = cfg\<lparr>cfgNet := LongReordering (cfgNet cfg) yes\<rparr>"

definition SetLongDelays :: "bool \<Rightarrow> ('e, 'c, 'svc) Config \<Rightarrow> ('e, 'c, 'svc) Config" where
  "SetLongDelays yes cfg = cfg\<lparr>cfgNet := LongDelays (cfgNet cfg) yes\<rparr>"

definition ExitGroup :: "(int \<Rightarrow> string) \<Rightarrow> int \<Rightarrow> ('e, 'c, 'svc) Config \<Rightarrow> ('e, 'c, 'svc) Config go" where
  "ExitGroup itoa g cfg =
     go_bind (onGroup (Shutdown itoa) g cfg) (\<lambda>cfg1. Inr (cfg1\<lparr>cfgGroups := Groups_delete g (cfgGroups cfg1)\<rparr>))"

definition RpcTotal :: "('e, 'c, 'svc) Config \<Rightarrow> 32 word" where
  "RpcTotal cfg = rpcCount (cfgNet cfg)"

definition Begin :: "int \<Rightarrow> ('e, 'c, 'svc) Config \<Rightarrow> ('e, 'c, 'svc) Config" where
  "Begin now cfg = cfg\<lparr>cfgT0 := now, rpcs0 := RpcTotal cfg, cfgOps := 0\<rparr>"

definition Config_Op :: "('e, 'c, 'svc) Config \<Rightarrow> ('e, 'c, 'svc) Config" where
  "Config_Op cfg = cfg\<lparr>cfgOps := cfgOps cfg + 1\<rparr>"

definition CheckTimeout :: "int \<Rightarrow> ('e, 'c, 'svc) Config \<Rightarrow> unit go" where
  "CheckTimeout now cfg = (if \<not> cfgFailed cfg \<and> now - cfgStart cfg > 120 then Inl LogFatal else Inr ())"

definition End :: "int \<Rightarrow> ('e, 'c, 'svc) Config \<Rightarrow> (int \<times> nat \<times> 32 word \<times> 32 word) option go" where
  \<comment> \<open>time, peers, RPCs and operations, if the test has not failed\<close>
  "End now cfg = go_bind (CheckTimeout now cfg) (\<lambda>_.
     if cfgFailed cfg then Inr None
     else case lookupGroup (cfgGroups cfg) GRP0 of None \<Rightarrow> Inl NilDeref
       | Some sg \<Rightarrow> Inr (Some (now - cfgT0 cfg, N sg, RpcTotal cfg - rpcs0 cfg, cfgOps cfg)))"

definition Config_Cleanup :: "int \<Rightarrow> int \<Rightarrow> string \<Rightarrow> bool \<Rightarrow> Annotation \<Rightarrow> ('e, 'c, 'svc) Config \<Rightarrow>
    (Annotation \<times> ('e, 'c, 'svc) Config) go" where
  \<comment> \<open>stopping the services has no effect on this state; \<open>net.Cleanup\<close> ends the goroutine of the network\<close>
  "Config_Cleanup now t vis opens an cfg =
     go_bind (Clnts_cleanup (cfgNet cfg, cfgClnts cfg)) (\<lambda>(net, cs).
       let cfg1 = cfg\<lparr>cfgNet := net, cfgClnts := cs\<rparr>;
           an1 = snd (cleanup t vis (cfgFailed cfg) (if cfgFailed cfg then ''test failed'' else ''test passed'') opens an)
       in go_bind (CheckTimeout now cfg1) (\<lambda>_. Inr (an1, cfg1)))"

subsection \<open>Random order\<close>

fun shuffleLoop :: "(nat \<Rightarrow> nat) \<Rightarrow> nat list \<Rightarrow> 'a list \<Rightarrow> 'a list" where
  \<comment> \<open>\<open>rnd i\<close> is \<open>rand.Intn(i + 1)\<close>\<close>
  "shuffleLoop rnd [] sa = sa"
| "shuffleLoop rnd (i # is) sa = (let j = rnd i in shuffleLoop rnd is (sa[i := sa ! j, j := sa ! i]))"

definition random_handles :: "(nat \<Rightarrow> nat) \<Rightarrow> 'a list \<Rightarrow> 'a list" where
  "random_handles rnd kvh = shuffleLoop rnd [0..<length kvh] kvh"

lemma random_handles_permutes:
  assumes "\<And>i. rnd i \<le> i"
  shows "mset (random_handles rnd kvh) = mset kvh"
proof -
  have "mset (shuffleLoop rnd is sa) = mset sa" if "\<forall>i \<in> set is. i < length sa" for "is" and sa :: "'a list"
    using that
  proof (induction "is" arbitrary: sa)
    case (Cons i "is")
    then have "rnd i < length sa" using assms [of i] le_less_trans by auto
    with Cons show ?case using mset_swap [of "rnd i" sa i] by (simp add: Let_def)
  qed simp
  then show ?thesis by (simp add: random_handles_def)
qed

subsection \<open>A started group\<close>

lemma go_each_inv:
  assumes "\<And>i s s'. i \<in> set xs \<Longrightarrow> P s \<Longrightarrow> f i s = Inr s' \<Longrightarrow> P s'" and "go_each f xs s = Inr s'" and "P s"
  shows "P s'"
  using assms(2,3,1) by (induction xs arbitrary: s) (auto simp: go_inv)

lemma makeSrvs_law:
  assumes "makeSrvs itoa g nss net = Inr (net', ss)"
  shows "map endNames ss = nss \<and> distinct (concat nss) \<and> set (concat nss) \<inter> set (ends net) = {} \<and>
    set (ends net') = set (concat nss) \<union> set (ends net) \<and> (\<forall>e. enabled net' e \<longleftrightarrow> e \<notin> set (concat nss) \<and> enabled net e)"
  using assms
proof (induction nss arbitrary: net ss)
  case (Cons names nss)
  then obtain net1 ss1 where m: "makeEnds itoa g 0 names net = Inr net1" "makeSrvs itoa g nss net1 = Inr (net', ss1)"
    "ss = \<lparr>saved = None, svcs = [], endNames = names\<rparr> # ss1" by (auto simp: makeServer_def go_inv)
  from makeEnds_law [OF m(1)] Cons.IH [OF m(2)] show ?case by (auto simp: m(3))
qed auto

lemma concat_inj:
  assumes "distinct (concat nss)" and "\<forall>ns \<in> set nss. length ns = n"
  shows "inj_on (\<lambda>(a, b). nss ! a ! b) ({..<length nss} \<times> {..<n})"
  using assms
proof (induction nss)
  case (Cons ns nss)
  have IH: "inj_on (\<lambda>(a, b). nss ! a ! b) ({..<length nss} \<times> {..<n})" using Cons by simp
  have ns: "distinct ns" "length ns = n" "set ns \<inter> set (concat nss) = {}" using Cons.prems by auto
  have mem: "nss ! a ! b \<in> set (concat nss)" if "a < length nss" "b < n" for a b
    using that Cons.prems(2) by (auto intro!: bexI [of _ "nss ! a"])
  have sep: "nss ! a ! b \<noteq> ns ! d" if "a < length nss" "b < n" "d < n" for a b d
    using mem [OF that(1,2)] nth_mem [of d ns] ns(2,3) that(3) by (metis IntI empty_iff)
  show ?case
  proof (rule inj_onI, clarsimp)
    fix a b c d
    assume h: "a < Suc (length nss)" "b < n" "c < Suc (length nss)" "d < n" "(ns # nss) ! a ! b = (ns # nss) ! c ! d"
    show "a = c \<and> b = d"
      using h ns(1,2) sep [of "a - 1" b d] sep [of "c - 1" d b] inj_onD [OF IH, of "(a - 1, b)" "(c - 1, d)"]
      by (cases a; cases c) (auto simp: nth_eq_iff_index_eq)
  qed
qed simp

definition fresh_group :: "nat \<Rightarrow> 'e net \<times> ('e, 'c, 'svc) ServerGrp \<Rightarrow> bool" where
  \<comment> \<open>well formed, nobody connected, and the names of ends are those of the network\<close>
  "fresh_group n = (\<lambda>(net, sg). precise (net, sg) \<and> N sg = n \<and> (\<forall>a. \<not> conn (net, sg) a) \<and>
     (\<forall>t \<in> set (gsrvs sg). set (endNames t) \<subseteq> set (ends net)))"

lemma makeSrvGrp_fresh:
  assumes "makeSrvGrp itoa g nss net = Inr (net', sg)" and "\<forall>ns \<in> set nss. length ns = length nss"
  shows "fresh_group (length nss) (net', sg)"
proof -
  obtain ss where m: "makeSrvs itoa g nss net = Inr (net', ss)" "gsrvs sg = ss" "connected sg = replicate (length nss) False"
    using assms(1) by (auto simp: makeSrvGrp_def go_inv)
  note L = makeSrvs_law [OF m(1)]
  have len: "length ss = length nss" using L by (metis length_map)
  have nm: "endNames (ss ! a) = nss ! a" if "a < length nss" for a using L len that by (metis nth_map)
  have n: "N sg = length nss" by (simp add: N_def m(2) len)
  have names: "endNames t \<in> set nss" if "t \<in> set ss" for t using L that by (metis imageI list.set_map)
  have "inj_on (\<lambda>(a, b). endNames (gsrvs sg ! a) ! b) ({..<N sg} \<times> {..<N sg}) =
      inj_on (\<lambda>(a, b). nss ! a ! b) ({..<length nss} \<times> {..<length nss})"
    unfolding n m(2) by (rule inj_on_cong) (auto simp: nm)
  then have wf: "wf_grp sg" using concat_inj [of nss "length nss"] L assms(2) names by (auto simp: wf_grp_def n m(2,3))
  have off: "\<not> conn (net', sg) a" for a by (simp add: conn_def n m(3))
  have "\<not> link (net', sg) a b" for a b
  proof
    assume "link (net', sg) a b"
    then have "a < length nss" "b < length nss" "enabled net' (nss ! a ! b)" using nm by (auto simp: link_def n m(2))
    moreover from this have "nss ! a ! b \<in> set (concat nss)" using assms(2) by (auto intro!: bexI [of _ "nss ! a"])
    ultimately show False using L by blast
  qed
  then have "precise (net', sg)" using wf off by (intro preciseI) simp_all
  moreover have "set (endNames t) \<subseteq> set (ends net')" if "t \<in> set (gsrvs sg)" for t
    using L names [of t] that by (auto simp: m(2))
  ultimately show ?thesis using n off by (simp add: fresh_group_def)
qed

lemma StartServer_fresh:
  assumes "StartServer itoa mks names obj i s = Inr s'" and "fresh_group n s" and "length names = n"
  shows "fresh_group n s'"
proof -
  obtain net sg where s: "s = (net, sg)" by (cases s)
  have f: "precise (net, sg)" "N sg = n" "\<And>a. \<not> conn (net, sg) a" "\<And>t. t \<in> set (gsrvs sg) \<Longrightarrow> set (endNames t) \<subseteq> set (ends net)"
    using assms(2) by (auto simp: s fresh_group_def)
  obtain net1 srv where st: "i < N sg" "makeEnds itoa (gid sg) 0 names net = Inr net1" "endNames srv = names"
    "s' = (AddServer net1 (ServerName itoa (gid sg) i) obj, sg\<lparr>gsrvs := (gsrvs sg)[i := srv]\<rparr>)"
    using StartServer_law [OF assms(1) [unfolded s]] by (metis (no_types) TServer.select_convs(3))
  note E = makeEnds_law [OF st(2)]
  have "precise s'"
    by (rule StartServer_precise [OF f(1) f(3) _ _ assms(1) [unfolded s]]) (use assms(3) f(2,4) E in auto)
  moreover have "\<not> conn s' a" for a using f(3) [of a] by (auto simp: st(4) conn_def N_def)
  moreover have "set (endNames t) \<subseteq> set (ends net1)" if "t \<in> set ((gsrvs sg)[i := srv])" for t
    using set_update_subset_insert [of "gsrvs sg" i srv] that f(4) [of t] st(3) E by auto
  ultimately show ?thesis using f(2) by (simp add: fresh_group_def st(4) AddServer_def N_def)
qed

lemma start_fresh:
  assumes "start itoa mks names obj s = Inr s'" and "fresh_group n s" and "\<And>i. i < n \<Longrightarrow> length (names i) = n"
  shows "fresh_group n s'"
proof -
  have "all (snd s) = [0..<n]" using assms(2) by (auto simp: fresh_group_def all_def)
  then have go: "go_each (\<lambda>i. StartServer itoa mks (names i) (obj i) i) [0..<n] s = Inr s'"
    using assms(1) by (simp add: start_def)
  show ?thesis
  proof (rule go_each_inv [where P = "fresh_group n" and f = "\<lambda>i. StartServer itoa mks (names i) (obj i) i", OF _ go assms(2)])
    fix i s1 s2
    assume "i \<in> set [0..<n]" and "fresh_group n s1" and "StartServer itoa mks (names i) (obj i) i s1 = Inr s2"
    then show "fresh_group n s2" using StartServer_fresh assms(3) by (metis atLeastLessThan_iff set_upt)
  qed
qed

lemma ConnectOne_conn:
  assumes "precise (net, sg)" and "ConnectOne i (net, sg) = Inr (net', sg')"
  shows "precise (net', sg') \<and> N sg' = N sg \<and> conn (net', sg') = (conn (net, sg))(i := True)"
proof -
  have "length (connected sg) = N sg" using preciseD(1) [OF assms(1)] by (simp add: wf_grp_def)
  moreover have "i < N sg" "sg' = sg\<lparr>connected := (connected sg)[i := True]\<rparr>"
    using assms(2) by (auto simp: ConnectOne_def connect_def inGrp_def Let_def split: if_splits)
  ultimately show ?thesis using ConnectOne_precise [OF assms] by (auto simp: conn_def fun_eq_iff nth_list_update)
qed

lemma ConnectAll_conn:
  assumes "go_each ConnectOne xs (net, sg) = Inr (net', sg')" and "precise (net, sg)"
  shows "precise (net', sg') \<and> N sg' = N sg \<and> (\<forall>a. conn (net', sg') a \<longleftrightarrow> conn (net, sg) a \<or> a \<in> set xs)"
  using assms
proof (induction xs arbitrary: net sg)
  case (Cons i xs)
  then obtain net1 sg1 where c: "ConnectOne i (net, sg) = Inr (net1, sg1)" "go_each ConnectOne xs (net1, sg1) = Inr (net', sg')"
    by (auto simp: go_inv)
  note one = ConnectOne_conn [OF Cons.prems(2) c(1)]
  with Cons.IH [OF c(2)] show ?case by auto
qed simp

lemma made_config:
  assumes "MakeConfig itoa mks nss names obj rel now = Inr cfg" and "\<forall>ns \<in> set nss. length ns = length nss"
    and "\<And>i. i < length nss \<Longrightarrow> length (names i) = length nss"
  shows "\<exists>sg. cfgGroups cfg = [(GRP0, sg)] \<and> N sg = length nss \<and> reliable (cfgNet cfg) = rel \<and> precise (cfgNet cfg, sg) \<and>
    (\<forall>a < N sg. conn (cfgNet cfg, sg) a)"
proof -
  obtain net1 sg1 s2 net3 sg3 where m: "makeSrvGrp itoa GRP0 nss MakeNetwork = Inr (net1, sg1)" "start itoa mks names obj (net1, sg1) = Inr s2"
    "ConnectAll s2 = Inr (net3, sg3)" "cfgNet cfg = Reliable net3 rel" "cfgGroups cfg = [(GRP0, sg3)]"
    using assms(1) by (auto simp: MakeConfig_def MakeGroupStart_def MakeGroup_def onGroup_def lookupGroup_def StartServers_def go_inv)
  obtain net2 sg2 where s2: "s2 = (net2, sg2)" by (cases s2)
  have f: "fresh_group (length nss) (net2, sg2)"
    using start_fresh [OF m(2) makeSrvGrp_fresh [OF m(1) assms(2)] assms(3)] by (simp add: s2)
  then have p2: "precise (net2, sg2)" "N sg2 = length nss" by (auto simp: fresh_group_def)
  have c: "precise (net3, sg3)" "N sg3 = length nss" "\<And>a. a < length nss \<Longrightarrow> conn (net3, sg3) a"
    using ConnectAll_conn [of "all sg2" net2 sg2 net3 sg3] m(3) p2 by (auto simp: s2 ConnectAll_def all_def)
  have eq: "conn (Reliable net3 rel, sg3) a = conn (net3, sg3) a" "link (Reliable net3 rel, sg3) a b = link (net3, sg3) a b" for a b
    by (simp_all add: conn_def link_def Reliable_def)
  then have "precise (Reliable net3 rel, sg3)" using c(1) by (simp add: precise_def)
  with c eq m(4,5) show ?thesis by (simp add: Reliable_def)
qed

text \<open>
  A new configuration. When \<open>MakeConfig\<close> returns, the first group has all its servers, every
  server can send to every server, the flags say that all are connected, and the network is as
  reliable as asked for. Stopping the group again with \<open>ExitGroup\<close> is possible, and asking for a group
  that is not there stops the test.
\<close>

theorem made_config_connected:
  assumes "MakeConfig itoa mks nss names obj rel now = Inr cfg" and "\<forall>ns \<in> set nss. length ns = length nss"
    and "\<And>i. i < length nss \<Longrightarrow> length (names i) = length nss"
  shows "\<exists>sg. lookupGroup (cfgGroups cfg) GRP0 = Some sg \<and> N sg = length nss \<and> reliable (cfgNet cfg) = rel \<and>
    (\<forall>a < N sg. conn (cfgNet cfg, sg) a \<and> (\<forall>b < N sg. link (cfgNet cfg, sg) a b)) \<and>
    (\<forall>g. g \<noteq> GRP0 \<longrightarrow> ExitGroup itoa g cfg = Inl NilDeref)"
  using made_config [OF assms] by (auto simp: preciseD(2) lookupGroup_def ExitGroup_def onGroup_def)

theorem made_config_connected_witness:
  "\<exists>cfg. MakeConfig (\<lambda>_. []) (\<lambda>_ _ _ _. Inr []) [[1]] (\<lambda>_. [2::nat]) id False 0 = Inr (cfg :: (nat, nat, nat) Config) \<and>
     (\<exists>sg. lookupGroup (cfgGroups cfg) GRP0 = Some sg \<and> N sg = 1 \<and> link (cfgNet cfg, sg) 0 0)"
proof -
  obtain cfg :: "(nat, nat, nat) Config" where cfg: "MakeConfig (\<lambda>_. []) (\<lambda>_ _ _ _. Inr []) [[1]] (\<lambda>_. [2::nat]) id False 0 = Inr cfg"
    by (simp add: MakeConfig_def MakeGroupStart_def MakeGroup_def makeSrvGrp_def makeServer_def MakeEnd_def MakeNetwork_def Connect_def onGroup_def
        lookupGroup_def StartServers_def start_def all_def N_def StartServer_def startServer_def AddServer_def ConnectAll_def ConnectOne_def
        connect_def inGrp_def Let_def)
  from made_config_connected [OF cfg] cfg show ?thesis by auto
qed

end
