(* ===== verification/Rsm_Setup.thy ===== *)
theory Rsm_Setup
  imports Services Tester_Setup
begin

text \<open>
  How a test of the replicated state machine is set up (\<open>src/kvraft1/rsm/test.go\<close>): the configuration with its
  three counters, their start and restart, disconnecting and connecting the server that the test takes
  for the leader, and the end of the test.

  The group \<open>g\<close> of the test is a pointer into its configuration, so operations on it are operations on the
  configuration. The start function of the test also writes the slot of the counter in \<open>srvs\<close>; that
  write is \<open>rsm_setSrv\<close>.
\<close>

subsection \<open>The test\<close>

definition NSRV :: nat where "NSRV = 3"

record ('e, 'c) RsmTest =
  rtConfig :: "('e, 'c, 'c raft option) Config"
  rtMax :: int                          \<comment> \<open>\<open>maxraftstate\<close>\<close>
  rtSrvs :: "rsmSrv option list"
  rtLeader :: nat

definition rsm_mksrv :: "bool \<Rightarrow> int \<Rightarrow> ('e, 'c, 'c raft option) starter" where
  \<comment> \<open>the service that is handed to the harness is the Raft peer\<close>
  "rsm_mksrv useRSM mx es g i ps = go_bind (MakeRSM useRSM es i ps mx) (\<lambda>rsm. Inr [RSM_Raft rsm])"

definition rsm_setSrv :: "nat \<Rightarrow> rsmSrv option list \<Rightarrow> rsmSrv option list" where
  "rsm_setSrv i ss = ss[i := Some makeRsmSrv]"

definition rsm_makeTest ::
  "bool \<Rightarrow> (int \<Rightarrow> string) \<Rightarrow> 'e list list \<Rightarrow> (nat \<Rightarrow> 'e list) \<Rightarrow> (nat \<Rightarrow> nat) \<Rightarrow> int \<Rightarrow> int \<Rightarrow> ('e, 'c) RsmTest go" where
  "rsm_makeTest useRSM itoa nss names obj mx now =
     go_bind (MakeConfig itoa (rsm_mksrv useRSM mx) nss names obj True now) (\<lambda>cfg.
       Inr \<lparr>rtConfig = cfg, rtMax = mx, rtSrvs = fold rsm_setSrv [0..<NSRV] (replicate NSRV None), rtLeader = 0\<rparr>)"

definition rsm_cleanup :: "int \<Rightarrow> int \<Rightarrow> string \<Rightarrow> bool \<Rightarrow> Annotation \<Rightarrow> ('e, 'c) RsmTest \<Rightarrow> (Annotation \<times> ('e, 'c) RsmTest) go" where
  "rsm_cleanup now t vis opens an ts =
     go_bind (End now (rtConfig ts)) (\<lambda>_.
       go_bind (Config_Cleanup now t vis opens an (rtConfig ts)) (\<lambda>(an1, cfg).
         go_bind (CheckTimeout now cfg) (\<lambda>_. Inr (an1, ts\<lparr>rtConfig := cfg\<rparr>))))"

definition disconnectLeader :: "('e, 'c) RsmTest \<Rightarrow> (('e, 'c) RsmTest \<times> nat) go" where
  "disconnectLeader ts =
     go_bind (onGroup (DisconnectAll (rtLeader ts)) GRP0 (rtConfig ts)) (\<lambda>cfg. Inr (ts\<lparr>rtConfig := cfg\<rparr>, rtLeader ts))"

definition rsm_connect :: "nat \<Rightarrow> ('e, 'c) RsmTest \<Rightarrow> ('e, 'c) RsmTest go" where
  "rsm_connect i ts = go_bind (onGroup (ConnectOne i) GRP0 (rtConfig ts)) (\<lambda>cfg. Inr (ts\<lparr>rtConfig := cfg\<rparr>))"

subsection \<open>What the operations do\<close>

fun rsmPeerOf :: "'c raft option list \<Rightarrow> 'c raft option" where
  "rsmPeerOf [Some rf] = Some rf"
| "rsmPeerOf _ = None"

interpretation rsmsrv: raft_starter "rsm_mksrv False mx" rsmPeerOf n
  by unfold_locales (auto simp: rsm_mksrv_def go_inv dest!: MakeRSM_raft)

definition rsm_links :: "('e, 'c) RsmTest \<Rightarrow> nat set \<Rightarrow> bool" where
  \<comment> \<open>three servers, of which exactly those in the set are connected, and these can all send to each other\<close>
  "rsm_links ts C \<longleftrightarrow> (\<exists>sg. cfgGroups (rtConfig ts) = [(GRP0, sg)] \<and> N sg = NSRV \<and> precise (cfgNet (rtConfig ts), sg) \<and>
     (\<forall>a < NSRV. conn (cfgNet (rtConfig ts), sg) a \<longleftrightarrow> a \<in> C))"

lemma rsm_made:
  assumes "rsm_makeTest useRSM itoa nss names obj mx now = Inr ts" and "length nss = NSRV"
    and "\<forall>ns \<in> set nss. length ns = NSRV" and "\<And>i. i < NSRV \<Longrightarrow> length (names i) = NSRV"
  shows "rsm_links ts {..<NSRV}" "rtSrvs ts = replicate NSRV (Some makeRsmSrv)" "rtLeader ts = 0"
proof -
  from assms(1) obtain cfg where c: "MakeConfig itoa (rsm_mksrv useRSM mx) nss names obj True now = Inr cfg"
    "ts = \<lparr>rtConfig = cfg, rtMax = mx, rtSrvs = fold rsm_setSrv [0..<NSRV] (replicate NSRV None), rtLeader = 0\<rparr>"
    by (auto simp: rsm_makeTest_def go_inv)
  from made_config [OF c(1)] assms(2-4) show "rsm_links ts {..<NSRV}" by (auto simp: rsm_links_def c(2))
  show "rtSrvs ts = replicate NSRV (Some makeRsmSrv)" "rtLeader ts = 0"
    by (simp_all add: c(2) NSRV_def rsm_setSrv_def upt_rec numeral_3_eq_3)
qed

lemma DisconnectAll_runs: "i < N sg \<Longrightarrow> \<exists>net' sg'. DisconnectAll i (net, sg) = Inr (net', sg')"
  by (auto simp: DisconnectAll_def disconnect_def inGrp_def all_def list_all_iff Let_def)

lemma ConnectOne_runs: "i < N sg \<Longrightarrow> \<exists>net' sg'. ConnectOne i (net, sg) = Inr (net', sg')"
  by (auto simp: ConnectOne_def connect_def inGrp_def all_def list_all_iff Let_def)

lemma ConnectOne_marks: "ConnectOne i (net, sg) = Inr (net', sg') \<Longrightarrow> sg' = sg\<lparr>connected := (connected sg)[i := True]\<rparr>"
  by (auto simp: ConnectOne_def connect_def Let_def split: if_splits)

lemma conn_marked:
  assumes "wf_grp sg" and "sg' = sg\<lparr>connected := (connected sg)[i := v]\<rparr>" and "i < N sg" and "a < N sg"
  shows "conn (net', sg') a \<longleftrightarrow> (if a = i then v else conn (net, sg) a)"
  using assms by (simp add: conn_def wf_grp_def N_def nth_list_update)

lemma rsm_links_disconnect:
  assumes "rsm_links ts C" and "rtLeader ts < NSRV"
  shows "\<exists>ts'. disconnectLeader ts = Inr (ts', rtLeader ts) \<and> rsm_links ts' (C - {rtLeader ts}) \<and> rtLeader ts' = rtLeader ts"
proof -
  obtain sg where g: "cfgGroups (rtConfig ts) = [(GRP0, sg)]" "N sg = NSRV" "precise (cfgNet (rtConfig ts), sg)"
    "\<forall>a < NSRV. conn (cfgNet (rtConfig ts), sg) a \<longleftrightarrow> a \<in> C" using assms(1) by (auto simp: rsm_links_def)
  obtain net' sg' where d: "DisconnectAll (rtLeader ts) (cfgNet (rtConfig ts), sg) = Inr (net', sg')"
    using DisconnectAll_runs [of "rtLeader ts" sg "cfgNet (rtConfig ts)"] assms(2) g(2) by auto
  note law = DisconnectAll_law [OF g(3) d]
  have "N sg' = NSRV" using law(2) g(2) by (simp add: N_def)
  moreover have "\<forall>a < NSRV. conn (net', sg') a \<longleftrightarrow> a \<in> C - {rtLeader ts}"
    using conn_marked [OF preciseD(1) [OF g(3)] law(2), of _ net' "cfgNet (rtConfig ts)"] assms(2) g(2,4) by auto
  ultimately show ?thesis using d g(1) law(1) by (simp add: disconnectLeader_def onGroup_def lookupGroup_def rsm_links_def)
qed

lemma rsm_links_connect:
  assumes "rsm_links ts C" and "i < NSRV"
  shows "\<exists>ts'. rsm_connect i ts = Inr ts' \<and> rsm_links ts' (insert i C) \<and> rtLeader ts' = rtLeader ts"
proof -
  obtain sg where g: "cfgGroups (rtConfig ts) = [(GRP0, sg)]" "N sg = NSRV" "precise (cfgNet (rtConfig ts), sg)"
    "\<forall>a < NSRV. conn (cfgNet (rtConfig ts), sg) a \<longleftrightarrow> a \<in> C" using assms(1) by (auto simp: rsm_links_def)
  obtain net' sg' where d: "ConnectOne i (cfgNet (rtConfig ts), sg) = Inr (net', sg')"
    using ConnectOne_runs [of i sg "cfgNet (rtConfig ts)"] assms(2) g(2) by auto
  note m = ConnectOne_marks [OF d]
  have "N sg' = NSRV" using m g(2) by (simp add: N_def)
  moreover have "\<forall>a < NSRV. conn (net', sg') a \<longleftrightarrow> a \<in> insert i C"
    using conn_marked [OF preciseD(1) [OF g(3)] m, of _ net' "cfgNet (rtConfig ts)"] assms(2) g(2,4) by auto
  ultimately show ?thesis using d g(1) ConnectOne_precise [OF g(3) d]
    by (simp add: rsm_connect_def onGroup_def lookupGroup_def rsm_links_def)
qed

text \<open>
  A partition test of the replicated state machine. In a new test all three servers are connected and
  all counters are at 0. Disconnecting the leader works, and leaves exactly the other two servers able
  to send to each other; connecting it again brings back the links of the new test.
\<close>

theorem leader_cut_off_and_back:
  assumes "rsm_makeTest useRSM itoa nss names obj mx now = Inr ts" and "length nss = NSRV"
    and "\<forall>ns \<in> set nss. length ns = NSRV" and "\<And>i. i < NSRV \<Longrightarrow> length (names i) = NSRV" and "l < NSRV"
  shows "rsm_links ts {..<NSRV} \<and> (\<exists>ts1 ts2. disconnectLeader (ts\<lparr>rtLeader := l\<rparr>) = Inr (ts1, l) \<and>
    rsm_links ts1 ({..<NSRV} - {l}) \<and> rsm_connect l ts1 = Inr ts2 \<and> rsm_links ts2 {..<NSRV})"
proof -
  have a: "rsm_links ts {..<NSRV}" using rsm_made [OF assms(1-4)] by blast
  then have "rsm_links (ts\<lparr>rtLeader := l\<rparr>) {..<NSRV}" by (simp add: rsm_links_def)
  from rsm_links_disconnect [OF this] assms(5) obtain ts1 where b: "disconnectLeader (ts\<lparr>rtLeader := l\<rparr>) = Inr (ts1, l)"
    "rsm_links ts1 ({..<NSRV} - {l})" by auto
  from rsm_links_connect [OF b(2) assms(5)] obtain ts2 where "rsm_connect l ts1 = Inr ts2" "rsm_links ts2 {..<NSRV}"
    using assms(5) by (auto simp: insert_absorb)
  with a b show ?thesis by blast
qed

text \<open>
  A counter is restarted. When the harness shuts a server of the test down and starts it again, the
  peer of the new server has the term, the vote, the log and the snapshot index of the old one.
\<close>

lemmas counter_restarts = rsmsrv.restart_recovers

end
