(* ===== verification/Lock.thy ===== *)
theory Lock
  imports Kvsrv
begin

text \<open>
  The distributed lock (\<open>src/kvsrv1/lock/lock.go\<close>): clients that take and release a lock through a
  key of the key/value server, each call of the clerk going over the unreliable network.

  A client is a state machine at the granularity of RPCs: \<open>pc\<close> is the place in \<open>Acquire\<close> or
  \<open>Release\<close> (with the clerk's retry loop inlined), and a step is one server handler, one lost
  message, or the client's reaction to a reply. Handlers of different clients interleave freely,
  and other keys of the server may change at any time. The reactions are the definitions
  \<open>acquireGet\<close>, \<open>acquirePut\<close>, \<open>releaseGet\<close> and \<open>releasePut\<close>, one for each switch of the code.
\<close>

subsection \<open>Clients\<close>

datatype lockpc =
    Idle                                  \<comment> \<open>outside of a call\<close>
  | AcqGet                                \<comment> \<open>\<open>Acquire\<close>: the Get is on its way\<close>
  | AcqGot GetReply                       \<comment> \<open>its reply is on its way back\<close>
  | AcqPut Tversion bool                  \<comment> \<open>the Put of \<open>myID\<close>; has it been sent before?\<close>
  | AcqPutDone Tversion bool Err
  | RelGet
  | RelGot GetReply
  | RelPut Tversion bool                  \<comment> \<open>the Put of the empty string\<close>
  | RelPutDone Tversion bool Err

record LockState =
  name :: string
  owned :: bool
  myID :: string

record Lock =
  lockState :: LockState
  pc :: lockpc

definition MakeLock :: "string \<Rightarrow> string \<Rightarrow> Lock" where
  \<comment> \<open>the second argument is the random suffix\<close>
  "MakeLock l rand =
     \<lparr>lockState = \<lparr>name = l, owned = False, myID = ''lockclient'' @ rand\<rparr>, pc = Idle\<rparr>"

definition clerkErr :: "bool \<Rightarrow> Err \<Rightarrow> Err" where
  \<comment> \<open>what the clerk's Put returns when a reply arrives\<close>
  "clerkErr retry err = (if err = ErrVersion \<and> retry then ErrMaybe else err)"

definition acquireGet :: "Lock \<Rightarrow> GetReply \<Rightarrow> Lock" where
  "acquireGet lk r =
     (if gErr r = OK
      then (if gValue r = [] then lk\<lparr>pc := AcqPut (gVersion r) False\<rparr>
            else if gValue r = myID (lockState lk)
            then lk\<lparr>lockState := (lockState lk)\<lparr>owned := True\<rparr>, pc := Idle\<rparr>
            else lk\<lparr>pc := AcqGet\<rparr>)
      else if gErr r = ErrNoKey then lk\<lparr>pc := AcqPut 0 False\<rparr>
      else lk\<lparr>pc := AcqGet\<rparr>)"

definition acquirePut :: "Lock \<Rightarrow> Err \<Rightarrow> Lock" where
  \<comment> \<open>both switches do the same: done on \<open>OK\<close>, otherwise round the loop again\<close>
  "acquirePut lk err =
     (if err = OK then lk\<lparr>lockState := (lockState lk)\<lparr>owned := True\<rparr>, pc := Idle\<rparr>
      else lk\<lparr>pc := AcqGet\<rparr>)"

definition releaseStart :: "Lock \<Rightarrow> Lock" where
  "releaseStart lk = (if \<not> owned (lockState lk) then lk else lk\<lparr>pc := RelGet\<rparr>)"

definition releaseGet :: "Lock \<Rightarrow> GetReply \<Rightarrow> Lock" where
  "releaseGet lk r =
     (if gErr r = OK
      then (if gValue r = myID (lockState lk) then lk\<lparr>pc := RelPut (gVersion r) False\<rparr>
            else lk\<lparr>lockState := (lockState lk)\<lparr>owned := False\<rparr>, pc := Idle\<rparr>)
      else if gErr r = ErrNoKey
      then lk\<lparr>lockState := (lockState lk)\<lparr>owned := False\<rparr>, pc := Idle\<rparr>
      else lk\<lparr>pc := RelGet\<rparr>)"

definition releasePut :: "Lock \<Rightarrow> Err \<Rightarrow> Lock" where
  "releasePut lk err =
     (if err = OK then lk\<lparr>lockState := (lockState lk)\<lparr>owned := False\<rparr>, pc := Idle\<rparr>
      else if err = ErrMaybe then lk\<lparr>pc := RelGet\<rparr>
      else lk\<lparr>lockState := (lockState lk)\<lparr>owned := False\<rparr>, pc := Idle\<rparr>)"

subsection \<open>The system\<close>

record locks =
  server :: KVServer
  client :: "nat \<Rightarrow> Lock"

definition setClient :: "nat \<Rightarrow> Lock \<Rightarrow> locks \<Rightarrow> locks" where
  "setClient i lk s = s\<lparr>client := (client s)(i := lk)\<rparr>"

definition goto :: "nat \<Rightarrow> lockpc \<Rightarrow> locks \<Rightarrow> locks" where
  "goto i p s = setClient i ((client s i)\<lparr>pc := p\<rparr>) s"

definition init_locks :: "string \<Rightarrow> (nat \<Rightarrow> string) \<Rightarrow> locks" where
  "init_locks l rand = \<lparr>server = MakeKVServer, client = (\<lambda>i. MakeLock l (rand i))\<rparr>"

definition lockPut :: "locks \<Rightarrow> nat \<Rightarrow> string \<Rightarrow> Tversion \<Rightarrow> KVServer \<times> Err" where
  "lockPut s i v ver = Put (server s) \<lparr>pKey = name (lockState (client s i)), pValue = v, pVersion = ver\<rparr>"

inductive lock_step :: "locks \<Rightarrow> locks \<Rightarrow> bool" where
  acquire: "pc (client s i) = Idle \<Longrightarrow> lock_step s (goto i AcqGet s)"
| acq_get: "pc (client s i) = AcqGet \<Longrightarrow>
    lock_step s (goto i (AcqGot (Get (server s) (name (lockState (client s i))))) s)"
| acq_get_lost: "pc (client s i) = AcqGot r \<Longrightarrow> lock_step s (goto i AcqGet s)"
| acq_got: "pc (client s i) = AcqGot r \<Longrightarrow> lock_step s (setClient i (acquireGet (client s i) r) s)"
| acq_put: "pc (client s i) = AcqPut ver retry \<Longrightarrow>
    lockPut s i (myID (lockState (client s i))) ver = (kv, err) \<Longrightarrow>
    lock_step s ((goto i (AcqPutDone ver retry err) s)\<lparr>server := kv\<rparr>)"
| acq_put_lost: "pc (client s i) = AcqPut ver retry \<Longrightarrow> lock_step s (goto i (AcqPut ver True) s)"
| acq_reply_lost: "pc (client s i) = AcqPutDone ver retry err \<Longrightarrow> lock_step s (goto i (AcqPut ver True) s)"
| acq_put_done: "pc (client s i) = AcqPutDone ver retry err \<Longrightarrow>
    lock_step s (setClient i (acquirePut (client s i) (clerkErr retry err)) s)"
| release: "pc (client s i) = Idle \<Longrightarrow> lock_step s (setClient i (releaseStart (client s i)) s)"
| rel_get: "pc (client s i) = RelGet \<Longrightarrow>
    lock_step s (goto i (RelGot (Get (server s) (name (lockState (client s i))))) s)"
| rel_get_lost: "pc (client s i) = RelGot r \<Longrightarrow> lock_step s (goto i RelGet s)"
| rel_got: "pc (client s i) = RelGot r \<Longrightarrow> lock_step s (setClient i (releaseGet (client s i) r) s)"
| rel_put: "pc (client s i) = RelPut ver retry \<Longrightarrow> lockPut s i [] ver = (kv, err) \<Longrightarrow>
    lock_step s ((goto i (RelPutDone ver retry err) s)\<lparr>server := kv\<rparr>)"
| rel_put_lost: "pc (client s i) = RelPut ver retry \<Longrightarrow> lock_step s (goto i (RelPut ver True) s)"
| rel_reply_lost: "pc (client s i) = RelPutDone ver retry err \<Longrightarrow> lock_step s (goto i (RelPut ver True) s)"
| rel_put_done: "pc (client s i) = RelPutDone ver retry err \<Longrightarrow>
    lock_step s (setClient i (releasePut (client s i) (clerkErr retry err)) s)"
| other_put: "\<forall>i. pKey a \<noteq> name (lockState (client s i)) \<Longrightarrow> lock_step s (s\<lparr>server := fst (Put (server s) a)\<rparr>)"

inductive lock_run :: "string \<Rightarrow> (nat \<Rightarrow> string) \<Rightarrow> nat \<Rightarrow> locks \<Rightarrow> bool" for l rand where
  lock_init: "lock_run l rand 0 (init_locks l rand)"
| lock_next: "lock_run l rand k s \<Longrightarrow> lock_step s s' \<Longrightarrow> lock_run l rand (Suc k) s'"

subsection \<open>What a client knows\<close>

definition valOf :: "KVServer \<Rightarrow> string \<Rightarrow> string" where
  "valOf kv key = ksValue (absKv kv key)"

definition avail :: "string \<Rightarrow> Tversion \<Rightarrow> Tversion \<Rightarrow> bool" where
  \<comment> \<open>a put at version \<open>v\<close> is stale, or the lock is free\<close>
  "avail val cur v \<longleftrightarrow> unat v < unat cur \<or> v = cur \<and> val = []"

definition knows :: "string \<Rightarrow> string \<Rightarrow> Tversion \<Rightarrow> bool \<Rightarrow> lockpc \<Rightarrow> bool" where
  \<comment> \<open>what holds of the lock's value and version while the client \<open>self\<close> is at a place\<close>
  "knows self val cur own p =
     (case p of
        Idle \<Rightarrow> own \<longleftrightarrow> val = self
      | AcqGet \<Rightarrow> own \<longrightarrow> val = self
      | AcqGot r \<Rightarrow> (own \<longrightarrow> val = self) \<and>
          (gErr r = OK \<and> gValue r = self \<and> val = self \<or>
           gErr r = OK \<and> gValue r = [] \<and> \<not> own \<and> avail val cur (gVersion r) \<or>
           gErr r = OK \<and> gValue r \<noteq> self \<and> gValue r \<noteq> [] \<and> \<not> own \<or>
           gErr r = ErrNoKey \<and> \<not> own \<and> avail val cur 0)
      | AcqPut v retry \<Rightarrow> \<not> own \<and> avail val cur v
      | AcqPutDone v retry err \<Rightarrow> \<not> own \<and> unat v < unat cur \<and> (err = OK \<longrightarrow> val = self)
      | RelGet \<Rightarrow> True
      | RelGot r \<Rightarrow> gErr r = OK \<and> gValue r = self \<and> gVersion r = cur \<and> val = self \<or>
          (gErr r = OK \<and> gValue r \<noteq> self \<or> gErr r = ErrNoKey) \<and> val \<noteq> self
      | RelPut v retry \<Rightarrow> v = cur \<and> val = self \<or> unat v < unat cur \<and> val \<noteq> self \<and> retry
      | RelPutDone v retry err \<Rightarrow> unat v < unat cur \<and> val \<noteq> self \<and> (err = OK \<or> err = ErrVersion \<and> retry))"

text \<open>A put of another client does not disturb it: the value was not \<open>self\<close> and is not afterwards.\<close>

lemma knows_other:
  assumes "knows self val cur own p" and "val \<noteq> self" and "val' \<noteq> self" and "unat cur < unat cur'"
  shows "knows self val' cur' own p"
  using assms by (cases p) (auto simp: knows_def avail_def)

definition lock_inv :: "string \<Rightarrow> (nat \<Rightarrow> string) \<Rightarrow> nat \<Rightarrow> locks \<Rightarrow> bool" where
  "lock_inv l rand k s \<longleftrightarrow> unat (verOf (server s) l) \<le> k \<and>
     (\<forall>i. name (lockState (client s i)) = l \<and> myID (lockState (client s i)) = ''lockclient'' @ rand i \<and>
          knows (''lockclient'' @ rand i) (valOf (server s) l) (verOf (server s) l)
                (owned (lockState (client s i))) (pc (client s i)))"

lemma lock_inv_own:
  assumes "lock_inv l rand k s"
    and "name (lockState lk) = l" "myID (lockState lk) = ''lockclient'' @ rand i"
    and "knows (''lockclient'' @ rand i) (valOf (server s) l) (verOf (server s) l) (owned (lockState lk)) (pc lk)"
  shows "lock_inv l rand (Suc k) (setClient i lk s)"
  using assms by (auto simp: lock_inv_def setClient_def)

lemma lock_inv_goto:
  assumes "lock_inv l rand k s"
    and "knows (''lockclient'' @ rand i) (valOf (server s) l) (verOf (server s) l) (owned (lockState (client s i))) p"
  shows "lock_inv l rand (Suc k) (goto i p s)"
  unfolding goto_def using assms by (intro lock_inv_own) (auto simp: lock_inv_def)

lemma lock_invD:
  assumes "lock_inv l rand k s"
  shows "name (lockState (client s i)) = l" "myID (lockState (client s i)) = ''lockclient'' @ rand i"
    "knows (''lockclient'' @ rand i) (valOf (server s) l) (verOf (server s) l) (owned (lockState (client s i))) (pc (client s i))"
    "unat (verOf (server s) l) \<le> k"
  using assms by (simp_all add: lock_inv_def)

lemma valOf_simps: "valOf kv key = (case kvStore kv key of None \<Rightarrow> [] | Some v \<Rightarrow> Value v)"
  by (simp add: valOf_def absKv_def KvModel_Init_def split: option.splits)

text \<open>The effect of a put on the lock's key.\<close>

lemma Put_lock:
  assumes "Put kv \<lparr>pKey = l, pValue = v, pVersion = ver\<rparr> = (kv', err)" and "unat (verOf kv l) + 1 < 2 ^ 64"
  obtains (hit) "ver = verOf kv l" "err = OK" "valOf kv' l = v" "unat (verOf kv' l) = unat (verOf kv l) + 1"
  | (miss) "ver \<noteq> verOf kv l" "err \<noteq> OK" "kv' = kv" "unat ver < unat (verOf kv l) \<Longrightarrow> err = ErrVersion"
proof (cases "verOf kv l = ver")
  case True
  then have "unat (ver + 1) = unat (verOf kv l) + 1" using assms(2) by (simp add: unat_word_ariths)
  moreover have "err = OK" "valOf kv' l = v" "verOf kv' l = ver + 1"
    using assms(1) True by (auto simp: Put_def valOf_simps verOf_simps split: option.splits if_splits)
  ultimately show ?thesis using hit True by simp
next
  case False
  then have "err \<noteq> OK" "kv' = kv" "unat ver < unat (verOf kv l) \<Longrightarrow> err = ErrVersion"
    using assms(1) by (auto simp: Put_def verOf_simps split: option.splits if_splits)
  then show ?thesis using miss False by metis
qed

lemma lock_inv_put:
  assumes inv: "lock_inv l rand k s" and small: "Suc k < 2 ^ 64"
    and put: "Put (server s) \<lparr>pKey = l, pValue = v, pVersion = ver\<rparr> = (kv, err)"
    and others: "\<And>j. ver = verOf (server s) l \<Longrightarrow> j \<noteq> i \<Longrightarrow>
        valOf (server s) l \<noteq> ''lockclient'' @ rand j \<and> v \<noteq> ''lockclient'' @ rand j"
    and own: "knows (''lockclient'' @ rand i) (valOf kv l) (verOf kv l) (owned (lockState (client s i))) p"
  shows "lock_inv l rand (Suc k) ((goto i p s)\<lparr>server := kv\<rparr>)"
proof -
  note d = lock_invD [OF inv]
  have room: "unat (verOf (server s) l) + 1 < 2 ^ 64" using d(4) small by simp
  have keep: "unat (verOf kv l) \<le> Suc k \<and> (\<forall>j. j \<noteq> i \<longrightarrow> knows (''lockclient'' @ rand j) (valOf kv l) (verOf kv l)
      (owned (lockState (client s j))) (pc (client s j)))"
    using put room
  proof (cases rule: Put_lock)
    case hit
    have "knows (''lockclient'' @ rand j) (valOf kv l) (verOf kv l) (owned (lockState (client s j))) (pc (client s j))"
      if "j \<noteq> i" for j
      using knows_other [OF d(3) [of j], of "valOf kv l" "verOf kv l"] others [OF hit(1) that] hit(3,4) by simp
    then show ?thesis using hit(4) d(4) by simp
  next
    case miss
    then show ?thesis using d(3,4) by simp
  qed
  show ?thesis unfolding lock_inv_def
  proof (intro conjI allI)
    fix j
    show "name (lockState (client ((goto i p s)\<lparr>server := kv\<rparr>) j)) = l"
      "myID (lockState (client ((goto i p s)\<lparr>server := kv\<rparr>) j)) = ''lockclient'' @ rand j"
      using d(1,2) by (simp_all add: goto_def setClient_def)
    show "knows (''lockclient'' @ rand j) (valOf (server ((goto i p s)\<lparr>server := kv\<rparr>)) l)
        (verOf (server ((goto i p s)\<lparr>server := kv\<rparr>)) l)
        (owned (lockState (client ((goto i p s)\<lparr>server := kv\<rparr>) j))) (pc (client ((goto i p s)\<lparr>server := kv\<rparr>) j))"
      using keep own by (cases "j = i") (simp_all add: goto_def setClient_def)
  qed (use keep in simp)
qed

lemma acq_put_inv:
  assumes inv: "lock_inv l rand k s" and small: "Suc k < 2 ^ 64" and inj: "inj rand"
    and at: "pc (client s i) = AcqPut ver retry"
    and put: "lockPut s i (myID (lockState (client s i))) ver = (kv, err)"
  shows "lock_inv l rand (Suc k) ((goto i (AcqPutDone ver retry err) s)\<lparr>server := kv\<rparr>)"
proof -
  let ?id = "''lockclient'' @ rand i"
  note d = lock_invD [OF inv]
  have kn: "\<not> owned (lockState (client s i))" "avail (valOf (server s) l) (verOf (server s) l) ver"
    using d(3) [of i] at by (simp_all add: knows_def)
  have p: "Put (server s) \<lparr>pKey = l, pValue = ?id, pVersion = ver\<rparr> = (kv, err)"
    using put d(1,2) by (simp add: lockPut_def)
  have room: "unat (verOf (server s) l) + 1 < 2 ^ 64" using d(4) small by simp
  have own: "knows ?id (valOf kv l) (verOf kv l) (owned (lockState (client s i))) (AcqPutDone ver retry err)"
    using p room
  proof (cases rule: Put_lock)
    case hit
    then show ?thesis using kn by (simp add: knows_def)
  next
    case miss
    then show ?thesis using kn by (simp add: knows_def avail_def)
  qed
  show ?thesis
  proof (rule lock_inv_put [OF inv small p _ own])
    fix j assume "ver = verOf (server s) l" "j \<noteq> i"
    then show "valOf (server s) l \<noteq> ''lockclient'' @ rand j \<and> ?id \<noteq> ''lockclient'' @ rand j"
      using kn(2) inj by (auto simp: avail_def inj_def)
  qed
qed

lemma rel_put_inv:
  assumes inv: "lock_inv l rand k s" and small: "Suc k < 2 ^ 64" and inj: "inj rand"
    and at: "pc (client s i) = RelPut ver retry"
    and put: "lockPut s i [] ver = (kv, err)"
  shows "lock_inv l rand (Suc k) ((goto i (RelPutDone ver retry err) s)\<lparr>server := kv\<rparr>)"
proof -
  let ?id = "''lockclient'' @ rand i"
  note d = lock_invD [OF inv]
  have kn: "ver = verOf (server s) l \<and> valOf (server s) l = ?id \<or>
      unat ver < unat (verOf (server s) l) \<and> valOf (server s) l \<noteq> ?id \<and> retry"
    using d(3) [of i] at by (simp add: knows_def)
  have p: "Put (server s) \<lparr>pKey = l, pValue = [], pVersion = ver\<rparr> = (kv, err)"
    using put d(1) by (simp add: lockPut_def)
  have room: "unat (verOf (server s) l) + 1 < 2 ^ 64" using d(4) small by simp
  have own: "knows ?id (valOf kv l) (verOf kv l) (owned (lockState (client s i))) (RelPutDone ver retry err)"
    using p room
  proof (cases rule: Put_lock)
    case hit
    then show ?thesis by (simp add: knows_def)
  next
    case miss
    then show ?thesis using kn by (auto simp: knows_def)
  qed
  show ?thesis
  proof (rule lock_inv_put [OF inv small p _ own])
    fix j assume "ver = verOf (server s) l" "j \<noteq> i"
    then show "valOf (server s) l \<noteq> ''lockclient'' @ rand j \<and> [] \<noteq> ''lockclient'' @ rand j"
      using kn inj by (auto simp: inj_def)
  qed
qed

lemma Get_lock:
  "Get kv l = (if kvStore kv l = None then \<lparr>gValue = [], gVersion = 0, gErr = ErrNoKey\<rparr>
               else \<lparr>gValue = valOf kv l, gVersion = verOf kv l, gErr = OK\<rparr>)"
  by (auto simp: Get_def valOf_simps verOf_simps split: option.splits)

lemma absent_lock: "kvStore kv l = None \<Longrightarrow> valOf kv l = [] \<and> verOf kv l = 0"
  by (simp add: valOf_simps verOf_simps)

lemma lock_step_inv:
  assumes "lock_step s s'" and "lock_inv l rand k s" and "Suc k < 2 ^ 64" and "inj rand"
  shows "lock_inv l rand (Suc k) s'"
  using assms
proof (induction rule: lock_step.induct)
  case (acquire s i)
  then show ?case using lock_invD(3) [OF acquire(2), of i] by (auto intro: lock_inv_goto simp: knows_def)
next
  case (acq_get s i)
  then show ?case using lock_invD(1,3) [OF acq_get(2), of i] absent_lock [of "server s" l]
    by (intro lock_inv_goto) (auto simp: knows_def Get_lock avail_def)
next
  case (acq_get_lost s i r)
  then show ?case using lock_invD(3) [OF acq_get_lost(2), of i] by (auto intro: lock_inv_goto simp: knows_def)
next
  case (acq_got s i r)
  note d = lock_invD(1-3) [OF acq_got(2), of i]
  show ?case using d acq_got
    by (intro lock_inv_own) (auto simp: acquireGet_def knows_def)
next
  case (acq_put s i ver retry kv err)
  then show ?case by (intro acq_put_inv)
next
  case (acq_put_lost s i ver retry)
  then show ?case using lock_invD(3) [OF acq_put_lost(2), of i] by (auto intro: lock_inv_goto simp: knows_def)
next
  case (acq_reply_lost s i ver retry err)
  then show ?case using lock_invD(3) [OF acq_reply_lost(2), of i] by (auto intro: lock_inv_goto simp: knows_def avail_def)
next
  case (acq_put_done s i ver retry err)
  note d = lock_invD(1-3) [OF acq_put_done(2), of i]
  show ?case using d acq_put_done
    by (intro lock_inv_own) (auto simp: acquirePut_def clerkErr_def knows_def)
next
  case (release s i)
  note d = lock_invD(1-3) [OF release(2), of i]
  show ?case using d release
    by (intro lock_inv_own) (auto simp: releaseStart_def knows_def)
next
  case (rel_get s i)
  then show ?case using lock_invD(1,3) [OF rel_get(2), of i] absent_lock [of "server s" l]
    by (intro lock_inv_goto) (auto simp: knows_def Get_lock)
next
  case (rel_get_lost s i r)
  then show ?case by (auto intro: lock_inv_goto simp: knows_def)
next
  case (rel_got s i r)
  note d = lock_invD(1-3) [OF rel_got(2), of i]
  show ?case using d rel_got
    by (intro lock_inv_own) (auto simp: releaseGet_def knows_def)
next
  case (rel_put s i ver retry kv err)
  then show ?case by (intro rel_put_inv)
next
  case (rel_put_lost s i ver retry)
  then show ?case using lock_invD(3) [OF rel_put_lost(2), of i] by (auto intro: lock_inv_goto simp: knows_def)
next
  case (rel_reply_lost s i ver retry err)
  then show ?case using lock_invD(3) [OF rel_reply_lost(2), of i] by (auto intro: lock_inv_goto simp: knows_def)
next
  case (rel_put_done s i ver retry err)
  note d = lock_invD(1-3) [OF rel_put_done(2), of i]
  show ?case using d rel_put_done
    by (intro lock_inv_own) (auto simp: releasePut_def clerkErr_def knows_def)
next
  case (other_put a s)
  have "kvStore (fst (Put (server s) a)) l = kvStore (server s) l"
    using other_put(1) lock_invD(1) [OF other_put(2)] by (auto simp: Put_def split: option.splits)
  then have "valOf (fst (Put (server s) a)) l = valOf (server s) l" "verOf (fst (Put (server s) a)) l = verOf (server s) l"
    by (simp_all add: valOf_simps verOf_simps)
  with other_put(2) show ?case by (simp add: lock_inv_def)
qed

lemma init_locks_inv: "lock_inv l rand 0 (init_locks l rand)"
  by (simp add: lock_inv_def init_locks_def MakeLock_def knows_def valOf_simps verOf_simps MakeKVServer_def)

lemma lock_run_inv:
  assumes "lock_run l rand k s" and "k < 2 ^ 64" and "inj rand"
  shows "lock_inv l rand k s"
  using assms
proof (induction rule: lock_run.induct)
  case lock_init
  show ?case by (rule init_locks_inv)
next
  case (lock_next k s s')
  then show ?case by (intro lock_step_inv [OF lock_next(2)]) simp_all
qed

subsection \<open>Mutual exclusion\<close>

definition holds :: "locks \<Rightarrow> nat \<Rightarrow> bool" where
  \<comment> \<open>\<open>Acquire\<close> has returned and \<open>Release\<close> has not been called since\<close>
  "holds s i \<longleftrightarrow> pc (client s i) = Idle \<and> owned (lockState (client s i))"

definition ex_rand :: "nat \<Rightarrow> string" where
  "ex_rand i = replicate i CHR ''a''"

lemma inj_ex_rand: "inj ex_rand"
  by (intro injI) (metis ex_rand_def length_replicate)

lemma solo_acquire: "\<exists>s. lock_run l rand 5 s \<and> holds s 0"
proof -
  let ?s0 = "init_locks l rand" and ?id = "''lockclient'' @ rand 0"
  let ?s1 = "goto 0 AcqGet ?s0"
  let ?s2 = "goto 0 (AcqGot \<lparr>gValue = [], gVersion = 0, gErr = ErrNoKey\<rparr>) ?s1"
  let ?s3 = "setClient 0 (acquireGet (client ?s2 0) \<lparr>gValue = [], gVersion = 0, gErr = ErrNoKey\<rparr>) ?s2"
  let ?kv = "\<lparr>kvStore = [l \<mapsto> \<lparr>Value = ?id, Version = 1\<rparr>]\<rparr>"
  let ?s4 = "(goto 0 (AcqPutDone 0 False OK) ?s3)\<lparr>server := ?kv\<rparr>"
  let ?s5 = "setClient 0 (acquirePut (client ?s4 0) (clerkErr False OK)) ?s4"
  note unf = goto_def setClient_def init_locks_def MakeLock_def acquireGet_def acquirePut_def clerkErr_def
  have 1: "lock_step ?s0 ?s1" by (rule lock_step.acquire) (simp add: unf)
  have g: "Get (server ?s1) (name (lockState (client ?s1 0))) = \<lparr>gValue = [], gVersion = 0, gErr = ErrNoKey\<rparr>"
    by (simp add: unf Get_def MakeKVServer_def)
  have 2: "lock_step ?s1 ?s2" using lock_step.acq_get [of ?s1 0, unfolded g] by (simp add: unf)
  have 3: "lock_step ?s2 ?s3" by (rule lock_step.acq_got) (simp add: unf)
  have 4: "lock_step ?s3 ?s4"
    by (rule lock_step.acq_put) (simp_all add: unf lockPut_def Put_def MakeKVServer_def)
  have 5: "lock_step ?s4 ?s5" by (rule lock_step.acq_put_done [of _ _ 0 False]) (simp add: unf)
  have "lock_run l rand (Suc (Suc (Suc (Suc (Suc 0))))) ?s5"
    by (intro lock_next [OF _ 5] lock_next [OF _ 4] lock_next [OF _ 3] lock_next [OF _ 2] lock_next [OF _ 1] lock_init)
  moreover have "holds ?s5 0" by (simp add: holds_def unf)
  moreover have "Suc (Suc (Suc (Suc (Suc 0)))) = 5" by simp
  ultimately show ?thesis by (metis (no_types))
qed

text \<open>
  Property C11 (mutual exclusion). Over every interleaving of \<open>Acquire\<close> and \<open>Release\<close> calls of any
  number of clients with different identities, with requests and replies lost at will, at most one
  client holds the lock. (The run is shorter than the \<open>2 ^ 64\<close> puts after which a version returns.)
\<close>

theorem mutual_exclusion:
  assumes "lock_run l rand k s" and "k < 2 ^ 64" and "inj rand" and "holds s i" and "holds s j"
  shows "i = j"
  using lock_invD(3) [OF lock_run_inv [OF assms(1-3)], of i] lock_invD(3) [OF lock_run_inv [OF assms(1-3)], of j]
    assms(3-5) by (auto simp: knows_def holds_def inj_def)

theorem mutual_exclusion_witness:
  "\<exists>s. lock_run ''l'' ex_rand 5 s \<and> holds s 0 \<and> \<not> holds s 1"
proof -
  obtain s where s: "lock_run ''l'' ex_rand 5 s" "holds s 0" using solo_acquire by blast
  with mutual_exclusion [OF s(1) _ inj_ex_rand s(2), of 1] show ?thesis by auto
qed

text \<open>
  The server agrees with the clients. Between calls, a client holds the lock exactly
  when the server's entry for the lock carries the client's identity: \<open>Acquire\<close> returns only with
  the lock, also when it had to find out whether its own put had been applied, and \<open>Release\<close> never
  leaves the lock behind.
\<close>

theorem lock_matches_server:
  assumes "lock_run l rand k s" and "k < 2 ^ 64" and "inj rand" and "pc (client s i) = Idle"
  shows "owned (lockState (client s i)) \<longleftrightarrow> valOf (server s) l = ''lockclient'' @ rand i"
  using lock_invD(3) [OF lock_run_inv [OF assms(1-3)], of i] assms(4) by (simp add: knows_def)

theorem lock_matches_server_witness:
  "\<exists>s. lock_run ''l'' ex_rand 5 s \<and> valOf (server s) ''l'' = ''lockclient''"
proof -
  obtain s where s: "lock_run ''l'' ex_rand 5 s" "holds s 0" using solo_acquire by blast
  with lock_matches_server [OF s(1) _ inj_ex_rand, of 0] show ?thesis
    by (auto simp: holds_def ex_rand_def)
qed

end
