(* ===== verification/Kvtest.thy ===== *)
theory Kvtest
  imports Lock
begin

text \<open>
  The key/value test harness (\<open>src/kvtest1/kvtest.go\<close> and \<open>src/kvtest1/porcupine.go\<close>): the log of
  operations that is checked for linearizability, clients that race to put values, and the checks
  of the values and versions they leave behind.

  A client of \<open>OneClientPut\<close> is a state machine at the granularity of RPCs, as in \<open>Lock\<close>: a step is
  one handler of the server, one lost message, or the client's reaction to a reply. Messages are
  lost on an unreliable network only. \<open>Fatalf\<close> is the stop \<open>LogFatal\<close>. The JSON text of a value is a
  pair of parameters, \<open>enc\<close> and \<open>dec\<close>, of which the theorems assume that \<open>dec\<close> undoes \<open>enc\<close>. The
  signal that ends a client arrives at any time.
\<close>

subsection \<open>The log of operations\<close>

record operation =
  opInput :: KvInput
  opOutput :: KvOutput
  opCall :: int
  opReturn :: int
  ClientId :: int

type_synonym OpLog = "operation list"

definition Len :: "OpLog \<Rightarrow> nat" where
  "Len log = length log"

definition Append :: "OpLog \<Rightarrow> operation \<Rightarrow> OpLog" where
  "Append log op = log @ [op]"

definition Read :: "OpLog \<Rightarrow> operation list" where
  "Read log = log"

record kvtest =
  oplog :: "OpLog option"
  ops :: "32 word"     \<comment> \<open>the counter of the configuration\<close>

definition Op :: "kvtest \<Rightarrow> kvtest" where
  "Op ts = ts\<lparr>ops := ops ts + 1\<rparr>"

definition logOp :: "operation \<Rightarrow> kvtest \<Rightarrow> kvtest" where
  "logOp op ts = (case oplog ts of None \<Rightarrow> ts | Some log \<Rightarrow> ts\<lparr>oplog := Some (Append log op)\<rparr>)"

definition Test_Get :: "string \<Rightarrow> int \<Rightarrow> int \<Rightarrow> int \<Rightarrow> GetReply \<Rightarrow> kvtest \<Rightarrow> kvtest \<times> GetReply" where
  \<comment> \<open>\<open>start\<close> and \<open>end\<close> are read from the clock around the clerk's call, \<open>r\<close> is the clerk's answer\<close>
  "Test_Get key cli t0 t1 r ts =
     (logOp \<lparr>opInput = \<lparr>kiOp = 0, kiKey = key, kiValue = [], kiVersion = 0\<rparr>,
             opOutput = \<lparr>koValue = gValue r, koVersion = gVersion r, koErr = gErr r\<rparr>,
             opCall = t0, opReturn = t1, ClientId = cli\<rparr> (Op ts), r)"

definition Test_Put :: "string \<Rightarrow> string \<Rightarrow> Tversion \<Rightarrow> int \<Rightarrow> int \<Rightarrow> int \<Rightarrow> Err \<Rightarrow> kvtest \<Rightarrow> kvtest \<times> Err" where
  "Test_Put key value version cli t0 t1 err ts =
     (logOp \<lparr>opInput = \<lparr>kiOp = 1, kiKey = key, kiValue = value, kiVersion = version\<rparr>,
             opOutput = \<lparr>koValue = [], koVersion = 0, koErr = err\<rparr>,
             opCall = t0, opReturn = t1, ClientId = cli\<rparr> (Op ts), err)"

subsection \<open>Checks\<close>

definition CheckGet :: "string \<Rightarrow> Tversion \<Rightarrow> GetReply \<Rightarrow> unit go" where
  "CheckGet value version r =
     (if gErr r \<noteq> OK then Inl LogFatal
      else if gValue r \<noteq> value \<or> gVersion r \<noteq> version then Inl LogFatal else Inr ())"

record ClntRes =
  Nok :: int
  Nmaybe :: int

definition addRes :: "ClntRes \<Rightarrow> ClntRes \<Rightarrow> ClntRes" where
  "addRes r res = res\<lparr>Nok := Nok res + Nok r, Nmaybe := Nmaybe res + Nmaybe r\<rparr>"

definition CheckPutConcurrent :: "Tversion \<Rightarrow> ClntRes list \<Rightarrow> ClntRes \<Rightarrow> bool \<Rightarrow> ClntRes go" where
  \<comment> \<open>\<open>ver0\<close> is the version that \<open>GetJson\<close> returns; the conversions to \<open>uint64\<close> wrap\<close>
  "CheckPutConcurrent ver0 rs res reliable =
     (let res1 = fold addRes rs res in
      if reliable then (if ver0 \<noteq> word_of_int (Nok res1) then Inl LogFatal else Inr res1)
      else if ver0 > word_of_int (Nok res1 + Nmaybe res1) then Inl LogFatal else Inr res1)"

definition GetJson :: "(string \<Rightarrow> 'v option) \<Rightarrow> GetReply \<Rightarrow> (Tversion \<times> 'v) go" where
  "GetJson dec r =
     (if gErr r = OK then (case dec (gValue r) of None \<Rightarrow> Inl LogFatal | Some v \<Rightarrow> Inr (gVersion r, v))
      else Inl LogFatal)"

subsection \<open>Clients that race to put\<close>

record EntryV =
  evId :: nat
  evV :: Tversion

datatype putpc =
    PIter                       \<comment> \<open>between two calls of \<open>OnePut\<close>\<close>
  | PPut bool                   \<comment> \<open>the Put is on its way; has it been sent before?\<close>
  | PPutDone bool Err           \<comment> \<open>its reply is on its way back\<close>
  | PGet Err                    \<comment> \<open>the Put has returned, the Get is on its way\<close>
  | PGot Err GetReply
  | PStop

record putclnt =
  pver :: Tversion
  pres :: ClntRes
  ppc :: putpc

definition countPut :: "bool \<Rightarrow> putclnt \<Rightarrow> putclnt" where
  \<comment> \<open>the end of a round of \<open>OneClientPut\<close>\<close>
  "countPut ok c = c\<lparr>pres := (if ok then (pres c)\<lparr>Nok := Nok (pres c) + 1\<rparr> else (pres c)\<lparr>Nmaybe := Nmaybe (pres c) + 1\<rparr>),
     ppc := PIter\<rparr>"

definition onePutErr :: "Err \<Rightarrow> putclnt \<Rightarrow> putclnt go" where
  "onePutErr err c = (if \<not> (err = OK \<or> err = ErrVersion \<or> err = ErrMaybe) then Inl LogFatal else Inr (c\<lparr>ppc := PGet err\<rparr>))"

definition onePutGot :: "(string \<Rightarrow> EntryV option) \<Rightarrow> nat \<Rightarrow> Err \<Rightarrow> GetReply \<Rightarrow> putclnt \<Rightarrow> putclnt go" where
  "onePutGot dec me err r c =
     go_bind (GetJson dec r) (\<lambda>(ver0, e).
       if err = OK \<and> ver0 = pver c + 1 \<and> evId e \<noteq> me \<and> evV e \<noteq> pver c then Inl LogFatal
       else let c1 = c\<lparr>pver := ver0\<rparr> in
            if err = OK \<or> err = ErrMaybe then Inr (countPut (err = OK) c1)
            else Inr (c1\<lparr>ppc := PPut False\<rparr>))"

record putsys =
  psServer :: KVServer
  psClnt :: "nat \<Rightarrow> putclnt"

definition init_put :: putsys where
  "init_put = \<lparr>psServer = MakeKVServer, psClnt = (\<lambda>_. \<lparr>pver = 0, pres = \<lparr>Nok = 0, Nmaybe = 0\<rparr>, ppc = PIter\<rparr>)\<rparr>"

definition setP :: "nat \<Rightarrow> putclnt \<Rightarrow> putsys \<Rightarrow> putsys" where
  "setP i c s = s\<lparr>psClnt := (psClnt s)(i := c)\<rparr>"

definition gotoP :: "nat \<Rightarrow> putpc \<Rightarrow> putsys \<Rightarrow> putsys" where
  "gotoP i p s = setP i ((psClnt s i)\<lparr>ppc := p\<rparr>) s"

inductive put_step :: "bool \<Rightarrow> nat \<Rightarrow> (EntryV \<Rightarrow> string) \<Rightarrow> (string \<Rightarrow> EntryV option) \<Rightarrow> string \<Rightarrow> putsys \<Rightarrow> putsys \<Rightarrow> bool"
  for rel n enc dec key where
  p_done: "i < n \<Longrightarrow> ppc (psClnt s i) = PIter \<Longrightarrow> put_step rel n enc dec key s (gotoP i PStop s)"
| p_iter: "i < n \<Longrightarrow> ppc (psClnt s i) = PIter \<Longrightarrow> put_step rel n enc dec key s (gotoP i (PPut False) s)"
| p_put: "i < n \<Longrightarrow> ppc (psClnt s i) = PPut retry \<Longrightarrow>
    Put (psServer s) \<lparr>pKey = key, pValue = enc \<lparr>evId = i, evV = pver (psClnt s i)\<rparr>, pVersion = pver (psClnt s i)\<rparr> = (kv, err) \<Longrightarrow>
    put_step rel n enc dec key s ((gotoP i (PPutDone retry err) s)\<lparr>psServer := kv\<rparr>)"
| p_put_lost: "\<not> rel \<Longrightarrow> i < n \<Longrightarrow> ppc (psClnt s i) = PPut retry \<Longrightarrow> put_step rel n enc dec key s (gotoP i (PPut True) s)"
| p_reply_lost: "\<not> rel \<Longrightarrow> i < n \<Longrightarrow> ppc (psClnt s i) = PPutDone retry err \<Longrightarrow> put_step rel n enc dec key s (gotoP i (PPut True) s)"
| p_put_done: "i < n \<Longrightarrow> ppc (psClnt s i) = PPutDone retry err \<Longrightarrow> onePutErr (clerkErr retry err) (psClnt s i) = Inr c' \<Longrightarrow>
    put_step rel n enc dec key s (setP i c' s)"
| p_get: "i < n \<Longrightarrow> ppc (psClnt s i) = PGet err \<Longrightarrow> put_step rel n enc dec key s (gotoP i (PGot err (Get (psServer s) key)) s)"
| p_get_lost: "\<not> rel \<Longrightarrow> i < n \<Longrightarrow> ppc (psClnt s i) = PGot err r \<Longrightarrow> put_step rel n enc dec key s (gotoP i (PGet err) s)"
| p_got: "i < n \<Longrightarrow> ppc (psClnt s i) = PGot err r \<Longrightarrow> onePutGot dec i err r (psClnt s i) = Inr c' \<Longrightarrow>
    put_step rel n enc dec key s (setP i c' s)"
| p_other: "pKey a \<noteq> key \<Longrightarrow> put_step rel n enc dec key s (s\<lparr>psServer := fst (Put (psServer s) a)\<rparr>)"

inductive put_run :: "bool \<Rightarrow> nat \<Rightarrow> (EntryV \<Rightarrow> string) \<Rightarrow> (string \<Rightarrow> EntryV option) \<Rightarrow> string \<Rightarrow> nat \<Rightarrow> putsys \<Rightarrow> bool"
  for rel n enc dec key where
  put_init: "put_run rel n enc dec key 0 init_put"
| put_next: "put_run rel n enc dec key k s \<Longrightarrow> put_step rel n enc dec key s s' \<Longrightarrow> put_run rel n enc dec key (Suc k) s'"

subsection \<open>What a client has put\<close>

definition placeOk :: "bool \<Rightarrow> (EntryV \<Rightarrow> string) \<Rightarrow> nat \<Rightarrow> string \<Rightarrow> Tversion \<Rightarrow> putclnt \<Rightarrow> bool \<Rightarrow> bool" where
  \<comment> \<open>\<open>b\<close>: the put in hand has been applied\<close>
  "placeOk rel enc i val v c b =
     (let w = pver c; mine = enc \<lparr>evId = i, evV = w\<rparr> in
      case ppc c of
        PIter \<Rightarrow> \<not> b
      | PStop \<Rightarrow> \<not> b
      | PPut retry \<Rightarrow> (rel \<longrightarrow> \<not> retry) \<and> (b \<longrightarrow> retry \<and> unat w < unat v)
      | PPutDone retry err \<Rightarrow> (rel \<longrightarrow> \<not> retry) \<and> unat w < unat v \<and> (err = OK \<longrightarrow> b \<and> (unat v = unat w + 1 \<longrightarrow> val = mine)) \<and>
          (b \<longrightarrow> err = OK \<or> retry) \<and> (err = OK \<or> err = ErrVersion)
      | PGet err \<Rightarrow> unat w < unat v \<and> (err = OK \<longrightarrow> b \<and> (unat v = unat w + 1 \<longrightarrow> val = mine)) \<and>
          (b \<longrightarrow> err = OK \<or> err = ErrMaybe) \<and> (err = OK \<or> err = ErrVersion \<or> err = ErrMaybe \<and> \<not> rel)
      | PGot err r \<Rightarrow> unat w < unat v \<and> gErr r = OK \<and> unat (gVersion r) \<le> unat v \<and> (\<exists>e. gValue r = enc e) \<and>
          (err = OK \<longrightarrow> b \<and> (unat (gVersion r) = unat w + 1 \<longrightarrow> gValue r = mine) \<and> (unat v = unat w + 1 \<longrightarrow> val = mine)) \<and>
          (b \<longrightarrow> err = OK \<or> err = ErrMaybe) \<and> (err = OK \<or> err = ErrVersion \<or> err = ErrMaybe \<and> \<not> rel))"

definition putOk :: "bool \<Rightarrow> (EntryV \<Rightarrow> string) \<Rightarrow> nat \<Rightarrow> string \<Rightarrow> Tversion \<Rightarrow> putclnt \<Rightarrow> nat \<Rightarrow> bool" where
  \<comment> \<open>\<open>a\<close> puts of this client have been applied\<close>
  "putOk rel enc i val v c a \<longleftrightarrow> unat (pver c) \<le> unat v \<and> 0 \<le> Nmaybe (pres c) \<and> (rel \<longrightarrow> Nmaybe (pres c) = 0) \<and>
     (\<exists>b base. a = base + of_bool b \<and> Nok (pres c) \<le> int base \<and> int base \<le> Nok (pres c) + Nmaybe (pres c) \<and>
        placeOk rel enc i val v c b)"

definition put_inv :: "bool \<Rightarrow> nat \<Rightarrow> (EntryV \<Rightarrow> string) \<Rightarrow> string \<Rightarrow> nat \<Rightarrow> putsys \<Rightarrow> (nat \<Rightarrow> nat) \<Rightarrow> bool" where
  "put_inv rel n enc key k s ap \<longleftrightarrow>
     (let v = verOf (psServer s) key; val = valOf (psServer s) key in
      unat v \<le> k \<and> unat v = (\<Sum>i < n. ap i) \<and> (0 < unat v \<longrightarrow> (\<exists>e. val = enc e)) \<and>
      (\<forall>i < n. putOk rel enc i val v (psClnt s i) (ap i)))"

lemma putOkI:
  assumes "unat (pver c) \<le> unat v" "0 \<le> Nmaybe (pres c)" "rel \<Longrightarrow> Nmaybe (pres c) = 0" "a = base + of_bool b"
    "Nok (pres c) \<le> int base" "int base \<le> Nok (pres c) + Nmaybe (pres c)" "placeOk rel enc i val v c b"
  shows "putOk rel enc i val v c a"
  unfolding putOk_def using assms by blast

lemma putOkE:
  assumes "putOk rel enc i val v c a"
  obtains b base where "unat (pver c) \<le> unat v" "0 \<le> Nmaybe (pres c)" "rel \<Longrightarrow> Nmaybe (pres c) = 0" "a = base + of_bool b"
    "Nok (pres c) \<le> int base" "int base \<le> Nok (pres c) + Nmaybe (pres c)" "placeOk rel enc i val v c b"
  using assms unfolding putOk_def by blast

text \<open>A put of another client moves the version on and disturbs no client.\<close>

lemma putOk_mono:
  assumes "putOk rel enc i val v c a" and "unat v < unat v'"
  shows "putOk rel enc i val' v' c a"
  using assms(1)
proof (cases rule: putOkE)
  case (1 b base)
  have "placeOk rel enc i val' v' c b"
    using 1(7) assms(2) by (cases "ppc c") (auto simp: placeOk_def Let_def)
  with 1 assms(2) show ?thesis by (intro putOkI [of c v' rel a base b]) auto
qed

text \<open>A step of one client that leaves the server alone.\<close>

lemma own_step:
  assumes "put_inv rel n enc key k s ap" and "i < n"
    and "\<And>b. placeOk rel enc i (valOf (psServer s) key) (verOf (psServer s) key) (psClnt s i) b \<Longrightarrow>
           placeOk rel enc i (valOf (psServer s) key) (verOf (psServer s) key) ((psClnt s i)\<lparr>ppc := p\<rparr>) b"
  shows "put_inv rel n enc key (Suc k) (gotoP i p s) ap"
proof -
  have "putOk rel enc i (valOf (psServer s) key) (verOf (psServer s) key) (psClnt s i) (ap i)"
    using assms(1,2) by (simp add: put_inv_def Let_def)
  then have "putOk rel enc i (valOf (psServer s) key) (verOf (psServer s) key) ((psClnt s i)\<lparr>ppc := p\<rparr>) (ap i)"
  proof (cases rule: putOkE)
    case (1 b base)
    with assms(3) [OF 1(7)] show ?thesis by (intro putOkI [of _ _ _ _ base b]) auto
  qed
  then show ?thesis using assms(1) by (auto simp: put_inv_def Let_def gotoP_def setP_def)
qed

lemma handled_step:
  assumes inv: "put_inv rel n enc key k s ap" and i: "i < n" and small: "Suc k < 2 ^ 64" and at: "ppc (psClnt s i) = PPut retry"
    and put: "Put (psServer s) \<lparr>pKey = key, pValue = enc \<lparr>evId = i, evV = pver (psClnt s i)\<rparr>, pVersion = pver (psClnt s i)\<rparr> = (kv, err)"
  shows "\<exists>ap'. put_inv rel n enc key (Suc k) ((gotoP i (PPutDone retry err) s)\<lparr>psServer := kv\<rparr>) ap'"
proof -
  let ?v = "verOf (psServer s) key" and ?val = "valOf (psServer s) key" and ?c = "psClnt s i"
  let ?c' = "?c\<lparr>ppc := PPutDone retry err\<rparr>"
  have d: "unat ?v \<le> k" "unat ?v = (\<Sum>i < n. ap i)" "0 < unat ?v \<Longrightarrow> \<exists>e. ?val = enc e"
    "\<And>j. j < n \<Longrightarrow> putOk rel enc j ?val ?v (psClnt s j) (ap j)"
    using inv by (simp_all add: put_inv_def Let_def)
  have room: "unat ?v + 1 < 2 ^ 64" using d(1) small by simp
  show ?thesis
    using put room
  proof (cases rule: Put_lock)
    case hit
    let ?ap = "ap(i := Suc (ap i))"
    have "putOk rel enc i (valOf kv key) (verOf kv key) ?c' (Suc (ap i))"
      using d(4) [OF i]
    proof (cases rule: putOkE)
      case (1 b base)
      then have "\<not> b" using at hit(1) by (auto simp: placeOk_def Let_def)
      moreover have "placeOk rel enc i (valOf kv key) (verOf kv key) ?c' True"
        using 1(1,7) at hit by (simp add: placeOk_def Let_def)
      ultimately show ?thesis using 1 hit(4) by (intro putOkI [of _ _ _ _ base True]) auto
    qed
    moreover have "putOk rel enc j (valOf kv key) (verOf kv key) (psClnt s j) (ap j)" if "j < n" for j
      using putOk_mono [OF d(4) [OF that]] hit(4) by simp
    moreover have "(\<Sum>j < n. ?ap j) = Suc (\<Sum>j < n. ap j)"
      using i by (simp add: sum.remove [of "{..<n}" i])
    ultimately show ?thesis using d(1,2) hit(3,4)
      by (intro exI [of _ ?ap]) (auto simp: put_inv_def Let_def gotoP_def setP_def)
  next
    case miss
    have "putOk rel enc i ?val ?v ?c' (ap i)"
      using d(4) [OF i]
    proof (cases rule: putOkE)
      case (1 b base)
      then have "unat (pver ?c) < unat ?v" using miss(1) by (metis le_neq_implies_less word_unat_eq_iff)
      then have "placeOk rel enc i ?val ?v ?c' b"
        using 1(7) at miss(2,4) by (auto simp: placeOk_def Let_def)
      with 1 show ?thesis by (intro putOkI [of _ _ _ _ base b]) auto
    qed
    then show ?thesis using d miss(3)
      by (intro exI [of _ ap]) (auto simp: put_inv_def Let_def gotoP_def setP_def)
  qed
qed

lemma onePutErr_ok:
  assumes "placeOk rel enc i val v c b" and "ppc c = PPutDone retry err"
  shows "onePutErr (clerkErr retry err) c = Inr (c\<lparr>ppc := PGet (clerkErr retry err)\<rparr>)"
    "placeOk rel enc i val v (c\<lparr>ppc := PGet (clerkErr retry err)\<rparr>) b"
  using assms by (auto simp: placeOk_def Let_def onePutErr_def clerkErr_def)

lemma onePutGot_ok:
  assumes ok: "putOk rel enc i val v c a" and at: "ppc c = PGot err r" and json: "\<And>e. dec (enc e) = Some e"
    and small: "unat v < 2 ^ 64 - 1"
  shows "\<exists>c'. onePutGot dec i err r c = Inr c' \<and> putOk rel enc i val v c' a"
  using ok
proof (cases rule: putOkE)
  case (1 b base)
  let ?mine = "\<lparr>evId = i, evV = pver c\<rparr>"
  from 1(7) at obtain e where r: "unat (pver c) < unat v" "gErr r = OK" "unat (gVersion r) \<le> unat v" "gValue r = enc e"
    "err = OK \<Longrightarrow> b" "err = OK \<Longrightarrow> unat (gVersion r) = unat (pver c) + 1 \<Longrightarrow> enc e = enc ?mine" "b \<Longrightarrow> err = OK \<or> err = ErrMaybe"
    "err = OK \<or> err = ErrVersion \<or> err = ErrMaybe \<and> \<not> rel" by (auto simp: placeOk_def Let_def)
  have "unat (pver c + 1) = unat (pver c) + 1" using r(1) small by (simp add: unat_word_ariths)
  then have "e = ?mine" if "err = OK" "gVersion r = pver c + 1" using r(6) [OF that(1)] that(2) json by (metis option.inject)
  then have got: "onePutGot dec i err r c = Inr (if err = OK \<or> err = ErrMaybe then countPut (err = OK) (c\<lparr>pver := gVersion r\<rparr>)
      else c\<lparr>pver := gVersion r, ppc := PPut False\<rparr>)" (is "_ = Inr ?c'")
    using r(2,4) json by (auto simp: onePutGot_def GetJson_def Let_def)
  have "putOk rel enc i val v ?c' a"
  proof (cases "err = OK \<or> err = ErrMaybe")
    case False
    then have nb: "\<not> b" using r(7) by blast
    then have "placeOk rel enc i val v ?c' False" using False by (simp add: placeOk_def Let_def)
    with False nb 1 r(3) show ?thesis by (intro putOkI [of _ _ _ _ base False]) auto
  next
    case True
    then have "placeOk rel enc i val v ?c' False" by (simp add: placeOk_def Let_def countPut_def)
    with True 1 r(3,5,8) show ?thesis by (intro putOkI [of _ _ _ _ "base + of_bool b" False]) (auto simp: countPut_def)
  qed
  with got show ?thesis by blast
qed

lemma put_inv_setP:
  assumes "put_inv rel n enc key k s ap" and "putOk rel enc i (valOf (psServer s) key) (verOf (psServer s) key) c (ap i)"
  shows "put_inv rel n enc key (Suc k) (setP i c s) ap"
  using assms by (auto simp: put_inv_def Let_def setP_def)

lemma put_step_inv:
  assumes "put_step rel n enc dec key s s'" and "put_inv rel n enc key k s ap" and "Suc k < 2 ^ 64" and json: "\<And>e. dec (enc e) = Some e"
  shows "\<exists>ap'. put_inv rel n enc key (Suc k) s' ap'"
  using assms(1-3)
proof (induction rule: put_step.induct)
  case (p_put i s retry kv err)
  then show ?case by (intro handled_step)
next
  case (p_put_done i s retry err c')
  then have "putOk rel enc i (valOf (psServer s) key) (verOf (psServer s) key) (psClnt s i) (ap i)" by (simp add: put_inv_def Let_def)
  then obtain b where b: "placeOk rel enc i (valOf (psServer s) key) (verOf (psServer s) key) (psClnt s i) b" by (rule putOkE)
  have "setP i c' s = gotoP i (PGet (clerkErr retry err)) s" using p_put_done(3) onePutErr_ok(1) [OF b p_put_done(2)] by (simp add: gotoP_def)
  then show ?case using own_step [OF p_put_done(4,1), of "PGet (clerkErr retry err)"] onePutErr_ok(2) [OF _ p_put_done(2)] by metis
next
  case (p_get i s err)
  let ?v = "verOf (psServer s) key"
  have "put_inv rel n enc key (Suc k) (gotoP i (PGot err (Get (psServer s) key)) s) ap"
  proof (rule own_step [OF p_get(3,1)])
    fix b assume b: "placeOk rel enc i (valOf (psServer s) key) ?v (psClnt s i) b"
    then have "0 < unat ?v" using p_get(2) by (auto simp: placeOk_def Let_def)
    moreover from this have "kvStore (psServer s) key \<noteq> None" by (rule verOf_pos_present)
    ultimately show "placeOk rel enc i (valOf (psServer s) key) ?v ((psClnt s i)\<lparr>ppc := PGot err (Get (psServer s) key)\<rparr>) b"
      using b p_get(2,3) by (auto simp: placeOk_def Let_def Get_lock put_inv_def)
  qed
  then show ?case by blast
next
  case (p_got i s err r c')
  then have ok: "putOk rel enc i (valOf (psServer s) key) (verOf (psServer s) key) (psClnt s i) (ap i)"
    "unat (verOf (psServer s) key) < 2 ^ 64 - 1" by (auto simp: put_inv_def Let_def)
  then have "putOk rel enc i (valOf (psServer s) key) (verOf (psServer s) key) c' (ap i)"
    using onePutGot_ok [where dec = dec, OF ok(1) p_got(2) json ok(2)] p_got(3) by auto
  then show ?case using put_inv_setP [OF p_got(4)] by blast
next
  case (p_other a s)
  then have "verOf (fst (Put (psServer s) a)) key = verOf (psServer s) key" "valOf (fst (Put (psServer s) a)) key = valOf (psServer s) key"
    by (auto simp: Put_def verOf_simps valOf_simps split: option.splits)
  then show ?case using p_other(2) by (intro exI [of _ ap]) (simp add: put_inv_def Let_def)
next
  case (p_done i s)
  then show ?case using own_step [OF p_done(3,1), of PStop] by (auto simp: placeOk_def Let_def)
next
  case (p_iter i s)
  then show ?case using own_step [OF p_iter(3,1), of "PPut False"] by (auto simp: placeOk_def Let_def)
next
  case (p_put_lost i s retry)
  then show ?case using own_step [OF p_put_lost(4,2), of "PPut True"] by (auto simp: placeOk_def Let_def)
next
  case (p_reply_lost i s retry err)
  then show ?case using own_step [OF p_reply_lost(4,2), of "PPut True"] by (auto simp: placeOk_def Let_def)
next
  case (p_get_lost i s err r)
  then show ?case using own_step [OF p_get_lost(4,2), of "PGet err"] by (auto simp: placeOk_def Let_def)
qed

lemma put_run_inv:
  assumes "put_run rel n enc dec key k s" and "k < 2 ^ 64" and "\<And>e. dec (enc e) = Some e"
  shows "\<exists>ap. put_inv rel n enc key k s ap"
  using assms(1,2)
proof (induction rule: put_run.induct)
  case put_init
  have "put_inv rel n enc key 0 init_put (\<lambda>_. 0)"
    by (auto simp: put_inv_def Let_def init_put_def MakeKVServer_def verOf_simps placeOk_def intro!: putOkI [of _ _ _ _ 0 False])
  then show ?case by blast
next
  case (put_next k s s')
  then obtain ap where "put_inv rel n enc key k s ap" by auto
  from put_step_inv [OF put_next(2) this put_next(4) assms(3)] show ?case by blast
qed

definition total :: "nat \<Rightarrow> putsys \<Rightarrow> int" where
  "total n s = (\<Sum>i < n. Nok (pres (psClnt s i)) + Nmaybe (pres (psClnt s i)))"

lemma total_setP:
  assumes "i < n"
  shows "total n (setP i c s) = total n s + (Nok (pres c) + Nmaybe (pres c)) - (Nok (pres (psClnt s i)) + Nmaybe (pres (psClnt s i)))"
  using assms by (simp add: total_def setP_def sum.remove [of "{..<n}" i])

lemma put_step_total:
  assumes "put_step rel n enc dec key s s'"
  shows "total n s' \<le> total n s + 1"
  using assms
proof (induction rule: put_step.induct)
  case (p_put i s retry kv err)
  then show ?case using total_setP [OF p_put(1), of _ s] by (simp add: gotoP_def) (simp add: total_def)
next
  case (p_put_done i s retry err c')
  then show ?case using total_setP [OF p_put_done(1), of c' s] by (auto simp: onePutErr_def split: if_splits)
next
  case (p_got i s err r c')
  then show ?case using total_setP [OF p_got(1), of c' s]
    by (auto simp: onePutGot_def countPut_def Let_def go_inv split: if_splits)
qed (simp_all add: gotoP_def total_setP, simp add: total_def)

lemma put_run_total: "put_run rel n enc dec key k s \<Longrightarrow> total n s \<le> int k"
  by (induction rule: put_run.induct) (auto simp: total_def init_put_def dest: put_step_total)

lemma not_above:
  fixes v :: Tversion
  assumes "int (unat v) \<le> x" and "x < 2 ^ 64"
  shows "\<not> v > word_of_int x"
proof -
  have "0 \<le> x" using assms(1) by linarith
  then have "uint (word_of_int x :: Tversion) = x" using assms(2) by (simp add: uint_word_of_int_eq take_bit_int_eq_self)
  then show ?thesis using assms(1) by (simp add: word_less_def)
qed

lemma fold_addRes:
  "Nok (fold addRes rs res) = Nok res + (\<Sum>r \<leftarrow> rs. Nok r)" "Nmaybe (fold addRes rs res) = Nmaybe res + (\<Sum>r \<leftarrow> rs. Nmaybe r)"
  by (induction rs arbitrary: res) (simp_all add: addRes_def)

text \<open>What clients that have stopped have counted.\<close>

lemma stopped_counts:
  assumes "put_run rel n enc dec key k s" and "k < 2 ^ 64" and "\<And>e. dec (enc e) = Some e" and "\<forall>i < n. ppc (psClnt s i) = PStop"
  shows "(\<Sum>i < n. Nok (pres (psClnt s i))) \<le> int (unat (verOf (psServer s) key))"
    "int (unat (verOf (psServer s) key)) \<le> (\<Sum>i < n. Nok (pres (psClnt s i))) + (\<Sum>i < n. Nmaybe (pres (psClnt s i)))"
    "rel \<Longrightarrow> (\<Sum>i < n. Nmaybe (pres (psClnt s i))) = 0"
proof -
  let ?v = "verOf (psServer s) key" and ?val = "valOf (psServer s) key"
  obtain ap where inv: "put_inv rel n enc key k s ap" using put_run_inv [OF assms(1-3)] by blast
  have d: "unat ?v = (\<Sum>i < n. ap i)" "\<And>i. i < n \<Longrightarrow> putOk rel enc i ?val ?v (psClnt s i) (ap i)"
    using inv by (simp_all add: put_inv_def Let_def)
  have each: "Nok (pres (psClnt s i)) \<le> int (ap i) \<and> int (ap i) \<le> Nok (pres (psClnt s i)) + Nmaybe (pres (psClnt s i)) \<and>
      (rel \<longrightarrow> Nmaybe (pres (psClnt s i)) = 0)" if "i < n" for i
    using d(2) [OF that] by (cases rule: putOkE) (use assms(4) that in \<open>auto simp: placeOk_def Let_def\<close>)
  have v: "int (unat ?v) = (\<Sum>i < n. int (ap i))" by (simp add: d(1))
  show "(\<Sum>i < n. Nok (pres (psClnt s i))) \<le> int (unat ?v)" unfolding v using each by (intro sum_mono) auto
  show "int (unat ?v) \<le> (\<Sum>i < n. Nok (pres (psClnt s i))) + (\<Sum>i < n. Nmaybe (pres (psClnt s i)))"
    unfolding v sum.distrib [symmetric] using each by (intro sum_mono) auto
  show "(\<Sum>i < n. Nmaybe (pres (psClnt s i))) = 0" if rel using each that by simp
qed

text \<open>
  Racing puts pass the checks. Let \<open>n\<close> clients of \<open>OneClientPut\<close> race for one key of the
  server, on a reliable or an unreliable network. In every reachable state none of the checks inside
  \<open>OnePut\<close> stops a client. When all clients have stopped, \<open>CheckPutConcurrent\<close> accepts their counts: on a
  reliable network the version is the number of successful puts, on an unreliable one it is at most
  the number of successful and doubtful ones. (The run has fewer than \<open>2 ^ 64\<close> steps, so no version
  wraps.)
\<close>

theorem racing_puts_pass:
  assumes "put_run rel n enc dec key k s" and "k + 1 < 2 ^ 64" and "\<And>e. dec (enc e) = Some e"
  shows "(\<forall>i < n. \<forall>retry err. ppc (psClnt s i) = PPutDone retry err \<longrightarrow> (\<exists>c'. onePutErr (clerkErr retry err) (psClnt s i) = Inr c')) \<and>
    (\<forall>i < n. \<forall>err r. ppc (psClnt s i) = PGot err r \<longrightarrow> (\<exists>c'. onePutGot dec i err r (psClnt s i) = Inr c')) \<and>
    ((\<forall>i < n. ppc (psClnt s i) = PStop) \<longrightarrow>
       (\<exists>res. CheckPutConcurrent (verOf (psServer s) key) (map (\<lambda>i. pres (psClnt s i)) [0..<n]) \<lparr>Nok = 0, Nmaybe = 0\<rparr> rel = Inr res))"
proof (intro conjI allI impI)
  obtain ap where inv: "put_inv rel n enc key k s ap" using put_run_inv [OF assms(1) _ assms(3)] assms(2) by auto
  let ?v = "verOf (psServer s) key" and ?val = "valOf (psServer s) key"
  have d: "unat ?v \<le> k" "\<And>i. i < n \<Longrightarrow> putOk rel enc i ?val ?v (psClnt s i) (ap i)"
    using inv by (simp_all add: put_inv_def Let_def)
  show "\<exists>c'. onePutErr (clerkErr retry err) (psClnt s i) = Inr c'" if "i < n" "ppc (psClnt s i) = PPutDone retry err" for i retry err
    using d(2) [OF that(1)] onePutErr_ok(1) [OF _ that(2)] by (meson putOkE)
  show "\<exists>c'. onePutGot dec i err r (psClnt s i) = Inr c'" if "i < n" "ppc (psClnt s i) = PGot err r" for i err r
    using onePutGot_ok [where dec = dec, OF d(2) [OF that(1)] that(2) assms(3)] d(1) assms(2) by auto
  assume stop: "\<forall>i < n. ppc (psClnt s i) = PStop"
  let ?rs = "map (\<lambda>i. pres (psClnt s i)) [0..<n]" and ?nok = "\<Sum>i < n. Nok (pres (psClnt s i))" and ?nmay = "\<Sum>i < n. Nmaybe (pres (psClnt s i))"
  note counts = stopped_counts [OF assms(1) _ assms(3) stop]
  have sums: "Nok (fold addRes ?rs \<lparr>Nok = 0, Nmaybe = 0\<rparr>) = ?nok" "Nmaybe (fold addRes ?rs \<lparr>Nok = 0, Nmaybe = 0\<rparr>) = ?nmay"
    by (simp_all add: fold_addRes comp_def interv_sum_list_conv_sum_set_nat atLeast0LessThan)
  show "\<exists>res. CheckPutConcurrent ?v ?rs \<lparr>Nok = 0, Nmaybe = 0\<rparr> rel = Inr res"
  proof (cases rel)
    case True
    have "int (unat ?v) = ?nok" using counts True assms(2) by simp
    moreover have "word_of_int (int (unat ?v)) = ?v" by simp
    ultimately have "word_of_int ?nok = ?v" by simp
    then show ?thesis using True sums by (simp add: CheckPutConcurrent_def Let_def)
  next
    case False
    have "?nok + ?nmay \<le> int k" using put_run_total [OF assms(1)] by (simp add: total_def sum.distrib)
    then have "\<not> ?v > word_of_int (?nok + ?nmay)" using assms(2) counts(2) by (intro not_above) simp_all
    then show ?thesis using False sums by (simp add: CheckPutConcurrent_def Let_def del: of_int_add of_int_sum)
  qed
qed

text \<open>A stand-in for JSON, and a run of one client that puts once.\<close>

definition ex_encv :: "EntryV \<Rightarrow> string" where
  "ex_encv e = replicate (evId e) CHR ''a'' @ CHR ''b'' # replicate (unat (evV e)) CHR ''a''"

definition ex_decv :: "string \<Rightarrow> EntryV option" where
  "ex_decv s = Some \<lparr>evId = length (takeWhile (\<lambda>c. c \<noteq> CHR ''b'') s), evV = of_nat (length (dropWhile (\<lambda>c. c \<noteq> CHR ''b'') s) - 1)\<rparr>"

lemma ex_json: "ex_decv (ex_encv e) = Some e"
proof -
  have "takeWhile (\<lambda>c. c \<noteq> CHR ''b'') (replicate i CHR ''a'' @ CHR ''b'' # t) = replicate i CHR ''a''"
    "dropWhile (\<lambda>c. c \<noteq> CHR ''b'') (replicate i CHR ''a'' @ CHR ''b'' # t) = CHR ''b'' # t" for i t
    by (induction i) simp_all
  then show ?thesis by (simp add: ex_decv_def ex_encv_def)
qed

definition ex_client :: "putpc \<Rightarrow> Tversion \<Rightarrow> int \<Rightarrow> putclnt" where
  "ex_client p v ok = \<lparr>pver = v, pres = \<lparr>Nok = ok, Nmaybe = 0\<rparr>, ppc = p\<rparr>"

definition ex_sys :: "bool \<Rightarrow> putclnt \<Rightarrow> putsys" where
  "ex_sys stored c = \<lparr>psServer = (if stored then \<lparr>kvStore = [''k'' \<mapsto> \<lparr>Value = ex_encv \<lparr>evId = 0, evV = 0\<rparr>, Version = 1\<rparr>]\<rparr> else MakeKVServer),
     psClnt = (\<lambda>_. ex_client PIter 0 0)(0 := c)\<rparr>"

lemma ex_put_run: "put_run True 1 ex_encv ex_decv ''k'' 6 (ex_sys True (ex_client PStop 1 1))"
proof -
  let ?st = "put_step True 1 ex_encv ex_decv ''k''" and ?r = "\<lparr>gValue = ex_encv \<lparr>evId = 0, evV = 0\<rparr>, gVersion = 1, gErr = OK\<rparr>"
  note ev = ex_sys_def ex_client_def gotoP_def setP_def
  have "init_put = ex_sys False (ex_client PIter 0 0)" by (simp add: init_put_def ev fun_eq_iff)
  then have r0: "put_run True 1 ex_encv ex_decv ''k'' 0 (ex_sys False (ex_client PIter 0 0))" by (metis put_init)
  have s1: "?st (ex_sys False (ex_client PIter 0 0)) (ex_sys False (ex_client (PPut False) 0 0))"
    using p_iter [of 0 1 "ex_sys False (ex_client PIter 0 0)"] by (simp add: ev)
  have s2: "?st (ex_sys False (ex_client (PPut False) 0 0)) (ex_sys True (ex_client (PPutDone False OK) 0 0))"
    using p_put [of 0 1 "ex_sys False (ex_client (PPut False) 0 0)" False "''k''" ex_encv] by (simp add: ev Put_def MakeKVServer_def)
  have s3: "?st (ex_sys True (ex_client (PPutDone False OK) 0 0)) (ex_sys True (ex_client (PGet OK) 0 0))"
    using p_put_done [of 0 1 "ex_sys True (ex_client (PPutDone False OK) 0 0)" False OK] by (simp add: ev onePutErr_def clerkErr_def)
  have s4: "?st (ex_sys True (ex_client (PGet OK) 0 0)) (ex_sys True (ex_client (PGot OK ?r) 0 0))"
    using p_get [of 0 1 "ex_sys True (ex_client (PGet OK) 0 0)" OK _ _ _ "''k''"] by (simp add: ev Get_def)
  have s5: "?st (ex_sys True (ex_client (PGot OK ?r) 0 0)) (ex_sys True (ex_client PIter 1 1))"
    using p_got [of 0 1 "ex_sys True (ex_client (PGot OK ?r) 0 0)" OK ?r ex_decv]
    by (simp add: ev onePutGot_def GetJson_def ex_json countPut_def)
  have s6: "?st (ex_sys True (ex_client PIter 1 1)) (ex_sys True (ex_client PStop 1 1))"
    using p_done [of 0 1 "ex_sys True (ex_client PIter 1 1)"] by (simp add: ev)
  from put_next [OF put_next [OF put_next [OF put_next [OF put_next [OF put_next [OF r0 s1] s2] s3] s4] s5] s6]
  show ?thesis by (simp add: eval_nat_numeral)
qed

theorem racing_puts_pass_witness:
  "\<exists>res. CheckPutConcurrent (verOf (psServer (ex_sys True (ex_client PStop 1 1))) ''k'') [\<lparr>Nok = 1, Nmaybe = 0\<rparr>] \<lparr>Nok = 0, Nmaybe = 0\<rparr> True = Inr res"
  using racing_puts_pass [OF ex_put_run _ ex_json] by (simp add: ex_sys_def ex_client_def)

end
