(* ===== verification/Kvtest_Retry.thy ===== *)
theory Kvtest_Retry
  imports Kvtest
begin

text \<open>
  The retry loop \<open>PutAtLeastOnce\<close> of the key/value tests (\<open>src/kvtest1/kvtest.go\<close>) around the clerk's own
  retries. The loop runs over what the network does to each call of the clerk, as the clerk's loops in
  \<open>Kvsrv\<close>; its result is \<open>None\<close> while it is retrying.
\<close>

fun PutAtLeastOnce :: "network list \<Rightarrow> string \<Rightarrow> string \<Rightarrow> Tversion \<Rightarrow> KVServer \<Rightarrow> (KVServer \<times> Tversion) go option" where
  "PutAtLeastOnce [] key value ver kv = None"
| "PutAtLeastOnce (net # nets) key value ver kv =
     (case Clerk_Put net key value ver kv of
        None \<Rightarrow> None
      | Some (kv1, err) \<Rightarrow>
          if err = OK then Some (Inr (kv1, ver + 1))
          else if err = ErrMaybe \<or> err = ErrVersion then PutAtLeastOnce nets key value (ver + 1) kv1
          else if ver \<noteq> 0 then Some (Inl LogFatal)
          else PutAtLeastOnce nets key value ver kv1)"

subsection \<open>One call of the clerk when nobody else puts to the key\<close>

definition alone :: "string \<Rightarrow> network \<Rightarrow> bool" where
  \<comment> \<open>a reply arrives, and the other clients put to other keys\<close>
  "alone key net \<longleftrightarrow> (\<exists>ps. (ps, Delivered) \<in> set net) \<and> (\<forall>(ps, f) \<in> set net. \<forall>p \<in> set ps. pKey p \<noteq> key)"

definition lossless :: "network \<Rightarrow> bool" where
  \<comment> \<open>no reply is lost before one arrives\<close>
  "lossless net \<longleftrightarrow> ReplyLost \<notin> snd ` set (attempts net)"

lemma run_puts_other: "\<forall>p \<in> set ps. pKey p \<noteq> key \<Longrightarrow> kvStore (run_puts kv ps) key = kvStore kv key"
proof (induction ps arbitrary: kv)
  case (Cons p ps)
  then have "kvStore (fst (Put kv p)) key = kvStore kv key" by (auto simp: Put_def split: option.splits)
  with Cons show ?case by (simp add: run_puts_def)
qed simp

lemma alone_Cons: "alone key ((ps, f) # net) \<Longrightarrow> (\<forall>p \<in> set ps. pKey p \<noteq> key) \<and> (f \<noteq> Delivered \<longrightarrow> alone key net)"
  by (auto simp: alone_def)

lemma stale_put:
  assumes "alone (pKey a) net" and "kvStore kv (pKey a) = Some v" and "Version v \<noteq> pVersion a"
  shows "\<exists>kv' e. Clerk_Put_loop net a retry kv = Some (kv', e) \<and> kvStore kv' (pKey a) = Some v \<and> (e = ErrMaybe \<or> e = ErrVersion) \<and>
    (retry \<longrightarrow> e = ErrMaybe)"
  using assms
proof (induction net arbitrary: kv retry)
  case (Cons x net)
  obtain ps f where x: "x = (ps, f)" by (cases x)
  have al: "\<forall>p \<in> set ps. pKey p \<noteq> pKey a" "f \<noteq> Delivered \<Longrightarrow> alone (pKey a) net" using alone_Cons Cons.prems(1) by (auto simp: x)
  have st: "kvStore (run_puts kv ps) (pKey a) = Some v" using run_puts_other [OF al(1)] Cons.prems(2) by simp
  then have p: "Put (run_puts kv ps) a = (run_puts kv ps, ErrVersion)" using Cons.prems(3) by (simp add: Put_def)
  show ?case
  proof (cases "f = Delivered")
    case True
    then show ?thesis using p st by (auto simp: x)
  next
    case False
    from Cons.IH [OF al(2) [OF False] st Cons.prems(3), of True] show ?thesis using False p by (cases f) (auto simp: x)
  qed
qed (simp add: alone_def)

lemma fresh_put:
  assumes "alone (pKey a) net" and "verOf kv (pKey a) = pVersion a" and "unat (pVersion a) + 1 < 2 ^ 64"
  shows "\<exists>kv' e. Clerk_Put_loop net a retry kv = Some (kv', e) \<and>
    kvStore kv' (pKey a) = Some \<lparr>Value = pValue a, Version = pVersion a + 1\<rparr> \<and> e = (if lossless net then OK else ErrMaybe)"
  using assms(1,2)
proof (induction net arbitrary: kv retry)
  case (Cons x net)
  obtain ps f where x: "x = (ps, f)" by (cases x)
  have al: "\<forall>p \<in> set ps. pKey p \<noteq> pKey a" "f \<noteq> Delivered \<Longrightarrow> alone (pKey a) net" using alone_Cons Cons.prems(1) by (auto simp: x)
  have v: "verOf (run_puts kv ps) (pKey a) = pVersion a" using run_puts_other [OF al(1), of kv] Cons.prems(2) by (simp add: verOf_simps)
  obtain kv1 where p: "Put (run_puts kv ps) a = (kv1, OK)" using Put_result(1) v by (metis surj_pair)
  note st = Put_OK_stores [OF p]
  have ne: "pVersion a + 1 \<noteq> pVersion a" by simp
  show ?case
  proof (cases f)
    case Delivered
    then show ?thesis using p st by (auto simp: x lossless_def)
  next
    case RequestLost
    then show ?thesis using Cons.IH [OF al(2) v, of True] by (auto simp: x lossless_def)
  next
    case ReplyLost
    from stale_put [OF al(2) st, of True] ReplyLost ne obtain kv2 e where
      "Clerk_Put_loop net a True kv1 = Some (kv2, e)" "kvStore kv2 (pKey a) = Some \<lparr>Value = pValue a, Version = pVersion a + 1\<rparr>" "e = ErrMaybe"
      by auto
    then show ?thesis using ReplyLost p by (auto simp: x lossless_def)
  qed
qed (simp add: alone_def)

text \<open>
  Property C37 (at least once). Let no other client put to the key. Started with a version at most the
  current one, \<open>PutAtLeastOnce\<close> never stops the test, and it returns as soon as, after the calls that
  catch up with the current version, one call of the clerk loses no reply. The value is then stored
  under the version it returns.
\<close>

theorem put_at_least_once:
  assumes "\<forall>net \<in> set nets. alone key net" and "unat ver \<le> unat (verOf kv key)"
    and "unat (verOf kv key) + length nets < 2 ^ 64"
  shows "(\<forall>r. PutAtLeastOnce nets key value ver kv = Some r \<longrightarrow>
       (\<exists>kv' ver'. r = Inr (kv', ver') \<and> kvStore kv' key = Some \<lparr>Value = value, Version = ver'\<rparr> \<and> unat (verOf kv key) < unat ver')) \<and>
    ((\<exists>net \<in> set (drop (unat (verOf kv key) - unat ver) nets). lossless net) \<longrightarrow> PutAtLeastOnce nets key value ver kv \<noteq> None)"
  using assms
proof (induction nets arbitrary: ver kv)
  case (Cons net nets)
  let ?a = "\<lparr>pKey = key, pValue = value, pVersion = ver\<rparr>"
  have al: "alone (pKey ?a) net" using Cons.prems(1) by simp
  have room: "unat (verOf kv key) + 1 < 2 ^ 64" using Cons.prems(3) by simp
  have suc: "unat (ver + 1) = unat ver + 1" using room Cons.prems(2) by (simp add: unat_word_ariths)
  show ?case
  proof (cases "verOf kv key = ver")
    case True
    obtain kv1 e where c: "Clerk_Put net key value ver kv = Some (kv1, e)" "kvStore kv1 key = Some \<lparr>Value = value, Version = ver + 1\<rparr>"
      "e = (if lossless net then OK else ErrMaybe)"
      using fresh_put [OF al, of kv False] True room by (auto simp: Clerk_Put_def)
    have v1: "verOf kv1 key = ver + 1" using c(2) by (simp add: verOf_simps)
    show ?thesis
    proof (cases "lossless net")
      case ll: True
      then show ?thesis using c True suc by auto
    next
      case False
      have "unat (verOf kv1 key) + length nets < 2 ^ 64" using Cons.prems(3) v1 suc True by simp
      with Cons.IH [of "ver + 1" kv1] Cons.prems(1) v1 have
        "(\<forall>r. PutAtLeastOnce nets key value (ver + 1) kv1 = Some r \<longrightarrow> (\<exists>kv' ver'. r = Inr (kv', ver') \<and>
            kvStore kv' key = Some \<lparr>Value = value, Version = ver'\<rparr> \<and> unat (ver + 1) < unat ver')) \<and>
         ((\<exists>net \<in> set nets. lossless net) \<longrightarrow> PutAtLeastOnce nets key value (ver + 1) kv1 \<noteq> None)" by simp
      then show ?thesis using c False True suc by fastforce
    qed
  next
    case False
    then have less: "unat ver < unat (verOf kv key)" using Cons.prems(2) by (metis le_neq_implies_less word_unat_eq_iff)
    then obtain v where v: "kvStore kv key = Some v" "verOf kv key = Version v"
      using verOf_pos_present [of kv key] by (auto simp: verOf_simps)
    obtain kv1 e where c: "Clerk_Put net key value ver kv = Some (kv1, e)" "kvStore kv1 key = Some v" "e = ErrMaybe \<or> e = ErrVersion"
      using stale_put [OF al, of kv v False] v False by (auto simp: Clerk_Put_def)
    have v1: "verOf kv1 key = verOf kv key" using c(2) v by (simp add: verOf_simps)
    have "PutAtLeastOnce (net # nets) key value ver kv = PutAtLeastOnce nets key value (ver + 1) kv1" using c(1,3) by auto
    moreover have "drop (unat (verOf kv key) - unat ver) (net # nets) = drop (unat (verOf kv key) - unat (ver + 1)) nets"
    proof -
      have "unat (verOf kv key) - unat ver = Suc (unat (verOf kv key) - unat (ver + 1))" using less suc by simp
      then show ?thesis by simp
    qed
    ultimately show ?thesis using Cons.IH [of "ver + 1" kv1] Cons.prems(1,3) less suc v1 by simp
  qed
qed simp

theorem put_at_least_once_witness:
  "\<exists>kv' ver'. PutAtLeastOnce [[([], ReplyLost), ([], Delivered)], [([], Delivered)]] ''k'' ''v'' 0 MakeKVServer = Some (Inr (kv', ver')) \<and>
     kvStore kv' ''k'' = Some \<lparr>Value = ''v'', Version = ver'\<rparr>"
proof -
  let ?nets = "[[([], ReplyLost), ([], Delivered)], [([], Delivered)]] :: network list"
  have "\<forall>net \<in> set ?nets. alone ''k'' net" "lossless (?nets ! 1)" by (auto simp: alone_def lossless_def)
  moreover have "verOf MakeKVServer ''k'' = 0" by (simp add: verOf_simps MakeKVServer_def)
  ultimately show ?thesis using put_at_least_once [of ?nets "''k''" 0 MakeKVServer "''v''"]
    by (cases "PutAtLeastOnce ?nets ''k'' ''v'' 0 MakeKVServer") (auto simp del: PutAtLeastOnce.simps)
qed

end
