(* ===== verification/Kvtest_Harness.thy ===== *)
theory Kvtest_Harness
  imports Kvtest_Retry Tester_Setup
begin

text \<open>
  Where the key/value tests meet the rest of the harness (\<open>src/kvtest1/kvtest.go\<close>, \<open>src/kvtest1/porcupine.go\<close>):
  the verdict of the linearizability checker and what is drawn then, one round of the partitioner
  on a group of the simulated network, and \<open>SpreadPuts\<close> over many keys.

  The checker is a parameter. The random numbers of a round and the random values are arguments.
  \<open>SpreadPuts\<close> runs over what the network does to each of its calls, as the clerk in \<open>Kvsrv\<close>; \<open>None\<close>
  means that a call is still retrying.
\<close>

subsection \<open>The verdict\<close>

datatype porcupine_result = Ok_hist | Illegal | Unknown

definition checkPorcupine ::
  "(operation list \<Rightarrow> porcupine_result) \<Rightarrow> string \<Rightarrow> bool \<Rightarrow> int \<Rightarrow> OpLog \<Rightarrow> timeline \<Rightarrow>
   unit go \<times> PAnnotation list option \<times> timeline" where
  \<comment> \<open>the verdict for the test, the annotations that are drawn, and the time line; \<open>vis\<close> is \<open>VIS_ENABLE\<close>, and
      \<open>opens\<close> says whether the file can be opened. A check without an answer in time passes.\<close>
  "checkPorcupine check vis opens t log s =
     (if check (Read log) = Illegal
      then (Inl LogFatal,
        if opens \<and> vis \<noteq> ''never'' then let (x, s1) = FinalizeAnnotations t ''test failed'' s in (Some x, s1)
        else (None, s))
      else if vis = ''always'' \<and> finalized (annotation s) \<and> opens
      then (Inr (), let (x, s1) = FinalizeAnnotations t ''test passed'' s in (Some x, s1))
      else (Inr (), None, s))"

lemma verdict_is_the_checkers:
  "fst (checkPorcupine check vis opens t log s) = (if check log = Illegal then Inl LogFatal else Inr ())"
  by (simp add: checkPorcupine_def Read_def)

subsection \<open>The partitioner\<close>

definition sideOf :: "nat list \<Rightarrow> nat \<Rightarrow> nat list" where
  \<comment> \<open>\<open>pa[i]\<close>: the servers whose random number is \<open>i\<close>\<close>
  "sideOf a i = filter (\<lambda>j. a ! j = i) [0..<length a]"

definition Partitioner_round ::
  "(int \<Rightarrow> string) \<Rightarrow> int \<Rightarrow> int \<Rightarrow> (nat \<Rightarrow> nat) \<Rightarrow> ('e, 'c, 'svc) Config \<times> timeline \<Rightarrow> (('e, 'c, 'svc) Config \<times> timeline) go" where
  \<comment> \<open>one pass of the loop; \<open>rnd i\<close> is the random number drawn for server \<open>i\<close>\<close>
  "Partitioner_round itoa t g rnd = (\<lambda>(cfg, s).
     case lookupGroup (cfgGroups cfg) g of None \<Rightarrow> Inl NilDeref
     | Some sg \<Rightarrow>
         let a = map (\<lambda>i. rnd i mod 2) [0..<N sg] in
         go_bind (onGroup (Partition (sideOf a 0) (sideOf a 1)) g cfg) (\<lambda>cfg1.
           Inr (cfg1, AnnotateTwoPartitions itoa t (sideOf a 0) (sideOf a 1) s)))"

lemma sideOf_set: "j \<in> set (sideOf (map f [0..<n]) i) \<longleftrightarrow> j < n \<and> f j = i"
  by (auto simp: sideOf_def)

text \<open>
  A round of the partitioner. Whatever numbers are drawn and whatever was connected before, a round on a
  group that is there goes through, and afterwards two servers can talk to each other exactly when
  they drew the same side; the time line has an open failure that names the two sides.
\<close>

theorem partitioner_splits:
  assumes "lookupGroup (cfgGroups cfg) g = Some sg" and "wf_grp sg"
  shows "\<exists>cfg' sg' s' cont. Partitioner_round itoa t g rnd (cfg, s) = Inr (cfg', s') \<and>
    lookupGroup (cfgGroups cfg') g = Some sg' \<and> wf_grp sg' \<and> N sg' = N sg \<and>
    (\<forall>a < N sg. \<forall>b < N sg. link (cfgNet cfg', sg') a b \<longleftrightarrow> rnd a mod 2 = rnd b mod 2) \<and>
    map_of (continuous (annotation s')) TAG_PARTITION = Some cont \<and> cstart cont = t"
proof -
  let ?a = "map (\<lambda>i. rnd i mod 2) [0..<N sg]"
  have sides: "j \<in> set (sideOf ?a i) \<longleftrightarrow> j < N sg \<and> rnd j mod 2 = i" for i j by (rule sideOf_set)
  obtain net' sg' where p: "Partition (sideOf ?a 0) (sideOf ?a 1) (cfgNet cfg, sg) = Inr (net', sg')" "wf_grp sg'" "N sg' = N sg"
    and l: "\<forall>a \<in> set (sideOf ?a 0) \<union> set (sideOf ?a 1). \<forall>b \<in> set (sideOf ?a 0) \<union> set (sideOf ?a 1).
      link (net', sg') a b \<longleftrightarrow> (a \<in> set (sideOf ?a 0) \<longleftrightarrow> b \<in> set (sideOf ?a 0))"
    by (rule Partition_links [OF assms(2), of "sideOf ?a 0" "sideOf ?a 1"]) (auto simp: sides)
  have "link (net', sg') a b \<longleftrightarrow> rnd a mod 2 = rnd b mod 2" if "a < N sg" "b < N sg" for a b
  proof -
    have "link (net', sg') a b \<longleftrightarrow> (a \<in> set (sideOf ?a 0) \<longleftrightarrow> b \<in> set (sideOf ?a 0))"
    proof -
      have "a \<in> set (sideOf ?a 0) \<union> set (sideOf ?a 1)" "b \<in> set (sideOf ?a 0) \<union> set (sideOf ?a 1)"
        using that unfolding Un_iff sides by presburger+
      with l show ?thesis by blast
    qed
    then show ?thesis using that unfolding sides by presburger
  qed
  moreover have "\<exists>cont. map_of (continuous (annotation (AnnotateTwoPartitions itoa t p1 p2 s))) TAG_PARTITION = Some cont \<and> cstart cont = t" for p1 p2
    by (auto simp: AnnotateTwoPartitions_def withAnnotation_def annotateContinuousColor_def addAnnotation_def Let_def update_conv split: option.splits)
  ultimately show ?thesis using assms(1) p
    by (auto simp: Partitioner_round_def onGroup_def lookupGroup_def Let_def update_conv)
qed

definition Partitioner ::
  "(int \<Rightarrow> string) \<Rightarrow> int \<Rightarrow> (int \<times> (nat \<Rightarrow> nat)) list \<Rightarrow> ('e, 'c, 'svc) Config \<times> timeline \<Rightarrow> (('e, 'c, 'svc) Config \<times> timeline) go" where
  \<comment> \<open>the rounds until the signal to end arrives, each with its time and its random numbers\<close>
  "Partitioner itoa g rounds = go_each (\<lambda>(t, rnd). Partitioner_round itoa t g rnd) rounds"

text \<open>The partitioner runs until it is told to stop, and what it leaves is the last partition it has drawn.\<close>

lemma partitioner_last:
  assumes "lookupGroup (cfgGroups cfg) g = Some sg" and "wf_grp sg"
  shows "\<exists>cfg' sg' s'. Partitioner itoa g (rounds @ [(t, rnd)]) (cfg, s) = Inr (cfg', s') \<and> lookupGroup (cfgGroups cfg') g = Some sg' \<and> wf_grp sg' \<and>
    (\<forall>a < N sg. \<forall>b < N sg. link (cfgNet cfg', sg') a b \<longleftrightarrow> rnd a mod 2 = rnd b mod 2)"
  using assms
proof (induction rounds arbitrary: cfg sg s)
  case Nil
  from partitioner_splits [OF Nil, of itoa t rnd s] obtain cfg' sg' s' where "Partitioner_round itoa t g rnd (cfg, s) = Inr (cfg', s')"
    "lookupGroup (cfgGroups cfg') g = Some sg'" "wf_grp sg'" "\<forall>a < N sg. \<forall>b < N sg. link (cfgNet cfg', sg') a b \<longleftrightarrow> rnd a mod 2 = rnd b mod 2" by blast
  then show ?case by (intro exI [of _ cfg'] exI [of _ sg'] exI [of _ s']) (simp add: Partitioner_def)
next
  case (Cons r rounds)
  obtain t1 rnd1 where r: "r = (t1, rnd1)" by (cases r)
  from partitioner_splits [OF Cons.prems, of itoa t1 rnd1 s] obtain cfg1 sg1 s1 where p: "Partitioner_round itoa t1 g rnd1 (cfg, s) = Inr (cfg1, s1)"
    "lookupGroup (cfgGroups cfg1) g = Some sg1" "wf_grp sg1" "N sg1 = N sg" by blast
  from Cons.IH [OF p(2,3), of s1] show ?case by (simp add: Partitioner_def r p(1,4))
qed

subsection \<open>Many keys\<close>

definition MakeKeys :: "(int \<Rightarrow> string) \<Rightarrow> nat \<Rightarrow> string list" where
  "MakeKeys itoa n = map (\<lambda>i. ''k'' @ itoa (int i)) [0..<n]"

fun spreadPuts :: "(network \<times> string \<times> string) list \<Rightarrow> KVServer \<Rightarrow> KVServer option" where
  \<comment> \<open>the first loop; what the clerk answers is not looked at\<close>
  "spreadPuts [] kv = Some kv"
| "spreadPuts ((net, key, value) # cs) kv =
     Option.bind (Clerk_Put net key value 0 kv) (\<lambda>(kv1, _). spreadPuts cs kv1)"

fun spreadChecks :: "(network \<times> string \<times> string) list \<Rightarrow> KVServer \<Rightarrow> KVServer go option" where
  "spreadChecks [] kv = Some (Inr kv)"
| "spreadChecks ((net, key, value) # cs) kv =
     Option.bind (Clerk_Get net key kv) (\<lambda>(kv1, r).
       case CheckGet value 1 r of Inl e \<Rightarrow> Some (Inl e) | Inr _ \<Rightarrow> spreadChecks cs kv1)"

definition SpreadPutsSize ::
  "(int \<Rightarrow> string) \<Rightarrow> network list \<Rightarrow> network list \<Rightarrow> string list \<Rightarrow> KVServer \<Rightarrow> (KVServer \<times> string list \<times> string list) go option" where
  \<comment> \<open>\<open>va\<close> holds the random values\<close>
  "SpreadPutsSize itoa puts gets va kv =
     (let ka = MakeKeys itoa (length va) in
      Option.bind (spreadPuts (zip puts (zip ka va)) kv) (\<lambda>kv1.
        map_option (\<lambda>r. go_bind r (\<lambda>kv2. Inr (kv2, ka, va))) (spreadChecks (zip gets (zip ka va)) kv1)))"

lemma Clerk_Put_loop_other:
  assumes "alone k net" and "Clerk_Put_loop net a retry kv = Some (kv', e)" and "k \<noteq> pKey a"
  shows "kvStore kv' k = kvStore kv k"
  using assms(1,2)
proof (induction net arbitrary: kv retry)
  case (Cons x net)
  obtain ps f where x: "x = (ps, f)" by (cases x)
  have al: "\<forall>p \<in> set ps. pKey p \<noteq> k" "f \<noteq> Delivered \<Longrightarrow> alone k net" using alone_Cons Cons.prems(1) by (auto simp: x)
  have put: "kvStore (fst (Put (run_puts kv ps) a)) k = kvStore kv k"
    using run_puts_other [OF al(1), of kv] assms(3) by (auto simp: Put_def split: option.splits)
  show ?case
  proof (cases f)
    case Delivered
    then show ?thesis using Cons.prems(2) put by (auto simp: x split: prod.splits if_splits)
  next
    case RequestLost
    then show ?thesis using Cons.IH [OF al(2)] Cons.prems(2) run_puts_other [OF al(1), of kv] by (auto simp: x)
  next
    case ReplyLost
    then show ?thesis using Cons.IH [OF al(2)] Cons.prems(2) put by (auto simp: x)
  qed
qed (simp add: alone_def)

lemma Clerk_Get_alone:
  assumes "alone k net"
  shows "\<exists>kv'. Clerk_Get net k kv = Some (kv', Get kv' k) \<and> (\<forall>k'. alone k' net \<longrightarrow> kvStore kv' k' = kvStore kv k')"
  using assms
proof (induction net arbitrary: kv)
  case (Cons x net)
  obtain ps f where x: "x = (ps, f)" by (cases x)
  have keep: "kvStore (run_puts kv ps) k' = kvStore kv k'" if "alone k' (x # net)" for k'
    using alone_Cons that run_puts_other [of ps k' kv] by (auto simp: x)
  show ?case
  proof (cases "f = Delivered")
    case True
    then show ?thesis using keep by (auto simp: x Let_def)
  next
    case False
    then have al: "alone k' net" if "alone k' (x # net)" for k' using alone_Cons that by (auto simp: x)
    from Cons.IH [OF al [OF Cons.prems], of "run_puts kv ps"] keep al False show ?thesis by (auto simp: x)
  qed
qed (simp add: alone_def)

definition quiet :: "string set \<Rightarrow> network list \<Rightarrow> bool" where
  \<comment> \<open>a reply arrives in each call, and the other clients keep off the keys\<close>
  "quiet K nets \<longleftrightarrow> (\<forall>net \<in> set nets. \<forall>k \<in> K. alone k net)"

lemma spreadPuts_store:
  assumes "\<forall>(net, key, value) \<in> set cs. \<forall>k \<in> K. alone k net" and "distinct (map (fst \<circ> snd) cs)" and "(fst \<circ> snd) ` set cs \<subseteq> K"
    and "\<forall>(net, key, value) \<in> set cs. kvStore kv key = None"
  shows "\<exists>kv'. spreadPuts cs kv = Some kv' \<and> (\<forall>(net, key, value) \<in> set cs. kvStore kv' key = Some \<lparr>Value = value, Version = 1\<rparr>) \<and>
    (\<forall>k \<in> K. k \<notin> (fst \<circ> snd) ` set cs \<longrightarrow> kvStore kv' k = kvStore kv k)"
  using assms
proof (induction cs arbitrary: kv)
  case (Cons c cs)
  obtain net key val where c: "c = (net, key, val)" by (cases c)
  let ?a = "\<lparr>pKey = key, pValue = val, pVersion = 0\<rparr>"
  have K: "key \<in> K" "\<forall>k \<in> K. alone k net" using Cons.prems by (auto simp: c)
  have "verOf kv (pKey ?a) = pVersion ?a" using Cons.prems(4) by (simp add: c verOf_simps)
  then obtain kv1 e where p: "Clerk_Put_loop net ?a False kv = Some (kv1, e)" "kvStore kv1 key = Some \<lparr>Value = val, Version = 1\<rparr>"
    using fresh_put [of ?a net kv False] K by auto
  have keep: "kvStore kv1 k = kvStore kv k" if "k \<in> K" "k \<noteq> key" for k
    using Clerk_Put_loop_other [OF _ p(1), of k] K that by simp
  have "\<forall>(net, key, value) \<in> set cs. kvStore kv1 key = None"
    using Cons.prems(2-4) keep by (force simp: c)
  from Cons.IH [OF _ _ _ this] Cons.prems(1-3) obtain kv' where kv': "spreadPuts cs kv1 = Some kv'"
    "\<forall>(net, key, value) \<in> set cs. kvStore kv' key = Some \<lparr>Value = value, Version = 1\<rparr>"
    "\<forall>k \<in> K. k \<notin> (fst \<circ> snd) ` set cs \<longrightarrow> kvStore kv' k = kvStore kv1 k" by (auto simp: c)
  have "kvStore kv' key = Some \<lparr>Value = val, Version = 1\<rparr>" using kv'(3) K(1) p(2) Cons.prems(2) by (auto simp: c)
  with kv' p(1) keep show ?case by (auto simp: c Clerk_Put_def)
qed simp

lemma spreadChecks_pass:
  assumes "\<forall>(net, key, value) \<in> set cs. \<forall>k \<in> K. alone k net" and "(fst \<circ> snd) ` set cs \<subseteq> K"
    and "\<forall>(net, key, value) \<in> set cs. kvStore kv key = Some \<lparr>Value = value, Version = 1\<rparr>"
  shows "\<exists>kv'. spreadChecks cs kv = Some (Inr kv') \<and> (\<forall>k \<in> K. kvStore kv' k = kvStore kv k)"
  using assms
proof (induction cs arbitrary: kv)
  case (Cons c cs)
  obtain net key val where c: "c = (net, key, val)" by (cases c)
  have K: "key \<in> K" "\<forall>k \<in> K. alone k net" using Cons.prems by (auto simp: c)
  obtain kv1 where g: "Clerk_Get net key kv = Some (kv1, Get kv1 key)" "\<forall>k \<in> K. kvStore kv1 k = kvStore kv k"
    using Clerk_Get_alone [of key net kv] K by auto
  have "CheckGet val 1 (Get kv1 key) = Inr ()" using g(2) K(1) Cons.prems(3) by (simp add: CheckGet_def Get_def c)
  moreover have "\<forall>(net, key, value) \<in> set cs. kvStore kv1 key = Some \<lparr>Value = value, Version = 1\<rparr>"
    using g(2) Cons.prems(2,3) by (force simp: c)
  ultimately show ?case using Cons.IH [of kv1] Cons.prems(1,2) g by (auto simp: c)
qed simp

text \<open>
  \<open>SpreadPuts\<close> passes its checks. Let different numbers have different numerals, let the keys be
  absent, let the other clients keep off these keys, and let every call of the clerk get a reply in the
  end. Then, whatever requests and replies are lost, \<open>SpreadPutsSize\<close> returns, all its checks pass, and every
  key holds its value under version 1, although the errors of the puts are not looked at.
\<close>

theorem spread_puts_pass:
  assumes "inj itoa" and "length puts = length va" and "length gets = length va"
    and "\<forall>k \<in> set (MakeKeys itoa (length va)). kvStore kv k = None"
    and "quiet (set (MakeKeys itoa (length va))) (puts @ gets)"
  shows "\<exists>kv'. SpreadPutsSize itoa puts gets va kv = Some (Inr (kv', MakeKeys itoa (length va), va)) \<and>
    (\<forall>i < length va. kvStore kv' (MakeKeys itoa (length va) ! i) = Some \<lparr>Value = va ! i, Version = 1\<rparr>)"
proof -
  let ?ka = "MakeKeys itoa (length va)"
  have len: "length ?ka = length va" by (simp add: MakeKeys_def)
  have dist: "distinct ?ka" by (auto simp: MakeKeys_def distinct_map inj_on_def dest: injD [OF assms(1)])
  have keys: "map (fst \<circ> snd) (zip nets (zip ?ka va)) = ?ka" if "length nets = length va" for nets :: "network list"
    using that len by (metis map_fst_zip map_map map_snd_zip length_zip min.idem)
  have nets: "\<forall>(net, key, value) \<in> set (zip nets (zip ?ka va)). \<forall>k \<in> set ?ka. alone k net" if "quiet (set ?ka) nets" for nets
    using that by (auto simp: quiet_def dest: set_zip_leftD)
  have q: "quiet (set ?ka) puts" "quiet (set ?ka) gets" using assms(5) by (auto simp: quiet_def)
  have sub: "(fst \<circ> snd) ` set (zip puts (zip ?ka va)) = set ?ka" "(fst \<circ> snd) ` set (zip gets (zip ?ka va)) = set ?ka"
    using keys [OF assms(2)] keys [OF assms(3)] by (metis list.set_map)+
  have none: "\<forall>(net, key, value) \<in> set (zip puts (zip ?ka va)). kvStore kv key = None"
    using assms(4) by (auto dest: set_zip_leftD dest!: set_zip_rightD [of _ "(_, _)"])
  obtain kv1 where kv1: "spreadPuts (zip puts (zip ?ka va)) kv = Some kv1"
    "\<forall>(net, key, value) \<in> set (zip puts (zip ?ka va)). kvStore kv1 key = Some \<lparr>Value = value, Version = 1\<rparr>"
    using spreadPuts_store [OF nets [OF q(1)] _ _ none] keys [OF assms(2)] sub(1) dist by auto
  have stored: "kvStore kv1 (?ka ! i) = Some \<lparr>Value = va ! i, Version = 1\<rparr>" if "i < length va" for i
  proof -
    have "(puts ! i, ?ka ! i, va ! i) \<in> set (zip puts (zip ?ka va))"
      using that assms(2) len unfolding set_zip by (intro CollectI exI [of _ i]) simp
    with kv1(2) show ?thesis by blast
  qed
  have "\<forall>(net, key, value) \<in> set (zip gets (zip ?ka va)). kvStore kv1 key = Some \<lparr>Value = value, Version = 1\<rparr>"
    using stored len by (auto simp: set_zip)
  from spreadChecks_pass [OF nets [OF q(2)] _ this] sub(2) obtain kv2 where
    kv2: "spreadChecks (zip gets (zip ?ka va)) kv1 = Some (Inr kv2)" "\<forall>k \<in> set ?ka. kvStore kv2 k = kvStore kv1 k" by auto
  have "kvStore kv2 (?ka ! i) = Some \<lparr>Value = va ! i, Version = 1\<rparr>" if "i < length va" for i
    using stored [OF that] kv2(2) that len by simp
  with kv1(1) kv2(1) show ?thesis by (auto simp: SpreadPutsSize_def Let_def)
qed

definition ex_itoa :: "int \<Rightarrow> string" where
  \<comment> \<open>numbers in unary, twice the number or, for a negative one, an odd number\<close>
  "ex_itoa i = replicate (nat (if i < 0 then - 2 * i - 1 else 2 * i)) (CHR ''1'')"

lemma inj_ex_itoa: "inj ex_itoa"
proof (rule injI)
  fix x y assume "ex_itoa x = ex_itoa y"
  then have "length (ex_itoa x) = length (ex_itoa y)" by simp
  then have "nat (if x < 0 then - 2 * x - 1 else 2 * x) = nat (if y < 0 then - 2 * y - 1 else 2 * y)" by (simp add: ex_itoa_def)
  then have "(if x < 0 then - 2 * x - 1 else 2 * x) = (if y < 0 then - 2 * y - 1 else 2 * y)" by (simp add: nat_eq_iff split: if_splits)
  then show "x = y" by (simp split: if_splits) presburger+
qed

theorem spread_puts_pass_witness:
  "\<exists>kv'. SpreadPutsSize ex_itoa [[([], ReplyLost), ([], Delivered)], [([], Delivered)]] [[([], Delivered)], [([], RequestLost), ([], Delivered)]]
       [''x'', ''y''] MakeKVServer = Some (Inr (kv', [''k'', ''k11''], [''x'', ''y''])) \<and>
     kvStore kv' ''k11'' = Some \<lparr>Value = ''y'', Version = 1\<rparr>"
proof -
  have ka: "MakeKeys ex_itoa (length [''x'', ''y'']) = [''k'', ''k11'']" by (simp add: MakeKeys_def ex_itoa_def numeral_2_eq_2)
  have "quiet (set [''k'', ''k11'']) ([[([], ReplyLost), ([], Delivered)], [([], Delivered)]] @ [[([], Delivered)], [([], RequestLost), ([], Delivered)]])"
    by (auto simp: quiet_def alone_def)
  with spread_puts_pass [OF inj_ex_itoa, of "[[([], ReplyLost), ([], Delivered)], [([], Delivered)]]" "[''x'', ''y'']"
      "[[([], Delivered)], [([], RequestLost), ([], Delivered)]]" MakeKVServer, unfolded ka]
  show ?thesis by (force simp: MakeKVServer_def)
qed

subsection \<open>Logged calls and JSON values\<close>

definition letterBytes :: string where
  "letterBytes = ''abcdefghijklmnopqrstuvwxyzABCDEFGHIJKLMNOPQRSTUVWXYZ''"

definition RandValue :: "nat list \<Rightarrow> string" where
  \<comment> \<open>from the random numbers it draws, one for each letter\<close>
  "RandValue rnds = map (\<lambda>r. letterBytes ! (r mod length letterBytes)) rnds"

lemma RandValue_letters: "length (RandValue rnds) = length rnds \<and> set (RandValue rnds) \<subseteq> set letterBytes"
proof -
  have "0 < length letterBytes" by (simp add: letterBytes_def)
  then show ?thesis by (auto simp: RandValue_def)
qed

definition Log_Get :: "string \<Rightarrow> int \<Rightarrow> int \<Rightarrow> int \<Rightarrow> GetReply \<Rightarrow> kvtest \<Rightarrow> kvtest \<times> GetReply" where
  \<comment> \<open>the function \<open>Get\<close> of the package: \<open>r\<close> is the clerk's answer\<close>
  "Log_Get key cli t0 t1 r ts =
     (logOp \<lparr>opInput = \<lparr>kiOp = 0, kiKey = key, kiValue = [], kiVersion = 0\<rparr>,
             opOutput = \<lparr>koValue = gValue r, koVersion = gVersion r, koErr = gErr r\<rparr>,
             opCall = t0, opReturn = t1, ClientId = cli\<rparr> (Op ts), r)"

definition Log_Put :: "string \<Rightarrow> string \<Rightarrow> Tversion \<Rightarrow> int \<Rightarrow> int \<Rightarrow> int \<Rightarrow> Err \<Rightarrow> kvtest \<Rightarrow> kvtest \<times> Err" where
  "Log_Put key value version cli t0 t1 err ts =
     (logOp \<lparr>opInput = \<lparr>kiOp = 1, kiKey = key, kiValue = value, kiVersion = version\<rparr>,
             opOutput = \<lparr>koValue = [], koVersion = 0, koErr = err\<rparr>,
             opCall = t0, opReturn = t1, ClientId = cli\<rparr> (Op ts), err)"

lemma Log_same: "Log_Get = Test_Get" "Log_Put = Test_Put"
  by (simp_all add: fun_eq_iff Log_Get_def Test_Get_def Log_Put_def Test_Put_def)

definition PutJson :: "('v \<Rightarrow> string option) \<Rightarrow> string \<Rightarrow> 'v \<Rightarrow> Tversion \<Rightarrow> int \<Rightarrow> int \<times> int \<times> Err \<Rightarrow> kvtest \<Rightarrow> (kvtest \<times> Err) go" where
  \<comment> \<open>the triple is what the clerk answers, and when\<close>
  "PutJson enc key v ver cli = (\<lambda>(t0, t1, err) ts. case enc v of None \<Rightarrow> Inl LogFatal | Some b \<Rightarrow> Inr (Log_Put key b ver cli t0 t1 err ts))"

fun PutAtLeastOnceJson ::
  "('v \<Rightarrow> string option) \<Rightarrow> string \<Rightarrow> 'v \<Rightarrow> int \<Rightarrow> (int \<times> int \<times> Err) list \<Rightarrow> Tversion \<Rightarrow> kvtest \<Rightarrow> (kvtest \<times> Tversion) go option" where
  \<comment> \<open>\<open>None\<close> when the answers run out\<close>
  "PutAtLeastOnceJson enc key v cli [] ver ts = None"
| "PutAtLeastOnceJson enc key v cli (x # xs) ver ts = (case PutJson enc key v 0 cli x ts of
       Inl e \<Rightarrow> Some (Inl e)
     | Inr (ts1, err) \<Rightarrow> if err \<noteq> ErrMaybe then Some (Inr (ts1, ver)) else PutAtLeastOnceJson enc key v cli xs (ver + 1) ts1)"

text \<open>
  The version that \<open>PutAtLeastOnceJson\<close> is given is never sent: every put it records names version 0, and what it
  returns is the given version plus the number of puts that may have happened.
\<close>

lemma PutAtLeastOnceJson_version:
  assumes "PutAtLeastOnceJson enc key v cli xs ver ts = Some (Inr (ts', ver'))" and "oplog ts = Some log"
  shows "\<exists>ys. oplog ts' = Some (log @ ys) \<and> ys \<noteq> [] \<and> (\<forall>y \<in> set ys. kiOp (opInput y) = 1 \<and> kiVersion (opInput y) = 0) \<and>
    ver' = ver + of_nat (length ys - 1)"
  using assms
proof (induction xs arbitrary: ver ts log)
  case (Cons x xs)
  obtain t0 t1 err where x: "x = (t0, t1, err)" by (cases x)
  obtain b where b: "enc v = Some b" using Cons.prems(1) by (auto simp: PutJson_def x split: option.splits)
  define y where "y = \<lparr>opInput = \<lparr>kiOp = 1, kiKey = key, kiValue = b, kiVersion = 0\<rparr>, opOutput = \<lparr>koValue = [], koVersion = 0, koErr = err\<rparr>,
             opCall = t0, opReturn = t1, ClientId = cli\<rparr>"
  define ts1 where "ts1 = fst (Log_Put key b 0 cli t0 t1 err ts)"
  have ts1: "oplog ts1 = Some (log @ [y])" "PutJson enc key v 0 cli x ts = Inr (ts1, err)"
    using Cons.prems(2) by (simp_all add: ts1_def y_def Log_Put_def logOp_def Op_def Append_def PutJson_def x b)
  have y: "kiOp (opInput y) = 1" "kiVersion (opInput y) = 0" by (simp_all add: y_def)
  show ?case
  proof (cases "err = ErrMaybe")
    case False
    then show ?thesis using Cons.prems(1) ts1 y by (intro exI [of _ "[y]"]) auto
  next
    case True
    then have "PutAtLeastOnceJson enc key v cli xs (ver + 1) ts1 = Some (Inr (ts', ver'))" using Cons.prems(1) ts1(2) by simp
    from Cons.IH [OF this ts1(1)] obtain ys where ys: "oplog ts' = Some ((log @ [y]) @ ys)" "ys \<noteq> []"
      "\<forall>y \<in> set ys. kiOp (opInput y) = 1 \<and> kiVersion (opInput y) = 0" "ver' = ver + 1 + of_nat (length ys - 1)" by blast
    have "1 + (of_nat (length ys - 1) :: Tversion) = of_nat (length ys)" using ys(2) by (cases ys) simp_all
    then show ?thesis using ys y by (intro exI [of _ "y # ys"]) (auto simp: add.assoc)
  qed
qed simp

end
