(* ===== verification/Kv_History.thy ===== *)
theory Kv_History
  imports Kvtest_Harness
begin

text \<open>
  Linearizability of what the key/value tests record (\<open>src/kvtest1/porcupine.go\<close>, \<open>src/kvsrv1\<close>, \<open>src/models1/kv.go\<close>).
  Any number of clients call their clerks at the same time; a clerk's attempt may lose its request or
  its reply and is then repeated; the test reads the clock around each call and appends the
  operation to the log. The theory proves that the log of finished operations is linearizable for the
  sequential model of the tests, so that \<open>checkPorcupine\<close> finds nothing to complain about.

  A step is one request handled by the server, one message lost or delivered, one reading of the clock, or one entry of the
  log. \<open>hLin\<close> and \<open>hOwn\<close> are history variables: the order in which operations take effect, and the place in it
  of the operation a client is in.
\<close>

subsection \<open>Linearizable histories\<close>

fun accepts :: "KvState \<Rightarrow> operation list \<Rightarrow> bool" where
  \<comment> \<open>the sequential model takes the operations one after the other\<close>
  "accepts st [] = True"
| "accepts st (x # xs) = (case KvModel_Step st (opInput x) (opOutput x) of
     (ok, Some st') \<Rightarrow> ok \<and> accepts st' xs | (ok, None) \<Rightarrow> False)"

definition in_time :: "operation \<Rightarrow> operation \<Rightarrow> bool" where
  \<comment> \<open>the first may come before the second: the second had not returned before the first was called\<close>
  "in_time x y \<longleftrightarrow> \<not> opReturn y < opCall x"

definition linearizable :: "operation list \<Rightarrow> bool" where
  \<comment> \<open>each part of the history, one for each key, has an order that keeps to real time and to the model\<close>
  "linearizable h \<longleftrightarrow> (\<forall>part \<in> set (KvModel_Partition (map (\<lambda>x. (opInput x, x)) h)).
     \<exists>xs. mset xs = mset (map snd part) \<and> sorted_wrt in_time xs \<and> accepts KvModel_Init xs)"

subsection \<open>Clients\<close>

datatype kvop = GetOp string | PutOp PutArgs

datatype answer = GotReply GetReply | GotErr Err

datatype hpc = HIdle | HBusy kvop int bool | HReplied kvop int answer | HGot kvop int answer

record lin =
  lnOp :: kvop
  lnStart :: int
  lnAt :: int
  lnHit :: bool
  lnReply :: GetReply
  lnRec :: "operation option"

record hsys =
  hSrv :: KVServer
  hNow :: int
  hPc :: "nat \<Rightarrow> hpc"
  hTest :: kvtest
  hLin :: "lin list"
  hOwn :: "nat \<Rightarrow> nat option"

definition clerkAnswer :: "kvop \<Rightarrow> bool \<Rightarrow> KVServer \<Rightarrow> KVServer \<times> answer" where
  \<comment> \<open>an attempt whose reply arrives, and what the clerk makes of it\<close>
  "clerkAnswer x retry kv = (case x of
       GetOp key \<Rightarrow> (kv, GotReply (Get kv key))
     | PutOp a \<Rightarrow> (case Put kv a of (kv1, err) \<Rightarrow> (kv1, GotErr (if err = ErrVersion \<and> retry then ErrMaybe else err))))"

definition handled :: "kvop \<Rightarrow> KVServer \<Rightarrow> KVServer" where
  "handled x kv = (case x of GetOp key \<Rightarrow> kv | PutOp a \<Rightarrow> fst (Put kv a))"

definition hits :: "kvop \<Rightarrow> KVServer \<Rightarrow> bool" where
  "hits x kv = (case x of GetOp key \<Rightarrow> False | PutOp a \<Rightarrow> snd (Put kv a) = OK)"

definition readReply :: "kvop \<Rightarrow> KVServer \<Rightarrow> GetReply" where
  "readReply x kv = (case x of GetOp key \<Rightarrow> Get kv key | PutOp a \<Rightarrow> \<lparr>gValue = [], gVersion = 0, gErr = []\<rparr>)"

definition recordOp :: "nat \<Rightarrow> kvop \<Rightarrow> int \<Rightarrow> int \<Rightarrow> answer \<Rightarrow> kvtest \<Rightarrow> kvtest" where
  "recordOp c x t0 t1 ans ts = (case (x, ans) of
       (GetOp key, GotReply r) \<Rightarrow> fst (Test_Get key (int c) t0 t1 r ts)
     | (PutOp a, GotErr e) \<Rightarrow> fst (Test_Put (pKey a) (pValue a) (pVersion a) (int c) t0 t1 e ts)
     | _ \<Rightarrow> ts)"

definition takesEffect :: "nat \<Rightarrow> kvop \<Rightarrow> int \<Rightarrow> hsys \<Rightarrow> hsys" where
  \<comment> \<open>history only: the operation of this client gets its place, if it has none\<close>
  "takesEffect c x t0 s = (if hOwn s c = None
     then s\<lparr>hLin := hLin s @ [\<lparr>lnOp = x, lnStart = t0, lnAt = hNow s, lnHit = hits x (hSrv s), lnReply = readReply x (hSrv s), lnRec = None\<rparr>],
            hOwn := (hOwn s)(c \<mapsto> length (hLin s))\<rparr>
     else s)"

definition forgets :: "nat \<Rightarrow> hsys \<Rightarrow> hsys" where
  \<comment> \<open>history only: the reply was lost, and the operation keeps its place only if it changed the server\<close>
  "forgets c s = (case hOwn s c of None \<Rightarrow> s
     | Some i \<Rightarrow> if lnHit (hLin s ! i) then s else s\<lparr>hOwn := (hOwn s)(c := None)\<rparr>)"

definition inputOf :: "kvop \<Rightarrow> KvInput" where
  "inputOf x = (case x of GetOp key \<Rightarrow> get_input key | PutOp a \<Rightarrow> put_input a)"

definition outputOf :: "answer \<Rightarrow> KvOutput" where
  "outputOf ans = (case ans of GotReply r \<Rightarrow> get_output r | GotErr e \<Rightarrow> put_output e)"

definition entryOf :: "nat \<Rightarrow> kvop \<Rightarrow> int \<Rightarrow> int \<Rightarrow> answer \<Rightarrow> operation" where
  "entryOf c x t0 t1 ans = \<lparr>opInput = inputOf x, opOutput = outputOf ans, opCall = t0, opReturn = t1, ClientId = int c\<rparr>"

definition finishes :: "nat \<Rightarrow> operation \<Rightarrow> hsys \<Rightarrow> hsys" where
  \<comment> \<open>history only: the operation of this client has been recorded\<close>
  "finishes c y s = (case hOwn s c of None \<Rightarrow> s
     | Some i \<Rightarrow> s\<lparr>hLin := (hLin s)[i := (hLin s ! i)\<lparr>lnRec := Some y\<rparr>], hOwn := (hOwn s)(c := None)\<rparr>)"

inductive hstep :: "hsys \<Rightarrow> hsys \<Rightarrow> bool" where
  tick: "hNow s \<le> t \<Longrightarrow> hstep s (s\<lparr>hNow := t\<rparr>)"
| called: "hPc s c = HIdle \<Longrightarrow> hstep s (s\<lparr>hPc := (hPc s)(c := HBusy x (hNow s) False)\<rparr>)"
| request_lost: "hPc s c = HBusy x t0 r \<Longrightarrow> hstep s (s\<lparr>hPc := (hPc s)(c := HBusy x t0 True)\<rparr>)"
| ran: "hPc s c = HBusy x t0 r \<Longrightarrow> clerkAnswer x r (hSrv s) = (kv, ans) \<Longrightarrow>
    hstep s ((takesEffect c x t0 s)\<lparr>hSrv := kv, hPc := (hPc s)(c := HReplied x t0 ans)\<rparr>)"
| reply_lost: "hPc s c = HReplied x t0 ans \<Longrightarrow> hstep s ((forgets c s)\<lparr>hPc := (hPc s)(c := HBusy x t0 True)\<rparr>)"
| answered: "hPc s c = HReplied x t0 ans \<Longrightarrow> hstep s (s\<lparr>hPc := (hPc s)(c := HGot x t0 ans)\<rparr>)"
| recorded: "hPc s c = HGot x t0 ans \<Longrightarrow>
    hstep s ((finishes c (entryOf c x t0 (hNow s) ans) s)\<lparr>hTest := recordOp c x t0 (hNow s) ans (hTest s), hPc := (hPc s)(c := HIdle)\<rparr>)"

definition hinit :: "hsys \<Rightarrow> bool" where
  \<comment> \<open>a new server, idle clients and an empty log\<close>
  "hinit s \<longleftrightarrow> hSrv s = MakeKVServer \<and> (\<forall>c. hPc s c = HIdle \<and> hOwn s c = None) \<and> oplog (hTest s) = Some [] \<and> hLin s = []"

subsection \<open>The order of effects is one the model takes\<close>

definition keyOf :: "kvop \<Rightarrow> string" where
  "keyOf x = (case x of GetOp key \<Rightarrow> key | PutOp a \<Rightarrow> pKey a)"

definition fits :: "lin \<Rightarrow> KvOutput \<Rightarrow> bool" where
  "fits e y = (case lnOp e of GetOp key \<Rightarrow> koValue y = gValue (lnReply e)
     | PutOp a \<Rightarrow> if lnHit e then koErr y = OK \<or> koErr y = ErrMaybe else koErr y = ErrVersion \<or> koErr y = ErrMaybe \<or> koErr y = ErrNoKey)"

lemma fits_rec [simp]: "fits (e\<lparr>lnRec := z\<rparr>) y = fits e y"
  by (simp add: fits_def split: kvop.splits)

fun chain :: "lin list \<Rightarrow> KVServer \<Rightarrow> KVServer option" where
  \<comment> \<open>the operations one after the other on a server, with the effects that were noted\<close>
  "chain [] kv = Some kv"
| "chain (e # es) kv = (if lnHit e = hits (lnOp e) kv \<and> lnReply e = readReply (lnOp e) kv then chain es (handled (lnOp e) kv) else None)"

lemma chain_append: "chain (es @ es') kv = Option.bind (chain es kv) (chain es')"
  by (induction es arbitrary: kv) auto

lemma chain_recorded: "chain (es[i := (es ! i)\<lparr>lnRec := y\<rparr>]) kv = chain es kv"
proof (induction es arbitrary: i kv)
  case (Cons e es) then show ?case by (cases i) auto
qed simp

definition recs :: "lin list \<Rightarrow> operation list" where
  "recs es = map (\<lambda>e. the (lnRec e)) (filter (\<lambda>e. lnRec e \<noteq> None) es)"

definition rec_ok :: "lin \<Rightarrow> bool" where
  "rec_ok e = (case lnRec e of None \<Rightarrow> True
     | Some y \<Rightarrow> opInput y = inputOf (lnOp e) \<and> opCall y = lnStart e \<and> lnAt e \<le> opReturn y \<and> fits e (opOutput y))"

lemma step_accepted:
  assumes "fits e y" and "koErr y \<noteq> ErrNoKey \<or> kiOp (inputOf (lnOp e)) = 0" and "lnHit e = hits (lnOp e) kv" and "lnReply e = readReply (lnOp e) kv"
  shows "KvModel_Step (absKv kv (keyOf (lnOp e))) (inputOf (lnOp e)) y = (True, Some (absKv (handled (lnOp e) kv) (keyOf (lnOp e))))"
  using assms
  by (cases "lnOp e")
    (auto simp: fits_def KvModel_Step_def inputOf_def get_input_def put_input_def keyOf_def handled_def readReply_def hits_def Get_def Put_def
      absKv_def KvModel_Init_def OK_def ErrNoKey_def ErrVersion_def ErrMaybe_def split: option.splits if_splits)

lemma other_key: "k \<noteq> keyOf x \<Longrightarrow> absKv (handled x kv) k = absKv kv k"
  by (auto simp: keyOf_def handled_def Put_def absKv_def split: kvop.splits option.splits)

lemma missed: "\<not> hits x kv \<Longrightarrow> handled x kv = kv"
proof -
  have "fst (Put kv a) = kv" if "snd (Put kv a) \<noteq> OK" for a
    using Put_result(2) [of kv a "fst (Put kv a)" "snd (Put kv a)"] that by simp
  then show "\<not> hits x kv \<Longrightarrow> handled x kv = kv" by (auto simp: hits_def handled_def split: kvop.splits)
qed

definition noKeyPut :: "operation \<Rightarrow> bool" where
  \<comment> \<open>a put that was answered \<open>ErrNoKey\<close>, which the sequential model accepts from no put\<close>
  "noKeyPut y \<longleftrightarrow> kiOp (opInput y) = 1 \<and> koErr (opOutput y) = ErrNoKey"

lemma noKeyPut_missed:
  assumes "rec_ok e" and "lnRec e = Some y" and "noKeyPut y"
  shows "\<not> lnHit e"
  using assms
  by (auto simp: rec_ok_def noKeyPut_def fits_def inputOf_def get_input_def put_input_def OK_def ErrNoKey_def ErrMaybe_def
      split: kvop.splits if_splits)

lemma chain_accepts:
  assumes "chain es kv = Some kv'" and "\<forall>e \<in> set es. rec_ok e \<and> (lnRec e = None \<longrightarrow> \<not> lnHit e)"
  shows "accepts (absKv kv k) (filter (\<lambda>y. \<not> noKeyPut y) (recs (filter (\<lambda>e. keyOf (lnOp e) = k) es)))"
  using assms
proof (induction es arbitrary: kv)
  case (Cons e es)
  have c: "lnHit e = hits (lnOp e) kv" "lnReply e = readReply (lnOp e) kv" "chain es (handled (lnOp e) kv) = Some kv'"
    using Cons.prems(1) by (auto split: if_splits)
  have ih: "accepts (absKv (handled (lnOp e) kv) k) (filter (\<lambda>y. \<not> noKeyPut y) (recs (filter (\<lambda>e. keyOf (lnOp e) = k) es)))"
    using Cons.IH [OF c(3)] Cons.prems(2) by simp
  show ?case
  proof (cases "lnRec e")
    case None
    then have "handled (lnOp e) kv = kv" using Cons.prems(2) c(1) missed by simp
    then show ?thesis using ih None by (simp add: recs_def)
  next
    case (Some y)
    have y: "rec_ok e" "opInput y = inputOf (lnOp e)" "fits e (opOutput y)" using Cons.prems(2) Some by (auto simp: rec_ok_def)
    show ?thesis
    proof (cases "keyOf (lnOp e) = k")
      case True
      show ?thesis
      proof (cases "noKeyPut y")
        case refused: True
        then have "handled (lnOp e) kv = kv" using noKeyPut_missed [OF y(1) Some] c(1) missed by simp
        then show ?thesis using ih refused by (simp add: recs_def Some)
      next
        case False
        moreover have "kiOp (inputOf (lnOp e)) = 0 \<or> kiOp (inputOf (lnOp e)) = 1"
          by (auto simp: inputOf_def get_input_def put_input_def split: kvop.splits)
        ultimately have "koErr (opOutput y) \<noteq> ErrNoKey \<or> kiOp (inputOf (lnOp e)) = 0" using y(2) by (auto simp: noKeyPut_def)
        then show ?thesis using step_accepted [OF y(3) _ c(1,2)] ih False True by (simp add: recs_def Some y(2))
      qed
    next
      case False
      then show ?thesis using other_key [of k "lnOp e" kv] ih by simp
    qed
  qed
qed (simp add: recs_def)

lemma groupKeys_filter: "g \<in> set (groupKeys h) \<Longrightarrow> snd g = filter (\<lambda>w. kiKey (fst w) = fst g) h"
  by (induction h rule: groupKeys.induct) auto

lemma part_is_filter: "part \<in> set (KvModel_Partition h) \<Longrightarrow> \<exists>k. part = filter (\<lambda>w. kiKey (fst w) = k) h"
proof -
  assume "part \<in> set (KvModel_Partition h)"
  then obtain k where k: "k \<in> fst ` set (groupKeys h)" "part = the (map_of (groupKeys h) k)"
    by (auto simp: KvModel_Partition_def Let_def)
  then obtain v where "map_of (groupKeys h) k = Some v" by (metis map_of_eq_None_iff not_None_eq)
  then show ?thesis using groupKeys_filter [of "(k, v)" h] k(2) map_of_SomeD by fastforce
qed

lemma linearizable_of_order:
  assumes "mset xs = mset h" and "sorted_wrt in_time xs"
    and "\<And>k. accepts KvModel_Init (filter (\<lambda>x. kiKey (opInput x) = k) xs)"
  shows "linearizable h"
  unfolding linearizable_def
proof
  fix part assume "part \<in> set (KvModel_Partition (map (\<lambda>x. (opInput x, x)) h))"
  then obtain k where "part = filter (\<lambda>w. kiKey (fst w) = k) (map (\<lambda>x. (opInput x, x)) h)" using part_is_filter by blast
  then have "map snd part = filter (\<lambda>x. kiKey (opInput x) = k) h" by (simp add: filter_map comp_def)
  moreover have "mset (filter (\<lambda>x. kiKey (opInput x) = k) xs) = mset (filter (\<lambda>x. kiKey (opInput x) = k) h)"
    using assms(1) by (metis mset_filter)
  moreover have "sorted_wrt in_time (filter (\<lambda>x. kiKey (opInput x) = k) xs)" using assms(2) by (rule sorted_wrt_filter)
  ultimately show "\<exists>xs. mset xs = mset (map snd part) \<and> sorted_wrt in_time xs \<and> accepts KvModel_Init xs"
    using assms(3) by metis
qed

subsection \<open>What every step keeps\<close>

definition owns :: "lin list \<Rightarrow> nat \<Rightarrow> kvop \<Rightarrow> int \<Rightarrow> bool" where
  "owns es i x t0 \<longleftrightarrow> i < length es \<and> lnOp (es ! i) = x \<and> lnStart (es ! i) = t0 \<and> lnRec (es ! i) = None"

definition settledPut :: "lin \<Rightarrow> KVServer \<Rightarrow> bool" where
  \<comment> \<open>a put that has been applied; the version it named has been left\<close>
  "settledPut e kv \<longleftrightarrow> (\<exists>a. lnOp e = PutOp a \<and> lnHit e \<and> unat (pVersion a) < unat (verOf kv (pKey a)))"

definition typed :: "kvop \<Rightarrow> answer \<Rightarrow> bool" where
  "typed x ans = (case x of GetOp _ \<Rightarrow> \<exists>r. ans = GotReply r | PutOp _ \<Rightarrow> \<exists>e. ans = GotErr e)"

definition pc_fine :: "hsys \<Rightarrow> nat \<Rightarrow> bool" where
  "pc_fine s c = (case hPc s c of
       HIdle \<Rightarrow> hOwn s c = None
     | HBusy x t0 r \<Rightarrow> t0 \<le> hNow s \<and>
         (\<forall>i. hOwn s c = Some i \<longrightarrow> owns (hLin s) i x t0 \<and> r \<and> settledPut (hLin s ! i) (hSrv s))
     | HReplied x t0 ans \<Rightarrow> t0 \<le> hNow s \<and> (\<exists>i. hOwn s c = Some i \<and> owns (hLin s) i x t0 \<and> fits (hLin s ! i) (outputOf ans) \<and>
         (lnHit (hLin s ! i) \<longrightarrow> settledPut (hLin s ! i) (hSrv s)) \<and> typed x ans)
     | HGot x t0 ans \<Rightarrow> \<exists>i. hOwn s c = Some i \<and> owns (hLin s) i x t0 \<and> fits (hLin s ! i) (outputOf ans) \<and> typed x ans)"

definition order_fine :: "hsys \<Rightarrow> bool" where
  "order_fine s \<longleftrightarrow> chain (hLin s) MakeKVServer = Some (hSrv s) \<and> sorted (map lnAt (hLin s)) \<and>
     (\<forall>e \<in> set (hLin s). lnStart e \<le> lnAt e \<and> lnAt e \<le> hNow s \<and> rec_ok e) \<and> (\<forall>k. unat (verOf (hSrv s) k) \<le> length (hLin s))"

definition owners_fine :: "hsys \<Rightarrow> bool" where
  "owners_fine s \<longleftrightarrow> (\<forall>c d i. hOwn s c = Some i \<longrightarrow> hOwn s d = Some i \<longrightarrow> c = d) \<and>
     (\<forall>i < length (hLin s). lnRec (hLin s ! i) = None \<longrightarrow> lnHit (hLin s ! i) \<longrightarrow> (\<exists>c. hOwn s c = Some i))"

definition log_fine :: "hsys \<Rightarrow> bool" where
  "log_fine s \<longleftrightarrow> (\<exists>log. oplog (hTest s) = Some log \<and> mset log = mset (recs (hLin s)))"

definition hist_inv :: "hsys \<Rightarrow> bool" where
  "hist_inv s \<longleftrightarrow> order_fine s \<and> owners_fine s \<and> log_fine s \<and> (\<forall>c. pc_fine s c)"

lemma hist_init: "hinit s \<Longrightarrow> hist_inv s"
  by (simp add: hinit_def hist_inv_def order_fine_def owners_fine_def log_fine_def pc_fine_def recs_def verOf_simps MakeKVServer_def)

lemma handled_version:
  assumes "unat (verOf kv k) < 2 ^ 64 - 1"
  shows "unat (verOf kv k) \<le> unat (verOf (handled x kv) k)" "unat (verOf (handled x kv) k) \<le> unat (verOf kv k) + (if hits x kv then 1 else 0)"
  using kv.put_version [of kv k] assms missed [of x kv] by (auto simp: hits_def handled_def split: kvop.splits)

lemma pc_fine_frame:
  assumes "pc_fine s d" and "hPc s' d = hPc s d" and "hOwn s' d = hOwn s d" and "hNow s \<le> hNow s'"
    and "\<And>i. hOwn s d = Some i \<Longrightarrow> i < length (hLin s) \<Longrightarrow> i < length (hLin s') \<and> hLin s' ! i = hLin s ! i"
    and "\<And>k. unat (verOf (hSrv s) k) \<le> unat (verOf (hSrv s') k)"
  shows "pc_fine s' d"
proof -
  have o: "owns (hLin s') i x t0 \<and> hLin s' ! i = hLin s ! i" if "hOwn s d = Some i" "owns (hLin s) i x t0" for i x t0
    using that assms(5) [of i] by (simp add: owns_def)
  have v: "settledPut e (hSrv s) \<Longrightarrow> settledPut e (hSrv s')" for e using assms(6) by (auto simp: settledPut_def intro: less_le_trans)
  show ?thesis
  proof (cases "hPc s d")
    case (HBusy x t0 r)
    then show ?thesis using assms(1-4) o v by (simp add: pc_fine_def) (metis order.trans)
  next
    case (HReplied x t0 ans)
    then show ?thesis using assms(1-4) o v by (simp add: pc_fine_def) (metis order.trans)
  next
    case (HGot x t0 ans)
    then show ?thesis using assms(1-3) o by (simp add: pc_fine_def) metis
  qed (use assms(1-3) in \<open>simp add: pc_fine_def\<close>)
qed

text \<open>An operation takes effect: it gets the next place in the order.\<close>

lemma effect_inv:
  assumes inv: "hist_inv s" and busy: "hPc s c = HBusy x t0 r" and own: "hOwn s c = None" and room: "length (hLin s) + 1 < 2 ^ 64"
    and s1: "s1 = (takesEffect c x t0 s)\<lparr>hSrv := handled x (hSrv s), hPc := (hPc s)(c := p)\<rparr>" and fine: "pc_fine s1 c"
  shows "hist_inv s1"
proof -
  let ?e = "\<lparr>lnOp = x, lnStart = t0, lnAt = hNow s, lnHit = hits x (hSrv s), lnReply = readReply x (hSrv s), lnRec = None\<rparr>"
  have L: "hLin s1 = hLin s @ [?e]" "hOwn s1 = (hOwn s)(c \<mapsto> length (hLin s))" "hSrv s1 = handled x (hSrv s)" "hNow s1 = hNow s" "hTest s1 = hTest s"
    using own by (simp_all add: s1 takesEffect_def)
  have or: "order_fine s" and ow: "owners_fine s" and lg: "log_fine s" and pc: "pc_fine s d" for d using inv by (simp_all add: hist_inv_def)
  have small: "unat (verOf (hSrv s) k) < 2 ^ 64 - 1" for k
  proof -
    have "unat (verOf (hSrv s) k) \<le> length (hLin s)" using or by (simp add: order_fine_def)
    with room show ?thesis by simp
  qed
  have t: "t0 \<le> hNow s" using pc [of c] busy by (simp add: pc_fine_def)
  have "unat (verOf (handled x (hSrv s)) k) \<le> Suc (length (hLin s))" for k
  proof -
    have "unat (verOf (handled x (hSrv s)) k) \<le> unat (verOf (hSrv s) k) + 1" using handled_version(2) [OF small [of k], of x] by (simp split: if_splits)
    moreover have "unat (verOf (hSrv s) k) \<le> length (hLin s)" using or by (simp add: order_fine_def)
    ultimately show ?thesis by simp
  qed
  then have "order_fine s1"
    using or t by (auto simp: order_fine_def L chain_append sorted_append rec_ok_def)
  moreover have lt: "i < length (hLin s)" if "hOwn s d = Some i" for d i
    using pc [of d] that by (auto simp: pc_fine_def owns_def split: hpc.splits)
  have "owners_fine s1" unfolding owners_fine_def
  proof (intro conjI allI impI)
    fix a b i assume "hOwn s1 a = Some i" "hOwn s1 b = Some i"
    then show "a = b" using lt ow by (auto simp: L owners_fine_def split: if_splits)
  next
    fix i assume i: "i < length (hLin s1)" "lnRec (hLin s1 ! i) = None" "lnHit (hLin s1 ! i)"
    show "\<exists>a. hOwn s1 a = Some i"
    proof (cases "i < length (hLin s)")
      case True
      then obtain a where a: "hOwn s a = Some i" using i(2,3) ow by (auto simp: L owners_fine_def nth_append)
      then have "a \<noteq> c" using own by auto
      with a show ?thesis by (intro exI [of _ a]) (simp add: L)
    next
      case False
      then have "i = length (hLin s)" using i(1) by (simp add: L)
      then show ?thesis by (intro exI [of _ c]) (simp add: L)
    qed
  qed
  moreover have "log_fine s1" using lg by (simp add: log_fine_def L recs_def)
  moreover have "pc_fine s1 d" for d
  proof (cases "d = c")
    case False
    then have "hPc s1 d = hPc s d" by (simp add: s1)
    moreover have "hOwn s1 d = hOwn s d" using False by (simp add: L)
    ultimately show ?thesis using handled_version(1) [OF small, of _ x] by (intro pc_fine_frame [OF pc]) (simp_all add: L nth_append)
  qed (use fine in simp)
  ultimately show ?thesis by (simp add: hist_inv_def)
qed

lemma pc_change_inv:
  assumes "hist_inv s" and "pc_fine (s\<lparr>hPc := (hPc s)(c := p)\<rparr>) c"
  shows "hist_inv (s\<lparr>hPc := (hPc s)(c := p)\<rparr>)"
proof -
  have "pc_fine (s\<lparr>hPc := (hPc s)(c := p)\<rparr>) d" for d
    using assms by (cases "d = c") (auto intro: pc_fine_frame [where s = s] simp: hist_inv_def)
  then show ?thesis using assms(1) by (simp add: hist_inv_def order_fine_def owners_fine_def log_fine_def)
qed

lemma settled_refused:
  assumes "settledPut e kv"
  shows "\<exists>a. lnOp e = PutOp a \<and> lnHit e \<and> Put kv a = (kv, ErrVersion)"
proof -
  from assms obtain a where a: "lnOp e = PutOp a" "lnHit e" "unat (pVersion a) < unat (verOf kv (pKey a))" by (auto simp: settledPut_def)
  have "verOf kv (pKey a) \<noteq> pVersion a" using a(3) by auto
  moreover have "kvStore kv (pKey a) \<noteq> None" using verOf_pos_present [of kv "pKey a"] a(3) by simp
  ultimately have "Put kv a = (kv, ErrVersion)" by (auto simp: Put_def verOf_simps split: option.splits)
  with a show ?thesis by blast
qed

lemma answer_fits:
  assumes "clerkAnswer x r kv = (kv', ans)" and "e = \<lparr>lnOp = x, lnStart = t0, lnAt = t, lnHit = hits x kv, lnReply = readReply x kv, lnRec = None\<rparr>"
  shows "kv' = handled x kv \<and> fits e (outputOf ans) \<and> typed x ans"
proof (cases x)
  case (GetOp key)
  then show ?thesis using assms by (auto simp: typed_def clerkAnswer_def handled_def fits_def outputOf_def get_output_def readReply_def)
next
  case (PutOp a)
  obtain kv1 err where "Put kv a = (kv1, err)" by (cases "Put kv a")
  then show ?thesis using assms PutOp Put_result(4) [of kv a kv1 err]
    by (auto simp: typed_def clerkAnswer_def handled_def fits_def outputOf_def put_output_def hits_def split: if_splits)
qed

lemma recs_update:
  "i < length es \<Longrightarrow> lnRec (es ! i) = None \<Longrightarrow> mset (recs (es[i := (es ! i)\<lparr>lnRec := Some y\<rparr>])) = add_mset y (mset (recs es))"
proof (induction es arbitrary: i)
  case (Cons e es) then show ?case by (cases i) (auto simp: recs_def)
qed simp

lemma record_appends:
  assumes "typed x ans" and "oplog ts = Some log"
  shows "oplog (recordOp c x t0 t1 ans ts) = Some (log @ [entryOf c x t0 t1 ans])"
  using assms
  by (cases x) (auto simp: typed_def recordOp_def Test_Get_def Test_Put_def logOp_def Op_def Append_def entryOf_def inputOf_def outputOf_def
      get_input_def put_input_def get_output_def put_output_def)

lemma record_inv:
  assumes inv: "hist_inv s" and got: "hPc s c = HGot x t0 ans" and y: "y = entryOf c x t0 (hNow s) ans"
  shows "hist_inv ((finishes c y s)\<lparr>hTest := recordOp c x t0 (hNow s) ans (hTest s), hPc := (hPc s)(c := HIdle)\<rparr>)" (is "hist_inv ?s")
proof -
  have or: "order_fine s" and ow: "owners_fine s" and lg: "log_fine s" and pc: "pc_fine s d" for d using inv by (simp_all add: hist_inv_def)
  from pc [of c] got obtain i where i: "hOwn s c = Some i" "i < length (hLin s)" "lnOp (hLin s ! i) = x" "lnStart (hLin s ! i) = t0" "lnRec (hLin s ! i) = None"
      "fits (hLin s ! i) (outputOf ans)" "typed x ans"
    by (auto simp: pc_fine_def owns_def)
  let ?e = "(hLin s ! i)\<lparr>lnRec := Some y\<rparr>"
  have L: "hLin ?s = (hLin s)[i := ?e]" "hOwn ?s = (hOwn s)(c := None)" "hSrv ?s = hSrv s" "hNow ?s = hNow s"
    using i(1) by (simp_all add: finishes_def)
  have at: "map lnAt (hLin ?s) = map lnAt (hLin s)" using i(2) by (simp add: L map_update list_update_same_conv)
  have e: "hLin s ! i \<in> set (hLin s)" using i(2) by simp
  then have "lnStart ?e \<le> lnAt ?e \<and> lnAt ?e \<le> hNow s \<and> rec_ok ?e"
    using or i(3,4,6) by (auto simp: order_fine_def rec_ok_def y entryOf_def)
  then have "\<forall>e \<in> set (hLin ?s). lnStart e \<le> lnAt e \<and> lnAt e \<le> hNow s \<and> rec_ok e"
    using or set_update_subset_insert [of "hLin s" i ?e] unfolding L(1) order_fine_def by blast
  then have "order_fine ?s" using or at by (simp add: order_fine_def L chain_recorded)
  moreover have uniq: "d = c" if "hOwn s d = Some i" for d using that i(1) ow by (simp add: owners_fine_def)
  have "owners_fine ?s" unfolding owners_fine_def
  proof (intro conjI allI impI)
    fix a b j assume "hOwn ?s a = Some j" "hOwn ?s b = Some j"
    then show "a = b" using ow by (auto simp: L owners_fine_def split: if_splits)
  next
    fix j assume j: "j < length (hLin ?s)" "lnRec (hLin ?s ! j) = None" "lnHit (hLin ?s ! j)"
    then have "j \<noteq> i" "lnRec (hLin s ! j) = None" "lnHit (hLin s ! j)" using i(2) by (auto simp: L nth_list_update split: if_splits)
    then obtain a where "hOwn s a = Some j" using ow j(1) by (auto simp: L owners_fine_def)
    moreover from this \<open>j \<noteq> i\<close> have "a \<noteq> c" using i(1) by auto
    ultimately show "\<exists>a. hOwn ?s a = Some j" by (intro exI [of _ a]) (simp add: L)
  qed
  moreover have "log_fine ?s"
    using lg record_appends [OF i(7)] recs_update [OF i(2,5)] by (auto simp: log_fine_def finishes_def i(1) y)
  moreover have "pc_fine ?s d" for d
  proof (cases "d = c")
    case False
    then have "j \<noteq> i" if "hOwn s d = Some j" for j using uniq that by auto
    then show ?thesis using False by (intro pc_fine_frame [OF pc]) (auto simp: finishes_def i(1))
  qed (simp add: pc_fine_def L)
  ultimately show ?thesis by (simp add: hist_inv_def)
qed

text \<open>The handler runs. An operation that was applied before is refused and answered \<open>ErrMaybe\<close>.\<close>

lemma ran_inv:
  assumes inv: "hist_inv s" and busy: "hPc s c = HBusy x t0 r" and ans: "clerkAnswer x r (hSrv s) = (kv, ans)"
    and s': "s' = (takesEffect c x t0 s)\<lparr>hSrv := kv, hPc := (hPc s)(c := HReplied x t0 ans)\<rparr>" and len: "length (hLin s') < 2 ^ 64"
  shows "hist_inv s'"
proof (cases "hOwn s c")
  case None
  have pc: "pc_fine s c" using inv by (simp add: hist_inv_def)
  note fit = answer_fits [OF ans refl, of t0 "hNow s"]
  have kv: "s' = (takesEffect c x t0 s)\<lparr>hSrv := handled x (hSrv s), hPc := (hPc s)(c := HReplied x t0 ans)\<rparr>" using s' fit by simp
  have room: "length (hLin s) + 1 < 2 ^ 64" using len s' None by (simp add: takesEffect_def)
  have "unat (pVersion a) < unat (verOf (handled x (hSrv s)) (pKey a))" if a: "x = PutOp a" "hits x (hSrv s)" for a
  proof -
    have "unat (verOf (hSrv s) (pKey a)) \<le> length (hLin s)" using inv by (simp add: hist_inv_def order_fine_def)
    then show ?thesis
      using applied_version(2) [of "hSrv s" a "fst (Put (hSrv s) a)"] a room by (cases "Put (hSrv s) a") (simp add: hits_def handled_def)
  qed
  then have "hits x (hSrv s) \<Longrightarrow> \<exists>a. x = PutOp a \<and> unat (pVersion a) < unat (verOf (handled x (hSrv s)) (pKey a))"
    by (cases x) (auto simp: hits_def)
  then have "pc_fine s' c" using fit None pc busy by (auto simp: kv pc_fine_def takesEffect_def owns_def settledPut_def nth_append)
  from effect_inv [OF inv busy None room kv this] show ?thesis .
next
  case (Some i)
  have "pc_fine s c" using inv by (simp add: hist_inv_def)
  then have i: "owns (hLin s) i x t0" "settledPut (hLin s ! i) (hSrv s)" "r" "t0 \<le> hNow s" using Some busy by (auto simp: pc_fine_def)
  from settled_refused [OF i(2)] i(1) obtain a where a: "x = PutOp a" "lnHit (hLin s ! i)" "Put (hSrv s) a = (hSrv s, ErrVersion)"
    by (auto simp: owns_def)
  have res: "kv = hSrv s" "ans = GotErr ErrMaybe" using ans a i(3) by (auto simp: clerkAnswer_def)
  have "s' = s\<lparr>hPc := (hPc s)(c := HReplied x t0 ans)\<rparr>" using s' Some res by (simp add: takesEffect_def)
  moreover have "fits (hLin s ! i) (outputOf ans)" using a i(1) res by (simp add: fits_def owns_def outputOf_def put_output_def)
  ultimately show ?thesis using inv Some i(1,2,4) a(1) res(2) by (auto intro!: pc_change_inv simp: pc_fine_def typed_def)
qed

lemma lost_inv:
  assumes inv: "hist_inv s" and rep: "hPc s c = HReplied x t0 ans"
  shows "hist_inv ((forgets c s)\<lparr>hPc := (hPc s)(c := HBusy x t0 True)\<rparr>)" (is "hist_inv ?s")
proof -
  have or: "order_fine s" and ow: "owners_fine s" and lg: "log_fine s" and pc: "pc_fine s d" for d using inv by (simp_all add: hist_inv_def)
  from pc [of c] rep obtain i where i: "hOwn s c = Some i" "owns (hLin s) i x t0" "lnHit (hLin s ! i) \<longrightarrow> settledPut (hLin s ! i) (hSrv s)" "t0 \<le> hNow s"
    by (auto simp: pc_fine_def)
  have L: "hLin ?s = hLin s" "hSrv ?s = hSrv s" "hNow ?s = hNow s" "hTest ?s = hTest s"
      "hOwn ?s = (if lnHit (hLin s ! i) then hOwn s else (hOwn s)(c := None))" by (simp_all add: forgets_def i(1))
  have "pc_fine ?s d" for d
  proof (cases "d = c")
    case True
    then show ?thesis using i by (auto simp: pc_fine_def L)
  next
    case False
    then show ?thesis by (intro pc_fine_frame [OF pc]) (simp_all add: L)
  qed
  moreover have "owners_fine ?s" unfolding owners_fine_def
  proof (intro conjI allI impI)
    fix a b j assume "hOwn ?s a = Some j" "hOwn ?s b = Some j"
    then show "a = b" using ow by (auto simp: L owners_fine_def split: if_splits)
  next
    fix j assume j: "j < length (hLin ?s)" "lnRec (hLin ?s ! j) = None" "lnHit (hLin ?s ! j)"
    then obtain a where a: "hOwn s a = Some j" using ow by (auto simp: L owners_fine_def)
    then have "a = c \<Longrightarrow> j = i" using i(1) by simp
    then have "hOwn ?s a = Some j" using a j(3) by (auto simp: L)
    then show "\<exists>a. hOwn ?s a = Some j" by blast
  qed
  ultimately show ?thesis using or lg by (simp add: hist_inv_def order_fine_def log_fine_def L)
qed

lemma hstep_inv:
  assumes "hstep s s'" and inv: "hist_inv s" and "length (hLin s') < 2 ^ 64"
  shows "hist_inv s'"
  using assms(1)
proof (cases rule: hstep.cases)
  case (tick t)
  have "pc_fine s d" for d using inv by (simp add: hist_inv_def)
  then have "pc_fine s' d" for d using tick by (intro pc_fine_frame [of s d s']) simp_all
  moreover have "order_fine s'" using inv tick by (auto simp: hist_inv_def order_fine_def intro: order.trans)
  ultimately show ?thesis using inv tick by (simp add: hist_inv_def owners_fine_def log_fine_def)
next
  case (called c x)
  have "pc_fine s c" using inv by (simp add: hist_inv_def)
  then show ?thesis using called inv by (auto intro!: pc_change_inv simp: pc_fine_def)
next
  case (request_lost c x t0 r)
  have "pc_fine s c" using inv by (simp add: hist_inv_def)
  then show ?thesis using request_lost inv by (auto intro!: pc_change_inv simp: pc_fine_def)
next
  case (ran c x t0 r kv ans)
  then show ?thesis using ran_inv [OF inv] assms(3) by blast
next
  case (reply_lost c x t0 ans)
  then show ?thesis using lost_inv [OF inv] by blast
next
  case (answered c x t0 ans)
  have "pc_fine s c" using inv by (simp add: hist_inv_def)
  then show ?thesis using answered inv by (auto intro!: pc_change_inv simp: pc_fine_def)
next
  case (recorded c x t0 ans)
  then show ?thesis using record_inv [OF inv recorded(2) refl] by simp
qed

lemma hstep_grows: "hstep s s' \<Longrightarrow> length (hLin s) \<le> length (hLin s')"
  by (cases rule: hstep.cases) (auto simp: takesEffect_def finishes_def forgets_def split: option.splits)

lemma hrun_grows: "hstep\<^sup>*\<^sup>* s s' \<Longrightarrow> length (hLin s) \<le> length (hLin s')"
  by (induction rule: rtranclp_induct) (auto dest: hstep_grows)

lemma hrun_inv:
  assumes "hinit s0" and "hstep\<^sup>*\<^sup>* s0 s" and "length (hLin s) < 2 ^ 64"
  shows "hist_inv s"
  using assms(2,3)
proof (induction rule: rtranclp_induct)
  case base then show ?case using assms(1) by (simp add: hist_init)
next
  case (step s s')
  then show ?case using hstep_grows [OF step.hyps(2)] by (auto intro: hstep_inv)
qed

lemma order_in_time:
  assumes "sorted (map lnAt es)" and "\<forall>e \<in> set es. lnStart e \<le> lnAt e \<and> rec_ok e"
  shows "sorted_wrt in_time (recs es)"
  using assms
proof (induction es)
  case (Cons e es)
  have "in_time x y" if x: "lnRec e = Some x" and y: "y \<in> set (recs es)" for x y
  proof -
    obtain z where z: "z \<in> set es" "lnRec z = Some y" using y by (auto simp: recs_def)
    have "rec_ok e" "lnStart e \<le> lnAt e" "rec_ok z" "lnAt e \<le> lnAt z" using Cons.prems z(1) by auto
    then show ?thesis using x z(2) by (simp add: in_time_def rec_ok_def)
  qed
  with Cons show ?case by (auto simp: recs_def)
qed (simp add: recs_def)

lemma idle_all_recorded:
  assumes "hist_inv s" and "\<forall>c. hPc s c = HIdle" and "e \<in> set (hLin s)" and "lnHit e"
  shows "lnRec e \<noteq> None"
proof -
  have own: "hOwn s c = None" for c
  proof -
    have "pc_fine s c" using assms(1) by (simp add: hist_inv_def)
    then show ?thesis using assms(2) by (simp add: pc_fine_def)
  qed
  then show ?thesis using assms(1,3,4) by (auto simp: hist_inv_def owners_fine_def in_set_conv_nth)
qed

lemma inv_linearizable:
  assumes inv: "hist_inv s" and idle: "\<forall>c. hPc s c = HIdle" and log: "oplog (hTest s) = Some log"
  shows "linearizable (filter (\<lambda>y. \<not> noKeyPut y) log)"
proof -
  let ?L = "hLin s"
  have or: "order_fine s" and lg: "log_fine s" using inv by (simp_all add: hist_inv_def)
  then have perm: "mset (recs ?L) = mset log" using log by (simp add: log_fine_def)
  have inp: "opInput y = inputOf (lnOp e)" if "e \<in> set ?L" "lnRec e = Some y" for e y
    using or that by (auto simp: order_fine_def rec_ok_def)
  have rec: "\<forall>e \<in> set ?L. rec_ok e \<and> (lnRec e = None \<longrightarrow> \<not> lnHit e)"
    using or idle_all_recorded [OF inv idle] unfolding order_fine_def by blast
  have "accepts KvModel_Init (filter (\<lambda>x. kiKey (opInput x) = k) (filter (\<lambda>y. \<not> noKeyPut y) (recs ?L)))" for k
  proof -
    have "kiKey (opInput y) = keyOf (lnOp e)" if "e \<in> set ?L" "lnRec e = Some y" for e y
      using inp [OF that] by (auto simp: inputOf_def keyOf_def get_input_def put_input_def split: kvop.splits)
    then have "filter (\<lambda>x. kiKey (opInput x) = k) (recs ?L) = recs (filter (\<lambda>e. keyOf (lnOp e) = k) ?L)"
      by (auto simp: recs_def filter_map comp_def conj_commute intro!: map_cong filter_cong)
    moreover have "filter (\<lambda>x. kiKey (opInput x) = k) (filter (\<lambda>y. \<not> noKeyPut y) (recs ?L)) =
        filter (\<lambda>y. \<not> noKeyPut y) (filter (\<lambda>x. kiKey (opInput x) = k) (recs ?L))" by (simp add: conj_commute)
    moreover have "chain ?L MakeKVServer = Some (hSrv s)" using or by (simp add: order_fine_def)
    moreover have "absKv MakeKVServer k = KvModel_Init" by (simp add: absKv_def MakeKVServer_def)
    ultimately show ?thesis using chain_accepts [of ?L MakeKVServer "hSrv s" k] rec by simp
  qed
  moreover have "sorted_wrt in_time (filter (\<lambda>y. \<not> noKeyPut y) (recs ?L))"
    using or by (intro sorted_wrt_filter order_in_time) (auto simp: order_fine_def)
  moreover have "mset (filter (\<lambda>y. \<not> noKeyPut y) (recs ?L)) = mset (filter (\<lambda>y. \<not> noKeyPut y) log)"
    using perm by (metis mset_filter)
  ultimately show ?thesis by (intro linearizable_of_order)
qed

text \<open>
  Recorded histories are linearizable. Let any number of clients run puts and gets at
  the same time over a network that loses requests and replies, with clerks that repeat what was
  lost, and let every call have returned when the log is checked. Then for every key some order of
  the recorded operations keeps to real time and is accepted by the sequential model, so the checker,
  which finds fault only with histories that are not linearizable, does not stop the test. The one
  answer that has to be ruled out is \<open>ErrNoKey\<close> to a put with a version on a key that does not exist:
  the model takes it from no put. Fewer than \<open>2 ^ 64\<close> requests have been handled.
\<close>

theorem history_linearizable:
  assumes "hinit s0" and "hstep\<^sup>*\<^sup>* s0 s" and "\<forall>c. hPc s c = HIdle" and "length (hLin s) < 2 ^ 64"
    and "oplog (hTest s) = Some log" and "\<forall>x \<in> set log. \<not> noKeyPut x"
    and "\<forall>h. check h = Illegal \<longrightarrow> \<not> linearizable h"
  shows "linearizable log \<and> fst (checkPorcupine check vis opens t log line) = Inr ()"
proof -
  have "linearizable log" using inv_linearizable [OF hrun_inv [OF assms(1,2,4)] assms(3,5)] assms(6) by (simp cong: filter_cong)
  then show ?thesis using assms(7) by (auto simp: checkPorcupine_def Read_def)
qed

definition ex_put :: PutArgs where
  "ex_put = \<lparr>pKey = ''k'', pValue = ''v'', pVersion = 0\<rparr>"

definition ex_hsys :: "KVServer \<Rightarrow> hpc \<Rightarrow> OpLog \<Rightarrow> 32 word \<Rightarrow> lin list \<Rightarrow> nat option \<Rightarrow> hsys" where
  \<comment> \<open>client 0 works, the others are idle; the clock shows 5\<close>
  "ex_hsys kv p log n es w = \<lparr>hSrv = kv, hNow = 5, hPc = (\<lambda>_. HIdle)(0 := p), hTest = \<lparr>oplog = Some log, ops = n\<rparr>, hLin = es, hOwn = (\<lambda>_. None)(0 := w)\<rparr>"

definition ex_entry :: operation where
  "ex_entry = \<lparr>opInput = put_input ex_put, opOutput = put_output ErrMaybe, opCall = 5, opReturn = 5, ClientId = 0\<rparr>"

lemma ex_run:
  "\<exists>es. length es = 1 \<and> hstep\<^sup>*\<^sup>* (ex_hsys MakeKVServer HIdle [] 0 [] None) (ex_hsys (fst (Put MakeKVServer ex_put)) HIdle [ex_entry] 1 es None)"
proof -
  let ?kv = "fst (Put MakeKVServer ex_put)" and ?x = "PutOp ex_put"
  let ?e = "\<lparr>lnOp = ?x, lnStart = 5, lnAt = 5, lnHit = True, lnReply = readReply ?x MakeKVServer, lnRec = None\<rparr>"
  have put: "snd (Put MakeKVServer ex_put) = OK" "Put ?kv ex_put = (?kv, ErrVersion)" by (simp_all add: Put_def ex_put_def MakeKVServer_def)
  have 1: "hstep (ex_hsys MakeKVServer HIdle [] 0 [] None) (ex_hsys MakeKVServer (HBusy ?x 5 False) [] 0 [] None)"
    using hstep.called [of "ex_hsys MakeKVServer HIdle [] 0 [] None" 0 ?x] by (simp add: ex_hsys_def)
  have 2: "hstep (ex_hsys MakeKVServer (HBusy ?x 5 False) [] 0 [] None) (ex_hsys ?kv (HReplied ?x 5 (GotErr OK)) [] 0 [?e] (Some 0))"
    using hstep.ran [of "ex_hsys MakeKVServer (HBusy ?x 5 False) [] 0 [] None" 0 ?x 5 False ?kv "GotErr OK"] put(1)
    by (simp add: ex_hsys_def hits_def clerkAnswer_def takesEffect_def case_prod_beta)
  have lost: "hstep (ex_hsys ?kv (HReplied ?x 5 (GotErr OK)) [] 0 [?e] (Some 0)) (ex_hsys ?kv (HBusy ?x 5 True) [] 0 [?e] (Some 0))"
    using hstep.reply_lost [of "ex_hsys ?kv (HReplied ?x 5 (GotErr OK)) [] 0 [?e] (Some 0)" 0 ?x 5 "GotErr OK"]
    by (simp add: ex_hsys_def forgets_def)
  have 3: "hstep (ex_hsys ?kv (HBusy ?x 5 True) [] 0 [?e] (Some 0)) (ex_hsys ?kv (HReplied ?x 5 (GotErr ErrMaybe)) [] 0 [?e] (Some 0))"
    using hstep.ran [of "ex_hsys ?kv (HBusy ?x 5 True) [] 0 [?e] (Some 0)" 0 ?x 5 True ?kv "GotErr ErrMaybe"] put(2)
    by (simp add: ex_hsys_def clerkAnswer_def takesEffect_def)
  have ans: "hstep (ex_hsys ?kv (HReplied ?x 5 (GotErr ErrMaybe)) [] 0 [?e] (Some 0)) (ex_hsys ?kv (HGot ?x 5 (GotErr ErrMaybe)) [] 0 [?e] (Some 0))"
    using hstep.answered [of "ex_hsys ?kv (HReplied ?x 5 (GotErr ErrMaybe)) [] 0 [?e] (Some 0)" 0 ?x 5 "GotErr ErrMaybe"]
    by (simp add: ex_hsys_def)
  have 4: "hstep (ex_hsys ?kv (HGot ?x 5 (GotErr ErrMaybe)) [] 0 [?e] (Some 0)) (ex_hsys ?kv HIdle [ex_entry] 1 [?e\<lparr>lnRec := Some ex_entry\<rparr>] None)"
    using hstep.recorded [of "ex_hsys ?kv (HGot ?x 5 (GotErr ErrMaybe)) [] 0 [?e] (Some 0)" 0 ?x 5 "GotErr ErrMaybe"]
    by (simp add: ex_hsys_def finishes_def entryOf_def inputOf_def outputOf_def ex_entry_def recordOp_def Test_Put_def logOp_def Op_def
        Append_def put_input_def put_output_def)
  have "hstep\<^sup>*\<^sup>* (ex_hsys MakeKVServer HIdle [] 0 [] None) (ex_hsys ?kv HIdle [ex_entry] 1 [?e\<lparr>lnRec := Some ex_entry\<rparr>] None)"
    by (rule converse_rtranclp_into_rtranclp, rule 1, rule converse_rtranclp_into_rtranclp, rule 2, rule converse_rtranclp_into_rtranclp, rule lost,
        rule converse_rtranclp_into_rtranclp, rule 3, rule converse_rtranclp_into_rtranclp, rule ans,
        rule r_into_rtranclp, rule 4)
  then show ?thesis by (intro exI [of _ "[?e\<lparr>lnRec := Some ex_entry\<rparr>]"]) simp
qed

theorem history_linearizable_witness:
  "linearizable [ex_entry] \<and> (\<forall>line. fst (checkPorcupine (\<lambda>_. Ok_hist) ''always'' True 7 [ex_entry] line) = Inr ())"
proof -
  let ?init = "ex_hsys MakeKVServer HIdle [] 0 [] None"
  obtain es where run: "length es = 1" "hstep\<^sup>*\<^sup>* ?init (ex_hsys (fst (Put MakeKVServer ex_put)) HIdle [ex_entry] 1 es None)" (is "hstep\<^sup>*\<^sup>* _ ?fin")
    using ex_run by blast
  have "hinit ?init" by (simp add: hinit_def ex_hsys_def)
  moreover have "\<forall>c. hPc ?fin c = HIdle" "length (hLin ?fin) < 2 ^ 64" "oplog (hTest ?fin) = Some [ex_entry]" using run(1) by (simp_all add: ex_hsys_def)
  moreover have "\<forall>x \<in> set [ex_entry]. \<not> noKeyPut x" by (simp add: noKeyPut_def ex_entry_def put_output_def)
  moreover have "\<forall>h. (\<lambda>_. Ok_hist) h = Illegal \<longrightarrow> \<not> linearizable h" by simp
  ultimately have "linearizable [ex_entry] \<and> fst (checkPorcupine (\<lambda>_. Ok_hist) ''always'' True 7 [ex_entry] line) = Inr ()" for line
    by (intro history_linearizable [OF _ run(2)])
  then show ?thesis by blast
qed

end
