(* ===== verification/Labrpc_Call.thy ===== *)
theory Labrpc_Call
  imports Labrpc
begin

text \<open>
  Remote calls end to end (\<open>src/labrpc/labrpc.go\<close>): the client's \<open>Call\<close>, the goroutine of the network that
  takes requests, a \<open>processReq\<close> for each request, and the goroutine that runs the handler. Any number of
  calls run at the same time, and the network is reconfigured while they run. The theory proves what
  the rest of the repository assumes of the network: a handler runs at most once for a call, a call
  that returns true returns the reply of its handler, and a call can always return.

  A call is a number; \<open>cClient\<close>, \<open>cProc\<close> and \<open>cHand\<close> say where its three goroutines stand. An unbuffered
  channel between two of them is one step of both. Coins and timers are choices of the step relation.
  The encoder, the decoder and the handlers are parameters (\<open>code\<close>). \<open>rsRan\<close> is a history variable: the
  handlers that have run. A handler may never run; when it does, it works on the state of the
  application in one step. This is right for handlers that hold a lock of their own from their first
  access to the last, as those of \<open>kvsrv1\<close> do, and the state is looked at for these only (\<open>Kv_System\<close>).
  Handlers that give the lock up, such as Raft's \<open>AppendEntries\<close>, run interleaved; what is said here about
  their calls does not depend on when they change the state, and \<open>Raft_Peer\<close> has their pieces as steps of their own.
\<close>

subsection \<open>Goroutines of a call\<close>

record ('q, 'r, 'a) code =
  encArgs :: "'q \<Rightarrow> byte list option"
  decArgs :: "byte list \<Rightarrow> 'q"           \<comment> \<open>what the decoder leaves in \<open>args\<close>; its error is not looked at\<close>
  encReply :: "'r \<Rightarrow> byte list"
  decReply :: "byte list \<Rightarrow> 'r option"
  handler :: "nat \<Rightarrow> string \<Rightarrow> string \<Rightarrow> 'q \<Rightarrow> 'a \<Rightarrow> 'a \<times> 'r"   \<comment> \<open>server object, service, method\<close>

datatype 'r client_pc = CIdle | CSending | CWaiting | CReturned "'r option"

datatype 's proc_pc =
    PNone
  | PRead
  | PDelay 's nat bool bool              \<comment> \<open>\<open>servername\<close>, \<open>server\<close>, \<open>reliable\<close>, \<open>longreordering\<close>\<close>
  | PWait 's nat bool bool
  | PCheck 's nat bool bool "byte list option"
  | PHeld "byte list"                    \<comment> \<open>the timer of a reordered reply\<close>
  | PTimer                               \<comment> \<open>the timer of a request without a server\<close>
  | PDone

datatype hand_pc = HNone | HDispatch nat | HCalled nat string string | HEnd "byte list" | HDone

record ('e, 's, 'q, 'r) call =
  cEnd :: 'e
  cMeth :: string
  cArgs :: 'q
  cBytes :: "byte list"
  cClient :: "'r client_pc"
  cProc :: "'s proc_pc"
  cHand :: hand_pc

record ('e, 's, 'q, 'r, 'a) rpcsys =
  rsNet :: "('e, 's) Network"
  rsDone :: bool                         \<comment> \<open>the channel \<open>done\<close> is closed\<close>
  rsLoop :: bool                         \<comment> \<open>the goroutine of \<open>MakeNetwork\<close> is running\<close>
  rsObj :: "nat \<Rightarrow> Server"
  rsCall :: "nat \<Rightarrow> ('e, 's, 'q, 'r) call"
  rsApp :: 'a
  rsStop :: bool                         \<comment> \<open>the program has been stopped\<close>
  rsRan :: "(nat \<times> nat \<times> string \<times> string \<times> 'q \<times> 'r) list"

definition Call_begin :: "('q, 'r, 'a) code \<Rightarrow> 'e \<Rightarrow> string \<Rightarrow> 'q \<Rightarrow> ('e, 's, 'q, 'r) call go" where
  \<comment> \<open>\<open>Call\<close> up to the select: an argument that cannot be encoded panics\<close>
  "Call_begin k e meth q = (case encArgs k q of None \<Rightarrow> Inl LogFatal
     | Some b \<Rightarrow> Inr \<lparr>cEnd = e, cMeth = meth, cArgs = q, cBytes = b, cClient = CSending, cProc = PNone, cHand = HNone\<rparr>)"

definition Call_return :: "('q, 'r, 'a) code \<Rightarrow> byte list option \<Rightarrow> ('e, 's, 'q, 'r) call \<Rightarrow> ('e, 's, 'q, 'r) call go" where
  \<comment> \<open>the message on \<open>replyCh\<close> and the end of \<open>Call\<close>; \<open>None\<close> is \<open>replyMsg{false, nil}\<close>\<close>
  "Call_return k rep c = (case rep of
       None \<Rightarrow> Inr (c\<lparr>cProc := PDone, cClient := CReturned None\<rparr>)
     | Some b \<Rightarrow> (case decReply k b of None \<Rightarrow> Inl LogFatal
         | Some r \<Rightarrow> Inr (c\<lparr>cProc := PDone, cClient := CReturned (Some r)\<rparr>)))"

definition processReq_read :: "('e, 's) Network \<Rightarrow> ('e, 's, 'q, 'r) call \<Rightarrow> ('e, 's, 'q, 'r) call" where
  "processReq_read rn c = (case readEndnameInfo rn (cEnd c) of (en, servername, server, rel, longre) \<Rightarrow>
     c\<lparr>cProc := (case (servername, server) of (Some s, Some srv) \<Rightarrow> if en then PDelay s srv rel longre else PTimer | _ \<Rightarrow> PTimer)\<rparr>)"

definition Server_lookup :: "Server \<Rightarrow> nat \<Rightarrow> ('e, 's, 'q, 'r) call \<Rightarrow> (Server \<times> ('e, 's, 'q, 'r) call) go" where
  \<comment> \<open>\<open>dispatch\<close> up to the call of the method\<close>
  "Server_lookup rs srv c = go_bind (Server_dispatch rs (cMeth c)) (\<lambda>(rs1, svc, m). Inr (rs1, c\<lparr>cHand := HCalled srv svc m\<rparr>))"

definition afterCheck :: "('e, 's) Network \<Rightarrow> ('e, 's, 'q, 'r) call \<Rightarrow> bool" where
  \<comment> \<open>is there a reply to hand on?\<close>
  "afterCheck rn c = (case cProc c of PCheck s srv rel longre (Some b) \<Rightarrow> \<not> isServerDead rn (cEnd c) s srv | _ \<Rightarrow> False)"

definition addBytes :: "byte list \<Rightarrow> ('e, 's) Network \<Rightarrow> ('e, 's) Network" where
  "addBytes b rn = rn\<lparr>rpcBytes := rpcBytes rn + of_nat (length b)\<rparr>"

subsection \<open>The network at work\<close>

definition setCall :: "nat \<Rightarrow> ('e, 's, 'q, 'r) call \<Rightarrow> ('e, 's, 'q, 'r, 'a) rpcsys \<Rightarrow> ('e, 's, 'q, 'r, 'a) rpcsys" where
  "setCall i c s = s\<lparr>rsCall := (rsCall s)(i := c)\<rparr>"

definition finish :: "nat \<Rightarrow> ('e, 's, 'q, 'r) call go \<Rightarrow> ('e, 's, 'q, 'r, 'a) rpcsys \<Rightarrow> ('e, 's, 'q, 'r, 'a) rpcsys" where
  \<comment> \<open>a step of call \<open>i\<close> that may stop the program\<close>
  "finish i g s = (case g of Inl _ \<Rightarrow> s\<lparr>rsStop := True\<rparr> | Inr c \<Rightarrow> setCall i c s)"

definition Cleanup :: "('e, 's, 'q, 'r, 'a) rpcsys \<Rightarrow> ('e, 's, 'q, 'r, 'a) rpcsys go" where
  \<comment> \<open>\<open>close(rn.done)\<close>: a closed channel cannot be closed again\<close>
  "Cleanup s = (if rsDone s then Inl CloseOfClosed else Inr (s\<lparr>rsDone := True\<rparr>))"

inductive net_op :: "('e, 's) Network \<Rightarrow> ('e, 's) Network \<Rightarrow> bool" where
  "net_op rn (Reliable rn yes)"
| "net_op rn (LongReordering rn yes)"
| "net_op rn (LongDelays rn yes)"
| "MakeEnd rn e = Inr rn' \<Longrightarrow> net_op rn rn'"
| "DeleteEnd rn e = Inr rn' \<Longrightarrow> net_op rn rn'"
| "net_op rn (AddServer rn s srv)"
| "net_op rn (DeleteServer rn s)"
| "net_op rn (Connect rn e s)"
| "net_op rn (Enable rn e en)"

inductive rpc_step :: "('q, 'r, 'a) code \<Rightarrow> ('e, 's, 'q, 'r, 'a) rpcsys \<Rightarrow> ('e, 's, 'q, 'r, 'a) rpcsys \<Rightarrow> bool" for k where
  call_begin: "\<not> rsStop s \<Longrightarrow> cClient (rsCall s i) = CIdle \<Longrightarrow> rpc_step k s (finish i (Call_begin k e meth q) s)"
| call_taken: "\<not> rsStop s \<Longrightarrow> cClient (rsCall s i) = CSending \<Longrightarrow> rsLoop s \<Longrightarrow>
    rpc_step k s (setCall i ((rsCall s i)\<lparr>cClient := CWaiting, cProc := PRead\<rparr>) (s\<lparr>rsNet := takeReq (rsNet s) (cBytes (rsCall s i))\<rparr>))"
| call_cancelled: "\<not> rsStop s \<Longrightarrow> cClient (rsCall s i) = CSending \<Longrightarrow> rsDone s \<Longrightarrow>
    rpc_step k s (setCall i ((rsCall s i)\<lparr>cClient := CReturned None\<rparr>) s)"
| loop_ends: "\<not> rsStop s \<Longrightarrow> rsDone s \<Longrightarrow> rsLoop s \<Longrightarrow> rpc_step k s (s\<lparr>rsLoop := False\<rparr>)"
| net_cleanup: "\<not> rsStop s \<Longrightarrow> Cleanup s = Inr s' \<Longrightarrow> rpc_step k s s'"
| net_cleanup_twice: "\<not> rsStop s \<Longrightarrow> Cleanup s = Inl e \<Longrightarrow> rpc_step k s (s\<lparr>rsStop := True\<rparr>)"
| net_changes: "\<not> rsStop s \<Longrightarrow> net_op (rsNet s) rn \<Longrightarrow> rpc_step k s (s\<lparr>rsNet := rn\<rparr>)"
| proc_read: "\<not> rsStop s \<Longrightarrow> cProc (rsCall s i) = PRead \<Longrightarrow>
    rpc_step k s (setCall i (processReq_read (rsNet s) (rsCall s i)) s)"
| proc_drop: "\<not> rsStop s \<Longrightarrow> cProc (rsCall s i) = PDelay sn srv False longre \<Longrightarrow>
    rpc_step k s (finish i (Call_return k None (rsCall s i)) s)"
| proc_dispatch: "\<not> rsStop s \<Longrightarrow> cProc (rsCall s i) = PDelay sn srv rel longre \<Longrightarrow>
    rpc_step k s (setCall i ((rsCall s i)\<lparr>cProc := PWait sn srv rel longre, cHand := HDispatch srv\<rparr>) s)"
| hand_lookup: "\<not> rsStop s \<Longrightarrow> cHand (rsCall s i) = HDispatch srv \<Longrightarrow> Server_lookup (rsObj s srv) srv (rsCall s i) = Inr (obj, c) \<Longrightarrow>
    rpc_step k s (setCall i c (s\<lparr>rsObj := (rsObj s)(srv := obj)\<rparr>))"
| hand_unknown: "\<not> rsStop s \<Longrightarrow> cHand (rsCall s i) = HDispatch srv \<Longrightarrow> Server_lookup (rsObj s srv) srv (rsCall s i) = Inl e \<Longrightarrow>
    rpc_step k s (s\<lparr>rsStop := True\<rparr>)"
| hand_runs: "\<not> rsStop s \<Longrightarrow> cHand (rsCall s i) = HCalled srv svc m \<Longrightarrow>
    handler k srv svc m (decArgs k (cBytes (rsCall s i))) (rsApp s) = (a, r) \<Longrightarrow>
    rpc_step k s (setCall i ((rsCall s i)\<lparr>cHand := HEnd (encReply k r)\<rparr>)
      (s\<lparr>rsApp := a, rsRan := rsRan s @ [(i, srv, svc, m, decArgs k (cBytes (rsCall s i)), r)]\<rparr>))"
| proc_got: "\<not> rsStop s \<Longrightarrow> cProc (rsCall s i) = PWait sn srv rel longre \<Longrightarrow> cHand (rsCall s i) = HEnd b \<Longrightarrow>
    rpc_step k s (setCall i ((rsCall s i)\<lparr>cProc := PCheck sn srv rel longre (Some b), cHand := HDone\<rparr>) s)"
| proc_dead: "\<not> rsStop s \<Longrightarrow> cProc (rsCall s i) = PWait sn srv rel longre \<Longrightarrow> isServerDead (rsNet s) (cEnd (rsCall s i)) sn srv \<Longrightarrow>
    rpc_step k s (setCall i ((rsCall s i)\<lparr>cProc := PCheck sn srv rel longre None\<rparr>) s)"
| hand_drained: "\<not> rsStop s \<Longrightarrow> cHand (rsCall s i) = HEnd b \<Longrightarrow> (\<forall>sn srv rel longre. cProc (rsCall s i) \<noteq> PWait sn srv rel longre) \<Longrightarrow>
    rpc_step k s (setCall i ((rsCall s i)\<lparr>cHand := HDone\<rparr>) s)"
| proc_failed: "\<not> rsStop s \<Longrightarrow> cProc (rsCall s i) = PCheck sn srv rel longre rb \<Longrightarrow> \<not> afterCheck (rsNet s) (rsCall s i) \<or> \<not> rel \<Longrightarrow>
    rpc_step k s (finish i (Call_return k None (rsCall s i)) s)"
| proc_held: "\<not> rsStop s \<Longrightarrow> cProc (rsCall s i) = PCheck sn srv rel True (Some b) \<Longrightarrow> afterCheck (rsNet s) (rsCall s i) \<Longrightarrow>
    rpc_step k s (setCall i ((rsCall s i)\<lparr>cProc := PHeld b\<rparr>) s)"
| proc_replies: "\<not> rsStop s \<Longrightarrow> cProc (rsCall s i) = PCheck sn srv rel longre (Some b) \<Longrightarrow> afterCheck (rsNet s) (rsCall s i) \<Longrightarrow>
    rpc_step k s (finish i (Call_return k (Some b) (rsCall s i)) (s\<lparr>rsNet := addBytes b (rsNet s)\<rparr>))"
| held_replies: "\<not> rsStop s \<Longrightarrow> cProc (rsCall s i) = PHeld b \<Longrightarrow>
    rpc_step k s (finish i (Call_return k (Some b) (rsCall s i)) (s\<lparr>rsNet := addBytes b (rsNet s)\<rparr>))"
| timer_fires: "\<not> rsStop s \<Longrightarrow> cProc (rsCall s i) = PTimer \<Longrightarrow>
    rpc_step k s (finish i (Call_return k None (rsCall s i)) s)"

definition rpc_init :: "'a \<Rightarrow> ('e, 's, 'q, 'r, 'a) rpcsys \<Rightarrow> bool" where
  \<comment> \<open>a new network; nothing has been called\<close>
  "rpc_init a s \<longleftrightarrow> rsNet s = MakeNetwork \<and> \<not> rsDone s \<and> rsLoop s \<and> rsApp s = a \<and> \<not> rsStop s \<and> rsRan s = [] \<and>
     (\<forall>i. cClient (rsCall s i) = CIdle \<and> cProc (rsCall s i) = PNone \<and> cHand (rsCall s i) = HNone)"

subsection \<open>What a call has done\<close>

definition ranOf :: "nat \<Rightarrow> (nat \<times> nat \<times> string \<times> string \<times> 'q \<times> 'r) list \<Rightarrow> (nat \<times> nat \<times> string \<times> string \<times> 'q \<times> 'r) list" where
  "ranOf i h = filter (\<lambda>x. fst x = i) h"

definition ranOnce :: "('q, 'r, 'a) code \<Rightarrow> nat \<Rightarrow> ('e, 's, 'q, 'r) call \<Rightarrow> (nat \<times> nat \<times> string \<times> string \<times> 'q \<times> 'r) list \<Rightarrow> ('r \<Rightarrow> bool) \<Rightarrow> bool" where
  \<comment> \<open>the handler has run once, with the arguments of the call, and its reply is as described\<close>
  "ranOnce k i c es P \<longleftrightarrow> (\<exists>srv svc m r. es = [(i, srv, svc, m, decArgs k (cBytes c), r)] \<and> P r)"

definition call_ok :: "('q, 'r, 'a) code \<Rightarrow> nat \<Rightarrow> ('e, 's, 'q, 'r) call \<Rightarrow> (nat \<times> nat \<times> string \<times> string \<times> 'q \<times> 'r) list \<Rightarrow> bool" where
  "call_ok k i c es \<longleftrightarrow>
     (case cHand c of HEnd b \<Rightarrow> ranOnce k i c es (\<lambda>r. b = encReply k r) | HDone \<Rightarrow> ranOnce k i c es (\<lambda>_. True) | _ \<Rightarrow> es = []) \<and>
     (case cProc c of
        PWait _ _ _ _ \<Rightarrow> cHand c \<noteq> HNone \<and> cHand c \<noteq> HDone
      | PCheck _ _ _ _ None \<Rightarrow> cHand c \<noteq> HNone
      | PCheck _ _ _ _ (Some b) \<Rightarrow> cHand c = HDone \<and> ranOnce k i c es (\<lambda>r. b = encReply k r)
      | PHeld b \<Rightarrow> cHand c = HDone \<and> ranOnce k i c es (\<lambda>r. b = encReply k r)
      | PDone \<Rightarrow> True
      | _ \<Rightarrow> cHand c = HNone) \<and>
     (case cClient c of
        CIdle \<Rightarrow> cProc c = PNone
      | CSending \<Rightarrow> cProc c = PNone \<and> encArgs k (cArgs c) = Some (cBytes c)
      | CWaiting \<Rightarrow> cProc c \<noteq> PNone \<and> cProc c \<noteq> PDone \<and> encArgs k (cArgs c) = Some (cBytes c)
      | CReturned None \<Rightarrow> (cProc c = PNone \<or> cProc c = PDone) \<and> encArgs k (cArgs c) = Some (cBytes c)
      | CReturned (Some r') \<Rightarrow> cProc c = PDone \<and> cHand c = HDone \<and> encArgs k (cArgs c) = Some (cBytes c) \<and>
          ranOnce k i c es (\<lambda>r. decReply k (encReply k r) = Some r'))"

fun replay :: "('q, 'r, 'a) code \<Rightarrow> (nat \<times> nat \<times> string \<times> string \<times> 'q \<times> 'r) list \<Rightarrow> 'a \<Rightarrow> 'a option" where
  \<comment> \<open>the handlers one after the other; \<open>None\<close> when a recorded reply is not that of the handler\<close>
  "replay k [] a = Some a"
| "replay k ((i, srv, svc, m, q, r) # h) a = (case handler k srv svc m q a of (a1, r1) \<Rightarrow> if r1 = r then replay k h a1 else None)"

lemma Cleanup_Inr [simp]: "Cleanup s = Inr s' \<longleftrightarrow> \<not> rsDone s \<and> s' = s\<lparr>rsDone := True\<rparr>"
  by (auto simp: Cleanup_def)

lemma replay_append: "replay k (h @ h') a = Option.bind (replay k h a) (replay k h')"
  by (induction h arbitrary: a) (auto split: prod.splits)

definition rpc_inv :: "('q, 'r, 'a) code \<Rightarrow> 'a \<Rightarrow> ('e, 's, 'q, 'r, 'a) rpcsys \<Rightarrow> bool" where
  "rpc_inv k a0 s \<longleftrightarrow> (\<forall>i. call_ok k i (rsCall s i) (ranOf i (rsRan s))) \<and> replay k (rsRan s) a0 = Some (rsApp s) \<and>
     (\<not> rsDone s \<longrightarrow> rsLoop s)"

lemma rpc_inv_set:
  assumes "rpc_inv k a0 s" and "call_ok k i c (ranOf i (rsRan s))"
  shows "rpc_inv k a0 (setCall i c s)"
  using assms by (simp add: rpc_inv_def setCall_def)

lemma rpc_inv_finish:
  assumes "rpc_inv k a0 s" and "\<And>c. g = Inr c \<Longrightarrow> call_ok k i c (ranOf i (rsRan s))"
  shows "rpc_inv k a0 (finish i g s)"
proof (cases g)
  case (Inl e)
  then show ?thesis using assms(1) by (simp add: finish_def rpc_inv_def)
next
  case (Inr c)
  then show ?thesis using rpc_inv_set [OF assms(1) assms(2)] by (simp add: finish_def)
qed

lemma rpc_inv_net: "rpc_inv k a0 (s\<lparr>rsNet := n\<rparr>) = rpc_inv k a0 s" "rpc_inv k a0 (s\<lparr>rsObj := ob\<rparr>) = rpc_inv k a0 s"
    "rpc_inv k a0 (s\<lparr>rsStop := b\<rparr>) = rpc_inv k a0 s"
  by (simp_all add: rpc_inv_def)

lemma return_None_ok:
  assumes "call_ok k i c es" and "cClient c = CWaiting" and "Call_return k None c = Inr c'"
  shows "call_ok k i c' es"
  using assms by (auto simp: call_ok_def Call_return_def ranOnce_def split: hand_pc.splits)

lemma return_Some_ok:
  assumes "call_ok k i c es" and "cClient c = CWaiting" and "cHand c = HDone" and "ranOnce k i c es (\<lambda>r. b = encReply k r)"
    and "Call_return k (Some b) c = Inr c'"
  shows "call_ok k i c' es"
  using assms by (auto simp: call_ok_def Call_return_def ranOnce_def split: option.splits)

lemma waiting_iff:
  assumes "call_ok k i c es"
  shows "cClient c = CWaiting \<longleftrightarrow> cProc c \<noteq> PNone \<and> cProc c \<noteq> PDone"
  using assms by (auto simp: call_ok_def split: client_pc.splits option.splits)

lemma callOK: "rpc_inv k a0 s \<Longrightarrow> call_ok k i (rsCall s i) (ranOf i (rsRan s))"
  by (simp add: rpc_inv_def)

lemma rpc_inv_return_None:
  assumes "rpc_inv k a0 s" and "cProc (rsCall s i) \<noteq> PNone" "cProc (rsCall s i) \<noteq> PDone"
  shows "rpc_inv k a0 (finish i (Call_return k None (rsCall s i)) s)"
  by (rule rpc_inv_finish [OF assms(1)], rule return_None_ok [OF callOK [OF assms(1)]])
    (use waiting_iff [OF callOK [OF assms(1)]] assms(2,3) in auto)

lemma rpc_inv_return_Some:
  assumes "rpc_inv k a0 s" and "cProc (rsCall s i) = PCheck sn srv rel longre (Some b) \<or> cProc (rsCall s i) = PHeld b"
  shows "rpc_inv k a0 (finish i (Call_return k (Some b) (rsCall s i)) (s\<lparr>rsNet := n\<rparr>))"
proof (rule rpc_inv_finish)
  show "rpc_inv k a0 (s\<lparr>rsNet := n\<rparr>)" using assms(1) by (simp add: rpc_inv_net)
  fix c assume c: "Call_return k (Some b) (rsCall s i) = Inr c"
  note ok = callOK [OF assms(1), of i]
  have "cClient (rsCall s i) = CWaiting" using waiting_iff [OF ok] assms(2) by auto
  moreover have "cHand (rsCall s i) = HDone" "ranOnce k i (rsCall s i) (ranOf i (rsRan s)) (\<lambda>r. b = encReply k r)"
    using ok assms(2) by (auto simp: call_ok_def)
  ultimately show "call_ok k i c (ranOf i (rsRan (s\<lparr>rsNet := n\<rparr>)))" using return_Some_ok [OF ok _ _ _ c] by simp
qed

lemma rpc_step_inv:
  assumes "rpc_step k s s'" and "rpc_inv k a0 s"
  shows "rpc_inv k a0 s'"
  using assms
proof (induction rule: rpc_step.induct)
  case (call_begin s i e meth q)
  have "ranOf i (rsRan s) = []" using callOK [OF call_begin.prems, of i] call_begin.hyps(2) by (auto simp: call_ok_def)
  then show ?case
    by (intro rpc_inv_finish [OF call_begin.prems]) (auto simp: Call_begin_def call_ok_def split: option.splits)
next
  case (call_taken s i)
  then show ?case
    using callOK [OF call_taken.prems, of i] by (intro rpc_inv_set) (auto simp: rpc_inv_net call_ok_def)
next
  case (call_cancelled s i)
  then show ?case using callOK [OF call_cancelled.prems, of i] by (intro rpc_inv_set) (auto simp: call_ok_def)
next
  case (proc_read s i)
  note ok = callOK [OF proc_read.prems, of i]
  have "cClient (rsCall s i) = CWaiting" using waiting_iff [OF ok] proc_read.hyps(2) by simp
  then show ?case using ok proc_read.hyps(2) proc_read.prems
    by (intro rpc_inv_set) (auto simp: call_ok_def processReq_read_def split: prod.splits option.splits)
next
  case (proc_dispatch s i sn srv rel longre)
  note ok = callOK [OF proc_dispatch.prems, of i]
  have "cClient (rsCall s i) = CWaiting" using waiting_iff [OF ok] proc_dispatch.hyps(2) by simp
  then show ?case using ok proc_dispatch.hyps(2) proc_dispatch.prems by (intro rpc_inv_set) (auto simp: call_ok_def)
next
  case (hand_lookup s i srv obj c)
  then obtain svc m where c: "c = (rsCall s i)\<lparr>cHand := HCalled srv svc m\<rparr>" by (auto simp: Server_lookup_def go_inv)
  from callOK [OF hand_lookup.prems, of i] hand_lookup.hyps(2) have "call_ok k i c (ranOf i (rsRan s))"
    by (auto simp: call_ok_def c split: proc_pc.splits option.splits client_pc.splits)
  then show ?case using hand_lookup.prems by (intro rpc_inv_set) (simp_all add: rpc_inv_net)
next
  case (hand_runs s i srv svc m a r)
  let ?x = "(i, srv, svc, m, decArgs k (cBytes (rsCall s i)), r)"
  note ok = callOK [OF hand_runs.prems, of i]
  have es: "ranOf j (rsRan s @ [?x]) = ranOf j (rsRan s) @ (if i = j then [?x] else [])" for j by (simp add: ranOf_def)
  have "ranOf i (rsRan s) = []" using ok hand_runs.hyps(2) by (simp add: call_ok_def)
  then have "call_ok k i ((rsCall s i)\<lparr>cHand := HEnd (encReply k r)\<rparr>) (ranOf i (rsRan s @ [?x]))"
    using ok hand_runs.hyps(2) unfolding es
    by (auto simp: call_ok_def ranOnce_def split: proc_pc.splits option.splits client_pc.splits)
  moreover have "call_ok k j (rsCall s j) (ranOf j (rsRan s @ [?x]))" if "j \<noteq> i" for j
    using callOK [OF hand_runs.prems, of j] that by (simp add: es)
  moreover have "replay k (rsRan s @ [?x]) a0 = Some a"
    using hand_runs.hyps(3) hand_runs.prems by (simp add: replay_append rpc_inv_def)
  ultimately show ?case using hand_runs.prems by (auto simp: rpc_inv_def setCall_def)
next
  case (proc_got s i sn srv rel longre b)
  note ok = callOK [OF proc_got.prems, of i]
  have "cClient (rsCall s i) = CWaiting" using waiting_iff [OF ok] proc_got.hyps(2) by simp
  then show ?case using ok proc_got.hyps(2,3) proc_got.prems by (intro rpc_inv_set) (auto simp: call_ok_def ranOnce_def)
next
  case (proc_dead s i sn srv rel longre)
  note ok = callOK [OF proc_dead.prems, of i]
  have "cClient (rsCall s i) = CWaiting" using waiting_iff [OF ok] proc_dead.hyps(2) by simp
  then show ?case using ok proc_dead.hyps(2) proc_dead.prems by (intro rpc_inv_set) (auto simp: call_ok_def ranOnce_def split: hand_pc.splits)
next
  case (hand_drained s i b)
  have "call_ok k i ((rsCall s i)\<lparr>cHand := HDone\<rparr>) (ranOf i (rsRan s))"
    using callOK [OF hand_drained.prems, of i] hand_drained.hyps(2,3)
    by (auto simp: call_ok_def ranOnce_def split: proc_pc.splits option.splits client_pc.splits)
  then show ?case using hand_drained.prems by (rule rpc_inv_set [rotated])
next
  case (proc_held s i sn srv rel b)
  note ok = callOK [OF proc_held.prems, of i]
  have "cClient (rsCall s i) = CWaiting" using waiting_iff [OF ok] proc_held.hyps(2) by simp
  then show ?case using ok proc_held.hyps(2) proc_held.prems by (intro rpc_inv_set) (auto simp: call_ok_def ranOnce_def)
next
  case (proc_replies s i sn srv rel longre b)
  then show ?case by (intro rpc_inv_return_Some) auto
next
  case (held_replies s i b)
  then show ?case by (intro rpc_inv_return_Some) auto
qed (auto intro: rpc_inv_return_None simp: rpc_inv_net, auto simp: rpc_inv_def)

lemma rpc_init_inv: "rpc_init a s \<Longrightarrow> rpc_inv k a s"
  by (simp add: rpc_init_def rpc_inv_def call_ok_def ranOf_def)

lemma rpc_run_inv: "(rpc_step k)\<^sup>*\<^sup>* s s' \<Longrightarrow> rpc_init a s \<Longrightarrow> rpc_inv k a s'"
  by (induction rule: rtranclp_induct) (auto intro: rpc_step_inv rpc_init_inv)

subsection \<open>At most once\<close>

definition faithful :: "('q, 'r, 'a) code \<Rightarrow> bool" where
  \<comment> \<open>what is encoded is decoded again\<close>
  "faithful k \<longleftrightarrow> (\<forall>q b. encArgs k q = Some b \<longrightarrow> decArgs k b = q) \<and> (\<forall>r. decReply k (encReply k r) = Some r)"

text \<open>
  Property C29 (remote calls run at most once). Take any run of the network: any number of calls at the
  same time, requests and replies lost, delayed and reordered, ends and servers reconfigured. A call has run
  its handler at most once, and with its own arguments, whether it has returned or not; and a call
  that has returned true has run it exactly once and returns the reply of that run. (Arguments and
  replies are decoded as they were encoded.)
\<close>

theorem calls_run_once:
  assumes "rpc_init a s0" and "(rpc_step k)\<^sup>*\<^sup>* s0 s" and "faithful k"
  shows "(ranOf i (rsRan s) = [] \<or> (\<exists>srv svc m r. ranOf i (rsRan s) = [(i, srv, svc, m, cArgs (rsCall s i), r)])) \<and>
    (\<forall>r. cClient (rsCall s i) = CReturned (Some r) \<longrightarrow>
      (\<exists>srv svc m. ranOf i (rsRan s) = [(i, srv, svc, m, cArgs (rsCall s i), r)]))"
proof (intro conjI allI impI)
  have inv: "rpc_inv k a s" by (rule rpc_run_inv, rule assms(2), rule assms(1))
  note ok = callOK [OF inv, of i]
  have once: "ranOf i (rsRan s) = [] \<or> (\<exists>srv svc m r. ranOf i (rsRan s) = [(i, srv, svc, m, decArgs k (cBytes (rsCall s i)), r)])"
    using ok by (auto simp: call_ok_def ranOnce_def split: hand_pc.splits)
  have "ranOf i (rsRan s) = [] \<or> decArgs k (cBytes (rsCall s i)) = cArgs (rsCall s i)"
    using ok assms(3) by (cases "cClient (rsCall s i)") (auto simp: call_ok_def faithful_def split: option.splits)
  with once show "ranOf i (rsRan s) = [] \<or> (\<exists>srv svc m r. ranOf i (rsRan s) = [(i, srv, svc, m, cArgs (rsCall s i), r)])"
    by metis
  fix r assume r: "cClient (rsCall s i) = CReturned (Some r)"
  then show "\<exists>srv svc m. ranOf i (rsRan s) = [(i, srv, svc, m, cArgs (rsCall s i), r)]"
    using ok assms(3) by (auto simp: call_ok_def ranOnce_def faithful_def)
qed

subsection \<open>Calls return\<close>

lemma call_step:
  assumes "rpc_step k s s1" and "(rpc_step k)\<^sup>*\<^sup>* s1 s'"
  shows "(rpc_step k)\<^sup>*\<^sup>* s s'"
  using assms by (rule converse_rtranclp_into_rtranclp)

definition returned :: "nat \<Rightarrow> ('e, 's, 'q, 'r, 'a) rpcsys \<Rightarrow> bool" where
  "returned i s \<longleftrightarrow> (\<exists>x. cClient (rsCall s i) = CReturned x) \<and> \<not> rsStop s"

definition registered :: "nat \<Rightarrow> ('e, 's, 'q, 'r, 'a) rpcsys \<Rightarrow> bool" where
  \<comment> \<open>every server knows the method of the call\<close>
  "registered i s \<longleftrightarrow> (\<forall>srv. \<exists>x. Server_dispatch (rsObj s srv) (cMeth (rsCall s i)) = Inr x)"

lemma returned_last:
  assumes "rpc_step k s (finish i (Call_return k rep (rsCall s i)) s1)" and "faithful k" and "\<not> rsStop s" and "rsCall s1 = rsCall s" "rsStop s1 = rsStop s"
    and "\<And>b. rep = Some b \<Longrightarrow> ranOnce k i (rsCall s i) es (\<lambda>r. b = encReply k r)"
  shows "\<exists>s'. (rpc_step k)\<^sup>*\<^sup>* s s' \<and> returned i s' \<and> rsRan s' = rsRan s1"
proof -
  have "returned i (finish i (Call_return k rep (rsCall s i)) s1) \<and> rsRan (finish i (Call_return k rep (rsCall s i)) s1) = rsRan s1"
    using assms(2-6) by (cases rep) (auto simp: Call_return_def finish_def ranOnce_def faithful_def returned_def setCall_def)
  with assms(1) show ?thesis by blast
qed

lemma returns_by:
  assumes "rpc_step k s s1" and "\<exists>s'. (rpc_step k)\<^sup>*\<^sup>* s1 s' \<and> returned i s'"
  shows "\<exists>s'. (rpc_step k)\<^sup>*\<^sup>* s s' \<and> returned i s'"
  using assms call_step by metis

lemma setCall_simps [simp]:
  "rsCall (setCall i c s) i = c" "rsStop (setCall i c s) = rsStop s" "rsNet (setCall i c s) = rsNet s" "rsObj (setCall i c s) = rsObj s"
  "rsApp (setCall i c s) = rsApp s" "rsRan (setCall i c s) = rsRan s" "rsLoop (setCall i c s) = rsLoop s" "rsDone (setCall i c s) = rsDone s"
  by (simp_all add: setCall_def)

lemma check_returns:
  assumes "rpc_inv k a s" and "faithful k" and "\<not> rsStop s" and "cProc (rsCall s i) = PCheck sn srv rel longre rb"
  shows "\<exists>s'. (rpc_step k)\<^sup>*\<^sup>* s s' \<and> returned i s' \<and> rsRan s' = rsRan s"
proof (cases "afterCheck (rsNet s) (rsCall s i)")
  case True
  then obtain b where b: "rb = Some b" using assms(4) by (auto simp: afterCheck_def split: option.splits)
  have "ranOnce k i (rsCall s i) (ranOf i (rsRan s)) (\<lambda>r. b = encReply k r)"
    using callOK [OF assms(1), of i] assms(4) b by (simp add: call_ok_def)
  with returned_last [OF proc_replies [OF assms(3) assms(4) [unfolded b] True] assms(2,3)] show ?thesis by simp
next
  case False
  with returned_last [OF proc_failed [OF assms(3,4)] assms(2,3)] show ?thesis by simp
qed

lemma wait_returns:
  assumes "rpc_inv k a s" and "faithful k" and "registered i s" and "\<not> rsStop s" and "cProc (rsCall s i) = PWait sn srv rel longre"
  shows "\<exists>s'. (rpc_step k)\<^sup>*\<^sup>* s s' \<and> returned i s'"
proof -
  have atEnd: "\<exists>s'. (rpc_step k)\<^sup>*\<^sup>* t s' \<and> returned i s'"
    if "rpc_inv k a t" "\<not> rsStop t" "cProc (rsCall t i) = PWait sn srv rel longre" "cHand (rsCall t i) = HEnd b" for t b
  proof (rule returns_by)
    show st: "rpc_step k t (setCall i ((rsCall t i)\<lparr>cProc := PCheck sn srv rel longre (Some b), cHand := HDone\<rparr>) t)"
      using proc_got that by metis
    from check_returns [OF rpc_step_inv [OF st that(1)] assms(2), of i sn srv rel longre "Some b"] that(2)
    show "\<exists>s'. (rpc_step k)\<^sup>*\<^sup>* (setCall i ((rsCall t i)\<lparr>cProc := PCheck sn srv rel longre (Some b), cHand := HDone\<rparr>) t) s' \<and> returned i s'" by auto
  qed
  have atCall: "\<exists>s'. (rpc_step k)\<^sup>*\<^sup>* t s' \<and> returned i s'"
    if "rpc_inv k a t" "\<not> rsStop t" "cProc (rsCall t i) = PWait sn srv rel longre" "cHand (rsCall t i) = HCalled o' svc m" for t o' svc m
  proof -
    obtain a1 r where h: "handler k o' svc m (decArgs k (cBytes (rsCall t i))) (rsApp t) = (a1, r)" by fastforce
    note st = hand_runs [OF that(2,4) h]
    show ?thesis by (rule returns_by [OF st], rule atEnd [OF rpc_step_inv [OF st that(1)]]) (use that in simp_all)
  qed
  have "cHand (rsCall s i) \<noteq> HNone" "cHand (rsCall s i) \<noteq> HDone" using callOK [OF assms(1), of i] assms(5) by (simp_all add: call_ok_def)
  then consider o' where "cHand (rsCall s i) = HDispatch o'" | o' svc m where "cHand (rsCall s i) = HCalled o' svc m" | b where "cHand (rsCall s i) = HEnd b"
    by (cases "cHand (rsCall s i)") auto
  then show ?thesis
  proof cases
    case 1
    obtain obj svc m where d: "Server_dispatch (rsObj s o') (cMeth (rsCall s i)) = Inr (obj, svc, m)"
      using assms(3) by (auto simp: registered_def) (metis surj_pair)
    have l: "Server_lookup (rsObj s o') o' (rsCall s i) = Inr (obj, (rsCall s i)\<lparr>cHand := HCalled o' svc m\<rparr>)" by (simp add: Server_lookup_def d)
    note st = hand_lookup [OF assms(4) 1 l]
    show ?thesis by (rule returns_by [OF st], rule atCall [OF rpc_step_inv [OF st assms(1)]]) (use assms in simp_all)
  qed (use atCall atEnd assms in blast)+
qed

text \<open>
  Property C30 (calls return). From every reachable state a call that has been made can go on until it returns, when
  its method is registered, whatever else is going on; after the clean-up of the network too. If the
  end has been disabled or the server deleted, the call can return without its handler going on.
\<close>

theorem call_can_return:
  assumes "rpc_init a s0" and "(rpc_step k)\<^sup>*\<^sup>* s0 s" and "faithful k" and "registered i s" and "\<not> rsStop s"
    and "cClient (rsCall s i) = CSending \<or> cClient (rsCall s i) = CWaiting"
  shows "(\<exists>s'. (rpc_step k)\<^sup>*\<^sup>* s s' \<and> returned i s') \<and>
    (\<forall>sn srv rel longre. cProc (rsCall s i) = PWait sn srv rel longre \<and> isServerDead (rsNet s) (cEnd (rsCall s i)) sn srv \<longrightarrow>
       (\<exists>s'. (rpc_step k)\<^sup>*\<^sup>* s s' \<and> returned i s' \<and> rsRan s' = rsRan s))"
proof (intro conjI allI impI)
  have inv: "rpc_inv k a s" by (rule rpc_run_inv, rule assms(2), rule assms(1))
  have fromDelay: "\<exists>s'. (rpc_step k)\<^sup>*\<^sup>* t s' \<and> returned i s'"
    if "rpc_inv k a t" "registered i t" "\<not> rsStop t" "cProc (rsCall t i) = PDelay sn srv rel longre" for t sn srv rel longre
  proof (rule returns_by)
    show st: "rpc_step k t (setCall i ((rsCall t i)\<lparr>cProc := PWait sn srv rel longre, cHand := HDispatch srv\<rparr>) t)"
      using proc_dispatch that by metis
    show "\<exists>s'. (rpc_step k)\<^sup>*\<^sup>* (setCall i ((rsCall t i)\<lparr>cProc := PWait sn srv rel longre, cHand := HDispatch srv\<rparr>) t) s' \<and> returned i s'"
      by (rule wait_returns [OF rpc_step_inv [OF st that(1)] assms(3)]) (use that in \<open>simp_all add: registered_def\<close>)
  qed
  have fromTimer: "\<exists>s'. (rpc_step k)\<^sup>*\<^sup>* t s' \<and> returned i s'" if "\<not> rsStop t" "cProc (rsCall t i) = PTimer" for t
    using returned_last [OF timer_fires [OF that] assms(3) that(1)] by auto
  have fromRead: "\<exists>s'. (rpc_step k)\<^sup>*\<^sup>* t s' \<and> returned i s'"
    if "rpc_inv k a t" "registered i t" "\<not> rsStop t" "cProc (rsCall t i) = PRead" for t
  proof -
    note st = proc_read [OF that(3,4), of k]
    let ?c = "processReq_read (rsNet t) (rsCall t i)"
    have c: "cMeth ?c = cMeth (rsCall t i)" "cProc ?c = PTimer \<or> (\<exists>sn srv rel longre. cProc ?c = PDelay sn srv rel longre)"
      by (auto simp: processReq_read_def split: prod.splits option.splits)
    have "\<exists>s'. (rpc_step k)\<^sup>*\<^sup>* (setCall i ?c t) s' \<and> returned i s'"
      using c(2) fromTimer [of "setCall i ?c t"] fromDelay [OF rpc_step_inv [OF st that(1)]] that c(1) by (auto simp: registered_def)
    then show ?thesis by (rule returns_by [OF st])
  qed
  show "\<exists>s'. (rpc_step k)\<^sup>*\<^sup>* s s' \<and> returned i s'"
  proof (cases "cClient (rsCall s i) = CSending")
    case True
    show ?thesis
    proof (cases "rsLoop s")
      case loop: True
      note st = call_taken [OF assms(5) True loop, of k]
      show ?thesis by (rule returns_by [OF st], rule fromRead [OF rpc_step_inv [OF st inv]]) (use assms(4,5) in \<open>simp_all add: registered_def\<close>)
    next
      case False
      then have "rsDone s" using inv by (auto simp: rpc_inv_def)
      note st = call_cancelled [OF assms(5) True this, of k]
      show ?thesis by (rule returns_by [OF st], rule exI, rule conjI, rule rtranclp.rtrancl_refl) (use assms(5) in \<open>simp add: returned_def\<close>)
    qed
  next
    case False
    then have w: "cProc (rsCall s i) \<noteq> PNone" "cProc (rsCall s i) \<noteq> PDone" using waiting_iff [OF callOK [OF inv, of i]] assms(6) by auto
    show ?thesis
    proof (cases "cProc (rsCall s i)")
      case (PHeld b)
      have "ranOnce k i (rsCall s i) (ranOf i (rsRan s)) (\<lambda>r. b = encReply k r)" using callOK [OF inv, of i] PHeld by (simp add: call_ok_def)
      with returned_last [OF held_replies [OF assms(5) PHeld] assms(3,5)] show ?thesis by auto
    next
      case (PCheck sn srv rel longre rb)
      then show ?thesis using check_returns [OF inv assms(3,5)] by blast
    next
      case PRead
      then show ?thesis by (rule fromRead [OF inv assms(4,5)])
    next
      case (PDelay sn srv rel longre)
      then show ?thesis by (rule fromDelay [OF inv assms(4,5)])
    next
      case (PWait sn srv rel longre)
      then show ?thesis by (rule wait_returns [OF inv assms(3,4,5)])
    next
      case PTimer
      then show ?thesis by (rule fromTimer [OF assms(5)])
    qed (use w in simp_all)
  qed
  fix sn srv rel longre
  assume d: "cProc (rsCall s i) = PWait sn srv rel longre \<and> isServerDead (rsNet s) (cEnd (rsCall s i)) sn srv"
  note st = proc_dead [OF assms(5) conjunct1 [OF d] conjunct2 [OF d], of k]
  from check_returns [OF rpc_step_inv [OF st inv] assms(3), of i sn srv rel longre None] assms(5)
  show "\<exists>s'. (rpc_step k)\<^sup>*\<^sup>* s s' \<and> returned i s' \<and> rsRan s' = rsRan s" using call_step [OF st] by auto
qed

subsection \<open>Calls over a connection that stays\<close>

definition calm :: "nat \<Rightarrow> ('e, 's, 'q, 'r, 'a) rpcsys \<Rightarrow> bool" where
  \<comment> \<open>while the handler of the call is awaited, the end stays enabled and the server stays\<close>
  "calm i s \<longleftrightarrow> (case cProc (rsCall s i) of PWait sn srv _ _ \<Rightarrow> \<not> isServerDead (rsNet s) (cEnd (rsCall s i)) sn srv | _ \<Rightarrow> True)"

definition calm_step :: "('q, 'r, 'a) code \<Rightarrow> nat set \<Rightarrow> ('e, 's, 'q, 'r, 'a) rpcsys \<Rightarrow> ('e, 's, 'q, 'r, 'a) rpcsys \<Rightarrow> bool" where
  "calm_step k I s s' \<longleftrightarrow> rpc_step k s s' \<and> (\<forall>i \<in> I. calm i s)"

definition settled :: "nat \<Rightarrow> ('e, 's, 'q, 'r, 'a) rpcsys \<Rightarrow> bool" where
  \<comment> \<open>when the call is over, so is its handler\<close>
  "settled i s \<longleftrightarrow> (\<forall>sn srv rel longre. cProc (rsCall s i) \<noteq> PCheck sn srv rel longre None) \<and>
     (cProc (rsCall s i) \<in> {PNone, PDone} \<longrightarrow> cHand (rsCall s i) \<in> {HNone, HDone})"

lemma finish_other: "j \<noteq> i \<Longrightarrow> rsCall (finish i g s) j = rsCall s j"
  by (simp add: finish_def setCall_def split: sum.splits)

lemma setCall_other [simp]: "j \<noteq> i \<Longrightarrow> rsCall (setCall i c s) j = rsCall s j"
  by (simp add: setCall_def)

lemma settled_same: "rsCall s' j = rsCall s j \<Longrightarrow> settled j s' = settled j s"
  by (simp add: settled_def)

lemma return_settles:
  assumes "rpc_inv k a s" and "settled j s" and "i = j \<Longrightarrow> cProc (rsCall s j) \<notin> {PRead, PNone} \<and> (\<forall>sn srv rel longre. cProc (rsCall s j) \<noteq> PWait sn srv rel longre)"
    and "rsCall s1 = rsCall s"
  shows "settled j (finish i (Call_return k rep (rsCall s i)) s1)"
proof (cases "i = j")
  case True
  have h: "cHand (rsCall s j) \<in> {HNone, HDone}"
    using callOK [OF assms(1), of j] assms(2) assms(3) [OF True] by (auto simp: call_ok_def settled_def split: proc_pc.splits option.splits)
  then show ?thesis
    using assms(2,4) True by (cases rep) (auto simp: settled_def finish_def Call_return_def setCall_def split: option.splits)
next
  case False
  then show ?thesis using settled_same [of "finish i (Call_return k rep (rsCall s i)) s1" j s] assms(2,4) by (simp add: finish_other)
qed

lemma calm_settled:
  assumes "calm_step k I s s'" and "rpc_inv k a s" and "j \<in> I" and "settled j s"
  shows "settled j s'"
proof -
  have c: "calm j s" using assms(1,3) by (simp add: calm_step_def)
  have "rpc_step k s s'" using assms(1) by (simp add: calm_step_def)
  then show ?thesis
  proof (cases rule: rpc_step.cases)
    case (call_begin i e meth q)
    then show ?thesis using assms(4) by (cases "j = i") (auto simp: settled_def finish_other finish_def Call_begin_def setCall_def split: sum.splits option.splits)
  next
    case (hand_lookup i srv obj cc)
    then obtain svc m where cc: "cc = (rsCall s i)\<lparr>cHand := HCalled srv svc m\<rparr>" by (auto simp: Server_lookup_def go_inv)
    show ?thesis using assms(4) hand_lookup cc by (cases "j = i") (auto simp: settled_def)
  next
    case (proc_read i)
    then show ?thesis using assms(4) callOK [OF assms(2), of i]
      by (cases "j = i") (auto simp: settled_def processReq_read_def call_ok_def split: prod.splits option.splits)
  next
    case (proc_dead i sn srv rel longre)
    then show ?thesis using assms(4) c by (cases "j = i") (auto simp: settled_def calm_def)
  next
    case (hand_runs i srv svc m a r)
    then show ?thesis using assms(4) by (cases "j = i") (auto simp: settled_def)
  next
    case (proc_drop i sn srv longre)
    then show ?thesis by (auto intro!: return_settles [OF assms(2,4)])
  next
    case (proc_failed i sn srv rel longre rb)
    then show ?thesis by (auto intro!: return_settles [OF assms(2,4)])
  next
    case (proc_replies i sn srv rel longre b)
    then show ?thesis by (auto intro!: return_settles [OF assms(2,4)])
  next
    case (held_replies i b)
    then show ?thesis by (auto intro!: return_settles [OF assms(2,4)])
  next
    case (timer_fires i)
    then show ?thesis by (auto intro!: return_settles [OF assms(2,4)])
  next
    case (call_taken i)
    then show ?thesis using assms(4) by (cases "j = i") (auto simp: settled_def)
  next
    case (call_cancelled i)
    then show ?thesis using assms(4) by (cases "j = i") (auto simp: settled_def)
  next
    case (proc_dispatch i sn srv rel longre)
    then show ?thesis using assms(4) by (cases "j = i") (auto simp: settled_def)
  next
    case (proc_got i sn srv rel longre b)
    then show ?thesis using assms(4) by (cases "j = i") (auto simp: settled_def)
  next
    case (hand_drained i b)
    then show ?thesis using assms(4) by (cases "j = i") (auto simp: settled_def)
  next
    case (proc_held i sn srv rel b)
    then show ?thesis using assms(4) by (cases "j = i") (auto simp: settled_def)
  qed (use assms(4) in \<open>simp_all add: settled_def\<close>)
qed

lemma ran_grows:
  assumes "rpc_step k s s'"
  shows "rsRan s' = rsRan s \<or> (\<exists>i srv svc m q r. rsRan s' = rsRan s @ [(i, srv, svc, m, q, r)] \<and> cHand (rsCall s i) = HCalled srv svc m)"
  using assms by (cases rule: rpc_step.cases) (auto simp: finish_def split: sum.splits)

lemma returned_stays:
  assumes "rpc_step k s s'" and "rpc_inv k a s" and "cClient (rsCall s i) = CReturned x"
  shows "cClient (rsCall s' i) = CReturned x \<and> cArgs (rsCall s' i) = cArgs (rsCall s i)"
proof -
  have p: "cProc (rsCall s i) = PNone \<or> cProc (rsCall s i) = PDone" using callOK [OF assms(2), of i] assms(3) by (auto simp: call_ok_def split: option.splits)
  have other: "cClient (rsCall (finish j (Call_return k rep (rsCall s j)) s1) i) = CReturned x \<and> cArgs (rsCall (finish j (Call_return k rep (rsCall s j)) s1) i) = cArgs (rsCall s i)"
    if "i \<noteq> j" "rsCall s1 = rsCall s" for j rep s1 using that assms(3) by (simp add: finish_other)
  show ?thesis
    using assms(1)
  proof (cases rule: rpc_step.cases)
    case (call_begin j e meth q)
    then show ?thesis using assms(3) by (cases "i = j") (auto simp: finish_other)
  next
    case (hand_lookup j srv obj cc)
    then obtain svc m where cc: "cc = (rsCall s j)\<lparr>cHand := HCalled srv svc m\<rparr>" by (auto simp: Server_lookup_def go_inv)
    show ?thesis using assms(3) hand_lookup cc by (cases "i = j") auto
  next
    case (proc_drop j sn srv longre)
    then show ?thesis using p by (cases "i = j") (auto simp: other)
  next
    case (proc_failed j sn srv rel longre rb)
    then show ?thesis using p by (cases "i = j") (auto simp: other)
  next
    case (proc_replies j sn srv rel longre b)
    then show ?thesis using p by (cases "i = j") (auto simp: other)
  next
    case (held_replies j b)
    then show ?thesis using p by (cases "i = j") (auto simp: other)
  next
    case (timer_fires j)
    then show ?thesis using p by (cases "i = j") (auto simp: other)
  qed (use assms(3) p in \<open>auto simp: setCall_def\<close>)
qed

lemma busy_stays:
  assumes "rpc_step k s s'" and "cClient (rsCall s i) \<noteq> CIdle"
  shows "cClient (rsCall s' i) \<noteq> CIdle \<and> cArgs (rsCall s' i) = cArgs (rsCall s i)"
proof -
  have fin: "cClient (rsCall (finish j (Call_return k rep (rsCall s j)) s1) i) \<noteq> CIdle \<and>
      cArgs (rsCall (finish j (Call_return k rep (rsCall s j)) s1) i) = cArgs (rsCall s i)"
    if "rsCall s1 = rsCall s" for j rep s1
    using that assms(2) by (cases rep; cases "i = j") (auto simp: finish_def Call_return_def setCall_def split: option.splits)
  show ?thesis
    using assms(1)
  proof (cases rule: rpc_step.cases)
    case (call_begin j e meth q)
    then show ?thesis using assms(2) by (cases "i = j") (auto simp: finish_other)
  next
    case (hand_lookup j srv obj cc)
    then obtain svc m where cc: "cc = (rsCall s j)\<lparr>cHand := HCalled srv svc m\<rparr>" by (auto simp: Server_lookup_def go_inv)
    show ?thesis using assms(2) hand_lookup cc by (cases "i = j") auto
  qed (use assms(2) in \<open>auto simp: fin setCall_def processReq_read_def split: prod.splits\<close>)
qed

subsection \<open>A call on its own\<close>

text \<open>
  A call over a reliable network with one server is answered. The lemma gives the run for any code, so it
  serves as an example of all theorems about calls.
\<close>

definition ex_object :: "int \<Rightarrow> Server" where
  "ex_object n = \<lparr>services = [(''KVServer'', \<lparr>svcName = ''KVServer'', methods = [''Put'']\<rparr>)], srvCount = n\<rparr>"

definition ex_call :: "'q \<Rightarrow> byte list \<Rightarrow> 'r client_pc \<Rightarrow> nat proc_pc \<Rightarrow> hand_pc \<Rightarrow> (nat, nat, 'q, 'r) call" where
  \<comment> \<open>a call of method \<open>KVServer.Put\<close> over end 3\<close>
  "ex_call q b cl pr hp = \<lparr>cEnd = 3, cMeth = ''KVServer.Put'', cArgs = q, cBytes = b, cClient = cl, cProc = pr, cHand = hp\<rparr>"

definition ex_rpc :: "(nat, nat) Network \<Rightarrow> int \<Rightarrow> (nat, nat, 'q, 'r) call \<Rightarrow> 'a \<Rightarrow>
    (nat \<times> nat \<times> string \<times> string \<times> 'q \<times> 'r) list \<Rightarrow> (nat, nat, 'q, 'r, 'a) rpcsys" where
  \<comment> \<open>call 0; the server object is 42\<close>
  "ex_rpc net n c a h = \<lparr>rsNet = net, rsDone = False, rsLoop = True, rsObj = (\<lambda>_. ex_object 0)(42 := ex_object n),
     rsCall = (\<lambda>_. ex_call (cArgs c) [] CIdle PNone HNone)(0 := c), rsApp = a, rsStop = False, rsRan = h\<rparr>"

lemma ex_call_simps [simp]:
  "cEnd (ex_call q b cl pr hp) = 3" "cMeth (ex_call q b cl pr hp) = ''KVServer.Put''" "cArgs (ex_call q b cl pr hp) = q"
  "cBytes (ex_call q b cl pr hp) = b" "cClient (ex_call q b cl pr hp) = cl" "cProc (ex_call q b cl pr hp) = pr" "cHand (ex_call q b cl pr hp) = hp"
  "(ex_call q b cl pr hp)\<lparr>cClient := cl'\<rparr> = ex_call q b cl' pr hp" "(ex_call q b cl pr hp)\<lparr>cProc := pr'\<rparr> = ex_call q b cl pr' hp"
  "(ex_call q b cl pr hp)\<lparr>cHand := hp'\<rparr> = ex_call q b cl pr hp'"
  by (simp_all add: ex_call_def)

lemma ex_rpc_simps [simp]:
  "rsNet (ex_rpc net n c a h) = net" "rsStop (ex_rpc net n c a h) = False" "rsLoop (ex_rpc net n c a h) = True"
  "rsObj (ex_rpc net n c a h) 42 = ex_object n" "rsApp (ex_rpc net n c a h) = a" "rsRan (ex_rpc net n c a h) = h"
  "rsCall (ex_rpc net n c a h) 0 = c" "(ex_rpc net n c a h)\<lparr>rsNet := net'\<rparr> = ex_rpc net' n c a h"
  "cArgs c' = cArgs c \<Longrightarrow> setCall 0 c' (ex_rpc net n c a h) = ex_rpc net n c' a h"
  by (simp_all add: ex_rpc_def setCall_def)

abbreviation ex_net0 :: "(nat, nat) Network" where "ex_net0 \<equiv> Enable (Connect (AddServer MakeNetwork 5 42) 3 5) 3 True"
abbreviation ex_net1 :: "byte list \<Rightarrow> (nat, nat) Network" where "ex_net1 b \<equiv> takeReq ex_net0 b"

lemma ex_read: "readEndnameInfo (ex_net1 b) 3 = (True, Some 5, Some 42, True, False)"
  by (simp add: readEndnameInfo_def takeReq_def Enable_def Connect_def AddServer_def MakeNetwork_def)

lemma ex_alive: "\<not> isServerDead (ex_net1 b) 3 5 42"
  by (simp add: isServerDead_def takeReq_def Enable_def Connect_def AddServer_def)

lemma ex_calm:
  assumes "rpc_step k (ex_rpc net n c a h) s'" and "\<And>sn srv rel longre. cProc c = PWait sn srv rel longre \<Longrightarrow> \<not> isServerDead net (cEnd c) sn srv"
  shows "calm_step k I (ex_rpc net n c a h) s'"
proof -
  have "calm i (ex_rpc net n c a h)" for i
  proof (cases "i = 0")
    case True
    with assms(2) show ?thesis by (auto simp: calm_def split: proc_pc.splits)
  next
    case False
    then have "cProc (rsCall (ex_rpc net n c a h) i) = PNone" by (simp add: ex_rpc_def)
    then show ?thesis by (simp add: calm_def)
  qed
  with assms(1) show ?thesis by (simp add: calm_step_def)
qed

lemma calm_next:
  assumes "calm_step k I s s1" and "(calm_step k I)\<^sup>*\<^sup>* s1 s'"
  shows "(calm_step k I)\<^sup>*\<^sup>* s s'"
  using assms by (rule converse_rtranclp_into_rtranclp)

lemma ex_network:
  "(calm_step k I)\<^sup>*\<^sup>* (ex_rpc MakeNetwork 0 (ex_call q [] CIdle PNone HNone) a []) (ex_rpc ex_net0 0 (ex_call q [] CIdle PNone HNone) a [])"
proof -
  let ?c = "ex_call q [] CIdle PNone HNone"
  have n: "calm_step k I (ex_rpc rn 0 ?c a []) (ex_rpc rn' 0 ?c a [])" if "net_op rn rn'" for rn rn'
    by (rule ex_calm) (use net_changes [of "ex_rpc rn 0 ?c a []" rn' k] that in simp_all)
  show ?thesis
    by (rule calm_next, rule n, rule net_op.intros(6), rule calm_next, rule n, rule net_op.intros(8), rule calm_next, rule n, rule net_op.intros(9),
        rule rtranclp.rtrancl_refl)
qed

lemma ex_begin:
  "encArgs k q = Some b \<Longrightarrow> Call_begin k 3 ''KVServer.Put'' q = Inr (ex_call q b CSending PNone HNone)"
  by (simp add: Call_begin_def ex_call_def)

lemma ex_taken:
  "calm_step k I (ex_rpc ex_net0 0 (ex_call q b CSending PNone HNone) a []) (ex_rpc (ex_net1 b) 0 (ex_call q b CWaiting PRead HNone) a [])"
  by (rule ex_calm) (use call_taken [of "ex_rpc ex_net0 0 (ex_call q b CSending PNone HNone) a []" 0 k] in simp_all)

lemma ex_setup:
  assumes "encArgs k q = Some b"
  shows "(calm_step k I)\<^sup>*\<^sup>* (ex_rpc MakeNetwork 0 (ex_call q [] CIdle PNone HNone) a []) (ex_rpc (ex_net1 b) 0 (ex_call q b CWaiting PRead HNone) a [])"
proof -
  let ?c = "ex_call q [] CIdle PNone HNone"
  have b: "rpc_step k (ex_rpc ex_net0 0 ?c a []) (ex_rpc ex_net0 0 (ex_call q b CSending PNone HNone) a [])"
    using call_begin [of "ex_rpc ex_net0 0 ?c a []" 0 k 3 "''KVServer.Put''" q] ex_begin [OF assms] by (simp add: finish_def)
  have b': "calm_step k I (ex_rpc ex_net0 0 ?c a []) (ex_rpc ex_net0 0 (ex_call q b CSending PNone HNone) a [])" by (rule ex_calm [OF b]) simp
  show ?thesis
    by (rule rtranclp_trans, rule ex_network, rule calm_next, rule b', rule r_into_rtranclp, rule ex_taken)
qed

lemma ex_answered:
  assumes "handler k 42 ''KVServer'' ''Put'' (decArgs k b) a = (a', r)" and "decReply k (encReply k r) = Some r"
  shows "(calm_step k I)\<^sup>*\<^sup>* (ex_rpc (ex_net1 b) 0 (ex_call q b CWaiting PRead HNone) a [])
    (ex_rpc (addBytes (encReply k r) (ex_net1 b)) 1 (ex_call q b (CReturned (Some r)) PDone HDone) a' [(0, 42, ''KVServer'', ''Put'', decArgs k b, r)])"
proof -
  let ?e = "ex_rpc (ex_net1 b)" and ?c = "ex_call q b" and ?h = "[(0, 42, ''KVServer'', ''Put'', decArgs k b, r)]"
  have s1: "rpc_step k (?e 0 (?c CWaiting PRead HNone) a []) (?e 0 (?c CWaiting (PDelay 5 42 True False) HNone) a [])"
    using proc_read [of "?e 0 (?c CWaiting PRead HNone) a []" 0 k] by (simp add: processReq_read_def ex_read)
  have s2: "rpc_step k (?e 0 (?c CWaiting (PDelay 5 42 True False) HNone) a []) (?e 0 (?c CWaiting (PWait 5 42 True False) (HDispatch 42)) a [])"
    using proc_dispatch [of "?e 0 (?c CWaiting (PDelay 5 42 True False) HNone) a []" 0 5 42 True False k] by simp
  have d: "Server_dispatch (ex_object 0) ''KVServer.Put'' = Inr (ex_object 1, ''KVServer'', ''Put'')"
    by (simp add: Server_dispatch_def splitMeth_def Service_dispatch_def ex_object_def)
  have s3: "rpc_step k (?e 0 (?c CWaiting (PWait 5 42 True False) (HDispatch 42)) a []) (?e 1 (?c CWaiting (PWait 5 42 True False) (HCalled 42 ''KVServer'' ''Put'')) a [])"
    using hand_lookup [of "?e 0 (?c CWaiting (PWait 5 42 True False) (HDispatch 42)) a []" 0 42 "ex_object 1" _ k]
    by (simp add: Server_lookup_def d) (simp add: ex_rpc_def setCall_def)
  have s4: "rpc_step k (?e 1 (?c CWaiting (PWait 5 42 True False) (HCalled 42 ''KVServer'' ''Put'')) a []) (?e 1 (?c CWaiting (PWait 5 42 True False) (HEnd (encReply k r))) a' ?h)"
    using hand_runs [of "?e 1 (?c CWaiting (PWait 5 42 True False) (HCalled 42 ''KVServer'' ''Put'')) a []" 0 42 "''KVServer''" "''Put''" k a' r] assms(1)
    by simp (simp add: ex_rpc_def setCall_def)
  have s5: "rpc_step k (?e 1 (?c CWaiting (PWait 5 42 True False) (HEnd (encReply k r))) a' ?h) (?e 1 (?c CWaiting (PCheck 5 42 True False (Some (encReply k r))) HDone) a' ?h)"
    using proc_got [of "?e 1 (?c CWaiting (PWait 5 42 True False) (HEnd (encReply k r))) a' ?h" 0 5 42 True False "encReply k r" k] by simp
  have s6: "rpc_step k (?e 1 (?c CWaiting (PCheck 5 42 True False (Some (encReply k r))) HDone) a' ?h)
      (ex_rpc (addBytes (encReply k r) (ex_net1 b)) 1 (?c (CReturned (Some r)) PDone HDone) a' ?h)"
    using proc_replies [of "?e 1 (?c CWaiting (PCheck 5 42 True False (Some (encReply k r))) HDone) a' ?h" 0 5 42 True False "encReply k r" k] ex_alive assms(2)
    by (simp add: Call_return_def finish_def afterCheck_def)
  have c: "calm_step k I (?e n (?c cl pr hp) x h) s'" if "rpc_step k (?e n (?c cl pr hp) x h) s'" "pr = PWait 5 42 True False \<or> (\<forall>sn srv rel longre. pr \<noteq> PWait sn srv rel longre)"
    for n cl pr hp x h s' by (rule ex_calm [OF that(1)]) (use that(2) ex_alive in auto)
  show ?thesis
    by (rule calm_next, rule c, rule s1, simp, rule calm_next, rule c, rule s2, simp, rule calm_next, rule c, rule s3, simp,
        rule calm_next, rule c, rule s4, simp, rule calm_next, rule c, rule s5, simp, rule calm_next, rule c, rule s6, simp, rule rtranclp.rtrancl_refl)
qed

lemma ex_init: "rpc_init a (ex_rpc MakeNetwork 0 (ex_call q [] CIdle PNone HNone) a [])"
  by (simp add: rpc_init_def) (simp add: ex_rpc_def)

lemma calm_is_run: "(calm_step k I)\<^sup>*\<^sup>* s s' \<Longrightarrow> (rpc_step k)\<^sup>*\<^sup>* s s'"
  by (induction rule: rtranclp_induct) (auto simp: calm_step_def)

definition ex_code :: "(unit, nat, nat) code" where
  \<comment> \<open>one counter; its only method adds one and replies with the new value, in unary\<close>
  "ex_code = \<lparr>encArgs = (\<lambda>_. Some []), decArgs = (\<lambda>_. ()), encReply = (\<lambda>r. replicate r 0), decReply = (\<lambda>b. Some (length b)),
     handler = (\<lambda>srv svc m q a. (a + 1, a + 1))\<rparr>"

lemma ex_code: "faithful ex_code" "encArgs ex_code () = Some []" "handler ex_code 42 ''KVServer'' ''Put'' (decArgs ex_code []) 7 = (8, 8)"
  by (simp_all add: faithful_def ex_code_def)

lemmas ex_started = calm_is_run [OF ex_setup [OF ex_code(2)], of 7]

theorem calls_run_once_witness:
  "\<exists>s. (rpc_step ex_code)\<^sup>*\<^sup>* (ex_rpc MakeNetwork 0 (ex_call () [] CIdle PNone HNone) 7 []) s \<and> cClient (rsCall s 0) = CReturned (Some 8) \<and>
     (\<exists>srv svc m. ranOf 0 (rsRan s) = [(0, srv, svc, m, cArgs (rsCall s 0), 8)])"
proof -
  have "decReply ex_code (encReply ex_code 8) = Some 8" by (simp add: ex_code_def)
  from calm_is_run [OF ex_answered [OF ex_code(3) this], of "()"]
  obtain s where s: "(rpc_step ex_code)\<^sup>*\<^sup>* (ex_rpc (ex_net1 []) 0 (ex_call () [] CWaiting PRead HNone) 7 []) s" "cClient (rsCall s 0) = CReturned (Some 8)" "rsApp s = 8"
    by (metis ex_rpc_simps(5,7) ex_call_simps(5))
  have run: "(rpc_step ex_code)\<^sup>*\<^sup>* (ex_rpc MakeNetwork 0 (ex_call () [] CIdle PNone HNone) 7 []) s" using ex_started s(1) by (rule rtranclp_trans)
  from calls_run_once [OF ex_init run ex_code(1), of 0] run s show ?thesis by blast
qed

theorem call_can_return_witness:
  "\<exists>s'. (rpc_step ex_code)\<^sup>*\<^sup>* (ex_rpc (ex_net1 []) 0 (ex_call () [] CWaiting PRead HNone) 7 []) s' \<and> returned 0 s'"
proof -
  have "registered 0 (ex_rpc (ex_net1 []) 0 (ex_call () [] CWaiting PRead HNone) 7 [] :: (nat, nat, unit, nat, nat) rpcsys)"
    by (auto simp: registered_def ex_rpc_def ex_call_def Server_dispatch_def splitMeth_def Service_dispatch_def ex_object_def)
  from call_can_return [OF ex_init ex_started ex_code(1) this] show ?thesis by simp
qed

end
