(* ===== verification/Kvsrv_Net.thy ===== *)
theory Kvsrv_Net
  imports Kvsrv Labrpc_Call
begin

text \<open>
  The clerk of the key/value server over the simulated network: the retry loops of
  \<open>src/kvsrv1/client.go\<close> as sequences of calls of \<open>Labrpc_Call\<close>, among the calls of any other clients. The theory
  proves that \<open>Clerk_Put\<close> and \<open>Clerk_Get\<close> of \<open>Kvsrv\<close>, which run over a list of what the network does to each
  attempt, describe all that can happen there, as long as the connection of the clerk stays.

  The type of the arguments decides which handler runs (\<open>KVServer.Get\<close> takes \<open>GetArgs\<close>, \<open>KVServer.Put\<close> takes
  \<open>PutArgs\<close>).
\<close>

datatype kvreq = GetReq string | PutReq PutArgs

datatype kvrep = GetRep GetReply | PutRep Err

definition kv_handler :: "nat \<Rightarrow> string \<Rightarrow> string \<Rightarrow> kvreq \<Rightarrow> KVServer \<Rightarrow> KVServer \<times> kvrep" where
  "kv_handler srv svc m q kv = (case q of
       GetReq key \<Rightarrow> (kv, GetRep (Get kv key))
     | PutReq args \<Rightarrow> (case Put kv args of (kv1, err) \<Rightarrow> (kv1, PutRep err)))"

lemma kv_handler_simps [simp]:
  "kv_handler srv svc m (GetReq key) kv = (kv, GetRep (Get kv key))"
  "kv_handler srv svc m (PutReq a) kv = (fst (Put kv a), PutRep (snd (Put kv a)))"
  by (simp_all add: kv_handler_def split: prod.splits)

subsection \<open>The clerk\<close>

inductive clerk_put :: "(kvreq, kvrep, KVServer) code \<Rightarrow> nat set \<Rightarrow> PutArgs \<Rightarrow> ('e, 's, kvreq, kvrep, KVServer) rpcsys \<Rightarrow> bool \<Rightarrow>
    ('e, 's, kvreq, kvrep, KVServer) rpcsys \<Rightarrow> Err \<Rightarrow> bool" for k I args where
  \<comment> \<open>from one state to another the clerk's loop makes calls until one is answered; \<open>I\<close> are the calls of the clerk\<close>
  put_answered: "i \<in> I \<Longrightarrow> cClient (rsCall s i) = CIdle \<Longrightarrow> (calm_step k I)\<^sup>*\<^sup>* s s' \<Longrightarrow> cArgs (rsCall s' i) = PutReq args \<Longrightarrow>
    cClient (rsCall s' i) = CReturned (Some (PutRep err)) \<Longrightarrow>
    clerk_put k I args s retry s' (if err = ErrVersion \<and> retry then ErrMaybe else err)"
| put_again: "i \<in> I \<Longrightarrow> cClient (rsCall s i) = CIdle \<Longrightarrow> (calm_step k I)\<^sup>*\<^sup>* s s' \<Longrightarrow> cArgs (rsCall s' i) = PutReq args \<Longrightarrow>
    cClient (rsCall s' i) = CReturned None \<Longrightarrow> clerk_put k I args s' True s'' err \<Longrightarrow> clerk_put k I args s retry s'' err"

inductive clerk_get :: "(kvreq, kvrep, KVServer) code \<Rightarrow> nat set \<Rightarrow> string \<Rightarrow> ('e, 's, kvreq, kvrep, KVServer) rpcsys \<Rightarrow>
    ('e, 's, kvreq, kvrep, KVServer) rpcsys \<Rightarrow> GetReply \<Rightarrow> bool" for k I key where
  get_answered: "i \<in> I \<Longrightarrow> cClient (rsCall s i) = CIdle \<Longrightarrow> (calm_step k I)\<^sup>*\<^sup>* s s' \<Longrightarrow> cArgs (rsCall s' i) = GetReq key \<Longrightarrow>
    cClient (rsCall s' i) = CReturned (Some (GetRep r)) \<Longrightarrow> clerk_get k I key s s' r"
| get_again: "i \<in> I \<Longrightarrow> cClient (rsCall s i) = CIdle \<Longrightarrow> (calm_step k I)\<^sup>*\<^sup>* s s' \<Longrightarrow> cArgs (rsCall s' i) = GetReq key \<Longrightarrow>
    cClient (rsCall s' i) = CReturned None \<Longrightarrow> clerk_get k I key s' s'' r \<Longrightarrow> clerk_get k I key s s'' r"

subsection \<open>Histories of the server\<close>

fun putsOf :: "(nat \<times> nat \<times> string \<times> string \<times> kvreq \<times> kvrep) list \<Rightarrow> PutArgs list" where
  "putsOf [] = []"
| "putsOf ((_, _, _, _, PutReq a, _) # h) = a # putsOf h"
| "putsOf ((_, _, _, _, GetReq _, _) # h) = putsOf h"

lemma putsOf_append [simp]: "putsOf (h @ h') = putsOf h @ putsOf h'"
  by (induction h rule: putsOf.induct) auto

lemma run_puts_Cons: "run_puts kv (p # ps) = run_puts (fst (Put kv p)) ps"
  by (simp add: run_puts_def)

lemma replay_puts:
  assumes "handler k = kv_handler" and "replay k h kv = Some kv'"
  shows "kv' = run_puts kv (putsOf h)"
  using assms(2)
  by (induction h arbitrary: kv rule: putsOf.induct)
    (auto simp: assms(1) run_puts_Cons split: if_splits)

lemma calm_run:
  assumes "(calm_step k I)\<^sup>*\<^sup>* s s'" and "rpc_inv k a s" and "\<forall>j \<in> I. settled j s"
  shows "rpc_inv k a s' \<and> (\<forall>j \<in> I. settled j s') \<and> (\<exists>h. rsRan s' = rsRan s @ h \<and> replay k h (rsApp s) = Some (rsApp s'))"
proof -
  have "rpc_inv k a s' \<and> (\<forall>j \<in> I. settled j s') \<and> (\<exists>h. rsRan s' = rsRan s @ h)"
    using assms
  proof (induction rule: rtranclp_induct)
    case (step y z)
    then have y: "rpc_inv k a y" "\<forall>j \<in> I. settled j y" "\<exists>h. rsRan y = rsRan s @ h" by auto
    have st: "rpc_step k y z" using step.hyps(2) by (simp add: calm_step_def)
    have "rpc_inv k a z" by (rule rpc_step_inv [OF st y(1)])
    moreover have "\<forall>j \<in> I. settled j z" using calm_settled [OF step.hyps(2) y(1)] y(2) by blast
    moreover have "\<exists>h. rsRan z = rsRan s @ h" using ran_grows [OF st] y(3) by auto
    ultimately show ?case by blast
  qed auto
  then obtain h where h: "rpc_inv k a s'" "\<forall>j \<in> I. settled j s'" "rsRan s' = rsRan s @ h" by blast
  have "replay k h (rsApp s) = Some (rsApp s')"
    using h(1,3) assms(2) by (simp add: rpc_inv_def replay_append)
  with h show ?thesis by blast
qed

lemma attempt:
  assumes "(calm_step k I)\<^sup>*\<^sup>* s s'" and "rpc_inv k a s" and "\<forall>j \<in> I. settled j s" and "i \<in> I" and "faithful k" and "handler k = kv_handler"
    and "cClient (rsCall s i) = CIdle" and "cClient (rsCall s' i) = CReturned x"
  shows "(x = None \<and> (\<exists>os. rsApp s' = run_puts (rsApp s) os)) \<or>
    (\<exists>os kv2 rep os'. kv_handler 0 [] [] (cArgs (rsCall s' i)) (run_puts (rsApp s) os) = (kv2, rep) \<and> rsApp s' = run_puts kv2 os' \<and> x \<in> {None, Some rep})"
proof -
  obtain h where h: "rsRan s' = rsRan s @ h" "replay k h (rsApp s) = Some (rsApp s')" and inv: "rpc_inv k a s'" "settled i s'"
    using calm_run [OF assms(1-3)] assms(4) by blast
  have "ranOf i (rsRan s) = []" using callOK [OF assms(2), of i] assms(7) by (auto simp: call_ok_def)
  then have es: "ranOf i (rsRan s') = ranOf i h" using h(1) by (simp add: ranOf_def)
  note ok = callOK [OF inv(1), of i]
  have pr: "cProc (rsCall s' i) \<in> {PNone, PDone}" using ok assms(8) by (auto simp: call_ok_def split: option.splits)
  then have "cHand (rsCall s' i) = HNone \<or> cHand (rsCall s' i) = HDone" using inv(2) by (auto simp: settled_def)
  then show ?thesis
  proof
    assume n: "cHand (rsCall s' i) = HNone"
    then have "x = None" using ok assms(8) by (cases x) (auto simp: call_ok_def)
    then show ?thesis using replay_puts [OF assms(6) h(2)] by blast
  next
    assume d: "cHand (rsCall s' i) = HDone"
    have enc: "encArgs k (cArgs (rsCall s' i)) = Some (cBytes (rsCall s' i))" using ok assms(8) by (auto simp: call_ok_def split: option.splits)
    then have q: "decArgs k (cBytes (rsCall s' i)) = cArgs (rsCall s' i)" using assms(5) by (simp add: faithful_def)
    obtain srv svc m r where r: "ranOf i h = [(i, srv, svc, m, cArgs (rsCall s' i), r)]" "x \<noteq> None \<longrightarrow> x = Some r"
      using ok d es q assms(5,8) by (auto simp: call_ok_def ranOnce_def faithful_def split: option.splits)
    have "set (ranOf i h) \<subseteq> set h" by (simp add: ranOf_def)
    then have "(i, srv, svc, m, cArgs (rsCall s' i), r) \<in> set h" unfolding r(1) by simp
    then obtain pre post where pp: "h = pre @ (i, srv, svc, m, cArgs (rsCall s' i), r) # post" by (meson split_list)
    obtain kv1 where kv1: "replay k pre (rsApp s) = Some kv1" "replay k ((i, srv, svc, m, cArgs (rsCall s' i), r) # post) kv1 = Some (rsApp s')"
      using h(2) unfolding pp by (auto simp only: replay_append bind_eq_Some_conv)
    obtain kv2 rep where kv2: "kv_handler srv svc m (cArgs (rsCall s' i)) kv1 = (kv2, rep)" by fastforce
    then have "rep = r" "replay k post kv2 = Some (rsApp s')" using kv1(2) by (auto simp: assms(6) split: if_splits)
    moreover have "kv_handler 0 [] [] (cArgs (rsCall s' i)) (run_puts (rsApp s) (putsOf pre)) = (kv2, rep)"
      using kv2 replay_puts [OF assms(6) kv1(1)] by (simp add: kv_handler_def split: kvreq.splits)
    moreover have "x \<in> {None, Some r}" using r(2) by auto
    ultimately show ?thesis using replay_puts [OF assms(6)] by metis
  qed
qed

lemma clerk_put_abs:
  assumes "clerk_put k I args s retry s' err" and "rpc_inv k a s" and "\<forall>j \<in> I. settled j s" and "faithful k" and "handler k = kv_handler"
    and "rsApp s = run_puts kv os0"
  shows "\<exists>net kv2 os. Clerk_Put_loop net args retry kv = Some (kv2, err) \<and> rsApp s' = run_puts kv2 os"
  using assms(1-3,6)
proof (induction arbitrary: kv os0 rule: clerk_put.induct)
  case (put_answered i s s' err retry)
  from attempt [OF put_answered.hyps(3) put_answered.prems(1,2) put_answered.hyps(1) assms(4,5) put_answered.hyps(2,5)] put_answered.hyps(4)
  obtain os kv2 os' where p: "Put (run_puts (rsApp s) os) args = (kv2, err)" "rsApp s' = run_puts kv2 os'"
    by (auto simp: prod_eq_iff)
  then have "Clerk_Put_loop [(os0 @ os, Delivered)] args retry kv = Some (kv2, if err = ErrVersion \<and> retry then ErrMaybe else err)"
    using put_answered.prems(3) by (simp add: Let_def)
  then show ?case using p(2) by blast
next
  case (put_again i s s' s'' err retry)
  have run: "rpc_inv k a s'" "\<forall>j \<in> I. settled j s'" using calm_run [OF put_again.hyps(3) put_again.prems(1,2)] by simp_all
  from attempt [OF put_again.hyps(3) put_again.prems(1,2) put_again.hyps(1) assms(4,5) put_again.hyps(2,5)] put_again.hyps(4)
  consider (lost) os where "rsApp s' = run_puts (rsApp s) os"
    | (ran) os kv2 os' where "fst (Put (run_puts (rsApp s) os) args) = kv2" "rsApp s' = run_puts kv2 os'"
    by auto
  then show ?case
  proof cases
    case lost
    then have "rsApp s' = run_puts (run_puts kv (os0 @ os)) []" using put_again.prems(3) by simp
    from put_again.IH [OF run this] obtain net kv2 os1 where
      "Clerk_Put_loop net args True (run_puts kv (os0 @ os)) = Some (kv2, err)" "rsApp s'' = run_puts kv2 os1" by blast
    then have "Clerk_Put_loop ((os0 @ os, RequestLost) # net) args retry kv = Some (kv2, err)" by (simp add: Let_def)
    then show ?thesis using \<open>rsApp s'' = run_puts kv2 os1\<close> by blast
  next
    case ran
    from put_again.IH [OF run ran(2)] obtain net kv3 os1 where
      n: "Clerk_Put_loop net args True kv2 = Some (kv3, err)" "rsApp s'' = run_puts kv3 os1" by blast
    then have "Clerk_Put_loop ((os0 @ os, ReplyLost) # net) args retry kv = Some (kv3, err)"
      using ran(1) put_again.prems(3) by (simp add: Let_def)
    then show ?thesis using n(2) by blast
  qed
qed

lemma clerk_get_abs:
  assumes "clerk_get k I key s s' r" and "rpc_inv k a s" and "\<forall>j \<in> I. settled j s" and "faithful k" and "handler k = kv_handler"
    and "rsApp s = run_puts kv os0"
  shows "\<exists>net kv2 os. Clerk_Get net key kv = Some (kv2, r) \<and> rsApp s' = run_puts kv2 os"
  using assms(1-3,6)
proof (induction arbitrary: kv os0 rule: clerk_get.induct)
  case (get_answered i s s' r)
  from attempt [OF get_answered.hyps(3) get_answered.prems(1,2) get_answered.hyps(1) assms(4,5) get_answered.hyps(2,5)] get_answered.hyps(4)
  obtain os os' where p: "r = Get (run_puts (rsApp s) os) key" "rsApp s' = run_puts (run_puts (rsApp s) os) os'"
    by auto
  then have "Clerk_Get [(os0 @ os, Delivered)] key kv = Some (run_puts (rsApp s) os, r)" using get_answered.prems(3) by (simp add: Let_def)
  then show ?case using p(2) by blast
next
  case (get_again i s s' s'' r)
  have run: "rpc_inv k a s'" "\<forall>j \<in> I. settled j s'" using calm_run [OF get_again.hyps(3) get_again.prems(1,2)] by simp_all
  from attempt [OF get_again.hyps(3) get_again.prems(1,2) get_again.hyps(1) assms(4,5) get_again.hyps(2,5)] get_again.hyps(4)
  obtain os where "rsApp s' = run_puts (rsApp s) os" by (auto simp flip: run_puts_simps(2))
  then have "rsApp s' = run_puts (run_puts kv (os0 @ os)) []" using get_again.prems(3) by simp
  from get_again.IH [OF run this] obtain net kv2 os1 where
    n: "Clerk_Get net key (run_puts kv (os0 @ os)) = Some (kv2, r)" "rsApp s'' = run_puts kv2 os1" by blast
  then have "Clerk_Get ((os0 @ os, RequestLost) # net) key kv = Some (kv2, r)" by (simp add: Let_def)
  then show ?case using n(2) by blast
qed

lemma calm_init: "rpc_init a s \<Longrightarrow> rpc_inv k a s \<and> (\<forall>j. settled j s)"
  using rpc_init_inv by (auto simp: rpc_init_def settled_def)

text \<open>
  The clerk over the network. Let the clerk's loop make its calls over the simulated network, among any
  other calls, with requests and replies lost, delayed and reordered, while its end stays enabled and its
  server stays whenever one of its handlers is awaited. Then what it answers, and what it does to the
  server, is what \<open>Clerk_Put\<close> and \<open>Clerk_Get\<close> give for some list of fates of the attempts, followed by puts
  of other clients.
\<close>

theorem clerk_over_network:
  assumes "rpc_init MakeKVServer s0" and "(calm_step k I)\<^sup>*\<^sup>* s0 s" and "faithful k" and "handler k = kv_handler"
  shows "(\<forall>key value version s' err. clerk_put k I \<lparr>pKey = key, pValue = value, pVersion = version\<rparr> s False s' err \<longrightarrow>
       (\<exists>net kv os. Clerk_Put net key value version (rsApp s) = Some (kv, err) \<and> rsApp s' = run_puts kv os)) \<and>
    (\<forall>key s' r. clerk_get k I key s s' r \<longrightarrow>
       (\<exists>net kv os. Clerk_Get net key (rsApp s) = Some (kv, r) \<and> rsApp s' = run_puts kv os))"
proof -
  have i: "rpc_inv k MakeKVServer s0" "\<forall>j \<in> I. settled j s0" using calm_init [OF assms(1)] by auto
  have s: "rpc_inv k MakeKVServer s" "\<forall>j \<in> I. settled j s" using calm_run [OF assms(2) i] by simp_all
  have "rsApp s = run_puts (rsApp s) []" by simp
  with clerk_put_abs [OF _ s assms(3,4)] clerk_get_abs [OF _ s assms(3,4)] show ?thesis
    unfolding Clerk_Put_def by blast
qed

subsection \<open>An example\<close>

definition wireS :: "string \<Rightarrow> byte list" where "wireS s = replicate (length s) 1 @ 0 # map of_char s"
definition wireN :: "nat \<Rightarrow> byte list" where "wireN n = replicate n 1 @ [0]"

definition unwireS :: "byte list \<Rightarrow> string \<times> byte list" where
  "unwireS b = (let n = length (takeWhile (\<lambda>x. x = 1) b); t = drop (Suc n) b in (map (char_of \<circ> unat) (take n t), drop n t))"

definition unwireN :: "byte list \<Rightarrow> nat" where "unwireN b = length (takeWhile (\<lambda>x. x = 1) b)"

lemma takeWhile_ones: "takeWhile (\<lambda>x. x = 1) (replicate n (1::byte) @ 0 # t) = replicate n 1"
  by (induction n) auto

lemma unwire [simp]: "unwireS (wireS s @ t) = (s, t)" "unwireS (wireS s) = (s, [])" "unwireN (wireN n) = n" "unwireN (wireN n @ t) = n"
proof -
  have "(char_of \<circ> unat) (of_char c :: byte) = c" for c :: char
  proof -
    have "(of_char c :: nat) mod 256 = of_char c" using of_char_of [of "of_char c :: nat"] by simp
    moreover have "(of_char c :: byte) = of_nat (of_char c)" by (simp add: of_nat_of_char)
    ultimately show ?thesis by (simp add: unat_of_nat)
  qed
  then have m: "map (char_of \<circ> unat \<circ> (of_char :: char \<Rightarrow> byte)) s = s" for s by (simp add: map_idI)
  show st: "unwireS (wireS s @ t) = (s, t)" for t by (simp add: unwireS_def wireS_def takeWhile_ones Let_def m)
  show "unwireS (wireS s) = (s, [])" using st [of "[]"] by simp
qed (simp_all add: unwireN_def wireN_def takeWhile_ones)

fun wireReq :: "kvreq \<Rightarrow> byte list" where
  "wireReq (GetReq key) = 0 # wireS key"
| "wireReq (PutReq a) = 1 # wireS (pKey a) @ wireS (pValue a) @ wireN (unat (pVersion a))"

definition unwireReq :: "byte list \<Rightarrow> kvreq" where
  "unwireReq b = (case unwireS (tl b) of (key, t) \<Rightarrow> if hd b = 0 then GetReq key
     else case unwireS t of (val, u) \<Rightarrow> PutReq \<lparr>pKey = key, pValue = val, pVersion = of_nat (unwireN u)\<rparr>)"

fun wireRep :: "kvrep \<Rightarrow> byte list" where
  "wireRep (GetRep r) = 0 # wireS (gValue r) @ wireS (gErr r) @ wireN (unat (gVersion r))"
| "wireRep (PutRep e) = 1 # wireS e"

definition unwireRep :: "byte list \<Rightarrow> kvrep option" where
  "unwireRep b = Some (case unwireS (tl b) of (val, t) \<Rightarrow> if hd b = 1 then PutRep val
     else case unwireS t of (err, u) \<Rightarrow> GetRep \<lparr>gValue = val, gVersion = of_nat (unwireN u), gErr = err\<rparr>)"

definition ex_kv_code :: "(kvreq, kvrep, KVServer) code" where
  "ex_kv_code = \<lparr>encArgs = (\<lambda>q. Some (wireReq q)), decArgs = unwireReq, encReply = wireRep, decReply = unwireRep, handler = kv_handler\<rparr>"

lemma ex_kv_code: "faithful ex_kv_code" "handler ex_kv_code = kv_handler"
proof -
  have "unwireReq (wireReq q) = q" for q by (cases q) (simp_all add: unwireReq_def)
  moreover have "unwireRep (wireRep r) = Some r" for r by (cases r) (simp_all add: unwireRep_def)
  ultimately show "faithful ex_kv_code" by (simp add: faithful_def ex_kv_code_def)
qed (simp add: ex_kv_code_def)

theorem clerk_over_network_witness:
  "\<exists>(s :: (nat, nat, kvreq, kvrep, KVServer) rpcsys) s'. clerk_put ex_kv_code {0} \<lparr>pKey = ''k'', pValue = ''v'', pVersion = 0\<rparr> s False s' OK \<and>
     (\<exists>net kv os. Clerk_Put net ''k'' ''v'' 0 (rsApp s) = Some (kv, OK) \<and> rsApp s' = run_puts kv os)"
proof -
  let ?a = "\<lparr>pKey = ''k'', pValue = ''v'', pVersion = 0\<rparr> :: PutArgs" and ?b = "wireReq (PutReq \<lparr>pKey = ''k'', pValue = ''v'', pVersion = 0\<rparr>)"
  let ?s = "ex_rpc MakeNetwork 0 (ex_call (PutReq ?a) [] CIdle PNone HNone) MakeKVServer []"
  obtain kv where p: "Put MakeKVServer ?a = (kv, OK)" by (simp add: Put_def MakeKVServer_def)
  have e: "encArgs ex_kv_code (PutReq ?a) = Some ?b" "decArgs ex_kv_code ?b = PutReq ?a" "decReply ex_kv_code (encReply ex_kv_code (PutRep OK)) = Some (PutRep OK)"
    by (simp_all add: ex_kv_code_def unwireReq_def unwireRep_def)
  have h: "handler ex_kv_code 42 ''KVServer'' ''Put'' (decArgs ex_kv_code ?b) MakeKVServer = (kv, PutRep OK)" unfolding e(2) ex_kv_code(2) by (simp add: p)
  let ?s' = "ex_rpc (addBytes (encReply ex_kv_code (PutRep OK)) (ex_net1 ?b)) 1 (ex_call (PutReq ?a) ?b (CReturned (Some (PutRep OK))) PDone HDone) kv
      [(0, 42, ''KVServer'', ''Put'', decArgs ex_kv_code ?b, PutRep OK)]"
  have run: "(calm_step ex_kv_code {0})\<^sup>*\<^sup>* ?s ?s'" by (rule rtranclp_trans, rule ex_setup [OF e(1)], rule ex_answered [OF h e(3)])
  have "clerk_put ex_kv_code {0} ?a ?s False ?s' (if OK = ErrVersion \<and> False then ErrMaybe else OK)"
    by (rule put_answered [where i = 0]) (use run in simp_all)
  then have c: "clerk_put ex_kv_code {0} ?a ?s False ?s' OK" by simp
  from clerk_over_network [OF ex_init rtranclp.rtrancl_refl ex_kv_code] c show ?thesis by blast
qed

end
