(* ===== verification/Kv_System.thy ===== *)
theory Kv_System
  imports Kv_History Kvsrv_Net
begin

text \<open>
  The key/value test as one system: the clients of the test with their clerks (\<open>src/kvtest1/porcupine.go\<close>,
  \<open>src/kvsrv1/client.go\<close>), the network with its goroutines (\<open>src/labrpc/labrpc.go\<close>), the server
  (\<open>src/kvsrv1/server.go\<close>) and the log of the operations. The theory proves by a forward simulation that
  the system does nothing but what \<open>Kv_History\<close> allows, so that what the tests record over the network is
  linearizable.

  An attempt of a clerk is a call of \<open>Labrpc_Call\<close> that has not been used; everything between the call and its
  return is a step of the network. While a handler is awaited its server stays and its end stays
  enabled (\<open>calm_step\<close>).
\<close>

subsection \<open>Clients over the network\<close>

datatype npc = NIdle | NBusy kvop int bool | NWait kvop int bool nat | NGot kvop int answer

record ('e, 's) kvsys =
  ksNet :: "('e, 's, kvreq, kvrep, KVServer) rpcsys"
  ksNow :: int
  ksPc :: "nat \<Rightarrow> npc"
  ksTest :: kvtest

definition reqOf :: "kvop \<Rightarrow> kvreq" where
  "reqOf x = (case x of GetOp key \<Rightarrow> GetReq key | PutOp a \<Rightarrow> PutReq a)"

definition methOf :: "kvop \<Rightarrow> string" where
  "methOf x = (case x of GetOp key \<Rightarrow> ''KVServer.Get'' | PutOp a \<Rightarrow> ''KVServer.Put'')"

definition clerkGot :: "bool \<Rightarrow> kvrep \<Rightarrow> answer" where
  \<comment> \<open>what the clerk makes of a reply\<close>
  "clerkGot retry rep = (case rep of GetRep r \<Rightarrow> GotReply r
     | PutRep err \<Rightarrow> GotErr (if err = ErrVersion \<and> retry then ErrMaybe else err))"

definition quiet_step :: "('q, 'r, 'a) code \<Rightarrow> ('e, 's, 'q, 'r, 'a) rpcsys \<Rightarrow> ('e, 's, 'q, 'r, 'a) rpcsys \<Rightarrow> bool" where
  \<comment> \<open>a step of the network itself: no call begins\<close>
  "quiet_step k s s' \<longleftrightarrow> calm_step k UNIV s s' \<and> (\<forall>i. cClient (rsCall s i) = CIdle \<longrightarrow> cClient (rsCall s' i) = CIdle)"

inductive ks_step :: "(kvreq, kvrep, KVServer) code \<Rightarrow> ('e, 's) kvsys \<Rightarrow> ('e, 's) kvsys \<Rightarrow> bool" for k where
  ks_tick: "ksNow s \<le> t \<Longrightarrow> ks_step k s (s\<lparr>ksNow := t\<rparr>)"
| ks_net: "quiet_step k (ksNet s) net \<Longrightarrow> ks_step k s (s\<lparr>ksNet := net\<rparr>)"
| ks_called: "ksPc s c = NIdle \<Longrightarrow> ks_step k s (s\<lparr>ksPc := (ksPc s)(c := NBusy x (ksNow s) False)\<rparr>)"
| ks_attempt: "ksPc s c = NBusy x t0 r \<Longrightarrow> \<not> rsStop (ksNet s) \<Longrightarrow> cClient (rsCall (ksNet s) i) = CIdle \<Longrightarrow>
    Call_begin k e (methOf x) (reqOf x) = Inr cl \<Longrightarrow>
    ks_step k s (s\<lparr>ksNet := setCall i cl (ksNet s), ksPc := (ksPc s)(c := NWait x t0 r i)\<rparr>)"
| ks_panic: "ksPc s c = NBusy x t0 r \<Longrightarrow> (Call_begin k e (methOf x) (reqOf x) :: ('e, 's, kvreq, kvrep) call go) = Inl err \<Longrightarrow>
    ks_step k s (s\<lparr>ksNet := (ksNet s)\<lparr>rsStop := True\<rparr>\<rparr>)"
| ks_failed: "ksPc s c = NWait x t0 r i \<Longrightarrow> cClient (rsCall (ksNet s) i) = CReturned None \<Longrightarrow>
    ks_step k s (s\<lparr>ksPc := (ksPc s)(c := NBusy x t0 True)\<rparr>)"
| ks_got: "ksPc s c = NWait x t0 r i \<Longrightarrow> cClient (rsCall (ksNet s) i) = CReturned (Some rep) \<Longrightarrow>
    ks_step k s (s\<lparr>ksPc := (ksPc s)(c := NGot x t0 (clerkGot r rep))\<rparr>)"
| ks_recorded: "ksPc s c = NGot x t0 ans \<Longrightarrow>
    ks_step k s (s\<lparr>ksPc := (ksPc s)(c := NIdle), ksTest := recordOp c x t0 (ksNow s) ans (ksTest s)\<rparr>)"

definition ks_init :: "('e, 's) kvsys \<Rightarrow> bool" where
  "ks_init s \<longleftrightarrow> rpc_init MakeKVServer (ksNet s) \<and> (\<forall>c. ksPc s c = NIdle) \<and> oplog (ksTest s) = Some []"

subsection \<open>What the network keeps\<close>

lemma handler_answers: "kv_handler srv svc m (reqOf x) kv = (kv', rep) \<Longrightarrow> clerkAnswer x r kv = (kv', clerkGot r rep)"
  by (auto simp: reqOf_def clerkAnswer_def clerkGot_def split: kvop.splits prod.splits)

definition net_fine :: "(kvreq, kvrep, KVServer) code \<Rightarrow> ('e, 's, kvreq, kvrep, KVServer) rpcsys \<Rightarrow> bool" where
  "net_fine k s \<longleftrightarrow> faithful k \<and> handler k = kv_handler \<and> rpc_inv k MakeKVServer s \<and> (\<forall>i. settled i s)"

lemma net_fine_step:
  assumes "net_fine k s" and "calm_step k UNIV s s'"
  shows "net_fine k s'"
proof -
  have st: "rpc_step k s s'" using assms(2) by (simp add: calm_step_def)
  have inv: "rpc_inv k MakeKVServer s" using assms(1) by (simp add: net_fine_def)
  have "settled i s'" for i using calm_settled [OF assms(2) inv UNIV_I] assms(1) by (simp add: net_fine_def)
  then show ?thesis using rpc_step_inv [OF st inv] assms(1) by (simp add: net_fine_def)
qed

lemma net_fine_begin:
  assumes "net_fine k s" and "\<not> rsStop s" and "cClient (rsCall s i) = CIdle" and "Call_begin k e meth q = Inr cl"
  shows "net_fine k (setCall i cl s)"
proof -
  have "rpc_step k s (setCall i cl s)" using call_begin [OF assms(2,3), of k e meth q] assms(4) by (simp add: finish_def)
  then have "rpc_inv k MakeKVServer (setCall i cl s)" using assms(1) by (auto simp: net_fine_def intro: rpc_step_inv)
  moreover have "settled j (setCall i cl s)" for j
    using assms(1,4) by (cases "j = i") (auto simp: net_fine_def settled_def Call_begin_def split: option.splits)
  ultimately show ?thesis using assms(1) by (simp add: net_fine_def)
qed

text \<open>A handler runs only for a call that is awaited, and with the arguments of that call.\<close>

lemma running_awaited:
  assumes "net_fine k s" and "cHand (rsCall s i) = HCalled srv svc m"
  shows "cClient (rsCall s i) = CWaiting" "ranOf i (rsRan s) = []" "decArgs k (cBytes (rsCall s i)) = cArgs (rsCall s i)"
proof -
  have ok: "call_ok k i (rsCall s i) (ranOf i (rsRan s))" and se: "settled i s" and f: "faithful k"
    using assms(1) callOK by (auto simp: net_fine_def)
  have "cProc (rsCall s i) \<noteq> PNone" "cProc (rsCall s i) \<noteq> PDone" using se assms(2) by (auto simp: settled_def)
  then show w: "cClient (rsCall s i) = CWaiting" using waiting_iff [OF ok] by simp
  show "ranOf i (rsRan s) = []" using ok assms(2) by (simp add: call_ok_def)
  show "decArgs k (cBytes (rsCall s i)) = cArgs (rsCall s i)" using ok w f by (auto simp: call_ok_def faithful_def)
qed

lemma run_or_not:
  assumes "rpc_step k s s'"
  shows "(rsRan s' = rsRan s \<and> rsApp s' = rsApp s) \<or>
    (\<exists>i srv svc m rep. cHand (rsCall s i) = HCalled srv svc m \<and> handler k srv svc m (decArgs k (cBytes (rsCall s i))) (rsApp s) = (rsApp s', rep) \<and>
       rsRan s' = rsRan s @ [(i, srv, svc, m, decArgs k (cBytes (rsCall s i)), rep)])"
  using assms by (cases rule: rpc_step.cases) (auto simp: finish_def split: sum.splits)

subsection \<open>The simulation\<close>

definition pcOf :: "('e, 's, kvreq, kvrep, KVServer) rpcsys \<Rightarrow> npc \<Rightarrow> hpc" where
  \<comment> \<open>a call that waits has been handled or not\<close>
  "pcOf net p = (case p of NIdle \<Rightarrow> HIdle | NBusy x t0 r \<Rightarrow> HBusy x t0 r | NGot x t0 ans \<Rightarrow> HGot x t0 ans
     | NWait x t0 r i \<Rightarrow> (case ranOf i (rsRan net) of [] \<Rightarrow> HBusy x t0 r | (_, _, _, _, _, rep) # _ \<Rightarrow> HReplied x t0 (clerkGot r rep)))"

lemma pcOf_same: "rsRan net = rsRan net' \<Longrightarrow> pcOf net p = pcOf net' p"
  by (simp add: pcOf_def split: npc.split)

definition waits :: "('e, 's) kvsys \<Rightarrow> nat \<Rightarrow> nat \<Rightarrow> bool" where
  "waits s c i \<longleftrightarrow> (\<exists>x t0 r. ksPc s c = NWait x t0 r i)"

definition calls_fine :: "('e, 's) kvsys \<Rightarrow> bool" where
  \<comment> \<open>every call in progress is the attempt of one client\<close>
  "calls_fine s \<longleftrightarrow> (\<forall>c d i. waits s c i \<longrightarrow> waits s d i \<longrightarrow> c = d) \<and>
     (\<forall>i. cClient (rsCall (ksNet s) i) = CSending \<or> cClient (rsCall (ksNet s) i) = CWaiting \<longrightarrow> (\<exists>c. waits s c i)) \<and>
     (\<forall>c x t0 r i. ksPc s c = NWait x t0 r i \<longrightarrow> cClient (rsCall (ksNet s) i) \<noteq> CIdle \<and> cArgs (rsCall (ksNet s) i) = reqOf x)"

definition simulated :: "(kvreq, kvrep, KVServer) code \<Rightarrow> ('e, 's) kvsys \<Rightarrow> hsys \<Rightarrow> bool" where
  "simulated k s h \<longleftrightarrow> net_fine k (ksNet s) \<and> calls_fine s \<and> hSrv h = rsApp (ksNet s) \<and> hNow h = ksNow s \<and> hTest h = ksTest s \<and>
     (\<forall>c. hPc h c = pcOf (ksNet s) (ksPc s c)) \<and> length (hLin h) \<le> length (rsRan (ksNet s))"

lemma calls_fine_net:
  assumes "calls_fine s" and "net_fine k (ksNet s)" and "quiet_step k (ksNet s) net"
  shows "calls_fine (s\<lparr>ksNet := net\<rparr>)"
proof -
  have st: "rpc_step k (ksNet s) net" using assms(3) by (simp add: quiet_step_def calm_step_def)
  have inv: "rpc_inv k MakeKVServer (ksNet s)" using assms(2) by (simp add: net_fine_def)
  have "cClient (rsCall (ksNet s) i) = CSending \<or> cClient (rsCall (ksNet s) i) = CWaiting"
    if "cClient (rsCall net i) = CSending \<or> cClient (rsCall net i) = CWaiting" for i
    using that assms(3) returned_stays [OF st inv, of i] by (cases "cClient (rsCall (ksNet s) i)") (auto simp: quiet_step_def)
  moreover have "cClient (rsCall net i) \<noteq> CIdle \<and> cArgs (rsCall net i) = cArgs (rsCall (ksNet s) i)" if "cClient (rsCall (ksNet s) i) \<noteq> CIdle" for i
    using busy_stays [OF st that] .
  ultimately show ?thesis using assms(1) by (simp add: calls_fine_def waits_def) blast
qed

lemma net_simulated:
  assumes "simulated k s h" and "quiet_step k (ksNet s) net"
  shows "\<exists>h'. hstep\<^sup>*\<^sup>* h h' \<and> simulated k (s\<lparr>ksNet := net\<rparr>) h'"
proof -
  have nf: "net_fine k (ksNet s)" and cf: "calls_fine s" using assms(1) by (simp_all add: simulated_def)
  have ca: "calm_step k UNIV (ksNet s) net" using assms(2) by (simp add: quiet_step_def)
  have st: "rpc_step k (ksNet s) net" using ca by (simp add: calm_step_def)
  note new = net_fine_step [OF nf ca] calls_fine_net [OF cf nf assms(2)]
  from run_or_not [OF st] consider "rsRan net = rsRan (ksNet s)" "rsApp net = rsApp (ksNet s)"
    | i srv svc m rep where "cHand (rsCall (ksNet s) i) = HCalled srv svc m"
      "handler k srv svc m (decArgs k (cBytes (rsCall (ksNet s) i))) (rsApp (ksNet s)) = (rsApp net, rep)"
      "rsRan net = rsRan (ksNet s) @ [(i, srv, svc, m, decArgs k (cBytes (rsCall (ksNet s) i)), rep)]" by blast
  then show ?thesis
  proof cases
    case 1
    then have "pcOf net p = pcOf (ksNet s) p" for p by (intro pcOf_same)
    then have "simulated k (s\<lparr>ksNet := net\<rparr>) h" using 1 assms(1) new by (simp add: simulated_def)
    then show ?thesis by blast
  next
    case 2
    note aw = running_awaited [OF nf 2(1)]
    obtain c x t0 r where c: "ksPc s c = NWait x t0 r i" using cf aw(1) by (auto simp: calls_fine_def waits_def)
    have q: "cArgs (rsCall (ksNet s) i) = reqOf x" using cf c by (auto simp: calls_fine_def)
    have busy: "hPc h c = HBusy x t0 r" using assms(1) c aw(2) by (simp add: simulated_def pcOf_def)
    have "kv_handler srv svc m (reqOf x) (hSrv h) = (rsApp net, rep)" using 2(2) aw(3) q nf assms(1) by (simp add: net_fine_def simulated_def)
    from handler_answers [OF this] have "clerkAnswer x r (hSrv h) = (rsApp net, clerkGot r rep)" .
    note run = hstep.ran [OF busy this]
    let ?h = "(takesEffect c x t0 h)\<lparr>hSrv := rsApp net, hPc := (hPc h)(c := HReplied x t0 (clerkGot r rep))\<rparr>"
    have "hPc ?h d = pcOf net (ksPc s d)" for d
    proof (cases "d = c")
      case True
      then show ?thesis using c 2(3) aw(2) by (simp add: pcOf_def ranOf_def)
    next
      case False
      then have "ksPc s d \<noteq> NWait x' t' r' i" for x' t' r' using cf c by (auto simp: calls_fine_def waits_def)
      then have "pcOf net (ksPc s d) = pcOf (ksNet s) (ksPc s d)" using 2(3) by (auto simp: pcOf_def ranOf_def split: npc.splits)
      then show ?thesis using False assms(1) by (simp add: simulated_def)
    qed
    then have "simulated k (s\<lparr>ksNet := net\<rparr>) ?h" using assms(1) new 2(3) by (simp add: simulated_def takesEffect_def)
    then show ?thesis using run by blast
  qed
qed

lemma attempt_simulated:
  assumes "simulated k s h" and "ksPc s c = NBusy x t0 r" and "\<not> rsStop (ksNet s)" and idle: "cClient (rsCall (ksNet s) i) = CIdle"
    and "Call_begin k e (methOf x) (reqOf x) = Inr cl"
  shows "simulated k (s\<lparr>ksNet := setCall i cl (ksNet s), ksPc := (ksPc s)(c := NWait x t0 r i)\<rparr>) h"
proof -
  have nf: "net_fine k (ksNet s)" and cf: "calls_fine s" using assms(1) by (simp_all add: simulated_def)
  have cl: "cClient cl = CSending" "cArgs cl = reqOf x" using assms(5) by (auto simp: Call_begin_def split: option.splits)
  have none: "ranOf i (rsRan (ksNet s)) = []"
    using callOK [of k MakeKVServer "ksNet s" i] nf idle by (auto simp: net_fine_def settled_def call_ok_def ranOnce_def split: hand_pc.splits)
  let ?s = "s\<lparr>ksNet := setCall i cl (ksNet s), ksPc := (ksPc s)(c := NWait x t0 r i)\<rparr>"
  have free: "\<not> waits s d i" for d using cf idle by (auto simp: calls_fine_def waits_def)
  have w: "waits ?s d j \<longleftrightarrow> d = c \<and> j = i \<or> waits s d j" for d j using assms(2) by (auto simp: waits_def)
  have "calls_fine ?s"
    unfolding calls_fine_def w
  proof (intro conjI allI impI)
    fix d x' t' r' j assume "ksPc ?s d = NWait x' t' r' j"
    then have "d = c \<and> j = i \<and> x' = x \<or> j \<noteq> i \<and> ksPc s d = NWait x' t' r' j" using free [of d] by (auto simp: waits_def split: if_splits)
    then show "cClient (rsCall (ksNet ?s) j) \<noteq> CIdle" "cArgs (rsCall (ksNet ?s) j) = reqOf x'"
      using cf cl by (auto simp: calls_fine_def)
  next
    fix j assume "cClient (rsCall (ksNet ?s) j) = CSending \<or> cClient (rsCall (ksNet ?s) j) = CWaiting"
    then show "\<exists>d. d = c \<and> j = i \<or> waits s d j" using cf by (cases "j = i") (auto simp: calls_fine_def)
  qed (use cf free in \<open>auto simp: calls_fine_def\<close>)
  moreover have "pcOf (setCall i cl (ksNet s)) p = pcOf (ksNet s) p" for p by (rule pcOf_same) simp
  moreover have "pcOf (ksNet s) (NWait x t0 r i) = pcOf (ksNet s) (ksPc s c)" using assms(2) none by (simp add: pcOf_def)
  ultimately show ?thesis using assms(1) net_fine_begin [OF nf assms(3) idle assms(5)] by (simp add: simulated_def)
qed

text \<open>A client that has stopped waiting: the rest of the system is as it was.\<close>

lemma client_simulated:
  assumes "simulated k s h" and "\<And>x t0 r i. p \<noteq> NWait x t0 r i"
    and "hPc h' = (hPc h)(c := pcOf (ksNet s) p)" and "hSrv h' = hSrv h" "hNow h' = hNow h" "hTest h' = ts" "length (hLin h') = length (hLin h)"
    and "\<And>x t0 r i. ksPc s c = NWait x t0 r i \<Longrightarrow> \<exists>y. cClient (rsCall (ksNet s) i) = CReturned y"
  shows "simulated k (s\<lparr>ksPc := (ksPc s)(c := p), ksTest := ts\<rparr>) h'"
proof -
  have cf: "calls_fine s" using assms(1) by (simp add: simulated_def)
  have "waits (s\<lparr>ksPc := (ksPc s)(c := p), ksTest := ts\<rparr>) d i \<longleftrightarrow> d \<noteq> c \<and> waits s d i" for d i
    using assms(2) by (auto simp: waits_def)
  moreover have "\<not> waits s c i" if "cClient (rsCall (ksNet s) i) = CSending \<or> cClient (rsCall (ksNet s) i) = CWaiting" for i
    using that assms(8) by (fastforce simp: waits_def)
  ultimately have "calls_fine (s\<lparr>ksPc := (ksPc s)(c := p), ksTest := ts\<rparr>)"
    using cf assms(2) unfolding calls_fine_def by (auto split: if_splits) metis+
  then show ?thesis using assms(1,3-7) by (simp add: simulated_def)
qed

lemma ks_simulates:
  assumes "simulated k s h" and "ks_step k s s'"
  shows "\<exists>h'. hstep\<^sup>*\<^sup>* h h' \<and> simulated k s' h'"
  using assms(2)
proof (cases rule: ks_step.cases)
  case (ks_tick t)
  have "hstep h (h\<lparr>hNow := t\<rparr>)" using assms(1) ks_tick by (intro hstep.tick) (simp add: simulated_def)
  moreover have "simulated k s' (h\<lparr>hNow := t\<rparr>)" using assms(1) ks_tick by (simp add: simulated_def calls_fine_def waits_def)
  ultimately show ?thesis by blast
next
  case (ks_net net)
  then show ?thesis using net_simulated [OF assms(1)] by simp
next
  case (ks_called c x)
  have "hPc h c = HIdle" using assms(1) ks_called(2) by (simp add: simulated_def pcOf_def)
  then have "hstep h (h\<lparr>hPc := (hPc h)(c := HBusy x (hNow h) False)\<rparr>)" by (rule hstep.called)
  moreover have "simulated k (s\<lparr>ksPc := (ksPc s)(c := NBusy x (ksNow s) False), ksTest := ksTest s\<rparr>) (h\<lparr>hPc := (hPc h)(c := HBusy x (hNow h) False)\<rparr>)"
    by (rule client_simulated [OF assms(1)]) (use assms(1) ks_called in \<open>simp_all add: simulated_def pcOf_def\<close>)
  ultimately show ?thesis using ks_called(1) by auto
next
  case (ks_attempt c x t0 r i e cl)
  then show ?thesis using attempt_simulated [OF assms(1)] by blast
next
  case (ks_panic c x t0 r e err)
  have "pcOf ((ksNet s)\<lparr>rsStop := True\<rparr>) p = pcOf (ksNet s) p" for p by (rule pcOf_same) simp
  then have "simulated k s' h" using assms(1) ks_panic
    by (simp add: simulated_def net_fine_def settled_def rpc_inv_net calls_fine_def waits_def)
  then show ?thesis by blast
next
  case (ks_failed c x t0 r i)
  let ?ran = "ranOf i (rsRan (ksNet s))"
  have pc: "hPc h c = pcOf (ksNet s) (NWait x t0 r i)" using assms(1) ks_failed(2) by (simp add: simulated_def)
  have ex: "\<exists>h'. hstep h h' \<and> hPc h' = (hPc h)(c := HBusy x t0 True) \<and> hSrv h' = hSrv h \<and> hNow h' = hNow h \<and> hTest h' = hTest h \<and> length (hLin h') = length (hLin h)"
  proof (cases ?ran)
    case Nil
    then have "hPc h c = HBusy x t0 r" using pc by (simp add: pcOf_def)
    then show ?thesis by (intro exI [of _ "h\<lparr>hPc := (hPc h)(c := HBusy x t0 True)\<rparr>"]) (auto intro: hstep.request_lost)
  next
    case (Cons a as)
    then obtain rep where "hPc h c = HReplied x t0 (clerkGot r rep)" using pc by (auto simp: pcOf_def split: prod.splits)
    from hstep.reply_lost [OF this] show ?thesis
      by (intro exI [of _ "(forgets c h)\<lparr>hPc := (hPc h)(c := HBusy x t0 True)\<rparr>"]) (simp add: forgets_def split: option.splits)
  qed
  then obtain h' where h: "hstep h h'" "hPc h' = (hPc h)(c := HBusy x t0 True)" "hSrv h' = hSrv h" "hNow h' = hNow h" "hTest h' = hTest h" "length (hLin h') = length (hLin h)"
    by blast
  have "simulated k (s\<lparr>ksPc := (ksPc s)(c := NBusy x t0 True), ksTest := ksTest s\<rparr>) h'"
    by (rule client_simulated [OF assms(1)]) (use assms(1) ks_failed h in \<open>simp_all add: simulated_def pcOf_def\<close>)
  then show ?thesis using h(1) ks_failed(1) by auto
next
  case (ks_got c x t0 r i rep)
  have "call_ok k i (rsCall (ksNet s) i) (ranOf i (rsRan (ksNet s)))" "faithful k" using assms(1) callOK by (auto simp: simulated_def net_fine_def)
  then obtain srv svc m q where "ranOf i (rsRan (ksNet s)) = [(i, srv, svc, m, q, rep)]"
    using ks_got(3) by (auto simp: call_ok_def ranOnce_def faithful_def)
  then have "hPc h c = HReplied x t0 (clerkGot r rep)" using assms(1) ks_got(2) by (simp add: simulated_def pcOf_def)
  then have "hstep h (h\<lparr>hPc := (hPc h)(c := HGot x t0 (clerkGot r rep))\<rparr>)" by (rule hstep.answered)
  moreover have "simulated k (s\<lparr>ksPc := (ksPc s)(c := NGot x t0 (clerkGot r rep)), ksTest := ksTest s\<rparr>) (h\<lparr>hPc := (hPc h)(c := HGot x t0 (clerkGot r rep))\<rparr>)"
    by (rule client_simulated [OF assms(1)]) (use assms(1) ks_got in \<open>simp_all add: simulated_def pcOf_def\<close>)
  ultimately show ?thesis using ks_got(1) by auto
next
  case (ks_recorded c x t0 ans)
  let ?h = "(finishes c (entryOf c x t0 (hNow h) ans) h)\<lparr>hTest := recordOp c x t0 (hNow h) ans (hTest h), hPc := (hPc h)(c := HIdle)\<rparr>"
  have "hPc h c = HGot x t0 ans" using assms(1) ks_recorded(2) by (simp add: simulated_def pcOf_def)
  then have "hstep h ?h" by (rule hstep.recorded)
  moreover have "simulated k (s\<lparr>ksPc := (ksPc s)(c := NIdle), ksTest := recordOp c x t0 (ksNow s) ans (ksTest s)\<rparr>) ?h"
    by (rule client_simulated [OF assms(1)]) (use assms(1) ks_recorded in \<open>simp_all add: simulated_def pcOf_def finishes_def split: option.splits\<close>)
  ultimately show ?thesis using ks_recorded(1) by auto
qed

interpretation kvnet: forward_simulation "ks_step k" hstep "simulated k"
  by unfold_locales (rule ks_simulates)

lemma init_simulated:
  assumes "ks_init s" and "faithful k" and "handler k = kv_handler"
  shows "\<exists>h. hinit h \<and> simulated k s h"
proof -
  let ?h = "\<lparr>hSrv = MakeKVServer, hNow = ksNow s, hPc = \<lambda>_. HIdle, hTest = ksTest s, hLin = [], hOwn = \<lambda>_. None\<rparr>"
  have "net_fine k (ksNet s)" using assms calm_init [of MakeKVServer "ksNet s" k] by (simp add: net_fine_def ks_init_def)
  then have "simulated k s ?h" using assms(1) by (simp add: simulated_def ks_init_def rpc_init_def calls_fine_def waits_def pcOf_def)
  moreover have "hinit ?h" using assms(1) by (simp add: hinit_def ks_init_def)
  ultimately show ?thesis by blast
qed

text \<open>
  Property C5 (the tests over the network record linearizable histories). Run any number of clients of
  the test over the simulated network: each operation reads the clock, its clerk makes calls until one
  is answered, the network takes each request and each reply through its goroutines and loses, delays
  and reorders them as it likes, the server handles requests one at a time, and the test appends the
  operation to its log. While a handler is awaited its server is not removed and its end not disabled
  (\<open>ks_step\<close> has no other steps). Every such run is a run of the specification \<open>hstep\<close>, in which each
  operation takes effect at one moment, with the same server, the same log and the clients at the same
  points. When all clients have finished, and fewer than \<open>2 ^ 64\<close> handlers have run, the recorded
  operations are linearizable for the sequential model, apart from puts that were answered \<open>ErrNoKey\<close>: the model
  takes that answer from no put, and these puts change nothing. If there is none, the whole log is
  linearizable, and the check of the log does not fail.
\<close>

theorem system_linearizable:
  assumes "ks_init s0" and "(ks_step k)\<^sup>*\<^sup>* s0 s" and "faithful k" and "handler k = kv_handler"
  shows "(\<exists>h0 h. hinit h0 \<and> hstep\<^sup>*\<^sup>* h0 h \<and> hSrv h = rsApp (ksNet s) \<and> hNow h = ksNow s \<and> hTest h = ksTest s \<and>
      (\<forall>c. hPc h c = pcOf (ksNet s) (ksPc s c))) \<and>
    ((\<forall>c. ksPc s c = NIdle) \<and> length (rsRan (ksNet s)) < 2 ^ 64 \<longrightarrow> (\<forall>log. oplog (ksTest s) = Some log \<longrightarrow>
      linearizable (filter (\<lambda>y. \<not> noKeyPut y) log) \<and>
      ((\<forall>y \<in> set log. \<not> noKeyPut y) \<and> (\<forall>h. check h = Illegal \<longrightarrow> \<not> linearizable h) \<longrightarrow>
        linearizable log \<and> fst (checkPorcupine check vis opens t log line) = Inr ())))"
proof -
  obtain h0 where h0: "hinit h0" "simulated k s0 h0" using init_simulated [OF assms(1,3,4)] by blast
  obtain h where h: "hstep\<^sup>*\<^sup>* h0 h" "simulated k s h" using kvnet.run_simulated [OF assms(2) h0(2)] by blast
  have "linearizable (filter (\<lambda>y. \<not> noKeyPut y) log)"
    if "\<forall>c. ksPc s c = NIdle" "length (rsRan (ksNet s)) < 2 ^ 64" "oplog (ksTest s) = Some log" for log
  proof -
    have "\<forall>c. hPc h c = HIdle" "length (hLin h) < 2 ^ 64" "oplog (hTest h) = Some log"
      using h(2) that by (simp_all add: simulated_def pcOf_def)
    then show ?thesis using inv_linearizable [OF hrun_inv [OF h0(1) h(1)]] by blast
  qed
  note lin = this
  have "linearizable log \<and> fst (checkPorcupine check vis opens t log line) = Inr ()"
    if "\<forall>c. ksPc s c = NIdle" "length (rsRan (ksNet s)) < 2 ^ 64" "oplog (ksTest s) = Some log"
      "\<forall>y \<in> set log. \<not> noKeyPut y" "\<forall>h. check h = Illegal \<longrightarrow> \<not> linearizable h" for log
  proof -
    have "linearizable log" using lin [OF that(1-3)] that(4) by (simp cong: filter_cong)
    then show ?thesis using that(5) by (auto simp: checkPorcupine_def Read_def)
  qed
  moreover have "hSrv h = rsApp (ksNet s)" "hNow h = ksNow s" "hTest h = ksTest s" "\<forall>c. hPc h c = pcOf (ksNet s) (ksPc s c)"
    using h(2) by (simp_all add: simulated_def)
  ultimately show ?thesis using h0(1) h(1) lin by (intro conjI exI [of _ h0] exI [of _ h] impI allI) simp_all
qed

subsection \<open>An example\<close>

lemma quiet_run:
  assumes "(calm_step k UNIV)\<^sup>*\<^sup>* n n'" and "\<forall>i. cClient (rsCall n i) = CIdle \<longrightarrow> cClient (rsCall n' i) = CIdle"
  shows "(ks_step k)\<^sup>*\<^sup>* (s\<lparr>ksNet := n\<rparr>) (s\<lparr>ksNet := n'\<rparr>)"
  using assms
proof (induction rule: converse_rtranclp_induct)
  case (step n n1)
  have unbegun: "cClient (rsCall a i) = CIdle" if "calm_step k UNIV a b" "cClient (rsCall b i) = CIdle" for a b i
    using busy_stays that by (auto simp: calm_step_def)
  have run: "cClient (rsCall n1 i) = CIdle" if "cClient (rsCall n' i) = CIdle" for i
    using step.hyps(2) that by (induction rule: converse_rtranclp_induct) (auto dest: unbegun)
  have "quiet_step k n n1" using step.hyps(1) step.prems run by (simp add: quiet_step_def)
  then have "ks_step k (s\<lparr>ksNet := n\<rparr>) (s\<lparr>ksNet := n1\<rparr>)" using ks_net [of k "s\<lparr>ksNet := n\<rparr>" n1] by simp
  moreover have "\<forall>i. cClient (rsCall n1 i) = CIdle \<longrightarrow> cClient (rsCall n' i) = CIdle" using unbegun [OF step.hyps(1)] step.prems by blast
  ultimately show ?case using step.IH by (auto intro: converse_rtranclp_into_rtranclp)
qed simp

definition ex_kvsys :: "(nat, nat, kvreq, kvrep, KVServer) rpcsys \<Rightarrow> npc \<Rightarrow> OpLog \<Rightarrow> 32 word \<Rightarrow> (nat, nat) kvsys" where
  \<comment> \<open>client 0 works, the others are idle; the clock shows 5\<close>
  "ex_kvsys net p log n = \<lparr>ksNet = net, ksNow = 5, ksPc = (\<lambda>_. NIdle)(0 := p), ksTest = \<lparr>oplog = Some log, ops = n\<rparr>\<rparr>"

definition ex_stored :: operation where
  "ex_stored = ex_entry\<lparr>opOutput := put_output OK\<rparr>"

lemma ex_system_run:
  "\<exists>n0 n. rpc_init MakeKVServer n0 \<and> length (rsRan n) = 1 \<and> (ks_step ex_kv_code)\<^sup>*\<^sup>* (ex_kvsys n0 NIdle [] 0) (ex_kvsys n NIdle [ex_stored] 1)"
proof -
  let ?k = ex_kv_code and ?q = "PutReq ex_put" and ?b = "wireReq (PutReq ex_put)" and ?x = "PutOp ex_put"
  obtain kv where p: "Put MakeKVServer ex_put = (kv, OK)" by (simp add: Put_def MakeKVServer_def ex_put_def)
  have e: "encArgs ?k ?q = Some ?b" "decArgs ?k ?b = ?q" "decReply ?k (encReply ?k (PutRep OK)) = Some (PutRep OK)"
    by (simp_all add: ex_kv_code_def unwireReq_def unwireRep_def)
  have h: "handler ?k 42 ''KVServer'' ''Put'' (decArgs ?k ?b) MakeKVServer = (kv, PutRep OK)" unfolding e(2) ex_kv_code(2) by (simp add: p)
  let ?n0 = "ex_rpc MakeNetwork 0 (ex_call ?q [] CIdle PNone HNone) MakeKVServer [] :: (nat, nat, kvreq, kvrep, KVServer) rpcsys"
  let ?n1 = "ex_rpc ex_net0 0 (ex_call ?q [] CIdle PNone HNone) MakeKVServer [] :: (nat, nat, kvreq, kvrep, KVServer) rpcsys"
  let ?n2 = "ex_rpc ex_net0 0 (ex_call ?q ?b CSending PNone HNone) MakeKVServer [] :: (nat, nat, kvreq, kvrep, KVServer) rpcsys"
  let ?n3 = "ex_rpc (addBytes (encReply ?k (PutRep OK)) (ex_net1 ?b)) 1 (ex_call ?q ?b (CReturned (Some (PutRep OK))) PDone HDone) kv
      [(0, 42, ''KVServer'', ''Put'', decArgs ?k ?b, PutRep OK)] :: (nat, nat, kvreq, kvrep, KVServer) rpcsys"
  have upd: "(ex_kvsys n p log m)\<lparr>ksNet := n'\<rparr> = ex_kvsys n' p log m" for n n' p log m by (simp add: ex_kvsys_def)
  have a: "(ks_step ?k)\<^sup>*\<^sup>* (ex_kvsys ?n0 NIdle [] 0) (ex_kvsys ?n1 NIdle [] 0)"
    using quiet_run [OF ex_network [of ?k UNIV ?q MakeKVServer], of "ex_kvsys ?n0 NIdle [] 0"] by (simp add: upd) (simp add: ex_rpc_def)
  have b: "ks_step ?k (ex_kvsys ?n1 NIdle [] 0) (ex_kvsys ?n1 (NBusy ?x 5 False) [] 0)"
    using ks_called [of "ex_kvsys ?n1 NIdle [] 0" 0 ?k ?x] by (simp add: ex_kvsys_def)
  have c: "ks_step ?k (ex_kvsys ?n1 (NBusy ?x 5 False) [] 0) (ex_kvsys ?n2 (NWait ?x 5 False 0) [] 0)"
    using ks_attempt [of "ex_kvsys ?n1 (NBusy ?x 5 False) [] 0" 0 ?x 5 False 0 ?k 3 "ex_call ?q ?b CSending PNone HNone"] ex_begin [OF e(1)]
    by (simp add: ex_kvsys_def methOf_def reqOf_def)
  have run: "(calm_step ?k UNIV)\<^sup>*\<^sup>* ?n2 ?n3" by (rule calm_next, rule ex_taken, rule ex_answered [OF h e(3)])
  have d: "(ks_step ?k)\<^sup>*\<^sup>* (ex_kvsys ?n2 (NWait ?x 5 False 0) [] 0) (ex_kvsys ?n3 (NWait ?x 5 False 0) [] 0)"
    using quiet_run [OF run, of "ex_kvsys ?n2 (NWait ?x 5 False 0) [] 0"] by (simp add: upd) (simp add: ex_rpc_def)
  have f: "ks_step ?k (ex_kvsys ?n3 (NWait ?x 5 False 0) [] 0) (ex_kvsys ?n3 (NGot ?x 5 (GotErr OK)) [] 0)"
    using ks_got [of "ex_kvsys ?n3 (NWait ?x 5 False 0) [] 0" 0 ?x 5 False 0 "PutRep OK" ?k] by (simp add: ex_kvsys_def clerkGot_def)
  have g: "ks_step ?k (ex_kvsys ?n3 (NGot ?x 5 (GotErr OK)) [] 0) (ex_kvsys ?n3 NIdle [ex_stored] 1)"
    using ks_recorded [of "ex_kvsys ?n3 (NGot ?x 5 (GotErr OK)) [] 0" 0 ?x 5 "GotErr OK" ?k]
    by (simp add: ex_kvsys_def ex_stored_def ex_entry_def recordOp_def Test_Put_def logOp_def Op_def Append_def put_input_def put_output_def)
  have "(ks_step ?k)\<^sup>*\<^sup>* (ex_kvsys ?n0 NIdle [] 0) (ex_kvsys ?n3 NIdle [ex_stored] 1)"
    by (rule rtranclp_trans, rule a, rule converse_rtranclp_into_rtranclp, rule b, rule converse_rtranclp_into_rtranclp, rule c,
        rule rtranclp_trans, rule d, rule converse_rtranclp_into_rtranclp, rule f, rule r_into_rtranclp, rule g)
  moreover have "length (rsRan ?n3) = 1" by simp
  ultimately show ?thesis using ex_init [of MakeKVServer ?q] by (intro exI [of _ ?n0] exI [of _ ?n3] conjI)
qed

theorem system_linearizable_witness:
  "linearizable [ex_stored] \<and> (\<forall>line. fst (checkPorcupine (\<lambda>_. Ok_hist) ''always'' True 7 [ex_stored] line) = Inr ())"
proof -
  obtain n0 n where run: "rpc_init MakeKVServer n0" "length (rsRan n) = 1" "(ks_step ex_kv_code)\<^sup>*\<^sup>* (ex_kvsys n0 NIdle [] 0) (ex_kvsys n NIdle [ex_stored] 1)"
    using ex_system_run by blast
  let ?fin = "ex_kvsys n NIdle [ex_stored] 1"
  have init: "ks_init (ex_kvsys n0 NIdle [] 0)" using run(1) by (simp add: ks_init_def ex_kvsys_def)
  have fin: "\<forall>c. ksPc ?fin c = NIdle" "length (rsRan (ksNet ?fin)) < 2 ^ 64" "oplog (ksTest ?fin) = Some [ex_stored]"
    using run(2) by (simp_all add: ex_kvsys_def)
  have ok: "\<forall>y \<in> set [ex_stored]. \<not> noKeyPut y" by (simp add: noKeyPut_def ex_stored_def put_output_def)
  have "linearizable [ex_stored] \<and> fst (checkPorcupine (\<lambda>_. Ok_hist) ''always'' True 7 [ex_stored] line) = Inr ()" for line
    using system_linearizable [OF init run(3) ex_kv_code, of "\<lambda>_. Ok_hist" "''always''" True 7 line] fin ok by simp
  then show ?thesis by blast
qed

end
