(* ===== verification/Kvtest_Append.thy ===== *)
theory Kvtest_Append
  imports Kvtest
begin

text \<open>
  Clients that append to a shared list and the check of the list they leave behind
  (\<open>OneClientAppend\<close> and \<open>CheckAppends\<close> of \<open>src/kvtest1/kvtest.go\<close>). A client reads the list, adds its next
  entry and puts the new list under the version it has read; it goes on to its next entry when the
  put succeeds or may have succeeded. As in \<open>Kvtest\<close>, a step is one handler, one lost message or one
  reaction of a client.
\<close>

subsection \<open>Clients\<close>

record entry =
  eId :: nat
  eN :: nat

datatype apppc =
    AIter                               \<comment> \<open>before the next entry\<close>
  | AGet
  | AGot GetReply
  | APut Tversion string bool           \<comment> \<open>version, text, has it been sent before?\<close>
  | APutDone Tversion string bool Err
  | AStop

record appclnt =
  acIter :: nat
  acRes :: ClntRes
  acPc :: apppc

definition appGot :: "(entry list \<Rightarrow> string) \<Rightarrow> (string \<Rightarrow> entry list option) \<Rightarrow> nat \<Rightarrow> GetReply \<Rightarrow> appclnt \<Rightarrow> appclnt go" where
  "appGot enc dec me r c =
     go_bind (GetJson dec r) (\<lambda>(ver, es). Inr (c\<lparr>acPc := APut ver (enc (es @ [\<lparr>eId = me, eN = acIter c\<rparr>])) False\<rparr>))"

definition appPut :: "Err \<Rightarrow> appclnt \<Rightarrow> appclnt" where
  "appPut err c =
     (if err = OK then c\<lparr>acRes := (acRes c)\<lparr>Nok := Nok (acRes c) + 1\<rparr>, acIter := acIter c + 1, acPc := AIter\<rparr>
      else if err = ErrMaybe then c\<lparr>acRes := (acRes c)\<lparr>Nmaybe := Nmaybe (acRes c) + 1\<rparr>, acIter := acIter c + 1, acPc := AIter\<rparr>
      else c\<lparr>acPc := AGet\<rparr>)"

record appsys =
  asServer :: KVServer
  asClnt :: "nat \<Rightarrow> appclnt"

definition init_app :: "(entry list \<Rightarrow> string) \<Rightarrow> appsys" where
  \<comment> \<open>the test has put the empty list\<close>
  "init_app enc = \<lparr>asServer = fst (Put MakeKVServer \<lparr>pKey = ''k'', pValue = enc [], pVersion = 0\<rparr>),
     asClnt = (\<lambda>_. \<lparr>acIter = 0, acRes = \<lparr>Nok = 0, Nmaybe = 0\<rparr>, acPc = AIter\<rparr>)\<rparr>"

definition setA :: "nat \<Rightarrow> appclnt \<Rightarrow> appsys \<Rightarrow> appsys" where
  "setA i c s = s\<lparr>asClnt := (asClnt s)(i := c)\<rparr>"

definition gotoA :: "nat \<Rightarrow> apppc \<Rightarrow> appsys \<Rightarrow> appsys" where
  "gotoA i p s = setA i ((asClnt s i)\<lparr>acPc := p\<rparr>) s"

inductive app_step :: "nat \<Rightarrow> (entry list \<Rightarrow> string) \<Rightarrow> (string \<Rightarrow> entry list option) \<Rightarrow> appsys \<Rightarrow> appsys \<Rightarrow> bool" for n enc dec where
  a_done: "i < n \<Longrightarrow> acPc (asClnt s i) = AIter \<Longrightarrow> app_step n enc dec s (gotoA i AStop s)"
| a_iter: "i < n \<Longrightarrow> acPc (asClnt s i) = AIter \<Longrightarrow> app_step n enc dec s (gotoA i AGet s)"
| a_get: "i < n \<Longrightarrow> acPc (asClnt s i) = AGet \<Longrightarrow> app_step n enc dec s (gotoA i (AGot (Get (asServer s) ''k'')) s)"
| a_get_lost: "i < n \<Longrightarrow> acPc (asClnt s i) = AGot r \<Longrightarrow> app_step n enc dec s (gotoA i AGet s)"
| a_got: "i < n \<Longrightarrow> acPc (asClnt s i) = AGot r \<Longrightarrow> appGot enc dec i r (asClnt s i) = Inr c' \<Longrightarrow> app_step n enc dec s (setA i c' s)"
| a_put: "i < n \<Longrightarrow> acPc (asClnt s i) = APut w tx retry \<Longrightarrow>
    Put (asServer s) \<lparr>pKey = ''k'', pValue = tx, pVersion = w\<rparr> = (kv, err) \<Longrightarrow>
    app_step n enc dec s ((gotoA i (APutDone w tx retry err) s)\<lparr>asServer := kv\<rparr>)"
| a_put_lost: "i < n \<Longrightarrow> acPc (asClnt s i) = APut w tx retry \<Longrightarrow> app_step n enc dec s (gotoA i (APut w tx True) s)"
| a_reply_lost: "i < n \<Longrightarrow> acPc (asClnt s i) = APutDone w tx retry err \<Longrightarrow> app_step n enc dec s (gotoA i (APut w tx True) s)"
| a_put_done: "i < n \<Longrightarrow> acPc (asClnt s i) = APutDone w tx retry err \<Longrightarrow>
    app_step n enc dec s (setA i (appPut (clerkErr retry err) (asClnt s i)) s)"
| a_other: "pKey a \<noteq> ''k'' \<Longrightarrow> app_step n enc dec s (s\<lparr>asServer := fst (Put (asServer s) a)\<rparr>)"

inductive app_run :: "nat \<Rightarrow> (entry list \<Rightarrow> string) \<Rightarrow> (string \<Rightarrow> entry list option) \<Rightarrow> nat \<Rightarrow> appsys \<Rightarrow> bool" for n enc dec where
  app_init: "app_run n enc dec 0 (init_app enc)"
| app_next: "app_run n enc dec k s \<Longrightarrow> app_step n enc dec s s' \<Longrightarrow> app_run n enc dec (Suc k) s'"

subsection \<open>The check\<close>

definition checkEntry :: "entry \<Rightarrow> (nat \<Rightarrow> int) \<times> (nat \<Rightarrow> int) \<Rightarrow> ((nat \<Rightarrow> int) \<times> (nat \<Rightarrow> int)) go" where
  \<comment> \<open>the maps \<open>expect\<close> and \<open>skipped\<close>; a key that is not there reads as 0\<close>
  "checkEntry e = (\<lambda>(expect, skipped).
     if expect (eId e) > int (eN e) then Inl LogFatal
     else if expect (eId e) = int (eN e) then Inr (expect(eId e := expect (eId e) + 1), skipped)
     else Inr (expect(eId e := int (eN e) + 1), skipped(eId e := skipped (eId e) + (int (eN e) - expect (eId e)))))"

definition int_of_version :: "Tversion \<Rightarrow> int" where
  \<comment> \<open>the conversion of \<open>uint64\<close> to \<open>int\<close>\<close>
  "int_of_version v = (if uint v < 2 ^ 63 then uint v else uint v - 2 ^ 64)"

definition CheckAppends :: "entry list \<Rightarrow> nat \<Rightarrow> ClntRes list \<Rightarrow> Tversion \<Rightarrow> unit go" where
  \<comment> \<open>the keys of \<open>expect\<close>: the clients and whatever ids the entries have\<close>
  "CheckAppends es nclnt rs ver =
     go_bind (go_each checkEntry es (\<lambda>_. 0, \<lambda>_. 0)) (\<lambda>(expect, skipped).
       if int (length es) + 1 \<noteq> int_of_version ver then Inl LogFatal
       else go_each (\<lambda>c _. go_bind (go_index rs (int c)) (\<lambda>r.
              if skipped c > Nmaybe r then Inl LogFatal
              else if expect c > Nok r + Nmaybe r then Inl LogFatal else Inr ()))
            (remdups ([0..<nclnt] @ map eId es)) ())"

subsection \<open>What the check computes\<close>

definition mine :: "nat \<Rightarrow> entry list \<Rightarrow> nat list" where
  "mine i es = map eN (filter (\<lambda>e. eId e = i) es)"

definition rising :: "entry list \<Rightarrow> bool" where
  \<comment> \<open>the entries of each client are in order, without repetition\<close>
  "rising es \<longleftrightarrow> (\<forall>i. sorted_wrt (<) (mine i es))"

definition nextN :: "nat list \<Rightarrow> int" where
  "nextN ns = (if ns = [] then 0 else int (last ns) + 1)"

lemma mine_simps [simp]:
  "mine i [] = []" "mine i (es @ fs) = mine i es @ mine i fs" "mine i [e] = (if eId e = i then [eN e] else [])"
  by (simp_all add: mine_def)

lemma go_each_append: "go_each f (xs @ ys) a = go_bind (go_each f xs a) (go_each f ys)"
  by (induction xs arbitrary: a) (auto simp: go_bind_def split: sum.splits)

lemma checkEntries:
  assumes "rising es"
  shows "go_each checkEntry es (\<lambda>_. 0, \<lambda>_. 0) =
    Inr (\<lambda>i. nextN (mine i es), \<lambda>i. nextN (mine i es) - int (length (mine i es)))"
  using assms
proof (induction es rule: rev_induct)
  case (snoc e es)
  then have r: "rising es" "sorted_wrt (<) (mine (eId e) es @ [eN e])" by (auto simp: rising_def sorted_wrt_append split: if_splits)
  have le: "nextN (mine (eId e) es) \<le> int (eN e)"
  proof (cases "mine (eId e) es = []")
    case False
    then have "last (mine (eId e) es) < eN e" using r(2) by (simp add: sorted_wrt_append)
    then show ?thesis using False by (simp add: nextN_def)
  qed (simp add: nextN_def)
  have nx: "nextN (mine i (es @ [e])) = (if eId e = i then int (eN e) + 1 else nextN (mine i es))"
    "int (length (mine i (es @ [e]))) = int (length (mine i es)) + of_bool (eId e = i)" for i
    by (auto simp: nextN_def)
  have "checkEntry e (\<lambda>i. nextN (mine i es), \<lambda>i. nextN (mine i es) - int (length (mine i es))) =
      Inr (\<lambda>i. nextN (mine i (es @ [e])), \<lambda>i. nextN (mine i (es @ [e])) - int (length (mine i (es @ [e]))))"
    using le unfolding nx by (auto simp: checkEntry_def fun_eq_iff)
  then show ?case by (simp add: go_each_append snoc.IH [OF r(1)] del: mine_simps)
qed (simp add: nextN_def fun_eq_iff)

subsection \<open>What the clients leave behind\<close>

definition stepOk :: "(entry list \<Rightarrow> string) \<Rightarrow> nat \<Rightarrow> entry list \<Rightarrow> Tversion \<Rightarrow> appclnt \<Rightarrow> bool" where
  \<comment> \<open>what holds at each place; \<open>acIter c\<close> is in the list exactly when the put in hand has been applied\<close>
  "stepOk enc i es v c =
     (let a = acIter c; ns = mine i es; known = (\<lambda>w tx f. unat w \<le> unat v \<and> (\<exists>es'. tx = enc (f es') \<and> (w = v \<longrightarrow> es' = es))) in
      case acPc c of
        AGot r \<Rightarrow> a \<notin> set ns \<and> gErr r = OK \<and> known (gVersion r) (gValue r) (\<lambda>x. x)
      | APut w tx retry \<Rightarrow> known w tx (\<lambda>es'. es' @ [\<lparr>eId = i, eN = a\<rparr>]) \<and> (a \<in> set ns \<longrightarrow> unat w < unat v \<and> retry)
      | APutDone w tx retry err \<Rightarrow> unat w < unat v \<and> known w tx (\<lambda>es'. es' @ [\<lparr>eId = i, eN = a\<rparr>]) \<and> (err = OK \<longrightarrow> a \<in> set ns) \<and>
          (a \<in> set ns \<longrightarrow> err = OK \<or> retry) \<and> (err = OK \<or> err = ErrVersion)
      | _ \<Rightarrow> a \<notin> set ns)"

definition countOk :: "nat list \<Rightarrow> appclnt \<Rightarrow> bool" where
  "countOk ns c \<longleftrightarrow> int (acIter c) = Nok (acRes c) + Nmaybe (acRes c) \<and> (\<forall>x \<in> set ns. x \<le> acIter c) \<and>
     Nok (acRes c) \<le> int (length (filter (\<lambda>x. x < acIter c) ns))"

definition app_inv :: "nat \<Rightarrow> (entry list \<Rightarrow> string) \<Rightarrow> nat \<Rightarrow> appsys \<Rightarrow> entry list \<Rightarrow> bool" where
  "app_inv n enc k s es \<longleftrightarrow> (\<exists>v. kvStore (asServer s) ''k'' = Some \<lparr>Value = enc es, Version = v\<rparr> \<and> unat v = length es + 1 \<and> length es \<le> k \<and>
     rising es \<and> (\<forall>e \<in> set es. eId e < n) \<and>
     (\<forall>i < n. stepOk enc i es v (asClnt s i) \<and> countOk (mine i es) (asClnt s i)))"

lemma stepOk_other:
  assumes "stepOk enc i es v c" and "eId e \<noteq> i" and "unat v < unat v'"
  shows "stepOk enc i (es @ [e]) v' c"
  using assms by (cases "acPc c") (auto simp: stepOk_def Let_def)

lemma app_inv_setA:
  assumes "app_inv n enc k s es" and "\<And>v. kvStore (asServer s) ''k'' = Some \<lparr>Value = enc es, Version = v\<rparr> \<Longrightarrow>
      stepOk enc i es v (asClnt s i) \<Longrightarrow> countOk (mine i es) (asClnt s i) \<Longrightarrow> rising es \<Longrightarrow> stepOk enc i es v c \<and> countOk (mine i es) c"
    and "i < n"
  shows "app_inv n enc (Suc k) (setA i c s) es"
  using assms by (auto simp: app_inv_def setA_def intro: le_SucI)

lemma app_inv_goto:
  assumes "app_inv n enc k s es" and "i < n" and "\<And>v. stepOk enc i es v (asClnt s i) \<Longrightarrow> stepOk enc i es v ((asClnt s i)\<lparr>acPc := p\<rparr>)"
  shows "app_inv n enc (Suc k) (gotoA i p s) es"
  unfolding gotoA_def using assms by (intro app_inv_setA) (auto simp: countOk_def)

lemma app_put_inv:
  assumes inv: "app_inv n enc k s es" and i: "i < n" and small: "k + 2 < 2 ^ 64" and at: "acPc (asClnt s i) = APut w tx retry"
    and put: "Put (asServer s) \<lparr>pKey = ''k'', pValue = tx, pVersion = w\<rparr> = (kv, err)"
  shows "\<exists>es'. app_inv n enc (Suc k) ((gotoA i (APutDone w tx retry err) s)\<lparr>asServer := kv\<rparr>) es'"
proof -
  let ?c = "asClnt s i" and ?e = "\<lparr>eId = i, eN = acIter (asClnt s i)\<rparr>"
  let ?c' = "?c\<lparr>acPc := APutDone w tx retry err\<rparr>"
  obtain v where v: "kvStore (asServer s) ''k'' = Some \<lparr>Value = enc es, Version = v\<rparr>" "unat v = length es + 1" "length es \<le> k"
    "rising es" "\<forall>e \<in> set es. eId e < n" "\<And>j. j < n \<Longrightarrow> stepOk enc j es v (asClnt s j)" "\<And>j. j < n \<Longrightarrow> countOk (mine j es) (asClnt s j)"
    using inv unfolding app_inv_def by blast
  obtain es' where c: "unat w \<le> unat v" "tx = enc (es' @ [?e])" "w = v \<Longrightarrow> es' = es"
    "acIter ?c \<in> set (mine i es) \<Longrightarrow> unat w < unat v \<and> retry" using v(6) [OF i] at by (auto simp: stepOk_def Let_def)
  show ?thesis
  proof (cases "w = v")
    case True
    let ?es = "es @ [?e]"
    have kv: "kv = (asServer s)\<lparr>kvStore := (kvStore (asServer s))(''k'' \<mapsto> \<lparr>Value = enc ?es, Version = v + 1\<rparr>)\<rparr>" "err = OK"
      using put v(1) True c(2,3) by (auto simp: Put_def)
    have suc: "unat (v + 1) = unat v + 1" using v(2,3) small by (simp add: unat_word_ariths)
    have new: "acIter ?c \<notin> set (mine i es)" using c(4) True by auto
    have lt: "\<forall>x \<in> set (mine i es). x < acIter ?c" using v(7) [OF i] new by (metis countOk_def le_neq_implies_less)
    have "rising ?es" using v(4) lt by (auto simp: rising_def sorted_wrt_append)
    moreover have "stepOk enc j ?es (v + 1) (if j = i then ?c' else asClnt s j)" if "j < n" for j
    proof (cases "j = i")
      case True
      have "v \<noteq> v + 1" by simp
      with True \<open>w = v\<close> c suc kv(2) show ?thesis by (auto simp: stepOk_def Let_def)
    next
      case False
      then show ?thesis using stepOk_other [OF v(6) [OF that], of ?e "v + 1"] suc by auto
    qed
    moreover have "countOk (mine j ?es) (if j = i then ?c' else asClnt s j)" if "j < n" for j
      using v(7) [OF that] by (auto simp: countOk_def)
    ultimately show ?thesis unfolding app_inv_def using kv(1) suc v(2,3,5) i
      by (intro exI [of _ ?es] exI [of _ "v + 1"]) (auto simp: gotoA_def setA_def)
  next
    case False
    then have kv: "kv = asServer s" "err = ErrVersion" using put v(1) by (auto simp: Put_def)
    have "unat w < unat v" using c(1) False by (metis le_neq_implies_less word_unat_eq_iff)
    then have "stepOk enc i es v ?c'" using c False kv(2) by (auto simp: stepOk_def Let_def)
    moreover have "countOk (mine i es) ?c'" using v(7) [OF i] by (simp add: countOk_def)
    ultimately show ?thesis unfolding app_inv_def using kv(1) v
      by (intro exI [of _ es] exI [of _ v]) (auto simp: gotoA_def setA_def)
  qed
qed

lemma filter_less_Suc:
  "length (filter (\<lambda>x. x < (a::nat)) ns) + of_bool (a \<in> set ns) \<le> length (filter (\<lambda>x. x < Suc a) ns)"
  by (induction ns) auto

lemma appPut_ok:
  assumes "stepOk enc i es v c" and "countOk (mine i es) c" and "acPc c = APutDone w tx retry err"
  shows "stepOk enc i es v (appPut (clerkErr retry err) c) \<and> countOk (mine i es) (appPut (clerkErr retry err) c)"
proof -
  let ?a = "acIter c" and ?ns = "mine i es"
  have at: "err = OK \<longrightarrow> ?a \<in> set ?ns" "?a \<in> set ?ns \<longrightarrow> err = OK \<or> retry" "err = OK \<or> err = ErrVersion"
    using assms(1,3) by (auto simp: stepOk_def Let_def)
  have le: "\<forall>x \<in> set ?ns. x \<le> ?a" and cnt: "int ?a = Nok (acRes c) + Nmaybe (acRes c)" "Nok (acRes c) \<le> int (length (filter (\<lambda>x. x < ?a) ?ns))"
    using assms(2) by (auto simp: countOk_def)
  have nx: "Suc ?a \<notin> set ?ns" "\<forall>x \<in> set ?ns. x \<le> Suc ?a" using le by force+
  note f = filter_less_Suc [of ?a ?ns]
  show ?thesis
    using at nx le cnt f by (auto simp: appPut_def clerkErr_def stepOk_def countOk_def Let_def)
qed

lemma app_step_inv:
  assumes "app_step n enc dec s s'" and "app_inv n enc k s es" and "k + 2 < 2 ^ 64" and json: "\<And>es. dec (enc es) = Some es"
  shows "\<exists>es'. app_inv n enc (Suc k) s' es'"
  using assms(1-3)
proof (induction rule: app_step.induct)
  case (a_put i s w tx retry kv err)
  then show ?case by (intro app_put_inv)
next
  case (a_get i s)
  have "app_inv n enc (Suc k) (gotoA i (AGot (Get (asServer s) ''k'')) s) es"
    unfolding gotoA_def using a_get
    by (intro app_inv_setA) (auto simp: stepOk_def countOk_def Let_def Get_def)
  then show ?case by blast
next
  case (a_got i s r c')
  have "app_inv n enc (Suc k) (setA i c' s) es"
  proof (rule app_inv_setA [OF a_got(4) _ a_got(1)])
    fix v assume st: "stepOk enc i es v (asClnt s i)" "countOk (mine i es) (asClnt s i)"
    then obtain es' where r: "acIter (asClnt s i) \<notin> set (mine i es)" "gErr r = OK" "unat (gVersion r) \<le> unat v" "gValue r = enc es'"
      "gVersion r = v \<longrightarrow> es' = es" using a_got(2) by (auto simp: stepOk_def Let_def)
    then have "c' = (asClnt s i)\<lparr>acPc := APut (gVersion r) (enc (es' @ [\<lparr>eId = i, eN = acIter (asClnt s i)\<rparr>])) False\<rparr>"
      using a_got(3) json by (auto simp: appGot_def GetJson_def)
    with r st(2) show "stepOk enc i es v c' \<and> countOk (mine i es) c'" by (auto simp: stepOk_def countOk_def Let_def)
  qed
  then show ?case by blast
next
  case (a_put_done i s w tx retry err)
  have "app_inv n enc (Suc k) (setA i (appPut (clerkErr retry err) (asClnt s i)) s) es"
    by (rule app_inv_setA [OF a_put_done(3) _ a_put_done(1)]) (rule appPut_ok [OF _ _ a_put_done(2)])
  then show ?case by blast
next
  case (a_other a s)
  then have "kvStore (fst (Put (asServer s) a)) ''k'' = kvStore (asServer s) ''k''" by (auto simp: Put_def split: option.splits)
  then show ?case using a_other(2) by (intro exI [of _ es]) (auto simp: app_inv_def)
next
  case (a_done i s)
  then show ?case using app_inv_goto [OF a_done(3,1), of AStop] by (auto simp: stepOk_def Let_def)
next
  case (a_iter i s)
  then show ?case using app_inv_goto [OF a_iter(3,1), of AGet] by (auto simp: stepOk_def Let_def)
next
  case (a_get_lost i s r)
  then show ?case using app_inv_goto [OF a_get_lost(3,1), of AGet] by (auto simp: stepOk_def Let_def)
next
  case (a_put_lost i s w tx retry)
  then show ?case using app_inv_goto [OF a_put_lost(3,1), of "APut w tx True"] by (auto simp: stepOk_def Let_def)
next
  case (a_reply_lost i s w tx retry err)
  then show ?case using app_inv_goto [OF a_reply_lost(3,1), of "APut w tx True"] by (auto simp: stepOk_def Let_def)
qed

lemma app_run_inv:
  assumes "app_run n enc dec k s" and "k + 2 < 2 ^ 64" and "\<And>es. dec (enc es) = Some es"
  shows "\<exists>es. app_inv n enc k s es"
  using assms(1,2)
proof (induction rule: app_run.induct)
  case app_init
  have "app_inv n enc 0 (init_app enc) []"
    unfolding app_inv_def by (intro exI [of _ 1]) (simp add: init_app_def Put_def MakeKVServer_def rising_def stepOk_def countOk_def Let_def)
  then show ?case by blast
next
  case (app_next k s s')
  then obtain es where "app_inv n enc k s es" by auto
  from app_step_inv [OF app_next(2) this _ assms(3)] app_next(4) show ?case by simp
qed

lemma filter_less_id: "\<forall>x \<in> set ns. x < (a::nat) \<Longrightarrow> filter (\<lambda>x. x < a) ns = ns"
  by (simp add: filter_id_conv)

lemma go_each_all:
  "(\<And>x. x \<in> set xs \<Longrightarrow> f x () = Inr ()) \<Longrightarrow> go_each f xs () = Inr ()"
  by (induction xs) auto

text \<open>
  Property C33 (appending clients pass the check). Let clients append to the list at one key over a
  network that loses requests and replies. No client ever reads something that is not a list. When
  all have stopped, the key holds a list that \<open>CheckAppends\<close> accepts together with the clients' counts
  and the version: the entries of each client are in order, none twice, the entries that are missing
  are at most those of which the client does not know whether they were put, and the version counts
  the entries.
\<close>

theorem appends_pass:
  assumes "app_run n enc dec k s" and "k + 2 < 2 ^ 63" and "\<And>es. dec (enc es) = Some es"
  shows "(\<forall>i < n. \<forall>r. acPc (asClnt s i) = AGot r \<longrightarrow> (\<exists>c'. appGot enc dec i r (asClnt s i) = Inr c')) \<and>
    ((\<forall>i < n. acPc (asClnt s i) = AStop) \<longrightarrow>
      (\<exists>es ver. GetJson dec (Get (asServer s) ''k'') = Inr (ver, es) \<and>
         CheckAppends es n (map (\<lambda>i. acRes (asClnt s i)) [0..<n]) ver = Inr ()))"
proof (intro conjI allI impI)
  obtain es where "app_inv n enc k s es" using app_run_inv [OF assms(1) _ assms(3)] assms(2) by auto
  then obtain v where v: "kvStore (asServer s) ''k'' = Some \<lparr>Value = enc es, Version = v\<rparr>" "unat v = length es + 1" "length es \<le> k"
    "rising es" "\<forall>e \<in> set es. eId e < n" "\<And>j. j < n \<Longrightarrow> stepOk enc j es v (asClnt s j)" "\<And>j. j < n \<Longrightarrow> countOk (mine j es) (asClnt s j)"
    unfolding app_inv_def by blast
  show "\<exists>c'. appGot enc dec i r (asClnt s i) = Inr c'" if "i < n" "acPc (asClnt s i) = AGot r" for i r
    using v(6) [OF that(1)] that(2) assms(3) by (auto simp: stepOk_def Let_def appGot_def GetJson_def)
  assume stop: "\<forall>i < n. acPc (asClnt s i) = AStop"
  let ?rs = "map (\<lambda>i. acRes (asClnt s i)) [0..<n]"
  have "nextN (mine c es) - int (length (mine c es)) \<le> Nmaybe (acRes (asClnt s c)) \<and>
      nextN (mine c es) \<le> Nok (acRes (asClnt s c)) + Nmaybe (acRes (asClnt s c))" if c: "c < n" for c
  proof -
    let ?ns = "mine c es" and ?a = "acIter (asClnt s c)"
    have "?a \<notin> set ?ns" using v(6) [OF c] stop c by (simp add: stepOk_def Let_def)
    then have lt: "\<forall>x \<in> set ?ns. x < ?a" using v(7) [OF c] by (metis countOk_def le_neq_implies_less)
    then have "Nok (acRes (asClnt s c)) \<le> int (length ?ns)" "int ?a = Nok (acRes (asClnt s c)) + Nmaybe (acRes (asClnt s c))"
      using v(7) [OF c] filter_less_id [OF lt] by (simp_all add: countOk_def)
    moreover have "nextN ?ns \<le> int ?a"
    proof (cases "?ns = []")
      case False
      then have "last ?ns < ?a" using lt last_in_set by blast
      then show ?thesis using False by (simp add: nextN_def)
    qed (simp add: nextN_def)
    ultimately show ?thesis by linarith
  qed
  note each = this
  have ver: "int_of_version v = int (length es) + 1" 
  proof -
    have "uint v = int (unat v)" by simp
    then show ?thesis using v(2,3) assms(2) by (simp only: int_of_version_def) simp
  qed
  have idx: "go_index ?rs (int c) = Inr (acRes (asClnt s c))" if "c < n" for c using that by (simp add: go_index_def)
  have "go_each (\<lambda>c _. go_bind (go_index ?rs (int c)) (\<lambda>r.
        if nextN (mine c es) - int (length (mine c es)) > Nmaybe r then Inl LogFatal
        else if nextN (mine c es) > Nok r + Nmaybe r then Inl LogFatal else Inr ())) (remdups ([0..<n] @ map eId es)) () = Inr ()"
  proof (rule go_each_all)
    fix c assume "c \<in> set (remdups ([0..<n] @ map eId es))"
    then have "c < n" using v(5) by auto
    with each [of c] show "go_bind (go_index ?rs (int c)) (\<lambda>r.
        if nextN (mine c es) - int (length (mine c es)) > Nmaybe r then Inl LogFatal
        else if nextN (mine c es) > Nok r + Nmaybe r then Inl LogFatal else Inr ()) = Inr ()" by (simp add: idx)
  qed
  then have "CheckAppends es n ?rs v = Inr ()" using ver by (simp add: CheckAppends_def checkEntries [OF v(4)])
  moreover have "GetJson dec (Get (asServer s) ''k'') = Inr (v, es)" using v(1) assms(3) by (simp add: GetJson_def Get_def)
  ultimately show "\<exists>es ver. GetJson dec (Get (asServer s) ''k'') = Inr (ver, es) \<and> CheckAppends es n ?rs ver = Inr ()" by blast
qed

text \<open>A stand-in for JSON, and a run of one client that appends once.\<close>

definition ex_encs :: "entry list \<Rightarrow> string" where
  "ex_encs es = concat (map (\<lambda>e. replicate (eId e) CHR ''a'' @ CHR ''b'' # replicate (eN e) CHR ''a'' @ ''b'') es)"

fun tallies :: "string \<Rightarrow> nat \<Rightarrow> nat list" where
  "tallies [] k = []"
| "tallies (c # s) k = (if c = CHR ''b'' then k # tallies s 0 else tallies s (Suc k))"

fun entries :: "nat list \<Rightarrow> entry list" where
  "entries (i # m # ns) = \<lparr>eId = i, eN = m\<rparr> # entries ns"
| "entries ns = []"

definition ex_decs :: "string \<Rightarrow> entry list option" where
  "ex_decs s = Some (entries (tallies s 0))"

lemma tallies_replicate: "tallies (replicate i CHR ''a'' @ CHR ''b'' # s) k = (k + i) # tallies s 0"
  by (induction i arbitrary: k) simp_all

lemma ex_jsons: "ex_decs (ex_encs es) = Some es"
proof (induction es)
  case (Cons e es)
  then have "entries (tallies (ex_encs es) 0) = es" by (simp add: ex_decs_def)
  then show ?case using tallies_replicate [of "eId e"] tallies_replicate [of "eN e" "ex_encs es"]
    by (simp add: ex_decs_def ex_encs_def)
qed (simp add: ex_decs_def ex_encs_def)

definition ex_app :: "entry list \<Rightarrow> apppc \<Rightarrow> nat \<Rightarrow> appsys" where
  "ex_app es p m = \<lparr>asServer = \<lparr>kvStore = [''k'' \<mapsto> \<lparr>Value = ex_encs es, Version = of_nat (length es + 1)\<rparr>]\<rparr>,
     asClnt = (\<lambda>_. \<lparr>acIter = 0, acRes = \<lparr>Nok = 0, Nmaybe = 0\<rparr>, acPc = AIter\<rparr>)(0 := \<lparr>acIter = m, acRes = \<lparr>Nok = int m, Nmaybe = 0\<rparr>, acPc = p\<rparr>)\<rparr>"

lemma ex_app_run: "app_run 1 ex_encs ex_decs 6 (ex_app [\<lparr>eId = 0, eN = 0\<rparr>] AStop 1)"
proof -
  let ?st = "app_step 1 ex_encs ex_decs" and ?e = "\<lparr>eId = 0, eN = 0\<rparr> :: entry"
  let ?r = "\<lparr>gValue = ex_encs [], gVersion = 1, gErr = OK\<rparr>" and ?t = "ex_encs [?e]"
  note ev = ex_app_def gotoA_def setA_def
  have "init_app ex_encs = ex_app [] AIter 0" by (auto simp: init_app_def ev Put_def MakeKVServer_def)
  then have r0: "app_run 1 ex_encs ex_decs 0 (ex_app [] AIter 0)" by (metis app_init)
  have s1: "?st (ex_app [] AIter 0) (ex_app [] AGet 0)"
    using a_iter [of 0 1 "ex_app [] AIter 0"] by (simp add: ev)
  have s2: "?st (ex_app [] AGet 0) (ex_app [] (AGot ?r) 0)"
    using a_get [of 0 1 "ex_app [] AGet 0"] by (simp add: ev Get_def)
  have s3: "?st (ex_app [] (AGot ?r) 0) (ex_app [] (APut 1 ?t False) 0)"
    using a_got [of 0 1 "ex_app [] (AGot ?r) 0" ?r ex_encs ex_decs] by (simp add: ev appGot_def GetJson_def ex_jsons)
  have s4: "?st (ex_app [] (APut 1 ?t False) 0) (ex_app [?e] (APutDone 1 ?t False OK) 0)"
    using a_put [of 0 1 "ex_app [] (APut 1 ?t False) 0" 1 ?t False] by (simp add: ev Put_def)
  have s5: "?st (ex_app [?e] (APutDone 1 ?t False OK) 0) (ex_app [?e] AIter 1)"
    using a_put_done [of 0 1 "ex_app [?e] (APutDone 1 ?t False OK) 0" 1 ?t False OK] by (simp add: ev appPut_def clerkErr_def)
  have s6: "?st (ex_app [?e] AIter 1) (ex_app [?e] AStop 1)"
    using a_done [of 0 1 "ex_app [?e] AIter 1"] by (simp add: ev)
  from app_next [OF app_next [OF app_next [OF app_next [OF app_next [OF app_next [OF r0 s1] s2] s3] s4] s5] s6]
  show ?thesis by (simp add: eval_nat_numeral)
qed

theorem appends_pass_witness:
  "\<exists>es ver. GetJson ex_decs (Get (asServer (ex_app [\<lparr>eId = 0, eN = 0\<rparr>] AStop 1)) ''k'') = Inr (ver, es) \<and>
     CheckAppends es 1 [\<lparr>Nok = 1, Nmaybe = 0\<rparr>] ver = Inr ()"
  using appends_pass [OF ex_app_run _ ex_jsons] by (simp add: ex_app_def)

end
