(* ===== verification/Kvtest_Keys.thy ===== *)
theory Kvtest_Keys
  imports Kvtest
begin

text \<open>
  Clients of \<open>OneClientPut\<close> (\<open>src/kvtest1/kvtest.go\<close>) on several keys: a client keeps a version for each key, and
  before each \<open>OnePut\<close> it takes the first key or, in a test with random keys, any of them. The counts of a
  client are over all its keys.

  Seen from one key, such a system is the system of \<open>Kvtest\<close>: while a client works on another key it is between
  two puts, and its puts are puts of others. So the theory splits a run into one run for each key, and
  what is known of racing puts holds for each of them.
\<close>

subsection \<open>The clients\<close>

definition pickKey :: "bool \<Rightarrow> string list \<Rightarrow> nat \<Rightarrow> string go" where
  \<comment> \<open>\<open>rnd\<close> is \<open>rand.Int()\<close>\<close>
  "pickKey randomkeys ka rnd = go_bind (go_index ka 0) (\<lambda>k.
     if randomkeys then go_index ka (int (rnd mod length ka)) else Inr k)"

record mkclnt =
  mkVerm :: "string \<Rightarrow> Tversion"
  mkRes :: ClntRes
  mkKey :: string
  mkPc :: putpc

record mksys =
  mkServer :: KVServer
  mkClnt :: "nat \<Rightarrow> mkclnt"

definition init_keys :: mksys where
  "init_keys = \<lparr>mkServer = MakeKVServer, mkClnt = (\<lambda>_. \<lparr>mkVerm = (\<lambda>_. 0), mkRes = \<lparr>Nok = 0, Nmaybe = 0\<rparr>, mkKey = [], mkPc = PIter\<rparr>)\<rparr>"

definition asPut :: "mkclnt \<Rightarrow> putclnt" where
  \<comment> \<open>the client inside \<open>OnePut\<close>: its variable \<open>ver\<close> starts as \<open>verm[k]\<close> and is stored there at the end\<close>
  "asPut c = \<lparr>pver = mkVerm c (mkKey c), pres = mkRes c, ppc = mkPc c\<rparr>"

definition fromPut :: "putclnt \<Rightarrow> mkclnt \<Rightarrow> mkclnt" where
  "fromPut p c = c\<lparr>mkVerm := (mkVerm c)(mkKey c := pver p), mkRes := pres p, mkPc := ppc p\<rparr>"

definition setM :: "nat \<Rightarrow> mkclnt \<Rightarrow> mksys \<Rightarrow> mksys" where
  "setM i c s = s\<lparr>mkClnt := (mkClnt s)(i := c)\<rparr>"

definition gotoM :: "nat \<Rightarrow> putpc \<Rightarrow> mksys \<Rightarrow> mksys" where
  "gotoM i p s = setM i ((mkClnt s i)\<lparr>mkPc := p\<rparr>) s"

definition putArgs :: "(EntryV \<Rightarrow> string) \<Rightarrow> nat \<Rightarrow> mkclnt \<Rightarrow> PutArgs" where
  "putArgs enc i c = \<lparr>pKey = mkKey c, pValue = enc \<lparr>evId = i, evV = mkVerm c (mkKey c)\<rparr>, pVersion = mkVerm c (mkKey c)\<rparr>"

inductive mk_step :: "bool \<Rightarrow> nat \<Rightarrow> (EntryV \<Rightarrow> string) \<Rightarrow> (string \<Rightarrow> EntryV option) \<Rightarrow> bool \<Rightarrow> string list \<Rightarrow> mksys \<Rightarrow> mksys \<Rightarrow> bool"
  for rel n enc dec randomkeys ka where
  m_done: "i < n \<Longrightarrow> mkPc (mkClnt s i) = PIter \<Longrightarrow> mk_step rel n enc dec randomkeys ka s (gotoM i PStop s)"
| m_pick: "i < n \<Longrightarrow> mkPc (mkClnt s i) = PIter \<Longrightarrow> pickKey randomkeys ka rnd = Inr k \<Longrightarrow>
    mk_step rel n enc dec randomkeys ka s (setM i ((mkClnt s i)\<lparr>mkKey := k, mkPc := PPut False\<rparr>) s)"
| m_put: "i < n \<Longrightarrow> mkPc (mkClnt s i) = PPut retry \<Longrightarrow> Put (mkServer s) (putArgs enc i (mkClnt s i)) = (kv, err) \<Longrightarrow>
    mk_step rel n enc dec randomkeys ka s ((gotoM i (PPutDone retry err) s)\<lparr>mkServer := kv\<rparr>)"
| m_put_lost: "\<not> rel \<Longrightarrow> i < n \<Longrightarrow> mkPc (mkClnt s i) = PPut retry \<Longrightarrow> mk_step rel n enc dec randomkeys ka s (gotoM i (PPut True) s)"
| m_reply_lost: "\<not> rel \<Longrightarrow> i < n \<Longrightarrow> mkPc (mkClnt s i) = PPutDone retry err \<Longrightarrow> mk_step rel n enc dec randomkeys ka s (gotoM i (PPut True) s)"
| m_put_done: "i < n \<Longrightarrow> mkPc (mkClnt s i) = PPutDone retry err \<Longrightarrow> onePutErr (clerkErr retry err) (asPut (mkClnt s i)) = Inr p \<Longrightarrow>
    mk_step rel n enc dec randomkeys ka s (setM i (fromPut p (mkClnt s i)) s)"
| m_get: "i < n \<Longrightarrow> mkPc (mkClnt s i) = PGet err \<Longrightarrow>
    mk_step rel n enc dec randomkeys ka s (gotoM i (PGot err (Get (mkServer s) (mkKey (mkClnt s i)))) s)"
| m_get_lost: "\<not> rel \<Longrightarrow> i < n \<Longrightarrow> mkPc (mkClnt s i) = PGot err r \<Longrightarrow> mk_step rel n enc dec randomkeys ka s (gotoM i (PGet err) s)"
| m_got: "i < n \<Longrightarrow> mkPc (mkClnt s i) = PGot err r \<Longrightarrow> onePutGot dec i err r (asPut (mkClnt s i)) = Inr p \<Longrightarrow>
    mk_step rel n enc dec randomkeys ka s (setM i (fromPut p (mkClnt s i)) s)"
| m_other: "pKey a \<notin> set ka \<Longrightarrow> mk_step rel n enc dec randomkeys ka s (s\<lparr>mkServer := fst (Put (mkServer s) a)\<rparr>)"

inductive mk_run :: "bool \<Rightarrow> nat \<Rightarrow> (EntryV \<Rightarrow> string) \<Rightarrow> (string \<Rightarrow> EntryV option) \<Rightarrow> bool \<Rightarrow> string list \<Rightarrow> nat \<Rightarrow> mksys \<Rightarrow> bool"
  for rel n enc dec randomkeys ka where
  mk_init: "mk_run rel n enc dec randomkeys ka 0 init_keys"
| mk_next: "mk_run rel n enc dec randomkeys ka m s \<Longrightarrow> mk_step rel n enc dec randomkeys ka s s' \<Longrightarrow> mk_run rel n enc dec randomkeys ka (Suc m) s'"

subsection \<open>The view from one key\<close>

definition pcAt :: "string \<Rightarrow> mkclnt \<Rightarrow> putpc" where
  "pcAt k c = (if mkPc c = PStop then PStop else if mkKey c = k then mkPc c else PIter)"

definition proj :: "(string \<Rightarrow> nat \<Rightarrow> ClntRes) \<Rightarrow> string \<Rightarrow> mksys \<Rightarrow> putsys" where
  \<comment> \<open>\<open>R\<close> splits the counts of the clients by key\<close>
  "proj R k s = \<lparr>psServer = mkServer s, psClnt = (\<lambda>i. \<lparr>pver = mkVerm (mkClnt s i) k, pres = R k i, ppc = pcAt k (mkClnt s i)\<rparr>)\<rparr>"

definition atKey :: "string list \<Rightarrow> mkclnt \<Rightarrow> bool" where
  "atKey ka c \<longleftrightarrow> mkPc c = PIter \<or> mkPc c = PStop \<or> mkKey c \<in> set ka"

definition splits :: "string list \<Rightarrow> (string \<Rightarrow> nat \<Rightarrow> ClntRes) \<Rightarrow> mksys \<Rightarrow> bool" where
  "splits ka R s \<longleftrightarrow> (\<forall>i. atKey ka (mkClnt s i) \<and> Nok (mkRes (mkClnt s i)) = (\<Sum>k \<in> set ka. Nok (R k i)) \<and>
     Nmaybe (mkRes (mkClnt s i)) = (\<Sum>k \<in> set ka. Nmaybe (R k i)))"

lemma pickKey_in: "pickKey randomkeys ka rnd = Inr k \<Longrightarrow> k \<in> set ka"
  by (auto simp: pickKey_def go_index_def go_inv split: if_splits intro!: nth_mem)

lemma pickKey_picks: "ka \<noteq> [] \<Longrightarrow> \<exists>k. pickKey randomkeys ka rnd = Inr k"
  by (simp add: pickKey_def go_index_def)

lemma setM_simps [simp]: "mkClnt (setM i c s) = (mkClnt s)(i := c)" "mkServer (setM i c s) = mkServer s"
  by (simp_all add: setM_def)

lemma proj_setM: "proj R k (setM i c s) = setP i \<lparr>pver = mkVerm c k, pres = R k i, ppc = pcAt k c\<rparr> (proj R k s)"
  by (auto simp: proj_def setP_def)

lemma proj_client [simp]: "psClnt (proj R k s) i = \<lparr>pver = mkVerm (mkClnt s i) k, pres = R k i, ppc = pcAt k (mkClnt s i)\<rparr>"
  by (simp add: proj_def)

lemma proj_server [simp]: "psServer (proj R k s) = mkServer s"
  by (simp add: proj_def)

lemma proj_set_server: "proj R k (s\<lparr>mkServer := kv\<rparr>) = (proj R k s)\<lparr>psServer := kv\<rparr>"
  by (simp add: proj_def)

lemma proj_same:
  assumes "mkVerm c k = mkVerm (mkClnt s i) k" and "pcAt k c = pcAt k (mkClnt s i)"
  shows "proj R k (setM i c s) = proj R k s"
  using assms by (auto simp: proj_def)

lemma proj_goto: "pcAt k ((mkClnt s i)\<lparr>mkPc := p\<rparr>) = q \<Longrightarrow> proj R k (gotoM i p s) = gotoP i q (proj R k s)"
  by (auto simp: gotoM_def gotoP_def proj_setM)

definition inPut :: "putpc \<Rightarrow> bool" where
  "inPut p \<longleftrightarrow> p \<noteq> PIter \<and> p \<noteq> PStop"

lemma pcAt_in: "inPut (mkPc c) \<Longrightarrow> pcAt k c = (if mkKey c = k then mkPc c else PIter)"
  by (simp add: pcAt_def inPut_def)

lemma splits_goto: "splits ka R s \<Longrightarrow> atKey ka ((mkClnt s i)\<lparr>mkPc := p\<rparr>) \<Longrightarrow> splits ka R (gotoM i p s)"
  by (simp add: splits_def gotoM_def)

lemma splits_key: "splits ka R s \<Longrightarrow> inPut (mkPc (mkClnt s i)) \<Longrightarrow> mkKey (mkClnt s i) \<in> set ka"
  by (auto simp: splits_def atKey_def inPut_def)

abbreviation "views rel n enc dec ka R s R' s' \<equiv> splits ka R' s' \<and>
  (\<forall>k \<in> set ka. proj R' k s' = proj R k s \<or> put_step rel n enc dec k (proj R k s) (proj R' k s'))"

lemma own_view:
  assumes "splits ka R s" and "inPut (mkPc (mkClnt s i))" and "inPut p"
    and "put_step rel n enc dec (mkKey (mkClnt s i)) (proj R (mkKey (mkClnt s i)) s) (gotoP i p (proj R (mkKey (mkClnt s i)) s))"
  shows "views rel n enc dec ka R s R (gotoM i p s)"
proof (intro conjI ballI)
  have key: "mkKey (mkClnt s i) \<in> set ka" by (rule splits_key [OF assms(1,2)])
  show "splits ka R (gotoM i p s)" using assms(1) key by (intro splits_goto) (simp_all add: atKey_def)
  fix k
  show "proj R k (gotoM i p s) = proj R k s \<or> put_step rel n enc dec k (proj R k s) (proj R k (gotoM i p s))"
  proof (cases "k = mkKey (mkClnt s i)")
    case True
    have "pcAt k ((mkClnt s i)\<lparr>mkPc := p\<rparr>) = p" using assms(3) True by (simp add: pcAt_def)
    then show ?thesis using assms(4) True by (simp add: proj_goto)
  next
    case False
    then have "proj R k (gotoM i p s) = proj R k s" unfolding gotoM_def using assms(2,3) by (intro proj_same) (auto simp: pcAt_in)
    then show ?thesis by blast
  qed
qed

definition credit :: "ClntRes \<Rightarrow> ClntRes \<Rightarrow> ClntRes \<Rightarrow> ClntRes" where
  \<comment> \<open>what the counts have grown by is added\<close>
  "credit r r' g = \<lparr>Nok = Nok g + (Nok r' - Nok r), Nmaybe = Nmaybe g + (Nmaybe r' - Nmaybe r)\<rparr>"

lemma onePutErr_credit: "onePutErr err c = Inr p \<Longrightarrow> onePutErr err (c\<lparr>pres := g\<rparr>) = Inr (p\<lparr>pres := credit (pres c) (pres p) g\<rparr>) \<and> inPut (ppc p) \<and> pver p = pver c"
  by (auto simp: onePutErr_def credit_def inPut_def split: if_splits)

lemma onePutGot_credit: "onePutGot dec i err r c = Inr p \<Longrightarrow> onePutGot dec i err r (c\<lparr>pres := g\<rparr>) = Inr (p\<lparr>pres := credit (pres c) (pres p) g\<rparr>) \<and> ppc p \<noteq> PStop"
  by (cases "GetJson dec r"; cases c; cases "pres c"; cases g) (auto simp: onePutGot_def countPut_def credit_def Let_def split: if_splits)

lemma fromPut_view:
  assumes "splits ka R s" and "inPut (mkPc (mkClnt s i))" and "ppc p \<noteq> PStop"
    and "put_step rel n enc dec (mkKey (mkClnt s i)) (proj R (mkKey (mkClnt s i)) s)
      (setP i (p\<lparr>pres := credit (mkRes (mkClnt s i)) (pres p) (R (mkKey (mkClnt s i)) i)\<rparr>) (proj R (mkKey (mkClnt s i)) s))"
  shows "\<exists>R'. views rel n enc dec ka R s R' (setM i (fromPut p (mkClnt s i)) s)"
proof -
  let ?c = "mkClnt s i" and ?s = "setM i (fromPut p (mkClnt s i)) s"
  let ?k = "mkKey ?c"
  define R' where "R' = R(?k := (R ?k)(i := credit (mkRes ?c) (pres p) (R ?k i)))"
  have key: "?k \<in> set ka" by (rule splits_key [OF assms(1,2)])
  have own: "(\<Sum>k \<in> set ka. Nok (R' k i)) = (\<Sum>k \<in> set ka. Nok (R k i)) + (Nok (pres p) - Nok (mkRes ?c))"
    "(\<Sum>k \<in> set ka. Nmaybe (R' k i)) = (\<Sum>k \<in> set ka. Nmaybe (R k i)) + (Nmaybe (pres p) - Nmaybe (mkRes ?c))"
    by (simp_all add: R'_def sum.remove [OF _ key] credit_def)
  have other: "R' k j = R k j" if "j \<noteq> i" for k j using that by (simp add: R'_def)
  have sp: "splits ka R' ?s"
    unfolding splits_def
  proof (intro allI)
    fix j
    show "atKey ka (mkClnt ?s j) \<and> Nok (mkRes (mkClnt ?s j)) = (\<Sum>k \<in> set ka. Nok (R' k j)) \<and>
      Nmaybe (mkRes (mkClnt ?s j)) = (\<Sum>k \<in> set ka. Nmaybe (R' k j))"
      using assms(1) own key by (cases "j = i") (simp_all add: splits_def other fromPut_def atKey_def)
  qed
  have "proj R' k ?s = proj R k s \<or> put_step rel n enc dec k (proj R k s) (proj R' k ?s)" for k
  proof (cases "k = ?k")
    case True
    have "proj R' k ?s = setP i (p\<lparr>pres := credit (mkRes ?c) (pres p) (R ?k i)\<rparr>) (proj R k s)"
      using assms(3) by (auto simp: True R'_def proj_def setP_def fromPut_def pcAt_def)
    then show ?thesis using assms(4) True by simp
  next
    case False
    then have "pcAt k (fromPut p ?c) = pcAt k ?c" using assms(2,3) by (simp add: pcAt_def fromPut_def inPut_def)
    then have "proj R' k ?s = proj R k s" using False by (auto simp: R'_def proj_def fromPut_def)
    then show ?thesis by blast
  qed
  with sp show ?thesis by blast
qed

lemma put_view:
  assumes "splits ka R s" and "i < n" and "mkPc (mkClnt s i) = PPut retry" and "Put (mkServer s) (putArgs enc i (mkClnt s i)) = (kv, err)"
  shows "views rel n enc dec ka R s R ((gotoM i (PPutDone retry err) s)\<lparr>mkServer := kv\<rparr>)"
proof (intro conjI ballI)
  let ?c = "mkClnt s i" and ?s = "(gotoM i (PPutDone retry err) s)\<lparr>mkServer := kv\<rparr>"
  have "mkKey ?c \<in> set ka" using splits_key [OF assms(1)] assms(3) by (simp add: inPut_def)
  then have "splits ka R (gotoM i (PPutDone retry err) s)" using assms(1) by (intro splits_goto) (simp_all add: atKey_def)
  then show "splits ka R ?s" by (simp add: splits_def)
  fix k
  show "proj R k ?s = proj R k s \<or> put_step rel n enc dec k (proj R k s) (proj R k ?s)"
  proof (cases "k = mkKey ?c")
    case True
    have "proj R k ?s = (gotoP i (PPutDone retry err) (proj R k s))\<lparr>psServer := kv\<rparr>"
      using True by (simp add: proj_set_server proj_goto pcAt_def)
    then show ?thesis using p_put [of i n "proj R k s" retry k enc kv err rel dec] assms(2-4) True by (simp add: pcAt_def putArgs_def)
  next
    case False
    have "proj R k (gotoM i (PPutDone retry err) s) = proj R k s" unfolding gotoM_def using assms(3) False by (intro proj_same) (auto simp: pcAt_def)
    then have "proj R k ?s = (proj R k s)\<lparr>psServer := fst (Put (psServer (proj R k s)) (putArgs enc i ?c))\<rparr>"
      using assms(4) by (simp add: proj_set_server)
    then show ?thesis using p_other [of "putArgs enc i ?c" k rel n enc dec "proj R k s"] False by (simp add: putArgs_def)
  qed
qed

lemma iter_view:
  assumes "splits ka R s" and "i < n" and "mkPc (mkClnt s i) = PIter"
  shows "views rel n enc dec ka R s R (gotoM i PStop s)"
    "k' \<in> set ka \<Longrightarrow> views rel n enc dec ka R s R (setM i ((mkClnt s i)\<lparr>mkKey := k', mkPc := PPut False\<rparr>) s)"
proof -
  have pc: "pcAt k (mkClnt s i) = PIter" for k using assms(3) by (simp add: pcAt_def)
  have "splits ka R (gotoM i PStop s)" using assms(1) by (intro splits_goto) (simp_all add: atKey_def)
  moreover have "proj R k (gotoM i PStop s) = gotoP i PStop (proj R k s)" for k by (rule proj_goto) (simp add: pcAt_def)
  ultimately show "views rel n enc dec ka R s R (gotoM i PStop s)" using p_done [OF assms(2)] pc by simp
  let ?c = "(mkClnt s i)\<lparr>mkKey := k', mkPc := PPut False\<rparr>"
  assume k': "k' \<in> set ka"
  have "splits ka R (setM i ?c s)" using assms(1) k' by (simp add: splits_def atKey_def)
  moreover have "proj R k (setM i ?c s) = proj R k s \<or> put_step rel n enc dec k (proj R k s) (proj R k (setM i ?c s))" for k
  proof (cases "k = k'")
    case True
    then have "proj R k (setM i ?c s) = gotoP i (PPut False) (proj R k s)" by (simp add: proj_setM gotoP_def pcAt_def)
    then show ?thesis using p_iter [OF assms(2)] pc by simp
  next
    case False
    then show ?thesis using pc by (intro disjI1 proj_same) (simp_all add: pcAt_def)
  qed
  ultimately show "views rel n enc dec ka R s R (setM i ?c s)" by blast
qed

lemma mk_step_views:
  assumes "mk_step rel n enc dec randomkeys ka s s'" and "splits ka R s"
  shows "\<exists>R'. views rel n enc dec ka R s R' s'"
  using assms
proof (induction rule: mk_step.induct)
  case (m_done i s)
  then show ?case using iter_view(1) by blast
next
  case (m_pick i s rnd k)
  then show ?case using iter_view(2) [OF m_pick(4,1,2) pickKey_in [OF m_pick(3)]] by blast
next
  case (m_put i s retry kv err)
  then show ?case using put_view by blast
next
  case (m_put_lost i s retry)
  then show ?case by (intro exI [of _ R] own_view p_put_lost [of _ _ _ _ retry]) (simp_all add: inPut_def pcAt_def)
next
  case (m_reply_lost i s retry err)
  then show ?case by (intro exI [of _ R] own_view p_reply_lost [of _ _ _ _ retry err]) (simp_all add: inPut_def pcAt_def)
next
  case (m_get i s err)
  let ?t = "proj R (mkKey (mkClnt s i)) s"
  have "put_step rel n enc dec (mkKey (mkClnt s i)) ?t (gotoP i (PGot err (Get (psServer ?t) (mkKey (mkClnt s i)))) ?t)"
    using m_get(1,2) by (intro p_get) (simp_all add: pcAt_def)
  then show ?case using m_get by (intro exI [of _ R] own_view) (simp_all add: inPut_def)
next
  case (m_get_lost i s err r)
  then show ?case by (intro exI [of _ R] own_view p_get_lost [of _ _ _ _ err r]) (simp_all add: inPut_def pcAt_def)
next
  case (m_put_done i s retry err p)
  note cr = onePutErr_credit [OF m_put_done(3), of "R (mkKey (mkClnt s i)) i"]
  show ?case
    by (rule fromPut_view [OF m_put_done(4)], simp_all add: m_put_done(2) inPut_def)
      (use cr m_put_done(1,2) in \<open>auto simp: inPut_def pcAt_def asPut_def intro!: p_put_done [of _ _ _ retry err]\<close>)
next
  case (m_got i s err r p)
  note cr = onePutGot_credit [OF m_got(3), of "R (mkKey (mkClnt s i)) i"]
  show ?case
    by (rule fromPut_view [OF m_got(4)], simp_all add: m_got(2) inPut_def)
      (use cr m_got(1,2) in \<open>auto simp: pcAt_def asPut_def intro!: p_got [of _ _ _ err r]\<close>)
next
  case (m_other a s)
  have "put_step rel n enc dec k (proj R k s) (proj R k (s\<lparr>mkServer := fst (Put (mkServer s) a)\<rparr>))" if "k \<in> set ka" for k
    using p_other [of a k rel n enc dec "proj R k s"] m_other(1) that by (auto simp: proj_set_server)
  then show ?case using m_other(2) by (intro exI [of _ R]) (simp add: splits_def)
qed

lemma mk_run_views:
  assumes "mk_run rel n enc dec randomkeys ka m s"
  shows "\<exists>R. splits ka R s \<and> (\<forall>k \<in> set ka. \<exists>m' \<le> m. put_run rel n enc dec k m' (proj R k s))"
  using assms
proof (induction rule: mk_run.induct)
  case mk_init
  have "proj (\<lambda>_ _. \<lparr>Nok = 0, Nmaybe = 0\<rparr>) k init_keys = init_put" for k by (simp add: proj_def init_keys_def init_put_def pcAt_def)
  then have "\<exists>m' \<le> 0. put_run rel n enc dec k m' (proj (\<lambda>_ _. \<lparr>Nok = 0, Nmaybe = 0\<rparr>) k init_keys)" for k
    by (intro exI [of _ 0]) (simp add: put_run.put_init)
  moreover have "splits ka (\<lambda>_ _. \<lparr>Nok = 0, Nmaybe = 0\<rparr>) init_keys" by (simp add: splits_def init_keys_def atKey_def)
  ultimately show ?case by blast
next
  case (mk_next m s s')
  then obtain R where R: "splits ka R s" "\<forall>k \<in> set ka. \<exists>m' \<le> m. put_run rel n enc dec k m' (proj R k s)" by blast
  from mk_step_views [OF mk_next.hyps(2) R(1)] obtain R' where R': "views rel n enc dec ka R s R' s'" ..
  have "\<exists>m' \<le> Suc m. put_run rel n enc dec k m' (proj R' k s')" if k: "k \<in> set ka" for k
  proof -
    obtain m' where m': "m' \<le> m" "put_run rel n enc dec k m' (proj R k s)" using bspec [OF R(2) k] by (elim exE conjE)
    from bspec [OF conjunct2 [OF R'] k] show ?thesis
    proof
      assume "proj R' k s' = proj R k s"
      then show ?thesis using m' by (intro exI [of _ m']) simp
    next
      assume "put_step rel n enc dec k (proj R k s) (proj R' k s')"
      then show ?thesis using m' by (intro exI [of _ "Suc m'"]) (auto intro: put_run.put_next)
    qed
  qed
  with conjunct1 [OF R'] show ?case by (intro exI [of _ R'] conjI) simp_all
qed

lemma run_at_key:
  assumes "mk_run rel n enc dec randomkeys ka m s" and "m + 1 < 2 ^ 64"
  obtains R where "splits ka R s" "\<And>k. k \<in> set ka \<Longrightarrow> \<exists>m'. put_run rel n enc dec k m' (proj R k s) \<and> m' + 1 < 2 ^ 64"
proof -
  obtain R where R: "splits ka R s" "\<forall>k \<in> set ka. \<exists>m' \<le> m. put_run rel n enc dec k m' (proj R k s)"
    using mk_run_views [OF assms(1)] by blast
  have "\<exists>m'. put_run rel n enc dec k m' (proj R k s) \<and> m' + 1 < 2 ^ 64" if "k \<in> set ka" for k
    using R(2) that assms(2) by (meson add_right_mono le_less_trans)
  then show thesis by (rule that [OF R(1)])
qed

lemma checks_pass:
  assumes "mk_run rel n enc dec randomkeys ka m s" and "m + 1 < 2 ^ 64" and "\<And>e. dec (enc e) = Some e" and "i < n"
  shows "mkPc (mkClnt s i) = PPutDone retry err \<Longrightarrow> \<exists>p. onePutErr (clerkErr retry err) (asPut (mkClnt s i)) = Inr p"
    "mkPc (mkClnt s i) = PGot err r \<Longrightarrow> \<exists>p. onePutGot dec i err r (asPut (mkClnt s i)) = Inr p"
proof -
  obtain R where R: "splits ka R s" "\<And>k. k \<in> set ka \<Longrightarrow> \<exists>m'. put_run rel n enc dec k m' (proj R k s) \<and> m' + 1 < 2 ^ 64"
    by (rule run_at_key [OF assms(1,2)]) blast
  let ?t = "proj R (mkKey (mkClnt s i)) s"
  have pc: "ppc (psClnt ?t i) = mkPc (mkClnt s i)" by (simp add: pcAt_def)
  have view: "asPut (mkClnt s i) = (psClnt ?t i)\<lparr>pres := mkRes (mkClnt s i)\<rparr>" by (simp add: asPut_def pcAt_def)
  have run: "\<exists>m'. put_run rel n enc dec (mkKey (mkClnt s i)) m' ?t \<and> m' + 1 < 2 ^ 64" if "inPut (mkPc (mkClnt s i))"
    by (rule R(2) [OF splits_key [OF R(1) that]])
  show "\<exists>p. onePutErr (clerkErr retry err) (asPut (mkClnt s i)) = Inr p" if fin: "mkPc (mkClnt s i) = PPutDone retry err"
  proof -
    obtain m' where m': "put_run rel n enc dec (mkKey (mkClnt s i)) m' ?t" "m' + 1 < 2 ^ 64" using run fin by (auto simp: inPut_def)
    from racing_puts_pass [OF m' assms(3)] assms(4) fin pc obtain p where "onePutErr (clerkErr retry err) (psClnt ?t i) = Inr p" by metis
    from onePutErr_credit [OF this] show ?thesis unfolding view by blast
  qed
  show "\<exists>p. onePutGot dec i err r (asPut (mkClnt s i)) = Inr p" if got: "mkPc (mkClnt s i) = PGot err r"
  proof -
    obtain m' where m': "put_run rel n enc dec (mkKey (mkClnt s i)) m' ?t" "m' + 1 < 2 ^ 64" using run got by (auto simp: inPut_def)
    from racing_puts_pass [OF m' assms(3)] assms(4) got pc obtain p where "onePutGot dec i err r (psClnt ?t i) = Inr p" by metis
    from onePutGot_credit [OF this] show ?thesis unfolding view by blast
  qed
qed

text \<open>
  Property C31 (racing puts on random keys). Let \<open>n\<close> clients of \<open>OneClientPut\<close> put to keys they choose, at random or
  always the first, on a reliable or an unreliable network. In every reachable state a client that has
  to choose a key can, and none of the checks inside \<open>OnePut\<close> stops a client. When all clients have stopped,
  the versions of all the keys together are at least the number of successful puts and at most the
  number of successful and doubtful ones; on a reliable network no put is doubtful. (The run has
  fewer than \<open>2 ^ 64\<close> steps, so no version wraps.)
\<close>

theorem random_keys_pass:
  assumes "mk_run rel n enc dec randomkeys ka m s" and "ka \<noteq> []" and "m + 1 < 2 ^ 64" and "\<And>e. dec (enc e) = Some e"
  shows "(\<forall>rnd. \<exists>k. pickKey randomkeys ka rnd = Inr k) \<and>
    (\<forall>i < n. \<forall>retry err. mkPc (mkClnt s i) = PPutDone retry err \<longrightarrow> (\<exists>p. onePutErr (clerkErr retry err) (asPut (mkClnt s i)) = Inr p)) \<and>
    (\<forall>i < n. \<forall>err r. mkPc (mkClnt s i) = PGot err r \<longrightarrow> (\<exists>p. onePutGot dec i err r (asPut (mkClnt s i)) = Inr p)) \<and>
    ((\<forall>i < n. mkPc (mkClnt s i) = PStop) \<longrightarrow>
       (\<Sum>i < n. Nok (mkRes (mkClnt s i))) \<le> (\<Sum>k \<in> set ka. int (unat (verOf (mkServer s) k))) \<and>
       (\<Sum>k \<in> set ka. int (unat (verOf (mkServer s) k))) \<le> (\<Sum>i < n. Nok (mkRes (mkClnt s i))) + (\<Sum>i < n. Nmaybe (mkRes (mkClnt s i))) \<and>
       (rel \<longrightarrow> (\<Sum>i < n. Nmaybe (mkRes (mkClnt s i))) = 0))"
proof (intro conjI allI impI)
  show "\<exists>k. pickKey randomkeys ka rnd = Inr k" for rnd by (rule pickKey_picks [OF assms(2)])
  show "\<exists>p. onePutErr (clerkErr retry err) (asPut (mkClnt s i)) = Inr p" if "i < n" "mkPc (mkClnt s i) = PPutDone retry err" for i retry err
    by (rule checks_pass(1) [OF assms(1,3,4) that])
  show "\<exists>p. onePutGot dec i err r (asPut (mkClnt s i)) = Inr p" if "i < n" "mkPc (mkClnt s i) = PGot err r" for i err r
    by (rule checks_pass(2) [OF assms(1,3,4) that])
  obtain R where R: "splits ka R s" "\<And>k. k \<in> set ka \<Longrightarrow> \<exists>m'. put_run rel n enc dec k m' (proj R k s) \<and> m' + 1 < 2 ^ 64"
    by (rule run_at_key [OF assms(1,3)]) blast
  assume stop: "\<forall>i < n. mkPc (mkClnt s i) = PStop"
  have counts: "(\<Sum>i < n. Nok (R k i)) \<le> int (unat (verOf (mkServer s) k)) \<and>
      int (unat (verOf (mkServer s) k)) \<le> (\<Sum>i < n. Nok (R k i)) + (\<Sum>i < n. Nmaybe (R k i)) \<and> (rel \<longrightarrow> (\<Sum>i < n. Nmaybe (R k i)) = 0)"
    if k: "k \<in> set ka" for k
  proof -
    obtain m' where m': "put_run rel n enc dec k m' (proj R k s)" "m' < 2 ^ 64" using R(2) [OF k] by auto
    have "\<forall>i < n. ppc (psClnt (proj R k s) i) = PStop" using stop by (simp add: pcAt_def)
    from stopped_counts [OF m' assms(4) this] show ?thesis by simp
  qed
  have "Nok (mkRes (mkClnt s i)) = (\<Sum>k \<in> set ka. Nok (R k i))" "Nmaybe (mkRes (mkClnt s i)) = (\<Sum>k \<in> set ka. Nmaybe (R k i))" for i
    using R(1) by (simp_all add: splits_def)
  then have swap: "(\<Sum>i < n. Nok (mkRes (mkClnt s i))) = (\<Sum>k \<in> set ka. \<Sum>i < n. Nok (R k i))"
    "(\<Sum>i < n. Nmaybe (mkRes (mkClnt s i))) = (\<Sum>k \<in> set ka. \<Sum>i < n. Nmaybe (R k i))"
    by (simp_all add: sum.swap [of _ "set ka"])
  show "(\<Sum>i < n. Nok (mkRes (mkClnt s i))) \<le> (\<Sum>k \<in> set ka. int (unat (verOf (mkServer s) k)))"
    unfolding swap using counts by (intro sum_mono) blast
  show "(\<Sum>k \<in> set ka. int (unat (verOf (mkServer s) k))) \<le> (\<Sum>i < n. Nok (mkRes (mkClnt s i))) + (\<Sum>i < n. Nmaybe (mkRes (mkClnt s i)))"
    unfolding swap sum.distrib [symmetric] using counts by (intro sum_mono) (simp add: sum.distrib)
  show "(\<Sum>i < n. Nmaybe (mkRes (mkClnt s i))) = 0" if rel
    unfolding swap using counts that by (intro sum.neutral) blast
qed

text \<open>A run of one client that takes the second of two keys.\<close>

definition ex_picker :: "string \<Rightarrow> putpc \<Rightarrow> Tversion \<Rightarrow> int \<Rightarrow> mkclnt" where
  "ex_picker k p v ok = \<lparr>mkVerm = (\<lambda>_. 0)(''k'' := v), mkRes = \<lparr>Nok = ok, Nmaybe = 0\<rparr>, mkKey = k, mkPc = p\<rparr>"

definition ex_keys :: "bool \<Rightarrow> mkclnt \<Rightarrow> mksys" where
  "ex_keys stored c = \<lparr>mkServer = psServer (ex_sys stored (ex_client PIter 0 0)), mkClnt = (\<lambda>_. ex_picker [] PIter 0 0)(0 := c)\<rparr>"

lemma ex_keys_run: "mk_run True 1 ex_encv ex_decv True [''a'', ''k''] 6 (ex_keys True (ex_picker ''k'' PStop 1 1))"
proof -
  let ?st = "mk_step True 1 ex_encv ex_decv True [''a'', ''k'']" and ?r = "\<lparr>gValue = ex_encv \<lparr>evId = 0, evV = 0\<rparr>, gVersion = 1, gErr = OK\<rparr>"
  note ev = ex_keys_def ex_picker_def ex_sys_def gotoM_def setM_def asPut_def fromPut_def
  have "init_keys = ex_keys False (ex_picker [] PIter 0 0)" by (simp add: init_keys_def ev fun_eq_iff)
  then have r0: "mk_run True 1 ex_encv ex_decv True [''a'', ''k''] 0 (ex_keys False (ex_picker [] PIter 0 0))" by (metis mk_init)
  have s1: "?st (ex_keys False (ex_picker [] PIter 0 0)) (ex_keys False (ex_picker ''k'' (PPut False) 0 0))"
    using m_pick [of 0 1 "ex_keys False (ex_picker [] PIter 0 0)" True "[''a'', ''k'']" 1 "''k''"] by (simp add: ev pickKey_def go_index_def)
  have s2: "?st (ex_keys False (ex_picker ''k'' (PPut False) 0 0)) (ex_keys True (ex_picker ''k'' (PPutDone False OK) 0 0))"
    using m_put [of 0 1 "ex_keys False (ex_picker ''k'' (PPut False) 0 0)" False ex_encv] by (simp add: ev putArgs_def Put_def MakeKVServer_def)
  have s3: "?st (ex_keys True (ex_picker ''k'' (PPutDone False OK) 0 0)) (ex_keys True (ex_picker ''k'' (PGet OK) 0 0))"
    using m_put_done [of 0 1 "ex_keys True (ex_picker ''k'' (PPutDone False OK) 0 0)" False OK "ex_client (PGet OK) 0 0"] by (simp add: ev ex_client_def onePutErr_def clerkErr_def)
  have s4: "?st (ex_keys True (ex_picker ''k'' (PGet OK) 0 0)) (ex_keys True (ex_picker ''k'' (PGot OK ?r) 0 0))"
    using m_get [of 0 1 "ex_keys True (ex_picker ''k'' (PGet OK) 0 0)" OK] by (simp add: ev Get_def)
  have s5: "?st (ex_keys True (ex_picker ''k'' (PGot OK ?r) 0 0)) (ex_keys True (ex_picker ''k'' PIter 1 1))"
    using m_got [of 0 1 "ex_keys True (ex_picker ''k'' (PGot OK ?r) 0 0)" OK ?r ex_decv "ex_client PIter 1 1"] by (simp add: ev ex_client_def onePutGot_def GetJson_def ex_json countPut_def)
  have s6: "?st (ex_keys True (ex_picker ''k'' PIter 1 1)) (ex_keys True (ex_picker ''k'' PStop 1 1))"
    using m_done [of 0 1 "ex_keys True (ex_picker ''k'' PIter 1 1)"] by (simp add: ev)
  from mk_next [OF mk_next [OF mk_next [OF mk_next [OF mk_next [OF mk_next [OF r0 s1] s2] s3] s4] s5] s6]
  show ?thesis by (simp add: eval_nat_numeral)
qed

theorem random_keys_pass_witness:
  "1 \<le> (\<Sum>k \<in> set [''a'', ''k'']. int (unat (verOf (mkServer (ex_keys True (ex_picker ''k'' PStop 1 1))) k))) \<and>
   pickKey True [''a'', ''k''] 1 = Inr ''k''"
  using random_keys_pass [OF ex_keys_run _ _ ex_json] by (simp add: ex_keys_def ex_picker_def pickKey_def go_index_def)

end
