(* ===== verification/Kvtest_Setup.thy ===== *)
theory Kvtest_Setup
  imports Kvtest_Harness
begin

text \<open>
  How a key/value test is set up and taken down (\<open>src/kvtest1/kvtest.go\<close>, \<open>src/kvsrv1/test.go\<close>, \<open>src/kvsrv1/client.go\<close>):
  the configuration with one server, the clerks and their clients, the end of the test; and the
  helpers of \<open>src/tester1/config.go\<close> that make random strings and stop a failed test.

  A client is a pointer, that is a number, as in \<open>Tester_Config\<close>. Random bytes are arguments, and so are the
  frames of the stack.
\<close>

subsection \<open>Tests\<close>

record ('e, 'c, 'svc) KvTest =
  ktConfig :: "('e, 'c, 'svc) Config"
  ktLog :: OpLog
  randomkeys :: bool

definition MakeTest :: "('e, 'c, 'svc) Config \<Rightarrow> bool \<Rightarrow> ('e, 'c, 'svc) KvTest" where
  "MakeTest cfg rk = \<lparr>ktConfig = cfg, ktLog = [], randomkeys = rk\<rparr>"

definition Test_Cleanup :: "int \<Rightarrow> int \<Rightarrow> string \<Rightarrow> bool \<Rightarrow> Annotation \<Rightarrow> ('e, 'c, 'svc) KvTest \<Rightarrow> (Annotation \<times> ('e, 'c, 'svc) KvTest) go" where
  "Test_Cleanup now t vis opens an ts =
     go_bind (End now (ktConfig ts)) (\<lambda>_.
       go_bind (Config_Cleanup now t vis opens an (ktConfig ts)) (\<lambda>(an1, cfg). Inr (an1, ts\<lparr>ktConfig := cfg\<rparr>)))"

fun ConnectClnts :: "'e Clnt list \<Rightarrow> 'e net \<Rightarrow> 'e net \<times> 'e Clnt list" where
  "ConnectClnts [] net = (net, [])"
| "ConnectClnts (c # cs) net = (case Clnt_ConnectAll (net, c) of (net1, c1) \<Rightarrow>
     case ConnectClnts cs net1 of (net2, cs1) \<Rightarrow> (net2, c1 # cs1))"

definition linearizabilityCheckTimeout :: int where
  "linearizabilityCheckTimeout = 1000000000"

definition CheckPorcupineT ::
  "int \<Rightarrow> (int \<Rightarrow> operation list \<Rightarrow> porcupine_result) \<Rightarrow> string \<Rightarrow> bool \<Rightarrow> int \<Rightarrow> ('e, 'c, 'svc) KvTest \<Rightarrow> timeline \<Rightarrow>
   unit go \<times> PAnnotation list option \<times> timeline" where
  \<comment> \<open>the checker gets the time it may take\<close>
  "CheckPorcupineT nsec check vis opens t ts s = checkPorcupine (check nsec) vis opens t (ktLog ts) s"

definition CheckPorcupine ::
  "(int \<Rightarrow> operation list \<Rightarrow> porcupine_result) \<Rightarrow> string \<Rightarrow> bool \<Rightarrow> int \<Rightarrow> ('e, 'c, 'svc) KvTest \<Rightarrow> timeline \<Rightarrow>
   unit go \<times> PAnnotation list option \<times> timeline" where
  "CheckPorcupine = CheckPorcupineT linearizabilityCheckTimeout"

subsection \<open>The test of the key/value server\<close>

record Clerk =
  ckClnt :: nat
  ckServer :: string

definition MakeClerk :: "nat \<Rightarrow> string \<Rightarrow> Clerk" where
  "MakeClerk clnt srv = \<lparr>ckClnt = clnt, ckServer = srv\<rparr>"

definition MakeTestKV ::
  "(int \<Rightarrow> string) \<Rightarrow> ('e, 'c, 'svc) starter \<Rightarrow> 'e \<Rightarrow> 'e \<Rightarrow> nat \<Rightarrow> bool \<Rightarrow> int \<Rightarrow> ('e, 'c, 'svc) KvTest go" where
  \<comment> \<open>one server; \<open>e0\<close> and \<open>e1\<close> are the random names of its end when it is made and when it is started\<close>
  "MakeTestKV itoa mks e0 e1 obj rel now =
     go_bind (MakeConfig itoa mks [[e0]] (\<lambda>_. [e1]) (\<lambda>_. obj) rel now) (\<lambda>cfg. Inr (MakeTest cfg False))"

definition TestKV_MakeClerk :: "(int \<Rightarrow> string) \<Rightarrow> nat \<Rightarrow> ('e, 'c, 'svc) KvTest \<Rightarrow> ('e, 'c, 'svc) KvTest \<times> Clerk" where
  \<comment> \<open>\<open>p\<close> is the pointer of the new client\<close>
  "TestKV_MakeClerk itoa p ts =
     (ts\<lparr>ktConfig := (ktConfig ts)\<lparr>cfgClnts := MakeClient p (cfgClnts (ktConfig ts))\<rparr>\<rparr>, MakeClerk p (ServerName itoa GRP0 0))"

definition TestKV_DeleteClerk :: "Clerk \<Rightarrow> ('e, 'c, 'svc) KvTest \<Rightarrow> ('e, 'c, 'svc) KvTest go" where
  "TestKV_DeleteClerk ck ts =
     go_bind (DeleteClient (ckClnt ck) (cfgNet (ktConfig ts), cfgClnts (ktConfig ts))) (\<lambda>(net, cs).
       Inr (ts\<lparr>ktConfig := (ktConfig ts)\<lparr>cfgNet := net, cfgClnts := cs\<rparr>\<rparr>))"

subsection \<open>Helpers\<close>

definition base64Alphabet :: string where
  \<comment> \<open>of the encoding for URLs\<close>
  "base64Alphabet = ''ABCDEFGHIJKLMNOPQRSTUVWXYZabcdefghijklmnopqrstuvwxyz0123456789-_''"

definition sextet :: "nat \<Rightarrow> char" where
  "sextet i = base64Alphabet ! (i mod 64)"

fun base64URL :: "byte list \<Rightarrow> string" where
  "base64URL [] = []"
| "base64URL [a] = (let x = unat a * 65536 in [sextet (x div 262144), sextet (x div 4096), CHR ''='', CHR ''=''])"
| "base64URL [a, b] = (let x = unat a * 65536 + unat b * 256 in [sextet (x div 262144), sextet (x div 4096), sextet (x div 64), CHR ''=''])"
| "base64URL (a # b # c # bs) = (let x = unat a * 65536 + unat b * 256 + unat c in
     sextet (x div 262144) # sextet (x div 4096) # sextet (x div 64) # sextet x # base64URL bs)"

definition Randstring :: "nat \<Rightarrow> byte list \<Rightarrow> string go" where
  \<comment> \<open>the random bytes, \<open>2 * n\<close> of them, are an argument\<close>
  "Randstring n b = go_slice_to (base64URL b) (int n)"

fun randStrings :: "nat \<Rightarrow> byte list list \<Rightarrow> string list go" where
  "randStrings n [] = Inr []"
| "randStrings n (b # bs) = go_bind (Randstring n b) (\<lambda>s. go_bind (randStrings n bs) (\<lambda>ss. Inr (s # ss)))"

definition SpreadPuts ::
  "(int \<Rightarrow> string) \<Rightarrow> network list \<Rightarrow> network list \<Rightarrow> byte list list \<Rightarrow> KVServer \<Rightarrow> (KVServer \<times> string list \<times> string list) go option" where
  "SpreadPuts itoa puts gets rnd kv = (case randStrings 20 rnd of Inl e \<Rightarrow> Some (Inl e) | Inr va \<Rightarrow> SpreadPutsSize itoa puts gets va kv)"

definition containsStr :: "string \<Rightarrow> string \<Rightarrow> bool" where
  "containsStr s t = list_ex (\<lambda>i. take (length t) (drop i s) = t) [0..<Suc (length s)]"

definition Fatalf :: "(string \<times> nat) list \<Rightarrow> (string \<times> nat) list \<times> unit go" where
  \<comment> \<open>the frames of the stack that are printed, and that the test stops; without callers it panics\<close>
  "Fatalf frames = (if frames = [] then ([], Inl Panicked) else (filter (\<lambda>fr. containsStr (fst fr) ''test.go'') frames, Inl LogFatal))"

lemma Fatalf_stops: "\<exists>e. snd (Fatalf frames) = Inl e \<and> (\<forall>fr \<in> set (fst (Fatalf frames)). fr \<in> set frames \<and> containsStr (fst fr) ''test.go'')"
  by (simp add: Fatalf_def)

lemma sextet_in [simp]: "sextet i \<in> set base64Alphabet"
proof -
  have "length base64Alphabet = 64" by (simp add: base64Alphabet_def)
  then show ?thesis unfolding sextet_def by (intro nth_mem) simp
qed

lemma base64URL_shape:
  "\<exists>xs pad. base64URL b = xs @ pad \<and> set xs \<subseteq> set base64Alphabet \<and> length xs = (4 * length b + 2) div 3"
proof (induction b rule: base64URL.induct)
  case 1 then show ?case by simp
next
  case (2 a)
  then show ?case by (intro exI [of _ "take 2 (base64URL [a])"] exI [of _ "drop 2 (base64URL [a])"]) (simp add: Let_def)
next
  case (3 a b)
  then show ?case by (intro exI [of _ "take 3 (base64URL [a, b])"] exI [of _ "drop 3 (base64URL [a, b])"]) (simp add: Let_def)
next
  case (4 a b c bs)
  obtain xs pad where x: "base64URL bs = xs @ pad" "set xs \<subseteq> set base64Alphabet" "length xs = (4 * length bs + 2) div 3" using 4 by blast
  let ?hd = "take 4 (base64URL (a # b # c # bs))"
  have "base64URL (a # b # c # bs) = (?hd @ xs) @ pad" by (simp add: Let_def x(1))
  moreover have "set (?hd @ xs) \<subseteq> set base64Alphabet" using x(2) by (simp add: Let_def)
  moreover have "length (?hd @ xs) = (4 * length (a # b # c # bs) + 2) div 3" using x(3) by (simp add: Let_def)
  ultimately show ?case by blast
qed

text \<open>Random strings have the length that was asked for and no padding.\<close>

lemma Randstring_letters:
  assumes "length b = 2 * n"
  shows "\<exists>s. Randstring n b = Inr s \<and> length s = n \<and> set s \<subseteq> set base64Alphabet"
proof -
  obtain xs pad where x: "base64URL b = xs @ pad" "set xs \<subseteq> set base64Alphabet" "length xs = (4 * length b + 2) div 3"
    using base64URL_shape by blast
  have n: "n \<le> length xs" unfolding x(3) assms by presburger
  then have "take n (base64URL b) = take n xs" by (simp add: x(1))
  moreover have "set (take n xs) \<subseteq> set base64Alphabet" using x(2) set_take_subset [of n xs] by blast
  ultimately show ?thesis using n by (simp add: Randstring_def go_slice_to_def x(1))
qed

lemma randStrings_letters:
  assumes "\<forall>b \<in> set bs. length b = 2 * n"
  shows "\<exists>ss. randStrings n bs = Inr ss \<and> length ss = length bs \<and> (\<forall>s \<in> set ss. length s = n \<and> set s \<subseteq> set base64Alphabet)"
  using assms
proof (induction bs)
  case (Cons b bs)
  then obtain s ss where "Randstring n b = Inr s" "length s = n" "set s \<subseteq> set base64Alphabet" "randStrings n bs = Inr ss"
    "length ss = length bs" "\<forall>s \<in> set ss. length s = n \<and> set s \<subseteq> set base64Alphabet" using Randstring_letters [of b n] by auto
  then show ?case by simp
qed simp

text \<open>\<open>SpreadPuts\<close> puts a random value of twenty letters under each key, and its checks pass, as for \<open>SpreadPutsSize\<close>.\<close>

theorem spread_random_values:
  assumes "inj itoa" and "length puts = length rnd" and "length gets = length rnd" and "\<forall>b \<in> set rnd. length b = 40"
    and "\<forall>k \<in> set (MakeKeys itoa (length rnd)). kvStore kv k = None"
    and "quiet (set (MakeKeys itoa (length rnd))) (puts @ gets)"
  shows "\<exists>kv' va. SpreadPuts itoa puts gets rnd kv = Some (Inr (kv', MakeKeys itoa (length rnd), va)) \<and> length va = length rnd \<and>
    (\<forall>i < length rnd. length (va ! i) = 20 \<and> kvStore kv' (MakeKeys itoa (length rnd) ! i) = Some \<lparr>Value = va ! i, Version = 1\<rparr>)"
proof -
  obtain va where va: "randStrings 20 rnd = Inr va" "length va = length rnd" "\<forall>s \<in> set va. length s = 20"
    using randStrings_letters [of rnd 20] assms(4) by auto
  from spread_puts_pass [of itoa puts va gets kv] assms va(2) obtain kv' where
    "SpreadPutsSize itoa puts gets va kv = Some (Inr (kv', MakeKeys itoa (length rnd), va))"
    "\<forall>i < length rnd. kvStore kv' (MakeKeys itoa (length rnd) ! i) = Some \<lparr>Value = va ! i, Version = 1\<rparr>" by auto
  then show ?thesis using va by (intro exI [of _ kv'] exI [of _ va]) (simp add: SpreadPuts_def)
qed

text \<open>\<open>ConnectClnts\<close> lets every one of the clients reach every server.\<close>

lemma ConnectClnts_enables:
  assumes "ConnectClnts cs net = (net', cs')"
  shows "map cends cs' = map cends cs \<and> (\<forall>c \<in> set cs'. csrvs c = None) \<and> (\<forall>e. enabled net e \<longrightarrow> enabled net' e) \<and>
    (\<forall>c \<in> set cs. \<forall>p \<in> set (cends c). enabled net' (snd p))"
  using assms
proof (induction cs arbitrary: net cs')
  case (Cons c cs)
  let ?net = "enableEnds (\<lambda>_. True) True c net"
  obtain cs1 where c: "ConnectClnts cs ?net = (net', cs1)" "cs' = c\<lparr>csrvs := None\<rparr> # cs1"
    using Cons.prems by (auto simp: Clnt_ConnectAll_def split: prod.splits)
  have "enabled ?net e \<longleftrightarrow> enabled net e \<or> e \<in> snd ` set (cends c)" for e
    by (auto simp: enableEnds_def enabled_fold_Enable_all)
  then show ?case using Cons.IH [OF c(1)] by (auto simp: c(2))
qed simp

text \<open>Which servers a new configuration has.\<close>

definition sameServers :: "'e net \<Rightarrow> 'e net \<Rightarrow> bool" where
  "sameServers net net' \<longleftrightarrow> servers net' = servers net \<and> longReordering net' = longReordering net"

lemma fold_Enable_servers: "sameServers net (fold (\<lambda>j net. if P j then Enable net (f j) v else net) xs net)"
  by (induction xs arbitrary: net) (auto simp: sameServers_def Enable_def)

lemma sameServers_trans: "sameServers a b \<Longrightarrow> sameServers b c \<Longrightarrow> sameServers a c"
  by (simp add: sameServers_def)

lemma ConnectOne_servers: "ConnectOne i (net, sg) = Inr (net', sg') \<Longrightarrow> sameServers net net' \<and> gid sg' = gid sg"
  using sameServers_trans [OF fold_Enable_servers fold_Enable_servers]
  by (auto simp: ConnectOne_def connect_def Server_connect_def Let_def split: if_splits)

lemma ConnectAll_servers: "go_each ConnectOne xs (net, sg) = Inr (net', sg') \<Longrightarrow> sameServers net net'"
proof (induction xs arbitrary: net sg)
  case (Cons i xs)
  then show ?case using ConnectOne_servers sameServers_trans by (fastforce simp: go_inv)
qed (simp add: sameServers_def)

lemma makeEnds_servers: "makeEnds itoa g j names net = Inr net' \<Longrightarrow> sameServers net net'"
proof (induction names arbitrary: j net)
  case (Cons e es)
  then obtain net1 where n: "MakeEnd net e = Inr net1" "makeEnds itoa g (Suc j) es (Connect net1 e (ServerName itoa g j)) = Inr net'" by (auto simp: go_inv)
  have "sameServers net (Connect net1 e (ServerName itoa g j))" using n(1) by (auto simp: MakeEnd_def Connect_def sameServers_def split: if_splits)
  then show ?case using Cons.IH [OF n(2)] sameServers_trans by blast
qed (simp add: sameServers_def)

lemma makeSrvs_servers: "makeSrvs itoa g nss net = Inr (net', ss) \<Longrightarrow> sameServers net net' \<and> length ss = length nss"
proof (induction nss arbitrary: net ss)
  case (Cons ns nss)
  from Cons.prems obtain net1 s ss1 where n: "makeEnds itoa g 0 ns net = Inr net1" "makeSrvs itoa g nss net1 = Inr (net', ss1)" "ss = s # ss1"
    by (auto simp: makeServer_def go_inv)
  show ?case using makeEnds_servers [OF n(1)] Cons.IH [OF n(2)] n(3) sameServers_trans by auto
qed (simp add: sameServers_def)

lemma inj_ServerName: "inj itoa \<Longrightarrow> inj (ServerName itoa g)"
  by (rule injI) (simp add: ServerName_def inj_eq)

lemma start_servers:
  assumes "go_each (\<lambda>i. StartServer itoa mks (names i) (obj i) i) xs (net, sg) = Inr (net', sg')" and "inj itoa"
  shows "servers net' = (\<lambda>s. if s \<in> ServerName itoa (gid sg) ` set xs then Some (obj (the_inv (ServerName itoa (gid sg)) s)) else servers net s) \<and>
    longReordering net' = longReordering net"
  using assms(1)
proof (induction xs arbitrary: net sg)
  case (Cons i xs)
  then obtain net1 sg1 where n: "StartServer itoa mks (names i) (obj i) i (net, sg) = Inr (net1, sg1)"
    "go_each (\<lambda>i. StartServer itoa mks (names i) (obj i) i) xs (net1, sg1) = Inr (net', sg')" by (auto simp: go_inv)
  obtain net2 srv where st: "makeEnds itoa (gid sg) 0 (names i) net = Inr net2" "net1 = AddServer net2 (ServerName itoa (gid sg) i) (obj i)"
    "sg1 = sg\<lparr>gsrvs := (gsrvs sg)[i := srv]\<rparr>" using StartServer_law [OF n(1)] by (metis fst_conv snd_conv)
  have inj: "inj (ServerName itoa (gid sg))" by (rule inj_ServerName [OF assms(2)])
  have "gid sg1 = gid sg" using st(3) by simp
  moreover have "servers net1 = (servers net)(ServerName itoa (gid sg) i \<mapsto> obj i)" "longReordering net1 = longReordering net"
    using makeEnds_servers [OF st(1)] by (simp_all add: st(2) AddServer_def sameServers_def)
  moreover have "the_inv (ServerName itoa (gid sg)) (ServerName itoa (gid sg) i) = i" by (rule the_inv_f_f [OF inj])
  ultimately show ?case using Cons.IH [OF n(2)] by auto
qed simp

lemma config_servers:
  assumes "MakeConfig itoa mks nss names obj rel now = Inr cfg" and "inj itoa" and "i < length nss"
  shows "servers (cfgNet cfg) (ServerName itoa GRP0 i) = Some (obj i) \<and> reliable (cfgNet cfg) = rel \<and> \<not> longReordering (cfgNet cfg) \<and> cfgClnts cfg = []"
proof -
  obtain net1 sg1 s2 net3 sg3 where m: "makeSrvGrp itoa GRP0 nss MakeNetwork = Inr (net1, sg1)" "start itoa mks names obj (net1, sg1) = Inr s2"
    "ConnectAll s2 = Inr (net3, sg3)" "cfgNet cfg = Reliable net3 rel" "cfgClnts cfg = []"
    using assms(1) by (auto simp: MakeConfig_def MakeGroupStart_def MakeGroup_def onGroup_def lookupGroup_def StartServers_def go_inv)
  obtain net2 sg2 where s2: "s2 = (net2, sg2)" by (cases s2)
  obtain ss where ss: "makeSrvs itoa GRP0 nss MakeNetwork = Inr (net1, ss)" "gid sg1 = GRP0" "gsrvs sg1 = ss"
    using m(1) by (auto simp: makeSrvGrp_def go_inv)
  have g: "gid sg1 = GRP0" "N sg1 = length nss" "sameServers MakeNetwork net1" using ss makeSrvs_servers [OF ss(1)] by (simp_all add: N_def)
  from the_inv_f_f [OF inj_ServerName [OF assms(2)]] have v: "the_inv (ServerName itoa GRP0) (ServerName itoa GRP0 i) = i" .
  have "servers net2 (ServerName itoa GRP0 i) = Some (obj i)" "longReordering net2 = longReordering net1"
    using start_servers [of itoa mks names obj "all sg1" net1 sg1 net2 sg2] m(2) assms(2,3) g v by (auto simp: start_def s2 all_def)
  moreover have "sameServers net2 net3" using m(3) ConnectAll_servers by (fastforce simp: s2 ConnectAll_def)
  ultimately show ?thesis using g(3) m(4,5) by (simp add: sameServers_def Reliable_def MakeNetwork_def)
qed

text \<open>
  Clerks of the test reach the server. After \<open>MakeTestKV\<close>, the first call of a new clerk makes an end that is
  enabled and connected to the one server, on a network that is as reliable as asked for. The
  clerk can be deleted again: its client is gone and so are its ends, and the clean-up of the
  test is then left with nothing.
\<close>

theorem test_clerk_reaches_server:
  assumes "MakeTestKV itoa mks e0 e1 obj rel now = Inr ts" and "inj itoa" and "TestKV_MakeClerk itoa p ts = (ts1, ck)"
    and "e \<notin> set (ends (cfgNet (ktConfig ts)))"
  shows "\<exists>clnt net clnt'. map_of (cfgClnts (ktConfig ts1)) (ckClnt ck) = Some clnt \<and>
    Clnt_makeEnd e (ckServer ck) (cfgNet (ktConfig ts1), clnt) = Inr (net, clnt', e) \<and>
    readEndnameInfo net e = (True, Some (ckServer ck), Some obj, rel, False) \<and>
    TestKV_DeleteClerk ck (ts1\<lparr>ktConfig := (ktConfig ts1)\<lparr>cfgNet := net, cfgClnts := [(p, clnt')]\<rparr>\<rparr>) =
      Inr (ts1\<lparr>ktConfig := (ktConfig ts1)\<lparr>cfgNet := net\<lparr>ends := ends (cfgNet (ktConfig ts)), enabled := (enabled net)(e := False),
        connections := (connections net)(e := None)\<rparr>, cfgClnts := []\<rparr>\<rparr>)"
proof -
  obtain cfg where cfg: "MakeConfig itoa mks [[e0]] (\<lambda>_. [e1]) (\<lambda>_. obj) rel now = Inr cfg" "ts = MakeTest cfg False"
    using assms(1) by (auto simp: MakeTestKV_def go_inv)
  note net = config_servers [OF cfg(1) assms(2), of 0]
  have same: "filter (\<lambda>a. a \<noteq> e) (ends (cfgNet cfg)) = ends (cfgNet cfg)" using assms(4) by (auto simp: filter_id_conv cfg(2) MakeTest_def)
  show ?thesis using assms(3,4) net same
    by (auto simp: cfg(2) TestKV_MakeClerk_def MakeTest_def MakeClerk_def MakeClient_def MakeClientTo_def makeClntTo_def Clnt_makeEnd_def
        MakeEnd_def Connect_def Enable_def allowedL_def readEndnameInfo_def TestKV_DeleteClerk_def DeleteClient_def remove_def DeleteEnd_def)
qed

end
