(* ===== verification/Kvtest_Spawn.thy ===== *)
theory Kvtest_Spawn
  imports Kvtest
begin

text \<open>
  \<open>SpawnClientsAndWait\<close> and \<open>runClient\<close> of \<open>src/kvtest1/kvtest.go\<close>: the test starts its clients, lets them run,
  sends one signal for each of them on one channel, and collects a result from the channel of each
  client. The channels have no buffer, so a send and its receive are one step of two
  goroutines, and a client that does not take a signal would leave the test waiting for ever.

  The function that the clients run is a parameter (\<open>fclnt\<close>); the locale \<open>client_function\<close> says what it has to
  promise, and proves once that the test can always go on until it returns, with the results in the
  order of the clients. The interpretation is \<open>OneClientPut\<close>.
\<close>

subsection \<open>The goroutines\<close>

record 'w fclnt =
  fBody :: "nat \<Rightarrow> 'w \<Rightarrow> 'w \<Rightarrow> bool"        \<comment> \<open>a step of the function of client \<open>i\<close>\<close>
  fReady :: "nat \<Rightarrow> 'w \<Rightarrow> bool"             \<comment> \<open>it looks whether there is a signal\<close>
  fTake :: "nat \<Rightarrow> 'w \<Rightarrow> 'w"                \<comment> \<open>it has received the signal\<close>
  fResult :: "nat \<Rightarrow> 'w \<Rightarrow> ClntRes option"  \<comment> \<open>it has returned\<close>

datatype mainpc = MSpawn nat | MTell nat | MCollect nat | MReturned

datatype clntpc = TNone | TStarted | TRunning | TSending ClntRes | TDeleting | TOver

record 'w spawnsys =
  spMain :: mainpc
  spRes :: "ClntRes list"
  spClnt :: "nat \<Rightarrow> clntpc"
  spWorld :: 'w

definition setT :: "nat \<Rightarrow> clntpc \<Rightarrow> 'w spawnsys \<Rightarrow> 'w spawnsys" where
  "setT i p s = s\<lparr>spClnt := (spClnt s)(i := p)\<rparr>"

inductive sp_step :: "'w fclnt \<Rightarrow> nat \<Rightarrow> 'w spawnsys \<Rightarrow> 'w spawnsys \<Rightarrow> bool" for f n where
  sp_spawn: "spMain s = MSpawn i \<Longrightarrow> i < n \<Longrightarrow> sp_step f n s ((setT i TStarted s)\<lparr>spMain := MSpawn (Suc i)\<rparr>)"
| sp_slept: "spMain s = MSpawn n \<Longrightarrow> sp_step f n s (s\<lparr>spMain := MTell 0\<rparr>)"
| sp_clerk: "spClnt s i = TStarted \<Longrightarrow> sp_step f n s (setT i TRunning s)"
| sp_body: "spClnt s i = TRunning \<Longrightarrow> fBody f i (spWorld s) w \<Longrightarrow> sp_step f n s (s\<lparr>spWorld := w\<rparr>)"
| sp_tell: "spMain s = MTell j \<Longrightarrow> j < n \<Longrightarrow> spClnt s i = TRunning \<Longrightarrow> fReady f i (spWorld s) \<Longrightarrow>
    sp_step f n s (s\<lparr>spMain := MTell (Suc j), spWorld := fTake f i (spWorld s)\<rparr>)"
| sp_told: "spMain s = MTell n \<Longrightarrow> sp_step f n s (s\<lparr>spMain := MCollect 0\<rparr>)"
| sp_result: "spClnt s i = TRunning \<Longrightarrow> fResult f i (spWorld s) = Some r \<Longrightarrow> sp_step f n s (setT i (TSending r) s)"
| sp_collect: "spMain s = MCollect i \<Longrightarrow> i < n \<Longrightarrow> spClnt s i = TSending r \<Longrightarrow>
    sp_step f n s ((setT i TDeleting s)\<lparr>spMain := MCollect (Suc i), spRes := spRes s @ [r]\<rparr>)"
| sp_return: "spMain s = MCollect n \<Longrightarrow> sp_step f n s (s\<lparr>spMain := MReturned\<rparr>)"
| sp_delete: "spClnt s i = TDeleting \<Longrightarrow> sp_step f n s (setT i TOver s)"

definition sp_init :: "'w \<Rightarrow> 'w spawnsys" where
  "sp_init w = \<lparr>spMain = MSpawn 0, spRes = [], spClnt = (\<lambda>_. TNone), spWorld = w\<rparr>"

lemma setT_simps [simp]:
  "spMain (setT i p s) = spMain s" "spRes (setT i p s) = spRes s" "spWorld (setT i p s) = spWorld s" "spClnt (setT i p s) = (spClnt s)(i := p)"
  by (simp_all add: setT_def)

subsection \<open>What a client function promises\<close>

definition thread_fine :: "'w fclnt \<Rightarrow> 'w \<Rightarrow> nat \<Rightarrow> clntpc \<Rightarrow> bool" where
  \<comment> \<open>whether a client may have returned, by where its goroutine is\<close>
  "thread_fine f w i p = (case p of TNone \<Rightarrow> fResult f i w = None | TStarted \<Rightarrow> fResult f i w = None
     | TSending r \<Rightarrow> fResult f i w = Some r | _ \<Rightarrow> True)"

definition main_fine :: "'w fclnt \<Rightarrow> nat \<Rightarrow> 'w spawnsys \<Rightarrow> bool" where
  "main_fine f n s = (case spMain s of
       MSpawn j \<Rightarrow> j \<le> n \<and> spRes s = [] \<and> (\<forall>i. fResult f i (spWorld s) = None) \<and> (\<forall>i. spClnt s i = TNone \<longleftrightarrow> i \<ge> j)
     | MTell j \<Rightarrow> spRes s = [] \<and> card {i. i < n \<and> fResult f i (spWorld s) \<noteq> None} = j \<and> (\<forall>i. spClnt s i = TNone \<longleftrightarrow> i \<ge> n)
     | MCollect j \<Rightarrow> j \<le> n \<and> (\<forall>i < n. fResult f i (spWorld s) \<noteq> None) \<and> spRes s = map (\<lambda>i. the (fResult f i (spWorld s))) [0..<j]
     | MReturned \<Rightarrow> (\<forall>i < n. fResult f i (spWorld s) \<noteq> None) \<and> spRes s = map (\<lambda>i. the (fResult f i (spWorld s))) [0..<n])"

definition collected :: "nat \<Rightarrow> mainpc \<Rightarrow> nat" where
  "collected n m = (case m of MCollect j \<Rightarrow> j | MReturned \<Rightarrow> n | _ \<Rightarrow> 0)"

definition sp_fine :: "'w fclnt \<Rightarrow> nat \<Rightarrow> 'w spawnsys \<Rightarrow> bool" where
  "sp_fine f n s \<longleftrightarrow> main_fine f n s \<and> (\<forall>i. thread_fine f (spWorld s) i (spClnt s i)) \<and>
     (\<forall>i. spClnt s i = TDeleting \<or> spClnt s i = TOver \<longleftrightarrow> i < collected n (spMain s)) \<and> (\<forall>i \<ge> n. spClnt s i = TNone)"

locale client_function =
  fixes f :: "'w fclnt" and n :: nat and reached :: "nat \<Rightarrow> 'w \<Rightarrow> bool" and cost :: nat and limit :: nat
  assumes starts: "reached 0 w \<Longrightarrow> fResult f i w = None"
    and body_reached: "reached k w \<Longrightarrow> i < n \<Longrightarrow> fBody f i w w' \<Longrightarrow> reached (Suc k) w'"
    and take_reached: "reached k w \<Longrightarrow> i < n \<Longrightarrow> fReady f i w \<Longrightarrow> reached (Suc k) (fTake f i w)"
    and body_result: "fBody f i w w' \<Longrightarrow> fResult f j w' = fResult f j w"
    and take_result: "fReady f i w \<Longrightarrow> fResult f j (fTake f i w) = None \<longleftrightarrow> j \<noteq> i \<and> fResult f j w = None"
    and take_other: "fReady f i w \<Longrightarrow> j \<noteq> i \<Longrightarrow> fResult f j (fTake f i w) = fResult f j w"
    and ready_open: "fReady f i w \<Longrightarrow> fResult f i w = None"
    and comes_to: "reached k w \<Longrightarrow> i < n \<Longrightarrow> fResult f i w = None \<Longrightarrow> k + cost < limit \<Longrightarrow>
      \<exists>m w'. m \<le> cost \<and> (fBody f i ^^ m) w w' \<and> fReady f i w'"
begin

lemma fine_init: "reached 0 w \<Longrightarrow> sp_fine f n (sp_init w)"
  by (simp add: sp_fine_def sp_init_def main_fine_def thread_fine_def collected_def starts)

lemma sp_world:
  assumes "sp_step f n s s'" and "sp_fine f n s" and "reached k (spWorld s)"
  shows "\<exists>k'. k' \<le> Suc k \<and> reached k' (spWorld s')"
  using assms(1)
proof (cases rule: sp_step.cases)
  case (sp_body i w)
  then have "i < n" using assms(2) by (auto simp: sp_fine_def not_less [symmetric])
  then show ?thesis using body_reached [OF assms(3)] sp_body by auto
next
  case (sp_tell j i)
  then have "i < n" using assms(2) by (auto simp: sp_fine_def not_less [symmetric])
  then show ?thesis using take_reached [OF assms(3)] sp_tell by auto
qed (use assms(3) le_SucI in \<open>auto intro!: exI [of _ k]\<close>)

lemma body_fine:
  assumes "sp_fine f n s" and "fBody f i (spWorld s) w"
  shows "sp_fine f n (s\<lparr>spWorld := w\<rparr>)"
  using assms body_result [OF assms(2)] by (simp add: sp_fine_def main_fine_def thread_fine_def cong: mainpc.case_cong clntpc.case_cong)

lemma tell_fine:
  assumes "sp_fine f n s" and "spMain s = MTell j" and "spClnt s i = TRunning" and "fReady f i (spWorld s)"
  shows "sp_fine f n (s\<lparr>spMain := MTell (Suc j), spWorld := fTake f i (spWorld s)\<rparr>)"
proof -
  let ?w = "fTake f i (spWorld s)"
  have i: "i < n" using assms(1,3) by (auto simp: sp_fine_def not_less [symmetric])
  have "{a. a < n \<and> fResult f a ?w \<noteq> None} = insert i {a. a < n \<and> fResult f a (spWorld s) \<noteq> None}"
    using i take_result [OF assms(4)] by auto
  then have "card {a. a < n \<and> fResult f a ?w \<noteq> None} = Suc j"
    using assms(1,2) ready_open [OF assms(4)] by (simp add: sp_fine_def main_fine_def)
  moreover have "thread_fine f ?w a (spClnt s a)" for a
  proof (cases "a = i")
    case False
    have "thread_fine f (spWorld s) a (spClnt s a)" using assms(1) by (simp add: sp_fine_def)
    then show ?thesis using take_other [OF assms(4) False] by (simp add: thread_fine_def cong: clntpc.case_cong)
  qed (simp add: assms(3) thread_fine_def)
  ultimately show ?thesis using assms(1,2) by (simp add: sp_fine_def main_fine_def collected_def)
qed

lemma thread_moves:
  assumes "sp_fine f n s" and "spClnt s i \<noteq> TNone" and "p \<noteq> TNone" and "thread_fine f (spWorld s) i p"
    and "spClnt s i = TDeleting \<or> spClnt s i = TOver \<longleftrightarrow> p = TDeleting \<or> p = TOver"
  shows "sp_fine f n (setT i p s)"
proof -
  have "\<forall>a. ((spClnt s)(i := p)) a = TDeleting \<or> ((spClnt s)(i := p)) a = TOver \<longleftrightarrow> a < collected n (spMain s)"
    using assms(1,5) unfolding sp_fine_def by (metis fun_upd_apply)
  moreover have "\<forall>a. ((spClnt s)(i := p)) a = TNone \<longleftrightarrow> spClnt s a = TNone" using assms(2,3) by simp
  ultimately show ?thesis using assms(1,4) by (simp add: sp_fine_def main_fine_def cong: mainpc.case_cong)
qed

lemma sp_step_fine:
  assumes "sp_step f n s s'" and "sp_fine f n s"
  shows "sp_fine f n s'"
  using assms(1)
proof (cases rule: sp_step.cases)
  case (sp_spawn i)
  then show ?thesis using assms(2) by (auto simp: sp_fine_def main_fine_def thread_fine_def collected_def)
next
  case sp_slept
  then show ?thesis using assms(2) by (simp add: sp_fine_def main_fine_def thread_fine_def collected_def)
next
  case (sp_clerk i)
  then show ?thesis using assms(2) by (auto intro!: thread_moves simp: thread_fine_def)
next
  case (sp_body i w)
  then show ?thesis using body_fine [OF assms(2)] by simp
next
  case (sp_tell j i)
  then show ?thesis using tell_fine [OF assms(2)] by simp
next
  case sp_told
  have "{i. i < n \<and> fResult f i (spWorld s) \<noteq> None} \<subseteq> {..<n}" by auto
  moreover have "card {i. i < n \<and> fResult f i (spWorld s) \<noteq> None} = card {..<n}" using assms(2) sp_told by (simp add: sp_fine_def main_fine_def)
  ultimately have "{i. i < n \<and> fResult f i (spWorld s) \<noteq> None} = {..<n}" by (intro card_subset_eq) simp_all
  then show ?thesis using assms(2) sp_told by (auto simp: sp_fine_def main_fine_def thread_fine_def collected_def)
next
  case (sp_result i r)
  then show ?thesis using assms(2) by (auto intro!: thread_moves simp: thread_fine_def)
next
  case (sp_collect i r)
  then have "fResult f i (spWorld s) = Some r" using assms(2) by (auto simp: sp_fine_def thread_fine_def dest: spec [of _ i])
  then show ?thesis using assms(2) sp_collect by (auto simp: sp_fine_def main_fine_def thread_fine_def collected_def less_Suc_eq)
next
  case sp_return
  then show ?thesis using assms(2) by (simp add: sp_fine_def main_fine_def thread_fine_def collected_def)
next
  case (sp_delete i)
  then show ?thesis using assms(2) by (auto intro!: thread_moves simp: thread_fine_def)
qed

text \<open>The test can go on: each phase can be finished.\<close>

definition on_track :: "nat \<Rightarrow> 'w spawnsys \<Rightarrow> bool" where
  "on_track k s \<longleftrightarrow> sp_fine f n s \<and> (\<exists>k' \<le> k. reached k' (spWorld s))"

lemma on_track_step: "sp_step f n s s' \<Longrightarrow> on_track k s \<Longrightarrow> on_track (Suc k) s'"
  unfolding on_track_def using sp_step_fine sp_world by (meson Suc_le_mono le_trans)

lemma on_track_mono: "on_track k s \<Longrightarrow> k \<le> k' \<Longrightarrow> on_track k' s"
  unfolding on_track_def using le_trans by blast

lemma spawn_all:
  assumes "on_track k s" and "spMain s = MSpawn j"
  shows "\<exists>s'. (sp_step f n)\<^sup>*\<^sup>* s s' \<and> on_track k s' \<and> spMain s' = MTell 0"
  using assms
proof (induction "n - j" arbitrary: s j)
  case 0
  then have "j = n" by (simp add: on_track_def sp_fine_def main_fine_def)
  then have st: "sp_step f n s (s\<lparr>spMain := MTell 0\<rparr>)" using 0 by (intro sp_slept) simp
  have "on_track k (s\<lparr>spMain := MTell 0\<rparr>)" using sp_step_fine [OF st] 0 by (simp add: on_track_def)
  then show ?case using st by (intro exI [of _ "s\<lparr>spMain := MTell 0\<rparr>"]) auto
next
  case (Suc d)
  let ?s = "(setT j TStarted s)\<lparr>spMain := MSpawn (Suc j)\<rparr>"
  have st: "sp_step f n s ?s" using Suc.hyps(2) Suc.prems by (intro sp_spawn) simp_all
  have tr: "on_track k ?s" using sp_step_fine [OF st] Suc.prems by (simp add: on_track_def)
  have "d = n - Suc j" using Suc.hyps(2) by simp
  from Suc.hyps(1) [OF this tr] obtain s' where s': "(sp_step f n)\<^sup>*\<^sup>* ?s s'" "on_track k s' \<and> spMain s' = MTell 0" by auto
  have "(sp_step f n)\<^sup>*\<^sup>* s s'" using st s'(1) by (rule converse_rtranclp_into_rtranclp)
  with s'(2) show ?case by blast
qed

lemma bodies:
  assumes "(fBody f i ^^ m) (spWorld s) w" and "spClnt s i = TRunning" and "on_track k s"
  shows "(sp_step f n)\<^sup>*\<^sup>* s (s\<lparr>spWorld := w\<rparr>) \<and> on_track (k + m) (s\<lparr>spWorld := w\<rparr>)"
  using assms(1)
proof (induction m arbitrary: w)
  case 0
  then have "s\<lparr>spWorld := w\<rparr> = s" by (cases s) simp
  then show ?case using assms(3) by simp
next
  case (Suc m)
  then obtain v where v: "(fBody f i ^^ m) (spWorld s) v" "fBody f i v w" by auto
  note ih = Suc.IH [OF v(1)]
  have st: "sp_step f n (s\<lparr>spWorld := v\<rparr>) (s\<lparr>spWorld := w\<rparr>)" using sp_body [of "s\<lparr>spWorld := v\<rparr>" i f w n] v(2) assms(2) by simp
  have "(sp_step f n)\<^sup>*\<^sup>* s (s\<lparr>spWorld := w\<rparr>)" by (rule rtranclp.rtrancl_into_rtrancl, rule conjunct1 [OF ih], rule st)
  then show ?case using on_track_step [OF st] ih by simp
qed

lemma tell_one:
  assumes "on_track k s" and "spMain s = MTell j" and "j < n" and "k + cost < limit"
  shows "\<exists>s'. (sp_step f n)\<^sup>*\<^sup>* s s' \<and> on_track (k + cost + 1) s' \<and> spMain s' = MTell (Suc j)"
proof -
  have fine: "sp_fine f n s" using assms(1) by (simp add: on_track_def)
  have "\<exists>i < n. fResult f i (spWorld s) = None"
  proof (rule ccontr)
    assume "\<not> ?thesis"
    then have "{i. i < n \<and> fResult f i (spWorld s) \<noteq> None} = {..<n}" by auto
    then show False using fine assms(2,3) by (simp add: sp_fine_def main_fine_def)
  qed
  then obtain i where i: "i < n" "fResult f i (spWorld s) = None" by blast
  have "thread_fine f (spWorld s) i (spClnt s i)" "spClnt s i \<noteq> TNone" "spClnt s i \<noteq> TDeleting" "spClnt s i \<noteq> TOver"
    using fine assms(2) i(1) by (auto simp: sp_fine_def main_fine_def collected_def)
  then have pc: "spClnt s i = TStarted \<or> spClnt s i = TRunning" using i(2) by (cases "spClnt s i") (auto simp: thread_fine_def)
  let ?s = "setT i TRunning s"
  have run: "(sp_step f n)\<^sup>*\<^sup>* s ?s \<and> on_track k ?s"
  proof (cases "spClnt s i = TStarted")
    case True
    then have st: "sp_step f n s ?s" by (rule sp_clerk)
    then show ?thesis using sp_step_fine [OF st] assms(1) by (auto simp: on_track_def)
  next
    case False
    then have "?s = s" using pc by (simp add: setT_def fun_upd_idem)
    then show ?thesis using assms(1) by simp
  qed
  obtain k' where k': "k' \<le> k" "reached k' (spWorld s)" using assms(1) by (auto simp: on_track_def)
  from comes_to [OF k'(2) i] k'(1) assms(4) obtain m w where w: "m \<le> cost" "(fBody f i ^^ m) (spWorld s) w" "fReady f i w" by force
  have b: "(sp_step f n)\<^sup>*\<^sup>* ?s (?s\<lparr>spWorld := w\<rparr>)" "on_track (k + m) (?s\<lparr>spWorld := w\<rparr>)"
    using bodies [of m i ?s w k] w(2) run by simp_all
  let ?t = "?s\<lparr>spWorld := w, spMain := MTell (Suc j), spWorld := fTake f i w\<rparr>"
  have st: "sp_step f n (?s\<lparr>spWorld := w\<rparr>) ?t" using sp_tell [of "?s\<lparr>spWorld := w\<rparr>" j n i f] assms(2,3) w(3) by simp
  have "(sp_step f n)\<^sup>*\<^sup>* s ?t"
    by (rule rtranclp_trans, rule conjunct1 [OF run], rule rtranclp.rtrancl_into_rtrancl, rule b(1), rule st)
  moreover have "on_track (k + cost + 1) ?t" using on_track_mono [OF on_track_step [OF st b(2)]] w(1) by simp
  ultimately show ?thesis by (intro exI [of _ ?t]) simp
qed

lemma tell_all:
  assumes "on_track k s" and "spMain s = MTell j" and "j \<le> n" and "k + (n - j) * (cost + 1) < limit"
  shows "\<exists>s'. (sp_step f n)\<^sup>*\<^sup>* s s' \<and> on_track (k + (n - j) * (cost + 1)) s' \<and> spMain s' = MCollect 0"
  using assms
proof (induction "n - j" arbitrary: s j k)
  case 0
  then have "j = n" by simp
  then have st: "sp_step f n s (s\<lparr>spMain := MCollect 0\<rparr>)" using 0 by (intro sp_told) simp
  have "on_track k (s\<lparr>spMain := MCollect 0\<rparr>)" using sp_step_fine [OF st] 0(2) by (simp add: on_track_def)
  then show ?case using st \<open>j = n\<close> by (intro exI [of _ "s\<lparr>spMain := MCollect 0\<rparr>"]) auto
next
  case (Suc d)
  have "n - j = Suc (n - Suc j)" "j < n" using Suc.hyps(2) by simp_all
  then have room: "k + cost + 1 + (n - Suc j) * (cost + 1) < limit" using Suc.prems(4) by simp
  then have "k + cost < limit" by simp
  from tell_one [OF Suc.prems(1,2) \<open>j < n\<close> this] obtain s1 where
    s1: "(sp_step f n)\<^sup>*\<^sup>* s s1" "on_track (k + cost + 1) s1" "spMain s1 = MTell (Suc j)" by blast
  have "d = n - Suc j" "Suc j \<le> n" using Suc.hyps(2) by simp_all
  from Suc.hyps(1) [OF this(1) s1(2,3) this(2) room] obtain s' where
    s': "(sp_step f n)\<^sup>*\<^sup>* s1 s'" "on_track (k + cost + 1 + (n - Suc j) * (cost + 1)) s' \<and> spMain s' = MCollect 0" by blast
  have "k + cost + 1 + (n - Suc j) * (cost + 1) = k + (n - j) * (cost + 1)" using \<open>n - j = Suc (n - Suc j)\<close> by simp
  then have "on_track (k + (n - j) * (cost + 1)) s'" "spMain s' = MCollect 0" using s'(2) by (simp_all only:)
  moreover have "(sp_step f n)\<^sup>*\<^sup>* s s'" using s1(1) s'(1) by (rule rtranclp_trans)
  ultimately show ?case by blast
qed

lemma collect_one:
  assumes "on_track k s" and "spMain s = MCollect j" and "j < n"
  shows "\<exists>s'. (sp_step f n)\<^sup>*\<^sup>* s s' \<and> on_track k s' \<and> spMain s' = MCollect (Suc j)"
proof -
  have fine: "sp_fine f n s" using assms(1) by (simp add: on_track_def)
  then obtain r where r: "fResult f j (spWorld s) = Some r" using assms(2,3) by (auto simp: sp_fine_def main_fine_def)
  have "thread_fine f (spWorld s) j (spClnt s j)" "\<not> (spClnt s j = TDeleting \<or> spClnt s j = TOver)"
    using fine assms(2) by (auto simp: sp_fine_def collected_def)
  then have pc: "spClnt s j = TRunning \<or> spClnt s j = TSending r" using r by (cases "spClnt s j") (auto simp: thread_fine_def)
  let ?s = "setT j (TSending r) s"
  have run: "(sp_step f n)\<^sup>*\<^sup>* s ?s \<and> on_track k ?s"
  proof (cases "spClnt s j = TRunning")
    case True
    then have st: "sp_step f n s ?s" using r by (rule sp_result)
    then show ?thesis using sp_step_fine [OF st] assms(1) by (auto simp: on_track_def)
  next
    case False
    then have "?s = s" using pc by (simp add: setT_def fun_upd_idem)
    then show ?thesis using assms(1) by simp
  qed
  let ?t = "(setT j TDeleting ?s)\<lparr>spMain := MCollect (Suc j), spRes := spRes ?s @ [r]\<rparr>"
  have st: "sp_step f n ?s ?t" using assms(2,3) by (intro sp_collect) simp_all
  have "(sp_step f n)\<^sup>*\<^sup>* s ?t" by (rule rtranclp.rtrancl_into_rtrancl, rule conjunct1 [OF run], rule st)
  moreover have "on_track k ?t" using sp_step_fine [OF st] run by (simp add: on_track_def)
  ultimately show ?thesis by (intro exI [of _ ?t]) simp
qed

lemma collect_all:
  assumes "on_track k s" and "spMain s = MCollect j"
  shows "\<exists>s'. (sp_step f n)\<^sup>*\<^sup>* s s' \<and> on_track k s' \<and> spMain s' = MReturned"
  using assms
proof (induction "n - j" arbitrary: s j)
  case 0
  then have "j = n" by (simp add: on_track_def sp_fine_def main_fine_def)
  then have st: "sp_step f n s (s\<lparr>spMain := MReturned\<rparr>)" using 0 by (intro sp_return) simp
  have "on_track k (s\<lparr>spMain := MReturned\<rparr>)" using sp_step_fine [OF st] 0 by (simp add: on_track_def)
  then show ?case using st by (intro exI [of _ "s\<lparr>spMain := MReturned\<rparr>"]) auto
next
  case (Suc d)
  then have "j < n" "d = n - Suc j" by simp_all
  from collect_one [OF Suc.prems this(1)] obtain s1 where s1: "(sp_step f n)\<^sup>*\<^sup>* s s1" "on_track k s1" "spMain s1 = MCollect (Suc j)" by blast
  from Suc.hyps(1) [OF \<open>d = n - Suc j\<close> s1(2,3)] obtain s' where s': "(sp_step f n)\<^sup>*\<^sup>* s1 s'" "on_track k s' \<and> spMain s' = MReturned" by blast
  have "(sp_step f n)\<^sup>*\<^sup>* s s'" using s1(1) s'(1) by (rule rtranclp_trans)
  with s'(2) show ?case by blast
qed

lemma can_return:
  assumes "on_track k s" and "k + n * (cost + 1) < limit"
  shows "\<exists>s'. (sp_step f n)\<^sup>*\<^sup>* s s' \<and> on_track (k + n * (cost + 1)) s' \<and> spMain s' = MReturned"
proof -
  have told: "\<exists>s'. (sp_step f n)\<^sup>*\<^sup>* t s' \<and> on_track (k + n * (cost + 1)) s' \<and> spMain s' = MReturned" if t: "on_track k t" "spMain t = MTell j" for t j
  proof -
    have "card {i. i < n \<and> fResult f i (spWorld t) \<noteq> None} \<le> card {..<n}" by (rule card_mono) auto
    then have j: "j \<le> n" using t by (simp add: on_track_def sp_fine_def main_fine_def)
    then have le: "(n - j) * (cost + 1) \<le> n * (cost + 1)" by (intro mult_le_mono1) simp
    then have "k + (n - j) * (cost + 1) < limit" using assms(2) by linarith
    from tell_all [OF t j this] obtain u where u: "(sp_step f n)\<^sup>*\<^sup>* t u" "on_track (k + (n - j) * (cost + 1)) u" "spMain u = MCollect 0" by blast
    have "on_track (k + n * (cost + 1)) u" using on_track_mono [OF u(2)] le by simp
    from collect_all [OF this u(3)] obtain s' where s': "(sp_step f n)\<^sup>*\<^sup>* u s'" "on_track (k + n * (cost + 1)) s' \<and> spMain s' = MReturned" by blast
    have "(sp_step f n)\<^sup>*\<^sup>* t s'" using u(1) s'(1) by (rule rtranclp_trans)
    with s'(2) show ?thesis by blast
  qed
  have more: "on_track (k + n * (cost + 1)) s" using on_track_mono [OF assms(1)] by simp
  show ?thesis
  proof (cases "spMain s")
    case (MSpawn j)
    from spawn_all [OF assms(1) this] obtain t where t: "(sp_step f n)\<^sup>*\<^sup>* s t" "on_track k t" "spMain t = MTell 0" by blast
    from told [OF t(2,3)] obtain s' where s': "(sp_step f n)\<^sup>*\<^sup>* t s'" "on_track (k + n * (cost + 1)) s' \<and> spMain s' = MReturned" by blast
    have "(sp_step f n)\<^sup>*\<^sup>* s s'" using t(1) s'(1) by (rule rtranclp_trans)
    with s'(2) show ?thesis by blast
  next
    case (MTell j)
    then show ?thesis by (rule told [OF assms(1)])
  next
    case (MCollect j)
    then show ?thesis by (rule collect_all [OF more])
  next
    case MReturned
    then show ?thesis using more by blast
  qed
qed

lemma run_on_track:
  assumes "(sp_step f n ^^ m) (sp_init w) s" and "reached 0 w"
  shows "on_track m s"
  using assms(1)
proof (induction m arbitrary: s)
  case 0
  then show ?case using fine_init [OF assms(2)] assms(2) by (auto simp: on_track_def sp_init_def)
next
  case (Suc m)
  then show ?case using on_track_step by auto
qed

lemma returned_results:
  assumes "on_track k s" and "spMain s = MReturned"
  shows "length (spRes s) = n \<and> (\<forall>i < n. fResult f i (spWorld s) = Some (spRes s ! i)) \<and> (\<exists>k' \<le> k. reached k' (spWorld s))"
  using assms by (auto simp: on_track_def sp_fine_def main_fine_def)

end

subsection \<open>Racing puts\<close>

definition put_body :: "bool \<Rightarrow> nat \<Rightarrow> (EntryV \<Rightarrow> string) \<Rightarrow> (string \<Rightarrow> EntryV option) \<Rightarrow> string \<Rightarrow> nat \<Rightarrow> putsys \<Rightarrow> putsys \<Rightarrow> bool" where
  \<comment> \<open>a step of one client of \<open>OneClientPut\<close>, other than the return\<close>
  "put_body rel n enc dec key i w w' \<longleftrightarrow> put_step rel n enc dec key w w' \<and> (\<forall>j. j \<noteq> i \<longrightarrow> psClnt w' j = psClnt w j) \<and>
     ppc (psClnt w i) \<noteq> PStop \<and> ppc (psClnt w' i) \<noteq> PStop"

definition OneClientPut_fn :: "bool \<Rightarrow> nat \<Rightarrow> (EntryV \<Rightarrow> string) \<Rightarrow> (string \<Rightarrow> EntryV option) \<Rightarrow> string \<Rightarrow> putsys fclnt" where
  \<comment> \<open>\<open>OneClientPut\<close> looks for the signal between two puts and then returns its counts\<close>
  "OneClientPut_fn rel n enc dec key = \<lparr>fBody = put_body rel n enc dec key,
     fReady = (\<lambda>i w. ppc (psClnt w i) = PIter), fTake = (\<lambda>i w. gotoP i PStop w),
     fResult = (\<lambda>i w. if ppc (psClnt w i) = PStop then Some (pres (psClnt w i)) else None)\<rparr>"

lemma psClnt_setP [simp]: "psClnt (setP i c s) = (psClnt s)(i := c)" "psServer (setP i c s) = psServer s"
  by (simp_all add: setP_def)

lemma put_bodyI:
  assumes "put_step rel n enc dec key w w'" and "psClnt w' = (psClnt w)(i := c)" and "ppc (psClnt w i) \<noteq> PStop" and "ppc c \<noteq> PStop"
  shows "put_body rel n enc dec key i w w'"
  using assms by (simp add: put_body_def)

lemma put_body_run:
  "(put_body rel n enc dec key i ^^ m) w w' \<Longrightarrow> put_run rel n enc dec key k w \<Longrightarrow> put_run rel n enc dec key (k + m) w'"
proof (induction m arbitrary: w')
  case (Suc m)
  then show ?case by (auto simp: put_body_def intro: put_next)
qed simp

text \<open>What a client that has a put in hand finds, by where it is.\<close>

lemma put_places:
  assumes "put_run rel n enc dec key k w" and "k + 1 < 2 ^ 64" and json: "\<And>e. dec (enc e) = Some e" and i: "i < n"
  shows "unat (pver (psClnt w i)) \<le> unat (verOf (psServer w) key)"
    "\<And>retry err. ppc (psClnt w i) = PPutDone retry err \<Longrightarrow> onePutErr (clerkErr retry err) (psClnt w i) = Inr ((psClnt w i)\<lparr>ppc := PGet (clerkErr retry err)\<rparr>)"
    "\<And>err r. ppc (psClnt w i) = PGot err r \<Longrightarrow> \<exists>c'. onePutGot dec i err r (psClnt w i) = Inr c' \<and>
       (ppc c' = PIter \<or> ppc c' = PPut False \<and> pver c' = gVersion r \<and> err \<noteq> OK \<and> err \<noteq> ErrMaybe)"
    "\<And>err. ppc (psClnt w i) = PGet err \<Longrightarrow> 0 < unat (verOf (psServer w) key)"
proof -
  obtain ap where inv: "put_inv rel n enc key k w ap" using put_run_inv [OF assms(1) _ json] assms(2) by auto
  let ?v = "verOf (psServer w) key" and ?val = "valOf (psServer w) key"
  have ok: "putOk rel enc i ?val ?v (psClnt w i) (ap i)" "unat ?v < 2 ^ 64 - 1" using inv i assms(2) by (auto simp: put_inv_def Let_def)
  show "unat (pver (psClnt w i)) \<le> unat ?v" using ok(1) by (rule putOkE)
  obtain b where b: "placeOk rel enc i ?val ?v (psClnt w i) b" using ok(1) by (rule putOkE)
  show "onePutErr (clerkErr retry err) (psClnt w i) = Inr ((psClnt w i)\<lparr>ppc := PGet (clerkErr retry err)\<rparr>)"
    if "ppc (psClnt w i) = PPutDone retry err" for retry err using onePutErr_ok(1) [OF b that] .
  show "\<exists>c'. onePutGot dec i err r (psClnt w i) = Inr c' \<and> (ppc c' = PIter \<or> ppc c' = PPut False \<and> pver c' = gVersion r \<and> err \<noteq> OK \<and> err \<noteq> ErrMaybe)"
    if at: "ppc (psClnt w i) = PGot err r" for err r
  proof -
    obtain c' where c': "onePutGot dec i err r (psClnt w i) = Inr c'" using onePutGot_ok [where dec = dec, OF ok(1) at json ok(2)] by blast
    then have "ppc c' = PIter \<or> ppc c' = PPut False \<and> pver c' = gVersion r \<and> err \<noteq> OK \<and> err \<noteq> ErrMaybe"
      by (auto simp: onePutGot_def GetJson_def Let_def countPut_def go_inv split: if_splits option.splits)
    with c' show ?thesis by blast
  qed
  show "0 < unat ?v" if "ppc (psClnt w i) = PGet err" for err using b that by (auto simp: placeOk_def Let_def)
qed

definition comes :: "bool \<Rightarrow> nat \<Rightarrow> (EntryV \<Rightarrow> string) \<Rightarrow> (string \<Rightarrow> EntryV option) \<Rightarrow> string \<Rightarrow> nat \<Rightarrow> nat \<Rightarrow> putsys \<Rightarrow> bool" where
  \<comment> \<open>within \<open>m\<close> steps of its own the client is between two puts\<close>
  "comes rel n enc dec key i m w \<longleftrightarrow> (\<exists>m' w'. m' \<le> m \<and> (put_body rel n enc dec key i ^^ m') w w' \<and> ppc (psClnt w' i) = PIter)"

lemma comes_now: "ppc (psClnt w i) = PIter \<Longrightarrow> comes rel n enc dec key i m w"
  unfolding comes_def by (intro exI [of _ 0] exI [of _ w]) simp

lemma comes_mono: "comes rel n enc dec key i m w \<Longrightarrow> m \<le> m' \<Longrightarrow> comes rel n enc dec key i m' w"
  unfolding comes_def using le_trans by blast

lemma comes_next:
  assumes "put_step rel n enc dec key w w1" and "put_run rel n enc dec key k w" and "psClnt w1 = (psClnt w)(i := c)" and "ppc (psClnt w i) \<noteq> PStop" "ppc c \<noteq> PStop"
    and "put_run rel n enc dec key (Suc k) w1 \<Longrightarrow> comes rel n enc dec key i m w1"
  shows "comes rel n enc dec key i (Suc m) w"
proof -
  have "put_run rel n enc dec key (Suc k) w1" using put_next [OF assms(2,1)] .
  then obtain m' w' where w': "m' \<le> m" "(put_body rel n enc dec key i ^^ m') w1 w'" "ppc (psClnt w' i) = PIter" using assms(6) by (auto simp: comes_def)
  have "(put_body rel n enc dec key i ^^ Suc m') w w'" by (rule relpowp_Suc_I2, rule put_bodyI [OF assms(1,3,4,5)], rule w'(2))
  then show ?thesis unfolding comes_def using w'(1,3) by (intro exI [of _ "Suc m'"] exI [of _ w']) simp
qed

lemma got_comes:
  assumes "put_run rel n enc dec key k w" and "k + 1 < 2 ^ 64" and "\<And>e. dec (enc e) = Some e" and "i < n" and at: "ppc (psClnt w i) = PGot err r"
    and again: "\<And>w1. put_run rel n enc dec key (Suc k) w1 \<Longrightarrow> ppc (psClnt w1 i) = PPut False \<Longrightarrow> psServer w1 = psServer w \<Longrightarrow> pver (psClnt w1 i) = gVersion r \<Longrightarrow>
      err \<noteq> OK \<Longrightarrow> comes rel n enc dec key i m w1"
  shows "comes rel n enc dec key i (Suc m) w"
proof -
  from put_places(3) [OF assms(1-4) at] obtain c where c: "onePutGot dec i err r (psClnt w i) = Inr c"
    "ppc c = PIter \<or> ppc c = PPut False \<and> pver c = gVersion r \<and> err \<noteq> OK \<and> err \<noteq> ErrMaybe" by blast
  show ?thesis
    by (rule comes_next [where c = c, OF p_got [OF assms(4) at c(1)] assms(1)]) (use at c(2) comes_now again in auto)
qed

lemma get_comes:
  assumes "put_run rel n enc dec key k w" and "k + 2 < 2 ^ 64" and "\<And>e. dec (enc e) = Some e" and "i < n" and at: "ppc (psClnt w i) = PGet err"
    and again: "\<And>w1. put_run rel n enc dec key (Suc (Suc k)) w1 \<Longrightarrow> ppc (psClnt w1 i) = PPut False \<Longrightarrow> pver (psClnt w1 i) = verOf (psServer w1) key \<Longrightarrow>
      err \<noteq> OK \<Longrightarrow> comes rel n enc dec key i m w1"
  shows "comes rel n enc dec key i (Suc (Suc m)) w"
proof -
  let ?r = "Get (psServer w) key"
  have "k + 1 < 2 ^ 64" using assms(2) by simp
  from put_places(4) [OF assms(1) this assms(3,4) at] have "kvStore (psServer w) key \<noteq> None" by (rule verOf_pos_present)
  then have v: "gVersion ?r = verOf (psServer w) key" by (auto simp: Get_lock)
  show ?thesis
  proof (rule comes_next [where c = "(psClnt w i)\<lparr>ppc := PGot err ?r\<rparr>", OF p_get [OF assms(4) at] assms(1)])
    assume run: "put_run rel n enc dec key (Suc k) (gotoP i (PGot err ?r) w)"
    show "comes rel n enc dec key i (Suc m) (gotoP i (PGot err ?r) w)"
      by (rule got_comes [OF run _ assms(3,4), of err ?r]) (use assms(2) v again in \<open>simp_all add: gotoP_def\<close>)
  qed (use at in \<open>simp_all add: gotoP_def\<close>)
qed

lemma putDone_comes:
  assumes "put_run rel n enc dec key k w" and "k + 3 < 2 ^ 64" and "\<And>e. dec (enc e) = Some e" and "i < n" and at: "ppc (psClnt w i) = PPutDone retry err"
    and again: "\<And>w1. put_run rel n enc dec key (k + 3) w1 \<Longrightarrow> ppc (psClnt w1 i) = PPut False \<Longrightarrow> pver (psClnt w1 i) = verOf (psServer w1) key \<Longrightarrow>
      err \<noteq> OK \<Longrightarrow> comes rel n enc dec key i m w1"
  shows "comes rel n enc dec key i (m + 3) w"
proof -
  have "k + 1 < 2 ^ 64" using assms(2) by simp
  note ok = put_places(2) [OF assms(1) this assms(3,4) at]
  let ?c = "(psClnt w i)\<lparr>ppc := PGet (clerkErr retry err)\<rparr>"
  have bad: "clerkErr retry err \<noteq> OK \<Longrightarrow> err \<noteq> OK" by (auto simp: clerkErr_def)
  have "comes rel n enc dec key i (Suc (Suc (Suc m))) w"
  proof (rule comes_next [where c = ?c, OF p_put_done [OF assms(4) at ok] assms(1)])
    assume run: "put_run rel n enc dec key (Suc k) (setP i ?c w)"
    show "comes rel n enc dec key i (Suc (Suc m)) (setP i ?c w)"
      by (rule get_comes [OF run _ assms(3,4), of "clerkErr retry err"]) (use assms(2) again bad in \<open>auto simp: numeral_3_eq_3\<close>)
  qed (use at in simp_all)
  then show ?thesis by (simp add: numeral_3_eq_3)
qed

lemma put_comes:
  assumes "put_run rel n enc dec key k w" and "k + 4 < 2 ^ 64" and "\<And>e. dec (enc e) = Some e" and "i < n" and at: "ppc (psClnt w i) = PPut retry"
    and again: "\<And>w1. put_run rel n enc dec key (k + 4) w1 \<Longrightarrow> ppc (psClnt w1 i) = PPut False \<Longrightarrow> pver (psClnt w1 i) = verOf (psServer w1) key \<Longrightarrow>
      pver (psClnt w i) \<noteq> verOf (psServer w) key \<Longrightarrow> comes rel n enc dec key i m w1"
  shows "comes rel n enc dec key i (m + 4) w"
proof -
  let ?a = "\<lparr>pKey = key, pValue = enc \<lparr>evId = i, evV = pver (psClnt w i)\<rparr>, pVersion = pver (psClnt w i)\<rparr>"
  obtain kv err where p: "Put (psServer w) ?a = (kv, err)" by fastforce
  have hit: "err \<noteq> OK \<Longrightarrow> pver (psClnt w i) \<noteq> verOf (psServer w) key" using p by (auto simp: Put_def verOf_simps split: option.splits if_splits)
  let ?c = "(psClnt w i)\<lparr>ppc := PPutDone retry err\<rparr>" and ?w = "(gotoP i (PPutDone retry err) w)\<lparr>psServer := kv\<rparr>"
  have "comes rel n enc dec key i (Suc (m + 3)) w"
  proof (rule comes_next [where c = ?c, OF p_put [of i n w retry key enc kv err, OF assms(4) at p] assms(1)])
    assume run: "put_run rel n enc dec key (Suc k) ?w"
    show "comes rel n enc dec key i (m + 3) ?w"
      by (rule putDone_comes [OF run _ assms(3,4), of retry err]) (use assms(2) again hit in \<open>auto simp: gotoP_def setP_def add.commute\<close>)
  qed (use at in \<open>simp_all add: gotoP_def\<close>)
  then show ?thesis by (simp add: add.commute)
qed

lemma put_client_comes:
  assumes "put_run rel n enc dec key k w" and "k + 9 < 2 ^ 64" and json: "\<And>e. dec (enc e) = Some e" and i: "i < n" and "ppc (psClnt w i) \<noteq> PStop"
  shows "comes rel n enc dec key i 9 w"
proof -
  have fresh: "comes rel n enc dec key i 4 w'"
    if "put_run rel n enc dec key k' w'" "k' \<le> k + 5" "ppc (psClnt w' i) = PPut r" "pver (psClnt w' i) = verOf (psServer w') key" for k' w' r
    using put_comes [OF that(1) _ json i that(3), of 0] that(2,4) assms(2) by simp
  have put: "comes rel n enc dec key i 8 w'" if "put_run rel n enc dec key k' w'" "k' \<le> k + 1" "ppc (psClnt w' i) = PPut r" for k' w' r
    using put_comes [OF that(1) _ json i that(3), of 4] fresh that(2) assms(2) by simp
  show ?thesis
  proof (cases "ppc (psClnt w i)")
    case PIter
    then show ?thesis by (rule comes_now)
  next
    case (PPut r)
    then show ?thesis using comes_mono [OF put [OF assms(1) _ PPut]] by simp
  next
    case (PPutDone r err)
    show ?thesis by (rule comes_mono [OF putDone_comes [OF assms(1) _ json i PPutDone, of 4]]) (use fresh assms(2) in auto)
  next
    case (PGet err)
    show ?thesis by (rule comes_mono [OF get_comes [OF assms(1) _ json i PGet, of 4]]) (use fresh assms(2) in auto)
  next
    case (PGot err r)
    show ?thesis by (rule comes_mono [OF got_comes [OF assms(1) _ json i PGot, of 8]]) (use put assms(2) in auto)
  qed (use assms(5) in simp)
qed

interpretation puts: client_function "OneClientPut_fn rel n enc dec key" n "\<lambda>k w. put_run rel n enc dec key k w \<and> (\<forall>e. dec (enc e) = Some e)" 9 "2 ^ 64"
proof (unfold_locales, goal_cases)
  case (1 w i)
  then have "w = init_put" by (auto elim: put_run.cases)
  then show ?case by (simp add: OneClientPut_fn_def init_put_def)
next
  case (2 k w i w')
  then show ?case by (auto simp: OneClientPut_fn_def put_body_def intro: put_next)
next
  case (3 k w i)
  then show ?case by (auto simp: OneClientPut_fn_def intro!: put_next p_done)
next
  case (4 i w w' j)
  then show ?case by (cases "j = i") (auto simp: OneClientPut_fn_def put_body_def)
next
  case (8 k w i)
  then have "comes rel n enc dec key i 9 w" by (intro put_client_comes [of rel n enc dec key k w i]) (auto simp: OneClientPut_fn_def split: if_splits)
  then show ?case by (auto simp: comes_def OneClientPut_fn_def)
qed (auto simp: OneClientPut_fn_def gotoP_def)

lemma returned_puts:
  assumes "puts.on_track rel n enc dec key k s" and "k + 1 < 2 ^ 64" and "spMain s = MReturned"
  shows "spRes s = map (\<lambda>i. pres (psClnt (spWorld s) i)) [0..<n] \<and>
    (\<exists>res. CheckPutConcurrent (verOf (psServer (spWorld s)) key) (spRes s) \<lparr>Nok = 0, Nmaybe = 0\<rparr> rel = Inr res)"
proof -
  obtain k' where k': "k' \<le> k" "put_run rel n enc dec key k' (spWorld s)" "\<And>e. dec (enc e) = Some e"
    and r: "length (spRes s) = n" "\<And>i. i < n \<Longrightarrow> fResult (OneClientPut_fn rel n enc dec key) i (spWorld s) = Some (spRes s ! i)"
    using puts.returned_results [OF assms(1,3)] by blast
  have "ppc (psClnt (spWorld s) i) = PStop \<and> spRes s ! i = pres (psClnt (spWorld s) i)" if "i < n" for i
    using r(2) [OF that] by (auto simp: OneClientPut_fn_def split: if_splits)
  then have eq: "spRes s = map (\<lambda>i. pres (psClnt (spWorld s) i)) [0..<n]" "\<forall>i < n. ppc (psClnt (spWorld s) i) = PStop"
    using r(1) by (auto intro!: nth_equalityI)
  have "k' + 1 < 2 ^ 64" using k'(1) assms(2) by simp
  from racing_puts_pass [OF k'(2) this k'(3)] eq show ?thesis by auto
qed

text \<open>
  Property C32 (the racing puts of the tests can be finished and pass). Let \<open>SpawnClientsAndWait\<close> run \<open>OneClientPut\<close> in \<open>n\<close> clients on one key,
  on a reliable or an unreliable network. From every reachable state the test can go on until it returns:
  no client is stuck in \<open>OnePut\<close>, every signal finds a client that takes it, and every result is
  collected. Whenever it has returned, it has the counts of the clients in their order, and
  \<open>CheckPutConcurrent\<close> accepts them. (The run has fewer than \<open>2 ^ 64\<close> steps, so no version wraps.)
\<close>

theorem spawned_puts_finish:
  assumes "(sp_step (OneClientPut_fn rel n enc dec key) n ^^ m) (sp_init init_put) s" and "m + 10 * n + 1 < 2 ^ 64" and "\<forall>e. dec (enc e) = Some e"
  shows "(\<exists>s'. (sp_step (OneClientPut_fn rel n enc dec key) n)\<^sup>*\<^sup>* s s' \<and> spMain s' = MReturned \<and>
      (\<exists>res. CheckPutConcurrent (verOf (psServer (spWorld s')) key) (spRes s') \<lparr>Nok = 0, Nmaybe = 0\<rparr> rel = Inr res)) \<and>
    (spMain s = MReturned \<longrightarrow> spRes s = map (\<lambda>i. pres (psClnt (spWorld s) i)) [0..<n] \<and>
      (\<exists>res. CheckPutConcurrent (verOf (psServer (spWorld s)) key) (spRes s) \<lparr>Nok = 0, Nmaybe = 0\<rparr> rel = Inr res))"
proof -
  have s: "puts.on_track rel n enc dec key m s" by (rule puts.run_on_track [OF assms(1)]) (use assms(3) put_init in blast)
  have "m + n * (9 + 1) < 2 ^ 64" using assms(2) by simp
  from puts.can_return [OF s this] obtain s' where
    s': "(sp_step (OneClientPut_fn rel n enc dec key) n)\<^sup>*\<^sup>* s s'" "puts.on_track rel n enc dec key (m + n * (9 + 1)) s'" "spMain s' = MReturned" by blast
  have "m + n * (9 + 1) + 1 < 2 ^ 64" "m + 1 < 2 ^ 64" using assms(2) by simp_all
  with returned_puts [OF s'(2) _ s'(3)] returned_puts [OF s] s'(1,3) show ?thesis by blast
qed

theorem spawned_puts_finish_witness:
  "\<exists>s'. (sp_step (OneClientPut_fn False 3 ex_encv ex_decv ''k'') 3)\<^sup>*\<^sup>* (sp_init init_put) s' \<and> spMain s' = MReturned \<and>
     (\<exists>res. CheckPutConcurrent (verOf (psServer (spWorld s')) ''k'') (spRes s') \<lparr>Nok = 0, Nmaybe = 0\<rparr> False = Inr res)"
proof -
  have "(sp_step (OneClientPut_fn False 3 ex_encv ex_decv ''k'') 3 ^^ 0) (sp_init init_put) (sp_init init_put)" by simp
  from spawned_puts_finish [OF this] show ?thesis by (simp add: ex_json)
qed

end
