(* ===== verification/Shardcfg.thy ===== *)
theory Shardcfg
  imports Go_Prelude
begin

text \<open>
  Shard configurations (\<open>src/shardkv1/shardcfg/shardcfg.go\<close>): which group serves which shard, joins
  and leaves of groups, and the rebalancing of the shards.

  A Go map of groups is an association list with different keys; the order of the list is the
  order in which the run time happens to iterate over the map, so statements for all lists hold
  for every iteration order. An array of shards is a list of length \<open>NShards\<close>. Ranging over the array
  ranges over a copy of it, as in Go. The loop of \<open>Rebalance\<close> is a partial function (\<open>None\<close> is a
  loop without end), and a theorem shows that it always ends.
\<close>

definition NShards :: nat where "NShards = 12"

definition Key2Shard :: "string \<Rightarrow> nat" where
  "Key2Shard key = unat (fnv32a (go_bytes key)) mod NShards"

record ShardConfig =
  Num :: int
  Shards :: "int list"
  Groups :: "(int \<times> string list) list"

definition gids :: "ShardConfig \<Rightarrow> int list" where
  "gids c = map fst (Groups c)"

definition MakeShardConfig :: ShardConfig where
  "MakeShardConfig = \<lparr>Num = 0, Shards = replicate NShards 0, Groups = []\<rparr>"

definition Copy :: "ShardConfig \<Rightarrow> ShardConfig" where
  "Copy cfg = MakeShardConfig\<lparr>Num := Num cfg, Shards := Shards cfg,
                 Groups := foldl (\<lambda>m (k, srvs). m @ [(k, srvs)]) [] (Groups cfg)\<rparr>"

subsection \<open>Balancing\<close>

definition counts :: "ShardConfig \<Rightarrow> int \<Rightarrow> int" where
  "counts c g = int (count_list (Shards c) g)"

definition analyze :: "ShardConfig \<Rightarrow> int \<times> int \<times> int \<times> int" where
  \<comment> \<open>mostgroup, mostn, leastgroup, leastn\<close>
  "analyze c =
     foldl (\<lambda>(mg, mn, lg, ln) g.
              let (lg, ln) = (if counts c g < ln then (g, counts c g) else (lg, ln));
                  (mg, mn) = (if counts c g > mn then (g, counts c g) else (mg, mn))
              in (mg, mn, lg, ln))
           (-1, -1, -1, 257) (sort (gids c))"

definition least :: "ShardConfig \<Rightarrow> int" where
  "least c = (case analyze c of (_, _, lg, _) \<Rightarrow> lg)"

definition assignAll :: "ShardConfig \<Rightarrow> ShardConfig" where
  \<comment> \<open>assign all unassigned shards\<close>
  "assignAll c =
     foldl (\<lambda>c (s, g). if g \<in> set (gids c) then c else c\<lparr>Shards := (Shards c)[s := least c]\<rparr>)
           c (enumerate 0 (Shards c))"

fun moveFirst :: "int \<Rightarrow> int \<Rightarrow> int list \<Rightarrow> int list" where
  \<comment> \<open>the inner loop: the first shard of group \<open>mg\<close> goes to group \<open>lg\<close>\<close>
  "moveFirst mg lg [] = []"
| "moveFirst mg lg (g # gs) = (if g = mg then lg # gs else g # moveFirst mg lg gs)"

partial_function (option) moveAll :: "ShardConfig \<Rightarrow> ShardConfig option" where
  \<comment> \<open>move shards from most to least heavily loaded\<close>
  "moveAll c =
     (case analyze c of (mg, mn, lg, ln) \<Rightarrow>
        if mn < ln + 2 then Some c
        else moveAll (c\<lparr>Shards := moveFirst mg lg (Shards c)\<rparr>))"

definition Rebalance :: "ShardConfig \<Rightarrow> ShardConfig option" where
  "Rebalance c =
     (if length (Groups c) < 1 then Some (c\<lparr>Shards := map (\<lambda>_. 0) (Shards c)\<rparr>)
      else moveAll (assignAll c))"

subsection \<open>Joining and leaving\<close>

definition sharesServer :: "ShardConfig \<Rightarrow> string list \<Rightarrow> bool" where
  "sharesServer cfg srvs =
     list_ex (\<lambda>(xgid, xservers). list_ex (\<lambda>s1. list_ex (\<lambda>s2. s1 = s2) srvs) xservers) (Groups cfg)"

fun Join_loop :: "ShardConfig \<Rightarrow> (int \<times> string list) list \<Rightarrow> (ShardConfig \<times> bool) go" where
  \<comment> \<open>the flag is false when a group was already there: \<open>Join\<close> then returns false at once\<close>
  "Join_loop cfg [] = Inr (cfg, True)"
| "Join_loop cfg ((gid, srvs) # rest) =
     (if gid \<in> set (gids cfg) then Inr (cfg, False)
      else if sharesServer cfg srvs then Inl LogFatal
      else Join_loop (cfg\<lparr>Groups := Groups cfg @ [(gid, srvs)]\<rparr>) rest)"

definition Join :: "ShardConfig \<Rightarrow> (int \<times> string list) list \<Rightarrow> (ShardConfig \<times> bool) go" where
  "Join cfg srvs =
     go_bind (Join_loop cfg srvs) (\<lambda>(cfg1, ok).
       if \<not> ok then Inr (cfg1, False)
       else if srvs = [] then Inl LogFatal
       else Inr (cfg1\<lparr>Num := Num cfg1 + 1\<rparr>, True))"

fun Leave_loop :: "ShardConfig \<Rightarrow> int list \<Rightarrow> ShardConfig \<times> bool" where
  "Leave_loop cfg [] = (cfg, True)"
| "Leave_loop cfg (gid # rest) =
     (if gid \<notin> set (gids cfg) then (cfg, False)
      else Leave_loop (cfg\<lparr>Groups := filter (\<lambda>g. fst g \<noteq> gid) (Groups cfg)\<rparr>) rest)"

definition Leave :: "ShardConfig \<Rightarrow> int list \<Rightarrow> (ShardConfig \<times> bool) go" where
  "Leave cfg gs =
     (let (cfg1, ok) = Leave_loop cfg gs in
      if \<not> ok then Inr (cfg1, False)
      else if gs = [] then Inl LogFatal
      else Inr (cfg1\<lparr>Num := Num cfg1 + 1\<rparr>, True))"

definition thenRebalance :: "(ShardConfig \<times> bool) go \<Rightarrow> (ShardConfig \<times> bool) go option" where
  \<comment> \<open>the common part of \<open>JoinBalance\<close> and \<open>LeaveBalance\<close>\<close>
  "thenRebalance r =
     (case r of Inl e \<Rightarrow> Some (Inl e)
      | Inr (cfg, ok) \<Rightarrow> if \<not> ok then Some (Inr (cfg, False))
                       else map_option (\<lambda>c. Inr (c, True)) (Rebalance cfg))"

definition JoinBalance :: "ShardConfig \<Rightarrow> (int \<times> string list) list \<Rightarrow> (ShardConfig \<times> bool) go option" where
  "JoinBalance cfg srvs = thenRebalance (Join cfg srvs)"

definition LeaveBalance :: "ShardConfig \<Rightarrow> int list \<Rightarrow> (ShardConfig \<times> bool) go option" where
  "LeaveBalance cfg gs = thenRebalance (Leave cfg gs)"

definition GidServers :: "ShardConfig \<Rightarrow> int \<Rightarrow> (int \<times> string list option) go" where
  "GidServers cfg sh = go_bind (go_index (Shards cfg) sh) (\<lambda>gid. Inr (gid, map_of (Groups cfg) gid))"

definition IsMember :: "ShardConfig \<Rightarrow> int \<Rightarrow> bool" where
  "IsMember cfg gid = list_ex (\<lambda>g. g = gid) (Shards cfg)"

subsection \<open>The checks of the tests\<close>

datatype cfg_fault = WrongNumber | MissingGroup int | InvalidGroup int | Unbalanced int int

definition minMax :: "ShardConfig \<Rightarrow> int \<times> int" where
  "minMax cfg = foldl (\<lambda>(mn, mx) g. (if counts cfg g < mn then counts cfg g else mn,
                                     if counts cfg g > mx then counts cfg g else mx)) (257, 0) (gids cfg)"

definition CheckConfig :: "ShardConfig \<Rightarrow> int list \<Rightarrow> cfg_fault option" where
  \<comment> \<open>the first \<open>fatalf\<close> that is reached\<close>
  "CheckConfig cfg groups =
     (if length (Groups cfg) \<noteq> length groups then Some WrongNumber
      else case find (\<lambda>g. g \<notin> set (gids cfg)) groups of
        Some g \<Rightarrow> Some (MissingGroup g)
      | None \<Rightarrow>
          (case (if length groups > 0 then find (\<lambda>g. g \<notin> set (gids cfg)) (Shards cfg) else None) of
             Some g \<Rightarrow> Some (InvalidGroup g)
           | None \<Rightarrow> (case minMax cfg of (mn, mx) \<Rightarrow> if mx > mn + 1 then Some (Unbalanced mx mn) else None)))"

subsection \<open>The most and the least loaded group\<close>

definition wf_cfg :: "ShardConfig \<Rightarrow> bool" where
  "wf_cfg c \<longleftrightarrow> length (Shards c) = NShards \<and> distinct (gids c)"

definition scan :: "('g \<Rightarrow> int) \<Rightarrow> 'g \<times> int \<times> 'g \<times> int \<Rightarrow> 'g \<Rightarrow> 'g \<times> int \<times> 'g \<times> int" where
  \<comment> \<open>one round of the loop of \<open>analyze\<close>\<close>
  "scan f = (\<lambda>(mg, mn, lg, ln) g.
              let (lg, ln) = (if f g < ln then (g, f g) else (lg, ln));
                  (mg, mn) = (if f g > mn then (g, f g) else (mg, mn))
              in (mg, mn, lg, ln))"

lemma analyze_scan: "analyze c = foldl (scan (counts c)) (-1, -1, -1, 257) (sort (gids c))"
  by (simp add: analyze_def scan_def)

lemma scan_bounds:
  assumes "foldl (scan f) (mg0, mn0, lg0, ln0) xs = (mg, mn, lg, ln)"
  shows "mn0 \<le> mn \<and> ln \<le> ln0 \<and> (\<forall>g \<in> set xs. f g \<le> mn \<and> ln \<le> f g) \<and>
    (mg \<in> set xs \<and> mn = f mg \<or> mn = mn0 \<and> mg = mg0) \<and> (lg \<in> set xs \<and> ln = f lg \<or> ln = ln0 \<and> lg = lg0)"
  using assms
proof (induction xs arbitrary: mg0 mn0 lg0 ln0)
  case (Cons x xs)
  from Cons.prems obtain mg1 mn1 lg1 ln1 where step: "scan f (mg0, mn0, lg0, ln0) x = (mg1, mn1, lg1, ln1)"
    and rest: "foldl (scan f) (mg1, mn1, lg1, ln1) xs = (mg, mn, lg, ln)"
    by (metis foldl_Cons prod_cases4)
  have one: "mn1 = max mn0 (f x)" "ln1 = min ln0 (f x)" "mn1 = mn0 \<and> mg1 = mg0 \<or> mn1 = f x \<and> mg1 = x" "ln1 = ln0 \<and> lg1 = lg0 \<or> ln1 = f x \<and> lg1 = x"
    using step by (auto simp: scan_def Let_def split: if_splits)
  from Cons.IH [OF rest] one show ?case by (auto simp: max_def min_def split: if_splits)
qed simp

lemma counts_bounds:
  assumes "length (Shards c) = NShards"
  shows "0 \<le> counts c g" "counts c g \<le> 12"
  using count_le_length [of "Shards c" g] assms by (simp_all add: counts_def NShards_def)

lemma analyze_bounds:
  assumes "length (Shards c) = NShards" and "gids c \<noteq> []" and "analyze c = (mg, mn, lg, ln)"
  shows "mg \<in> set (gids c)" "mn = counts c mg" "lg \<in> set (gids c)" "ln = counts c lg"
    "\<And>g. g \<in> set (gids c) \<Longrightarrow> counts c g \<le> mn \<and> ln \<le> counts c g"
proof -
  note b = scan_bounds [OF assms(3) [unfolded analyze_scan]]
  obtain g where g: "g \<in> set (gids c)" using assms(2) by (cases "gids c") auto
  have "mn \<noteq> -1" "ln \<noteq> 257" using b counts_bounds [OF assms(1), of g] g by force+
  then show "mg \<in> set (gids c)" "mn = counts c mg" "lg \<in> set (gids c)" "ln = counts c lg"
    "\<And>g. g \<in> set (gids c) \<Longrightarrow> counts c g \<le> mn \<and> ln \<le> counts c g"
    using b by auto
qed

subsection \<open>Assigning and moving\<close>

lemma moveFirst_length [simp]: "length (moveFirst mg lg xs) = length xs"
  by (induction xs) auto

lemma moveFirst_set: "set (moveFirst mg lg xs) \<subseteq> insert lg (set xs)"
  by (induction xs) auto

lemma moveFirst_count:
  assumes "mg \<in> set xs" and "mg \<noteq> lg"
  shows "count_list (moveFirst mg lg xs) g =
    (if g = mg then count_list xs g - 1 else if g = lg then count_list xs g + 1 else count_list xs g)"
  using assms
proof (induction xs)
  case (Cons x xs)
  have "0 < count_list xs mg" if "mg \<in> set xs" using that by (metis count_list_0_iff gr0I)
  then show ?case using Cons by (auto simp: gr0_conv_Suc)
qed simp

definition spread :: "ShardConfig \<Rightarrow> nat" where
  \<comment> \<open>the sum of the squares of the loads, which every move lowers\<close>
  "spread c = (\<Sum>g \<in> set (gids c). (count_list (Shards c) g)\<^sup>2)"

lemma square_move: "b + 2 \<le> a \<Longrightarrow> (a - 1)\<^sup>2 + (b + 1)\<^sup>2 < a\<^sup>2 + (b::nat)\<^sup>2"
proof -
  assume "b + 2 \<le> a"
  then obtain d where "a = b + 2 + d" using le_Suc_ex by blast
  then show ?thesis by (simp add: power2_eq_square algebra_simps)
qed

lemma spread_decreases:
  assumes "mg \<in> set (gids c)" and "lg \<in> set (gids c)" and "counts c lg + 2 \<le> counts c mg"
  shows "spread (c\<lparr>Shards := moveFirst mg lg (Shards c)\<rparr>) < spread c"
proof -
  let ?c = "c\<lparr>Shards := moveFirst mg lg (Shards c)\<rparr>" and ?S = "set (gids c) - {mg, lg}"
  let ?old = "count_list (Shards c)" and ?new = "count_list (moveFirst mg lg (Shards c))"
  have ne: "mg \<noteq> lg" using assms(3) by auto
  have le: "?old lg + 2 \<le> ?old mg" using assms(3) by (simp add: counts_def)
  then have mem: "mg \<in> set (Shards c)" using count_notin [of mg "Shards c"] by fastforce
  have split: "(\<Sum>g \<in> set (gids c). f g) = f mg + (f lg + (\<Sum>g \<in> ?S. f g))" for f :: "int \<Rightarrow> nat"
    using assms(1,2) ne sum.remove [of "set (gids c)" mg f] sum.remove [of "set (gids c) - {mg}" lg f]
    by (simp add: Diff_insert [of "set (gids c)" lg "{mg}"] insert_commute)
  have "(\<Sum>g \<in> ?S. (?new g)\<^sup>2) = (\<Sum>g \<in> ?S. (?old g)\<^sup>2)"
    by (rule sum.cong) (use moveFirst_count [OF mem ne] in auto)
  moreover have "(?new mg)\<^sup>2 + (?new lg)\<^sup>2 < (?old mg)\<^sup>2 + (?old lg)\<^sup>2"
    using square_move [OF le] moveFirst_count [OF mem ne] ne by simp
  ultimately show ?thesis
    using split [of "\<lambda>g. (?new g)\<^sup>2"] split [of "\<lambda>g. (?old g)\<^sup>2"] by (simp add: spread_def gids_def)
qed

definition balanced :: "ShardConfig \<Rightarrow> bool" where
  \<comment> \<open>every shard has a group and no two loads differ by more than one\<close>
  "balanced c \<longleftrightarrow> set (Shards c) \<subseteq> set (gids c) \<and>
     (\<forall>g \<in> set (gids c). \<forall>h \<in> set (gids c). counts c g \<le> counts c h + 1)"

lemma moveAll_step:
  assumes "analyze c = (mg, mn, lg, ln)" and "\<not> mn < ln + 2"
  shows "moveAll c = moveAll (c\<lparr>Shards := moveFirst mg lg (Shards c)\<rparr>)"
  by (subst moveAll.simps) (use assms in simp)

lemma moveAll_stop: "analyze c = (mg, mn, lg, ln) \<Longrightarrow> mn < ln + 2 \<Longrightarrow> moveAll c = Some c"
  by (subst moveAll.simps) simp

lemma moveAll_ends:
  assumes "length (Shards c) = NShards" and "gids c \<noteq> []" and "set (Shards c) \<subseteq> set (gids c)"
  shows "\<exists>sh. moveAll c = Some (c\<lparr>Shards := sh\<rparr>) \<and> length sh = NShards \<and> balanced (c\<lparr>Shards := sh\<rparr>)"
  using assms
proof (induction "spread c" arbitrary: c rule: less_induct)
  case less
  obtain mg mn lg ln where an: "analyze c = (mg, mn, lg, ln)" by (metis prod_cases4)
  note b = analyze_bounds [OF less.prems(1,2) an]
  show ?case
  proof (cases "mn < ln + 2")
    case True
    have "counts c g \<le> counts c h + 1" if "g \<in> set (gids c)" "h \<in> set (gids c)" for g h
      using b(5) [OF that(1)] b(5) [OF that(2)] True by simp
    then have "balanced (c\<lparr>Shards := Shards c\<rparr>)" using less.prems(3) by (simp add: balanced_def)
    then show ?thesis using moveAll_stop [OF an True] less.prems(1) by (intro exI [of _ "Shards c"]) simp
  next
    case False
    let ?c = "c\<lparr>Shards := moveFirst mg lg (Shards c)\<rparr>"
    have same: "gids ?c = gids c" by (simp add: gids_def)
    have "spread ?c < spread c" using False b(1-4) by (intro spread_decreases) simp_all
    moreover have "set (Shards ?c) \<subseteq> set (gids ?c)" using moveFirst_set [of mg lg] less.prems(3) b(3) same by fastforce
    ultimately show ?thesis
      using less.hyps [of ?c] less.prems(1,2) same moveAll_step [OF an False] by simp
  qed
qed

lemma assign_prefix:
  assumes "length sh0 = NShards" and "gids c0 \<noteq> []" and "xs = drop k sh0" and "k \<le> NShards"
    and "Groups c = Groups c0" "Num c = Num c0" "length (Shards c) = NShards" "drop k (Shards c) = drop k sh0"
    and "set (take k (Shards c)) \<subseteq> set (gids c0)"
  shows "let c' = foldl (\<lambda>c (s, g). if g \<in> set (gids c) then c else c\<lparr>Shards := (Shards c)[s := least c]\<rparr>)
           c (enumerate k xs)
    in Groups c' = Groups c0 \<and> Num c' = Num c0 \<and> length (Shards c') = NShards \<and> set (Shards c') \<subseteq> set (gids c0)"
  using assms
proof (induction xs arbitrary: k c)
  case Nil
  then show ?case by (simp add: Let_def)
next
  case (Cons g xs)
  have k: "k < NShards" using Cons.prems(1,3) by (metis drop_all linorder_not_less list.distinct(1))
  have gk: "g = sh0 ! k" "xs = drop (Suc k) sh0"
    using Cons.prems(1,3) k by (auto simp: Cons_nth_drop_Suc [symmetric])
  have sk: "Shards c ! k = g" using Cons.prems(1,7,8) k gk(1) by (metis hd_drop_conv_nth)
  have same: "gids c = gids c0" using Cons.prems(5) by (simp add: gids_def)
  define c1 where "c1 = (if g \<in> set (gids c) then c else c\<lparr>Shards := (Shards c)[k := least c]\<rparr>)"
  have lm: "least c \<in> set (gids c0)"
    using analyze_bounds(3) [of c] Cons.prems(2,7) same unfolding least_def by (metis prod_cases4 case_prod_conv)
  have len: "length (Shards c1) = NShards" using Cons.prems(7) by (simp add: c1_def)
  have dr: "drop (Suc k) (Shards c1) = drop (Suc k) sh0"
    using arg_cong [OF Cons.prems(8), of tl] by (simp add: c1_def tl_drop flip: drop_Suc)
  have "take (Suc k) (Shards c1) = take k (Shards c) @ [Shards c1 ! k]"
    using k Cons.prems(7) len by (simp add: c1_def take_Suc_conv_app_nth)
  moreover have "Shards c1 ! k \<in> set (gids c0)" using lm sk same k Cons.prems(7) by (simp add: c1_def)
  ultimately have tk: "set (take (Suc k) (Shards c1)) \<subseteq> set (gids c0)" using Cons.prems(9) by simp
  have "Groups c1 = Groups c0" "Num c1 = Num c0" using Cons.prems(5,6) by (simp_all add: c1_def)
  from Cons.IH [OF Cons.prems(1,2) gk(2) _ this len dr tk] k show ?case by (simp add: c1_def)
qed

lemma assignAll_ok:
  assumes "length (Shards c) = NShards" and "gids c \<noteq> []"
  shows "Groups (assignAll c) = Groups c" "Num (assignAll c) = Num c" "length (Shards (assignAll c)) = NShards"
    "set (Shards (assignAll c)) \<subseteq> set (gids c)"
  using assign_prefix [of "Shards c" c "Shards c" 0 c] assms by (simp_all add: assignAll_def Let_def)

lemma Rebalance_groups:
  assumes "length (Shards c) = NShards" and "gids c \<noteq> []"
  shows "\<exists>sh. Rebalance c = Some (c\<lparr>Shards := sh\<rparr>) \<and> length sh = NShards \<and> balanced (c\<lparr>Shards := sh\<rparr>)"
proof -
  note as = assignAll_ok [OF assms]
  have g: "gids (assignAll c) = gids c" using as(1) by (simp add: gids_def)
  have upd: "(assignAll c)\<lparr>Shards := sh\<rparr> = c\<lparr>Shards := sh\<rparr>" for sh using as(1,2) by simp
  have "Rebalance c = moveAll (assignAll c)" using assms(2) by (cases "Groups c") (simp_all add: Rebalance_def gids_def)
  with moveAll_ends [OF as(3)] as(4) assms(2) g upd show ?thesis by auto
qed

subsection \<open>A rebalanced configuration passes the checks\<close>

lemma minMax_range:
  "fst (minMax c) \<in> insert 257 (counts c ` set (gids c))" "snd (minMax c) \<in> insert 0 (counts c ` set (gids c))"
proof -
  let ?f = "\<lambda>(mn, mx) g. (if counts c g < mn then counts c g else mn, if counts c g > mx then counts c g else mx)"
  have "fst (foldl ?f p xs) \<in> insert (fst p) (counts c ` set xs) \<and> snd (foldl ?f p xs) \<in> insert (snd p) (counts c ` set xs)"
    for p xs
  proof (induction xs arbitrary: p)
    case (Cons x xs)
    from Cons.IH [of "?f p x"] show ?case by (cases p) auto
  qed simp
  from this [of "(257, 0)" "gids c"]
  show "fst (minMax c) \<in> insert 257 (counts c ` set (gids c))" "snd (minMax c) \<in> insert 0 (counts c ` set (gids c))"
    by (simp_all add: minMax_def)
qed

lemma CheckConfig_passes:
  assumes "length (Shards c) = NShards" and "gids c \<noteq> [] \<Longrightarrow> balanced c" and "mset gs = mset (gids c)"
  shows "CheckConfig c gs = None"
proof -
  obtain mn mx where m: "minMax c = (mn, mx)" by (cases "minMax c")
  have len: "length (Groups c) = length gs" using mset_eq_length [OF assms(3)] by (simp add: gids_def)
  have mem: "set gs = set (gids c)" using mset_eq_setD [OF assms(3)] .
  have bal: "counts c g \<le> counts c h + 1" if "g \<in> set (gids c)" "h \<in> set (gids c)" for g h
    using assms(2) that by (cases "gids c") (auto simp: balanced_def)
  note nonneg = counts_bounds [OF assms(1)]
  have lo: "mn = 257 \<or> (\<exists>h \<in> set (gids c). mn = counts c h)" and hi: "mx = 0 \<or> (\<exists>g \<in> set (gids c). mx = counts c g)"
    using minMax_range [of c] m by auto
  have "mx \<le> mn + 1"
  proof (cases "mn = 257")
    case True
    have "mx \<le> 12" using hi nonneg(2) by auto
    with True show ?thesis by simp
  next
    case False
    then obtain h where "h \<in> set (gids c)" "mn = counts c h" using lo by blast
    then show ?thesis using hi bal [of _ h] nonneg(1) [of h] by auto
  qed
  then have "\<not> mx > mn + 1" by simp
  moreover have "find (\<lambda>g. g \<notin> set (gids c)) gs = None" using mem by (simp add: find_None_iff)
  moreover have "find (\<lambda>g. g \<notin> set (gids c)) (Shards c) = None" if "gs \<noteq> []"
  proof -
    have "gids c \<noteq> []" using that mem by (cases "gids c") auto
    from assms(2) [OF this] show ?thesis by (auto simp: find_None_iff balanced_def)
  qed
  ultimately show ?thesis using len m by (simp add: CheckConfig_def)
qed

text \<open>
  Property C12 (rebalancing). On every configuration with \<open>NShards\<close> shards and any groups,
  \<open>Rebalance\<close> ends; it changes the assignment only, and its result passes the checks of the tests:
  with groups present, every shard belongs to one of them and no two loads differ by more than one;
  without groups every shard is unassigned.
\<close>

theorem rebalance_passes_checks:
  assumes "wf_cfg c" and "mset gs = mset (gids c)"
  shows "\<exists>c'. Rebalance c = Some c' \<and> wf_cfg c' \<and> Groups c' = Groups c \<and> Num c' = Num c \<and>
    CheckConfig c' gs = None \<and> (if gids c = [] then Shards c' = replicate NShards 0 else balanced c')"
proof (cases "gids c = []")
  case True
  let ?c = "c\<lparr>Shards := replicate NShards 0\<rparr>"
  have "map (\<lambda>_. 0 :: int) (Shards c) = replicate NShards 0" using assms(1) by (simp add: wf_cfg_def map_replicate_const)
  then have "Rebalance c = Some ?c" using True by (simp add: Rebalance_def gids_def)
  moreover have "CheckConfig ?c gs = None"
    by (rule CheckConfig_passes) (use True assms(2) in \<open>simp_all add: gids_def\<close>)
  ultimately show ?thesis using True assms(1) by (simp add: wf_cfg_def gids_def)
next
  case False
  have len: "length (Shards c) = NShards" using assms(1) by (simp add: wf_cfg_def)
  obtain sh where sh: "Rebalance c = Some (c\<lparr>Shards := sh\<rparr>)" "length sh = NShards" "balanced (c\<lparr>Shards := sh\<rparr>)"
    using Rebalance_groups [OF len False] by blast
  moreover have "CheckConfig (c\<lparr>Shards := sh\<rparr>) gs = None"
    by (rule CheckConfig_passes) (use sh assms(2) in \<open>simp_all add: gids_def\<close>)
  ultimately show ?thesis using False assms(1) by (simp add: wf_cfg_def gids_def)
qed

definition ex_cfg :: ShardConfig where
  "ex_cfg = MakeShardConfig\<lparr>Groups := [(2, [''a'']), (1, [''b'']), (7, [''c''])]\<rparr>"

theorem rebalance_passes_checks_witness:
  "\<exists>c'. Rebalance ex_cfg = Some c' \<and> balanced c' \<and> CheckConfig c' [1, 2, 7] = None"
  using rebalance_passes_checks [of ex_cfg "[1, 2, 7]"]
  by (auto simp: ex_cfg_def MakeShardConfig_def wf_cfg_def gids_def)

subsection \<open>Iteration order\<close>

lemma analyze_cong:
  assumes "Shards c = Shards d" and "mset (gids c) = mset (gids d)"
  shows "analyze c = analyze d"
proof -
  have "sort (gids c) = sort (gids d)"
    using assms(2) by (metis mset_sort properties_for_sort sorted_sort)
  moreover have "counts c = counts d" using assms(1) by (simp add: counts_def fun_eq_iff)
  ultimately show ?thesis by (simp add: analyze_scan)
qed

lemma assign_cong:
  assumes "Shards c = Shards d" and "mset (gids c) = mset (gids d)"
  defines "f \<equiv> \<lambda>c (s, g). if g \<in> set (gids c) then c else c\<lparr>Shards := (Shards c)[s := least c]\<rparr>"
  shows "Shards (foldl f c xs) = Shards (foldl f d xs) \<and> mset (gids (foldl f c xs)) = mset (gids (foldl f d xs))"
  using assms(1,2)
proof (induction xs arbitrary: c d)
  case (Cons x xs)
  obtain s g where x: "x = (s, g)" by (cases x)
  have "least c = least d" using analyze_cong [OF Cons.prems] by (simp add: least_def)
  moreover have "set (gids c) = set (gids d)" using mset_eq_setD [OF Cons.prems(2)] .
  ultimately have "Shards (f c x) = Shards (f d x)" "mset (gids (f c x)) = mset (gids (f d x))"
    using Cons.prems by (auto simp: f_def x gids_def)
  from Cons.IH [OF this] show ?case by simp
qed simp

lemma moveAll_cong:
  assumes "Shards c = Shards d" and "mset (gids c) = mset (gids d)"
    and "length (Shards c) = NShards" and "gids c \<noteq> []"
  shows "map_option Shards (moveAll c) = map_option Shards (moveAll d)"
  using assms
proof (induction "spread c" arbitrary: c d rule: less_induct)
  case less
  obtain mg mn lg ln where an: "analyze c = (mg, mn, lg, ln)" by (metis prod_cases4)
  then have an': "analyze d = (mg, mn, lg, ln)" using analyze_cong [OF less.prems(1,2)] by simp
  show ?case
  proof (cases "mn < ln + 2")
    case True
    then show ?thesis using moveAll_stop [OF an] moveAll_stop [OF an'] less.prems(1) by simp
  next
    case False
    have "spread (c\<lparr>Shards := moveFirst mg lg (Shards c)\<rparr>) < spread c"
      using False analyze_bounds(1-4) [OF less.prems(3,4) an] by (intro spread_decreases) simp_all
    from less.hyps [OF this, of "d\<lparr>Shards := moveFirst mg lg (Shards d)\<rparr>"] less.prems
    show ?thesis using moveAll_step [OF an False] moveAll_step [OF an' False] by (simp add: gids_def)
  qed
qed

text \<open>
  Property C27 (rebalancing does not depend on the map's iteration order). Two configurations that
  differ only in the order of their groups get the same assignment, so every server that computes a
  configuration from the same history computes the same one.
\<close>

theorem rebalance_deterministic:
  assumes "Shards c = Shards d" and "mset (gids c) = mset (gids d)" and "wf_cfg c"
  shows "\<exists>sh. map_option Shards (Rebalance c) = Some sh \<and> map_option Shards (Rebalance d) = Some sh"
proof (cases "gids c = []")
  case True
  then have "gids d = []" using assms(2) by simp
  then show ?thesis using True assms(1) by (simp add: Rebalance_def gids_def)
next
  case False
  then have d: "gids d \<noteq> []" using assms(2) by auto
  have len: "length (Shards c) = NShards" using assms(3) by (simp add: wf_cfg_def)
  note as = assignAll_ok [OF len False]
  have "Shards (assignAll c) = Shards (assignAll d)" "mset (gids (assignAll c)) = mset (gids (assignAll d))"
    using assign_cong [OF assms(1,2), of "enumerate 0 (Shards c)"] assms(1) by (simp_all add: assignAll_def)
  then have "map_option Shards (moveAll (assignAll c)) = map_option Shards (moveAll (assignAll d))"
    by (rule moveAll_cong) (use as False in \<open>simp_all add: gids_def\<close>)
  then have "map_option Shards (Rebalance c) = map_option Shards (Rebalance d)"
    using False d by (simp add: Rebalance_def gids_def)
  moreover obtain sh where "Rebalance c = Some (c\<lparr>Shards := sh\<rparr>)" using Rebalance_groups [OF len False] by blast
  ultimately show ?thesis by (intro exI [of _ sh]) simp
qed

theorem rebalance_deterministic_witness:
  "\<exists>sh. map_option Shards (Rebalance ex_cfg) = Some sh \<and>
     map_option Shards (Rebalance (ex_cfg\<lparr>Groups := rev (Groups ex_cfg)\<rparr>)) = Some sh"
  using rebalance_deterministic [of ex_cfg "ex_cfg\<lparr>Groups := rev (Groups ex_cfg)\<rparr>"]
  by (simp add: ex_cfg_def MakeShardConfig_def wf_cfg_def gids_def)

subsection \<open>Joins and leaves\<close>

lemma Join_loop_ok:
  assumes "Join_loop c srvs = Inr (c', ok)"
  shows "Shards c' = Shards c \<and> Num c' = Num c \<and> (distinct (gids c) \<longrightarrow> distinct (gids c')) \<and>
    (ok \<longrightarrow> Groups c' = Groups c @ srvs)"
  using assms
proof (induction c srvs rule: Join_loop.induct)
  case (2 cfg gid srvs rest)
  show ?case
  proof (cases "gid \<in> set (gids cfg)")
    case True
    then show ?thesis using "2.prems" by simp
  next
    case False
    then have sh: "\<not> sharesServer cfg srvs" using "2.prems" by (auto split: if_splits)
    from "2.IH" [OF False sh] "2.prems" False sh show ?thesis by (simp add: gids_def)
  qed
qed simp

lemma Leave_loop_ok:
  assumes "Leave_loop c gs = (c', ok)"
  shows "Shards c' = Shards c \<and> Num c' = Num c \<and> (distinct (gids c) \<longrightarrow> distinct (gids c')) \<and>
    (ok \<longrightarrow> Groups c' = filter (\<lambda>g. fst g \<notin> set gs) (Groups c))"
  using assms
proof (induction c gs rule: Leave_loop.induct)
  case (2 cfg gid rest)
  show ?case
  proof (cases "gid \<in> set (gids cfg)")
    case True
    let ?c = "cfg\<lparr>Groups := filter (\<lambda>g. fst g \<noteq> gid) (Groups cfg)\<rparr>"
    have d: "distinct (gids cfg) \<longrightarrow> distinct (gids ?c)" by (simp add: gids_def distinct_map_filter)
    have f: "filter (\<lambda>x. fst x \<notin> set rest) (filter (\<lambda>g. fst g \<noteq> gid) (Groups cfg)) =
        filter (\<lambda>g. fst g \<notin> set (gid # rest)) (Groups cfg)" by (simp add: conj_commute)
    from "2.IH" "2.prems" True d f show ?thesis by simp
  next
    case False
    then show ?thesis using "2.prems" by simp
  qed
qed simp

lemma thenRebalance_ok:
  assumes "thenRebalance r = Some (Inr (c', True))"
  obtains c where "r = Inr (c, True)" "Rebalance c = Some c'"
proof -
  from assms obtain c ok where r: "r = Inr (c, ok)" by (cases r) (auto simp: thenRebalance_def)
  with assms that show ?thesis by (cases ok) (auto simp: thenRebalance_def)
qed

lemma Rebalance_result:
  assumes "Rebalance d = Some c'" and "wf_cfg d"
  shows "wf_cfg c'" "Groups c' = Groups d" "Num c' = Num d" "CheckConfig c' (gids c') = None"
proof -
  have "wf_cfg c' \<and> Groups c' = Groups d \<and> Num c' = Num d \<and> CheckConfig c' (gids c') = None"
  proof (cases "gids d = []")
    case True
    with assms show ?thesis by (auto simp: Rebalance_def gids_def wf_cfg_def intro!: CheckConfig_passes)
  next
    case False
    with Rebalance_groups [of d] assms obtain sh where sh: "c' = d\<lparr>Shards := sh\<rparr>" "length sh = NShards" "balanced c'"
      by (auto simp: wf_cfg_def)
    have "CheckConfig c' (gids c') = None" by (rule CheckConfig_passes) (use sh in simp_all)
    then show ?thesis using assms(2) sh(1,2) by (simp add: wf_cfg_def gids_def)
  qed
  then show "wf_cfg c'" "Groups c' = Groups d" "Num c' = Num d" "CheckConfig c' (gids c') = None" by simp_all
qed

lemma wf_cfg_Num: "wf_cfg (c\<lparr>Num := n\<rparr>) = wf_cfg c"
  by (simp add: wf_cfg_def gids_def)

lemma JoinBalance_ok:
  assumes "wf_cfg c" and "JoinBalance c srvs = Some (Inr (c', True))"
  shows "Groups c' = Groups c @ srvs \<and> Num c' = Num c + 1 \<and> wf_cfg c' \<and> CheckConfig c' (gids c') = None"
proof -
  obtain d where d: "Join c srvs = Inr (d, True)" "Rebalance d = Some c'"
    using thenRebalance_ok [OF assms(2) [unfolded JoinBalance_def]] .
  then obtain d1 where d1: "Join_loop c srvs = Inr (d1, True)" "d = d1\<lparr>Num := Num d1 + 1\<rparr>"
    by (auto simp: Join_def go_inv split: if_splits)
  have "wf_cfg d" using Join_loop_ok [OF d1(1)] assms(1) d1(2) by (metis (mono_tags) wf_cfg_Num wf_cfg_def)
  with Rebalance_result [OF d(2)] Join_loop_ok [OF d1(1)] d1(2) show ?thesis by simp
qed

lemma LeaveBalance_ok:
  assumes "wf_cfg c" and "LeaveBalance c gs = Some (Inr (c', True))"
  shows "Groups c' = filter (\<lambda>g. fst g \<notin> set gs) (Groups c) \<and> Num c' = Num c + 1 \<and> wf_cfg c' \<and>
    CheckConfig c' (gids c') = None"
proof -
  obtain d where d: "Leave c gs = Inr (d, True)" "Rebalance d = Some c'"
    using thenRebalance_ok [OF assms(2) [unfolded LeaveBalance_def]] .
  then obtain d1 where d1: "Leave_loop c gs = (d1, True)" "d = d1\<lparr>Num := Num d1 + 1\<rparr>"
    by (cases "Leave_loop c gs") (auto simp: Leave_def split: if_splits)
  have "wf_cfg d" using Leave_loop_ok [OF d1(1)] assms(1) d1(2) by (metis (mono_tags) wf_cfg_Num wf_cfg_def)
  with Rebalance_result [OF d(2)] Leave_loop_ok [OF d1(1)] d1(2) show ?thesis by simp
qed

lemma Join_loop_refused:
  assumes "Join_loop c srvs = Inr (c', False)"
  shows "\<exists>pre g post. srvs = pre @ g # post \<and> c' = c\<lparr>Groups := Groups c @ pre\<rparr> \<and> fst g \<in> set (gids c) \<union> fst ` set pre"
  using assms
proof (induction c srvs rule: Join_loop.induct)
  case (2 cfg gid ss rest)
  show ?case
  proof (cases "gid \<in> set (gids cfg)")
    case True
    with "2.prems" show ?thesis by (intro exI [of _ "[]"]) auto
  next
    case False
    let ?c = "cfg\<lparr>Groups := Groups cfg @ [(gid, ss)]\<rparr>"
    from False "2.prems" have ns: "\<not> sharesServer cfg ss" by (auto split: if_splits)
    then have "Join_loop ?c rest = Inr (c', False)" using False "2.prems" by simp
    from "2.IH" [OF False ns this] obtain pre g post where "rest = pre @ g # post"
      "c' = ?c\<lparr>Groups := Groups ?c @ pre\<rparr>" "fst g \<in> set (gids ?c) \<union> fst ` set pre" by blast
    then show ?thesis by (intro exI [of _ "(gid, ss) # pre"] exI [of _ g] exI [of _ post]) (auto simp: gids_def)
  qed
qed simp

lemma Leave_loop_refused:
  assumes "Leave_loop c gs = (c', False)"
  shows "\<exists>pre g post. gs = pre @ g # post \<and> c' = c\<lparr>Groups := filter (\<lambda>x. fst x \<notin> set pre) (Groups c)\<rparr> \<and>
    (g \<notin> set (gids c) \<or> g \<in> set pre)"
  using assms
proof (induction c gs rule: Leave_loop.induct)
  case (2 cfg gid rest)
  show ?case
  proof (cases "gid \<in> set (gids cfg)")
    case False
    with "2.prems" show ?thesis by (intro exI [of _ "[]"]) auto
  next
    case True
    let ?c = "cfg\<lparr>Groups := filter (\<lambda>g. fst g \<noteq> gid) (Groups cfg)\<rparr>"
    have "Leave_loop ?c rest = (c', False)" using True "2.prems" by simp
    with "2.IH" True obtain pre g post where "rest = pre @ g # post"
      "c' = ?c\<lparr>Groups := filter (\<lambda>x. fst x \<notin> set pre) (Groups ?c)\<rparr>" "g \<notin> set (gids ?c) \<or> g \<in> set pre" by blast
    then show ?thesis
      by (intro exI [of _ "gid # pre"] exI [of _ g] exI [of _ post]) (auto simp: gids_def conj_commute)
  qed
qed simp

lemma JoinBalance_refused:
  assumes "JoinBalance c srvs = Some (Inr (c', False))"
  shows "\<exists>pre g post. srvs = pre @ g # post \<and> c' = c\<lparr>Groups := Groups c @ pre\<rparr> \<and> fst g \<in> set (gids c) \<union> fst ` set pre"
proof (rule Join_loop_refused)
  show "Join_loop c srvs = Inr (c', False)"
    using assms by (auto simp: JoinBalance_def thenRebalance_def Join_def go_inv split: sum.splits if_splits)
qed

lemma LeaveBalance_refused:
  assumes "LeaveBalance c gs = Some (Inr (c', False))"
  shows "\<exists>pre g post. gs = pre @ g # post \<and> c' = c\<lparr>Groups := filter (\<lambda>x. fst x \<notin> set pre) (Groups c)\<rparr> \<and>
    (g \<notin> set (gids c) \<or> g \<in> set pre)"
proof (rule Leave_loop_refused)
  show "Leave_loop c gs = (c', False)"
    using assms by (auto simp: LeaveBalance_def thenRebalance_def Leave_def split: sum.splits if_splits prod.splits)
qed

text \<open>
  Property C28 (join and leave). A \<open>JoinBalance\<close> that returns true has added exactly the given groups, a
  \<open>LeaveBalance\<close> that returns true has removed exactly the given ones; both advance the configuration
  number by one and give a configuration that passes the checks. One that returns false was refused
  at a group that was there already, or was not there; the groups before it stay added or removed,
  and neither the number nor the shards change: nothing is rebalanced.
\<close>

theorem join_leave_balance:
  assumes "wf_cfg c"
  shows "(\<forall>srvs c'. JoinBalance c srvs = Some (Inr (c', True)) \<longrightarrow>
      Groups c' = Groups c @ srvs \<and> Num c' = Num c + 1 \<and> wf_cfg c' \<and> CheckConfig c' (gids c') = None) \<and>
    (\<forall>gs c'. LeaveBalance c gs = Some (Inr (c', True)) \<longrightarrow>
      Groups c' = filter (\<lambda>g. fst g \<notin> set gs) (Groups c) \<and> Num c' = Num c + 1 \<and> wf_cfg c' \<and>
      CheckConfig c' (gids c') = None) \<and>
    (\<forall>srvs c'. JoinBalance c srvs = Some (Inr (c', False)) \<longrightarrow>
      (\<exists>pre g post. srvs = pre @ g # post \<and> c' = c\<lparr>Groups := Groups c @ pre\<rparr> \<and>
         fst g \<in> set (gids c) \<union> fst ` set pre)) \<and>
    (\<forall>gs c'. LeaveBalance c gs = Some (Inr (c', False)) \<longrightarrow>
      (\<exists>pre g post. gs = pre @ g # post \<and> c' = c\<lparr>Groups := filter (\<lambda>x. fst x \<notin> set pre) (Groups c)\<rparr> \<and>
         (g \<notin> set (gids c) \<or> g \<in> set pre)))"
  using JoinBalance_ok [OF assms] LeaveBalance_ok [OF assms] JoinBalance_refused LeaveBalance_refused
  by (intro conjI allI impI) blast+

theorem join_leave_balance_witness:
  "\<exists>c'. JoinBalance MakeShardConfig [(3, [''x''])] = Some (Inr (c', True)) \<and> Num c' = 1 \<and>
     CheckConfig c' (gids c') = None"
proof -
  have wf: "wf_cfg MakeShardConfig" by (simp add: wf_cfg_def MakeShardConfig_def gids_def)
  have "wf_cfg (MakeShardConfig\<lparr>Groups := [(3, [''x''])], Num := 1\<rparr>)" by (simp add: wf_cfg_def MakeShardConfig_def gids_def)
  then obtain sh where "Rebalance (MakeShardConfig\<lparr>Groups := [(3, [''x''])], Num := 1\<rparr>) = Some sh"
    using Rebalance_groups [of "MakeShardConfig\<lparr>Groups := [(3, [''x''])], Num := 1\<rparr>"] by (auto simp: wf_cfg_def gids_def)
  then have h: "JoinBalance MakeShardConfig [(3, [''x''])] = Some (Inr (sh, True))"
    by (simp add: JoinBalance_def thenRebalance_def Join_def sharesServer_def gids_def MakeShardConfig_def)
  with join_leave_balance [OF wf] show ?thesis by (auto simp: MakeShardConfig_def)
qed

text \<open>
  Routing a key. Every key falls into one of the shards, and in a rebalanced
  configuration that has groups the shard of every key leads to an existing group and its servers.
\<close>

theorem key_is_served:
  assumes "wf_cfg c" and "gids c \<noteq> []" and "Rebalance c = Some c'"
  shows "\<exists>gid srvs. GidServers c' (int (Key2Shard key)) = Inr (gid, Some srvs) \<and> (gid, srvs) \<in> set (Groups c) \<and>
    IsMember c' gid"
proof -
  let ?s = "Key2Shard key"
  obtain sh where sh: "c' = c\<lparr>Shards := sh\<rparr>" "length sh = NShards" "balanced c'"
    using Rebalance_groups [of c] assms by (auto simp: wf_cfg_def)
  have s: "?s < NShards" by (simp add: Key2Shard_def NShards_def)
  then have mem: "sh ! ?s \<in> set sh" using sh(2) by simp
  then have "sh ! ?s \<in> set (gids c)" using sh(1,3) by (auto simp: balanced_def gids_def)
  then obtain srvs where srvs: "map_of (Groups c) (sh ! ?s) = Some srvs"
    using map_of_eq_None_iff [of "Groups c" "sh ! ?s"] by (auto simp: gids_def)
  then have "(sh ! ?s, srvs) \<in> set (Groups c)" by (rule map_of_SomeD)
  moreover have "GidServers c' (int ?s) = Inr (sh ! ?s, Some srvs)"
    using s sh(1,2) srvs by (simp add: GidServers_def go_index_def)
  moreover have "IsMember c' (sh ! ?s)" using mem sh(1) by (simp add: IsMember_def list_ex_iff)
  ultimately show ?thesis by blast
qed

theorem key_is_served_witness:
  "\<exists>c' gid srvs. Rebalance ex_cfg = Some c' \<and> GidServers c' (int (Key2Shard ''ab'')) = Inr (gid, Some srvs) \<and>
     (gid, srvs) \<in> set (Groups ex_cfg)"
proof -
  have wf: "wf_cfg ex_cfg" "gids ex_cfg \<noteq> []" by (simp_all add: ex_cfg_def wf_cfg_def MakeShardConfig_def gids_def)
  obtain c' where c': "Rebalance ex_cfg = Some c'" using Rebalance_groups [of ex_cfg] wf by (auto simp: wf_cfg_def)
  with key_is_served [OF wf c', of "''ab''"] show ?thesis by blast
qed

text \<open>
  A refused join is not undone. When a join names a group that is already there,
  \<open>Join\<close> returns false, but the groups it had added before it came to that one stay in the
  configuration, without a new configuration number.
\<close>

theorem refused_join_changes_groups:
  assumes "g1 \<notin> set (gids c)" and "\<not> sharesServer c s1" and "g2 \<in> set (gids c)"
  shows "JoinBalance c [(g1, s1), (g2, s2)] = Some (Inr (c\<lparr>Groups := Groups c @ [(g1, s1)]\<rparr>, False))"
  using assms by (simp add: JoinBalance_def thenRebalance_def Join_def gids_def)

theorem refused_join_changes_groups_witness:
  "JoinBalance ex_cfg [(9, [''z'']), (1, [''y''])] = Some (Inr (ex_cfg\<lparr>Groups := Groups ex_cfg @ [(9, [''z''])]\<rparr>, False))"
  by (rule refused_join_changes_groups) (simp_all add: ex_cfg_def gids_def MakeShardConfig_def sharesServer_def)

subsection \<open>Configurations as text\<close>

text \<open>The JSON text of a configuration is a pair of parameters, as in \<open>Kvtest\<close>.\<close>

definition cfgString :: "(ShardConfig \<Rightarrow> string option) \<Rightarrow> ShardConfig \<Rightarrow> string go" where
  "cfgString enc cfg = (case enc cfg of None \<Rightarrow> Inl LogFatal | Some b \<Rightarrow> Inr b)"

definition FromString :: "(string \<Rightarrow> ShardConfig option) \<Rightarrow> string \<Rightarrow> ShardConfig go" where
  "FromString dec s = (case dec s of None \<Rightarrow> Inl LogFatal | Some cfg \<Rightarrow> Inr cfg)"

lemma cfgString_roundtrip:
  assumes "\<And>c b. enc c = Some b \<Longrightarrow> dec b = Some c" and "cfgString enc cfg = Inr s"
  shows "FromString dec s = Inr cfg"
  using assms by (auto simp: cfgString_def FromString_def split: option.splits)

end
