(* ===== verification/Mr_Coordinator.thy ===== *)
theory Mr_Coordinator
  imports Go_Prelude
begin

text \<open>
  The MapReduce coordinator (\<open>src/mr/coordinator.go\<close> and the handlers in \<open>src/mr/rpc.go\<close>): handing
  out map and reduce tasks, collecting their ends, and taking back tasks that take too long.

  A channel is a number (\<open>None\<close> is the nil channel); \<open>closed\<close> is the set of the closed ones, and
  closing one of them again is the stop \<open>CloseOfClosed\<close>. The map of running tasks is an association
  list with different keys. \<open>monitors\<close> are the goroutines of \<open>TaskMonitor\<close> that have not returned,
  each with its task and its cancel channel. The coordinator is a state machine whose steps are its
  handlers under the lock and the two ways a monitor can end; workers may call \<open>FinishTask\<close> with any
  arguments at any time.
\<close>

record MapTask =
  mtFileName :: string
  mtTaskId :: int
  mtDone :: bool

record ReduceTask =
  rtTaskId :: int
  rtDone :: bool

record Task =
  TaskType :: string
  TaskId :: int

record GetTaskReply =
  grFileName :: string
  grNReduce :: int
  grTaskType :: string
  grTaskId :: int

record FinishTaskArgs =
  ftTaskType :: string
  ftFileName :: string
  ftTaskId :: int

record Coordinator =
  nReduce :: int
  FinishedMapTasks :: int
  FinishedReduceTasks :: int
  RunningMapTasks :: "(int \<times> nat) list"
  MapTasks :: "MapTask list"
  RunningReduceTasks :: "(int \<times> nat) list"
  ReduceTasks :: "ReduceTask list"
  closed :: "nat set"
  nextChan :: nat
  monitors :: "(Task \<times> nat option) list"

definition MakeCoordinator :: "string list \<Rightarrow> int \<Rightarrow> Coordinator" where
  \<comment> \<open>for \<open>n\<close> at least 0, as \<open>main\<close> passes it; \<open>make\<close> panics on a negative length\<close>
  "MakeCoordinator files n =
     \<lparr>nReduce = n, FinishedMapTasks = 0, FinishedReduceTasks = 0, RunningMapTasks = [],
      MapTasks = map (\<lambda>(i, file). \<lparr>mtFileName = file, mtTaskId = int i, mtDone = False\<rparr>) (enumerate 0 files),
      RunningReduceTasks = [],
      ReduceTasks = map (\<lambda>i. \<lparr>rtTaskId = int i, rtDone = False\<rparr>) [0..<nat n],
      closed = {}, nextChan = 0, monitors = []\<rparr>"

definition Done :: "Coordinator \<Rightarrow> bool" where
  "Done c \<longleftrightarrow> FinishedMapTasks c = int (length (MapTasks c)) \<and> FinishedReduceTasks c = int (length (ReduceTasks c))"

subsection \<open>GetTask\<close>

definition zeroReply :: GetTaskReply where
  "zeroReply = \<lparr>grFileName = [], grNReduce = 0, grTaskType = [], grTaskId = 0\<rparr>"

definition spawn :: "Task \<Rightarrow> nat option \<Rightarrow> Coordinator \<Rightarrow> Coordinator" where
  "spawn t ch c = c\<lparr>monitors := (t, ch) # monitors c\<rparr>"

definition assignMap :: "Coordinator \<Rightarrow> Coordinator \<times> GetTaskReply" where
  \<comment> \<open>the loop over the map tasks, and the monitor that is started after it in any case\<close>
  "assignMap c =
     (let r0 = zeroReply\<lparr>grNReduce := nReduce c\<rparr>;
          (c1, r) = (case find (\<lambda>t. map_of (RunningMapTasks c) (mtTaskId t) = None \<and> \<not> mtDone t) (MapTasks c) of
              None \<Rightarrow> (c, r0)
            | Some t \<Rightarrow> (c\<lparr>RunningMapTasks := (mtTaskId t, nextChan c) # RunningMapTasks c, nextChan := Suc (nextChan c)\<rparr>,
                         r0\<lparr>grFileName := mtFileName t, grTaskId := mtTaskId t, grTaskType := ''map''\<rparr>))
      in (spawn \<lparr>TaskType = ''map'', TaskId = grTaskId r\<rparr> (map_of (RunningMapTasks c1) (grTaskId r)) c1, r))"

definition assignReduce :: "Coordinator \<Rightarrow> Coordinator \<times> GetTaskReply" where
  "assignReduce c =
     (let r0 = zeroReply\<lparr>grNReduce := nReduce c\<rparr>;
          (c1, r) = (case find (\<lambda>t. map_of (RunningReduceTasks c) (rtTaskId t) = None \<and> \<not> rtDone t) (ReduceTasks c) of
              None \<Rightarrow> (c, r0)
            | Some t \<Rightarrow> (c\<lparr>RunningReduceTasks := (rtTaskId t, nextChan c) # RunningReduceTasks c, nextChan := Suc (nextChan c)\<rparr>,
                         r0\<lparr>grTaskId := rtTaskId t, grTaskType := ''reduce''\<rparr>))
      in (spawn \<lparr>TaskType = ''reduce'', TaskId = grTaskId r\<rparr> (map_of (RunningReduceTasks c1) (grTaskId r)) c1, r))"

definition GetTask :: "Coordinator \<Rightarrow> Coordinator \<times> GetTaskReply" where
  "GetTask c =
     (let mapsLeft = int (length (MapTasks c)) > int (length (RunningMapTasks c)) + FinishedMapTasks c in
      if length (RunningMapTasks c) > 0 \<or> mapsLeft
      then (if mapsLeft then assignMap c else (c, zeroReply\<lparr>grTaskType := ''wait''\<rparr>))
      else if int (length (ReduceTasks c)) > int (length (RunningReduceTasks c)) + FinishedReduceTasks c
      then assignReduce c
      else if length (RunningReduceTasks c) > 0 then (c, zeroReply\<lparr>grTaskType := ''wait''\<rparr>)
      else (c, zeroReply\<lparr>grTaskType := ''done''\<rparr>))"

subsection \<open>FinishTask and TaskMonitor\<close>

definition closeChan :: "nat option \<Rightarrow> Coordinator \<Rightarrow> Coordinator go" where
  \<comment> \<open>\<open>if ok && ch != nil { close(ch) }\<close>\<close>
  "closeChan ch c = (case ch of None \<Rightarrow> Inr c
     | Some k \<Rightarrow> if k \<in> closed c then Inl CloseOfClosed else Inr (c\<lparr>closed := insert k (closed c)\<rparr>))"

definition dropKey :: "int \<Rightarrow> (int \<times> nat) list \<Rightarrow> (int \<times> nat) list" where
  "dropKey i m = filter (\<lambda>p. fst p \<noteq> i) m"

definition markMap :: "int \<Rightarrow> Coordinator \<Rightarrow> Coordinator go" where
  \<comment> \<open>\<open>c.FinishedMapTasks++; c.MapTasks[id].done = true\<close>\<close>
  "markMap i c = go_bind (go_index (MapTasks c) i) (\<lambda>t.
     Inr (c\<lparr>FinishedMapTasks := FinishedMapTasks c + 1, MapTasks := (MapTasks c)[nat i := t\<lparr>mtDone := True\<rparr>]\<rparr>))"

definition markReduce :: "int \<Rightarrow> Coordinator \<Rightarrow> Coordinator go" where
  "markReduce i c = go_bind (go_index (ReduceTasks c) i) (\<lambda>t.
     Inr (c\<lparr>FinishedReduceTasks := FinishedReduceTasks c + 1,
            ReduceTasks := (ReduceTasks c)[nat i := t\<lparr>rtDone := True\<rparr>]\<rparr>))"

definition FinishTask :: "Coordinator \<Rightarrow> FinishTaskArgs \<Rightarrow> Coordinator go" where
  "FinishTask c args =
     (let i = ftTaskId args in
      if ftTaskType args = ''map''
      then let ch = map_of (RunningMapTasks c) i in
           go_bind (closeChan ch c) (\<lambda>c1.
             let c2 = c1\<lparr>RunningMapTasks := dropKey i (RunningMapTasks c1)\<rparr>
             in if ch \<noteq> None then markMap i c2 else Inr c2)
      else if ftTaskType args = ''reduce''
      then let ch = map_of (RunningReduceTasks c) i in
           go_bind (closeChan ch c) (\<lambda>c1.
             let c2 = c1\<lparr>RunningReduceTasks := dropKey i (RunningReduceTasks c1)\<rparr>
             in if ch \<noteq> None then markReduce i c2 else Inr c2)
      else Inr c)"

definition TaskMonitor_timeout :: "Coordinator \<Rightarrow> Task \<Rightarrow> Coordinator go" where
  \<comment> \<open>\<open>case <-timer.C\<close>\<close>
  "TaskMonitor_timeout c t =
     (let i = TaskId t in
      if TaskType t = ''map''
      then go_bind (closeChan (map_of (RunningMapTasks c) i) c) (\<lambda>c1.
             Inr (c1\<lparr>RunningMapTasks := dropKey i (RunningMapTasks c1)\<rparr>))
      else if TaskType t = ''reduce''
      then go_bind (closeChan (map_of (RunningReduceTasks c) i) c) (\<lambda>c1.
             Inr (c1\<lparr>RunningReduceTasks := dropKey i (RunningReduceTasks c1)\<rparr>))
      else Inr c)"

definition endMonitor :: "Task \<times> nat option \<Rightarrow> Coordinator \<Rightarrow> Coordinator" where
  "endMonitor m c = c\<lparr>monitors := remove1 m (monitors c)\<rparr>"

inductive mr_step :: "Coordinator \<Rightarrow> Coordinator \<Rightarrow> bool" where
  get_task: "GetTask c = (c', reply) \<Longrightarrow> mr_step c c'"
| finish_task: "FinishTask c args = Inr c' \<Longrightarrow> mr_step c c'"
| task_timeout: "m \<in> set (monitors c) \<Longrightarrow> TaskMonitor_timeout c (fst m) = Inr c' \<Longrightarrow> mr_step c (endMonitor m c')"
| task_cancelled: "m \<in> set (monitors c) \<Longrightarrow> snd m = Some k \<Longrightarrow> k \<in> closed c \<Longrightarrow> mr_step c (endMonitor m c)"

subsection \<open>One phase\<close>

text \<open>
  What the running tasks, the done flags and the counter of one phase have to do with each other;
  \<open>cl\<close> are the closed channels and \<open>nx\<close> is the next fresh one.
\<close>

definition phase_ok :: "(int \<times> nat) list \<Rightarrow> bool list \<Rightarrow> int \<Rightarrow> nat set \<Rightarrow> nat \<Rightarrow> bool" where
  "phase_ok run fl fin cl nx \<longleftrightarrow> distinct (map fst run) \<and> distinct (map snd run) \<and>
     (\<forall>p \<in> set run. 0 \<le> fst p \<and> nat (fst p) < length fl \<and> \<not> fl ! nat (fst p) \<and> snd p \<notin> cl \<and> snd p < nx) \<and>
     fin = int (length (filter id fl))"

lemma phase_pick:
  assumes "phase_ok run fl fin cl nx" and "int (length run) + fin < int (length fl)"
  shows "\<exists>i < length fl. map_of run (int i) = None \<and> \<not> fl ! i"
proof (rule ccontr)
  assume "\<not> ?thesis"
  then have "{i. i < length fl \<and> \<not> fl ! i} \<subseteq> (nat \<circ> fst) ` set run"
    by (auto simp: map_of_eq_None_iff image_iff) (metis nat_int)
  then have "card {i. i < length fl \<and> \<not> fl ! i} \<le> length run"
    by (meson card_image_le card_length card_mono finite_imageI finite_set le_trans)
  moreover have "length (filter (\<lambda>b. \<not> b) fl) + length (filter id fl) = length fl"
    using sum_length_filter_compl [of id fl] by simp
  moreover have "length (filter (\<lambda>b. \<not> b) fl) = card {i. i < length fl \<and> \<not> fl ! i}"
    by (simp add: length_filter_conv_card)
  ultimately show False using assms by (simp add: phase_ok_def)
qed

lemma phase_full:
  assumes "phase_ok run fl fin cl nx" and "int (length fl) \<le> int (length run) + fin" and "i < length fl" and "\<not> fl ! i"
  shows "map_of run (int i) \<noteq> None"
proof -
  let ?todo = "{i. i < length fl \<and> \<not> fl ! i}" and ?ran = "(nat \<circ> fst) ` set run"
  have dist: "distinct (map fst run)" and pos: "\<forall>p \<in> set run. 0 \<le> fst p" and sub: "?ran \<subseteq> ?todo"
    using assms(1) by (auto simp: phase_ok_def)
  have "inj_on (nat \<circ> fst) (set run)"
    using dist pos unfolding distinct_map inj_on_def comp_def by (metis eq_nat_nat_iff)
  then have "card ?ran = length run" using dist by (simp only: card_image distinct_card distinct_map)
  moreover have "length (filter (\<lambda>b. \<not> b) fl) + length (filter id fl) = length fl"
    using sum_length_filter_compl [of id fl] by simp
  then have "card ?todo \<le> length run"
    using assms(1,2) by (simp add: phase_ok_def length_filter_conv_card)
  ultimately have "?ran = ?todo" using sub by (intro card_seteq) simp_all
  then have "i \<in> ?ran" using assms(3,4) by blast
  then obtain p where "i = (nat \<circ> fst) p" "p \<in> set run" by (rule imageE)
  then have "int i \<in> fst ` set run" using pos by (auto simp: image_iff intro: bexI [of _ p])
  then show ?thesis by (simp add: map_of_eq_None_iff)
qed

lemma phase_assign:
  assumes "phase_ok run fl fin cl nx" and "i < length fl" "\<not> fl ! i" "map_of run (int i) = None"
    and "\<forall>k \<in> cl. k < nx"
  shows "phase_ok ((int i, nx) # run) fl fin cl (Suc nx)"
  using assms by (auto simp: phase_ok_def map_of_eq_None_iff)

lemma phase_mono: "phase_ok run fl fin cl nx \<Longrightarrow> phase_ok run fl fin cl (Suc nx)"
  by (auto simp: phase_ok_def)

lemma phase_close: "phase_ok run fl fin cl nx \<Longrightarrow> k \<notin> snd ` set run \<Longrightarrow> phase_ok run fl fin (insert k cl) nx"
  by (auto simp: phase_ok_def)

lemma phase_member:
  assumes "phase_ok run fl fin cl nx" and "map_of run i = Some k"
  shows "(i, k) \<in> set run" "0 \<le> i" "nat i < length fl" "\<not> fl ! nat i" "k \<notin> cl" "k < nx"
  using assms map_of_SomeD [OF assms(2)] by (auto simp: phase_ok_def)

lemma phase_unique:
  assumes "phase_ok run fl fin cl nx" and "(i, k) \<in> set run"
  shows "map_of run i = Some k"
  using assms by (simp add: phase_ok_def)

lemma dropKey_set [simp]: "set (dropKey i run) = {p \<in> set run. fst p \<noteq> i}"
  by (auto simp: dropKey_def)

lemma phase_drop:
  assumes "phase_ok run fl fin cl nx" and "map_of run i = Some k"
  shows "phase_ok (dropKey i run) fl fin (insert k cl) nx"
proof -
  note m = phase_member [OF assms]
  have "snd p \<noteq> k" if "p \<in> set run" "fst p \<noteq> i" for p
    using assms(1) m(1) that by (metis distinct_map inj_onD phase_ok_def prod.sel)
  then show ?thesis using assms(1) by (auto simp: phase_ok_def dropKey_def distinct_map_filter)
qed

lemma count_done: "i < length fl \<Longrightarrow> \<not> fl ! i \<Longrightarrow> length (filter id (fl[i := True])) = Suc (length (filter id fl))"
proof -
  assume h: "i < length fl" "\<not> fl ! i"
  have "{j. j < length fl \<and> fl[i := True] ! j} = insert i {j. j < length fl \<and> fl ! j}"
    using h by (auto simp: nth_list_update)
  then show ?thesis using h by (simp add: length_filter_conv_card)
qed

lemma phase_finish:
  assumes "phase_ok run fl fin cl nx" and "map_of run i = Some k"
  shows "phase_ok (dropKey i run) (fl[nat i := True]) (fin + 1) (insert k cl) nx"
proof -
  note m = phase_member [OF assms] and d = phase_drop [OF assms]
  have "\<not> fl[nat i := True] ! nat (fst p)" if "p \<in> set run" "fst p \<noteq> i" for p
  proof -
    have "0 \<le> fst p" "\<not> fl ! nat (fst p)" using assms(1) that(1) by (auto simp: phase_ok_def)
    then show ?thesis using that(2) m(2) by (simp add: nth_list_update_neq eq_nat_nat_iff)
  qed
  then show ?thesis using d count_done [OF m(3,4)] unfolding phase_ok_def dropKey_set by auto
qed

lemma phase_empty: "phase_ok [] (replicate n False) 0 {} 0"
  by (simp add: phase_ok_def)

subsection \<open>The invariant of the coordinator\<close>

definition monitor_ok :: "(int \<times> nat) list \<Rightarrow> bool list \<Rightarrow> int \<Rightarrow> nat \<Rightarrow> bool" where
  \<comment> \<open>a live monitor watches the assignment it was started for, unless the task is done\<close>
  "monitor_ok run fl i k \<longleftrightarrow> 0 \<le> i \<and> nat i < length fl \<and> (fl ! nat i \<or> (i, k) \<in> set run)"

definition coord_inv :: "Coordinator \<Rightarrow> bool" where
  "coord_inv c \<longleftrightarrow>
     phase_ok (RunningMapTasks c) (map mtDone (MapTasks c)) (FinishedMapTasks c) (closed c) (nextChan c) \<and>
     phase_ok (RunningReduceTasks c) (map rtDone (ReduceTasks c)) (FinishedReduceTasks c) (closed c) (nextChan c) \<and>
     map mtTaskId (MapTasks c) = map int [0..<length (MapTasks c)] \<and>
     map rtTaskId (ReduceTasks c) = map int [0..<length (ReduceTasks c)] \<and>
     snd ` set (RunningMapTasks c) \<inter> snd ` set (RunningReduceTasks c) = {} \<and>
     (\<forall>k \<in> closed c. k < nextChan c) \<and>
     (RunningReduceTasks c \<noteq> [] \<or> FinishedReduceTasks c > 0 \<longrightarrow>
        FinishedMapTasks c = int (length (MapTasks c)) \<and> RunningMapTasks c = []) \<and>
     distinct (monitors c) \<and>
     (\<forall>m \<in> set (monitors c). \<exists>k. snd m = Some k \<and> k < nextChan c \<and>
        (TaskType (fst m) = ''map'' \<and> monitor_ok (RunningMapTasks c) (map mtDone (MapTasks c)) (TaskId (fst m)) k \<or>
         TaskType (fst m) = ''reduce'' \<and> monitor_ok (RunningReduceTasks c) (map rtDone (ReduceTasks c)) (TaskId (fst m)) k))"

lemma MakeCoordinator_inv: "coord_inv (MakeCoordinator files n)"
proof -
  have "map mtDone (MapTasks (MakeCoordinator files n)) = replicate (length files) False"
    by (auto simp: MakeCoordinator_def intro!: nth_equalityI simp: nth_enumerate_eq)
  moreover have "map rtDone (ReduceTasks (MakeCoordinator files n)) = replicate (nat n) False"
    by (auto simp: MakeCoordinator_def intro!: nth_equalityI)
  moreover have "map mtTaskId (MapTasks (MakeCoordinator files n)) = map int [0..<length files]"
    by (auto simp: MakeCoordinator_def intro!: nth_equalityI simp: nth_enumerate_eq)
  ultimately show ?thesis using phase_empty
    by (simp add: coord_inv_def MakeCoordinator_def comp_def)
qed

lemma coord_invD:
  assumes "coord_inv c"
  shows "phase_ok (RunningMapTasks c) (map mtDone (MapTasks c)) (FinishedMapTasks c) (closed c) (nextChan c)"
    "phase_ok (RunningReduceTasks c) (map rtDone (ReduceTasks c)) (FinishedReduceTasks c) (closed c) (nextChan c)"
    "\<And>j. j < length (MapTasks c) \<Longrightarrow> mtTaskId (MapTasks c ! j) = int j"
    "\<And>j. j < length (ReduceTasks c) \<Longrightarrow> rtTaskId (ReduceTasks c ! j) = int j"
    "\<And>k. k \<in> closed c \<Longrightarrow> k < nextChan c"
    "\<And>k. k \<in> snd ` set (RunningMapTasks c) \<Longrightarrow> k \<notin> snd ` set (RunningReduceTasks c)"
    "RunningReduceTasks c \<noteq> [] \<or> FinishedReduceTasks c > 0 \<Longrightarrow>
       FinishedMapTasks c = int (length (MapTasks c)) \<and> RunningMapTasks c = []"
proof -
  have ids: "map mtTaskId (MapTasks c) = map int [0..<length (MapTasks c)]"
    "map rtTaskId (ReduceTasks c) = map int [0..<length (ReduceTasks c)]"
    using assms by (simp_all add: coord_inv_def)
  show "mtTaskId (MapTasks c ! j) = int j" if "j < length (MapTasks c)" for j
    using arg_cong [OF ids(1), of "\<lambda>xs. xs ! j"] that by simp
  show "rtTaskId (ReduceTasks c ! j) = int j" if "j < length (ReduceTasks c)" for j
    using arg_cong [OF ids(2), of "\<lambda>xs. xs ! j"] that by simp
qed (use assms in \<open>auto simp: coord_inv_def\<close>)

lemma find_map:
  assumes "coord_inv c" and "int (length (MapTasks c)) > int (length (RunningMapTasks c)) + FinishedMapTasks c"
  obtains j where "j < length (MapTasks c)" "map_of (RunningMapTasks c) (int j) = None" "\<not> mtDone (MapTasks c ! j)"
    "find (\<lambda>t. map_of (RunningMapTasks c) (mtTaskId t) = None \<and> \<not> mtDone t) (MapTasks c) = Some (MapTasks c ! j)"
proof -
  let ?P = "\<lambda>t. map_of (RunningMapTasks c) (mtTaskId t) = None \<and> \<not> mtDone t"
  note d = coord_invD [OF assms(1)]
  from phase_pick [OF d(1)] assms(2) obtain i where
    "i < length (MapTasks c)" "map_of (RunningMapTasks c) (int i) = None" "\<not> mtDone (MapTasks c ! i)" by auto
  then have "find ?P (MapTasks c) \<noteq> None" using d(3) by (auto simp: find_None_iff in_set_conv_nth)
  then obtain t where "find ?P (MapTasks c) = Some t" by blast
  with that d(3) show ?thesis by (auto simp: find_Some_iff)
qed

lemma find_reduce:
  assumes "coord_inv c" and "int (length (ReduceTasks c)) > int (length (RunningReduceTasks c)) + FinishedReduceTasks c"
  obtains j where "j < length (ReduceTasks c)" "map_of (RunningReduceTasks c) (int j) = None" "\<not> rtDone (ReduceTasks c ! j)"
    "find (\<lambda>t. map_of (RunningReduceTasks c) (rtTaskId t) = None \<and> \<not> rtDone t) (ReduceTasks c) = Some (ReduceTasks c ! j)"
proof -
  let ?P = "\<lambda>t. map_of (RunningReduceTasks c) (rtTaskId t) = None \<and> \<not> rtDone t"
  note d = coord_invD [OF assms(1)]
  from phase_pick [OF d(2)] assms(2) obtain i where
    "i < length (ReduceTasks c)" "map_of (RunningReduceTasks c) (int i) = None" "\<not> rtDone (ReduceTasks c ! i)" by auto
  then have "find ?P (ReduceTasks c) \<noteq> None" using d(4) by (auto simp: find_None_iff in_set_conv_nth)
  then obtain t where "find ?P (ReduceTasks c) = Some t" by blast
  with that d(4) show ?thesis by (auto simp: find_Some_iff)
qed

lemma monitor_fresh:
  assumes "coord_inv c"
  shows "(t, Some (nextChan c)) \<notin> set (monitors c)"
  using assms by (fastforce simp: coord_inv_def)

lemma running_fresh:
  assumes "coord_inv c"
  shows "nextChan c \<notin> snd ` set (RunningMapTasks c)" "nextChan c \<notin> snd ` set (RunningReduceTasks c)"
  using coord_invD(1,2) [OF assms] by (force simp: phase_ok_def)+

lemma monitor_ok_more: "monitor_ok run fl i k \<Longrightarrow> set run \<subseteq> set run' \<Longrightarrow> monitor_ok run' fl i k"
  by (auto simp: monitor_ok_def)

lemma assignMap_ok:
  assumes inv: "coord_inv c" and "int (length (MapTasks c)) > int (length (RunningMapTasks c)) + FinishedMapTasks c"
    and red: "RunningReduceTasks c = []" "FinishedReduceTasks c \<le> 0"
    and a: "assignMap c = (c', r)"
  shows "coord_inv c' \<and> grTaskType r = ''map'' \<and> (\<exists>j < length (MapTasks c). grTaskId r = int j \<and>
    grFileName r = mtFileName (MapTasks c ! j) \<and> \<not> mtDone (MapTasks c ! j) \<and> map_of (RunningMapTasks c) (int j) = None)"
proof -
  note d = coord_invD [OF inv]
  from find_map [OF inv assms(2)] obtain j where j: "j < length (MapTasks c)" "map_of (RunningMapTasks c) (int j) = None"
    "\<not> mtDone (MapTasks c ! j)"
    "find (\<lambda>t. map_of (RunningMapTasks c) (mtTaskId t) = None \<and> \<not> mtDone t) (MapTasks c) = Some (MapTasks c ! j)" .
  let ?t = "\<lparr>TaskType = ''map'', TaskId = int j\<rparr>"
  have c': "c' = c\<lparr>RunningMapTasks := (int j, nextChan c) # RunningMapTasks c, nextChan := Suc (nextChan c),
      monitors := (?t, Some (nextChan c)) # monitors c\<rparr>"
    and r: "grTaskType r = ''map''" "grTaskId r = int j" "grFileName r = mtFileName (MapTasks c ! j)"
    using a j d(3) [OF j(1)] by (auto simp: assignMap_def spawn_def Let_def zeroReply_def)
  have ph: "phase_ok ((int j, nextChan c) # RunningMapTasks c) (map mtDone (MapTasks c)) (FinishedMapTasks c)
      (closed c) (Suc (nextChan c))"
    by (rule phase_assign [OF d(1)]) (use j d(5) in auto)
  have mon: "monitor_ok ((int j, nextChan c) # RunningMapTasks c) (map mtDone (MapTasks c)) (int j) (nextChan c)"
    using j(1) by (simp add: monitor_ok_def)
  have olds: "\<exists>k. snd m = Some k \<and> k < Suc (nextChan c) \<and>
      (TaskType (fst m) = ''map'' \<and> monitor_ok ((int j, nextChan c) # RunningMapTasks c) (map mtDone (MapTasks c)) (TaskId (fst m)) k \<or>
       TaskType (fst m) = ''reduce'' \<and> monitor_ok (RunningReduceTasks c) (map rtDone (ReduceTasks c)) (TaskId (fst m)) k)"
    if "m \<in> set (monitors c)" for m
  proof -
    from inv that obtain k where "snd m = Some k" "k < nextChan c"
      "TaskType (fst m) = ''map'' \<and> monitor_ok (RunningMapTasks c) (map mtDone (MapTasks c)) (TaskId (fst m)) k \<or>
       TaskType (fst m) = ''reduce'' \<and> monitor_ok (RunningReduceTasks c) (map rtDone (ReduceTasks c)) (TaskId (fst m)) k"
      unfolding coord_inv_def by blast
    then show ?thesis using monitor_ok_more [of "RunningMapTasks c" _ _ k "(int j, nextChan c) # RunningMapTasks c"] by auto
  qed
  have "coord_inv c'"
    unfolding coord_inv_def
    using inv ph phase_mono [OF d(2)] mon olds monitor_fresh [OF inv, of ?t] red d(5)
    by (auto simp: c' coord_inv_def less_Suc_eq)
  then show ?thesis using r j by blast
qed

lemma phase_fin_le: "phase_ok run fl fin cl nx \<Longrightarrow> 0 \<le> fin \<and> fin \<le> int (length fl)"
  by (simp add: phase_ok_def)

definition mon_all :: "Coordinator \<Rightarrow> Task \<times> nat option \<Rightarrow> bool" where
  "mon_all c m \<longleftrightarrow> (\<exists>k. snd m = Some k \<and> k < nextChan c \<and>
     (TaskType (fst m) = ''map'' \<and> monitor_ok (RunningMapTasks c) (map mtDone (MapTasks c)) (TaskId (fst m)) k \<or>
      TaskType (fst m) = ''reduce'' \<and> monitor_ok (RunningReduceTasks c) (map rtDone (ReduceTasks c)) (TaskId (fst m)) k))"

lemma coord_inv_monitors: "coord_inv c \<Longrightarrow> m \<in> set (monitors c) \<Longrightarrow> mon_all c m"
  by (simp add: coord_inv_def mon_all_def)

lemma assignReduce_ok:
  assumes inv: "coord_inv c" and "int (length (ReduceTasks c)) > int (length (RunningReduceTasks c)) + FinishedReduceTasks c"
    and maps: "RunningMapTasks c = []" "FinishedMapTasks c = int (length (MapTasks c))"
    and a: "assignReduce c = (c', r)"
  shows "coord_inv c' \<and> grTaskType r = ''reduce'' \<and> (\<exists>j < length (ReduceTasks c). grTaskId r = int j \<and>
    \<not> rtDone (ReduceTasks c ! j) \<and> map_of (RunningReduceTasks c) (int j) = None)"
proof -
  note d = coord_invD [OF inv]
  from find_reduce [OF inv assms(2)] obtain j where j: "j < length (ReduceTasks c)" "map_of (RunningReduceTasks c) (int j) = None"
    "\<not> rtDone (ReduceTasks c ! j)"
    "find (\<lambda>t. map_of (RunningReduceTasks c) (rtTaskId t) = None \<and> \<not> rtDone t) (ReduceTasks c) = Some (ReduceTasks c ! j)" .
  let ?t = "\<lparr>TaskType = ''reduce'', TaskId = int j\<rparr>"
  have c': "c' = c\<lparr>RunningReduceTasks := (int j, nextChan c) # RunningReduceTasks c, nextChan := Suc (nextChan c),
      monitors := (?t, Some (nextChan c)) # monitors c\<rparr>"
    and r: "grTaskType r = ''reduce''" "grTaskId r = int j"
    using a j d(4) [OF j(1)] by (auto simp: assignReduce_def spawn_def Let_def zeroReply_def)
  have ph: "phase_ok ((int j, nextChan c) # RunningReduceTasks c) (map rtDone (ReduceTasks c)) (FinishedReduceTasks c)
      (closed c) (Suc (nextChan c))"
    by (rule phase_assign [OF d(2)]) (use j d(5) in auto)
  have new: "mon_all c' (?t, Some (nextChan c))" using j(1) by (simp add: mon_all_def c' monitor_ok_def)
  have olds: "mon_all c' m" if "m \<in> set (monitors c)" for m
    using coord_inv_monitors [OF inv that]
      monitor_ok_more [of "RunningReduceTasks c" _ _ _ "(int j, nextChan c) # RunningReduceTasks c"]
    by (fastforce simp: mon_all_def c')
  have "\<forall>m \<in> set (monitors c'). mon_all c' m" using new olds by (simp add: c')
  then have "coord_inv c'"
    unfolding coord_inv_def mon_all_def [symmetric]
    using inv ph phase_mono [OF d(1)] monitor_fresh [OF inv, of ?t] maps d(5)
    by (auto simp: c' coord_inv_def less_Suc_eq)
  then show ?thesis using r j by blast
qed

lemma GetTask_cases:
  assumes inv: "coord_inv c" and g: "GetTask c = (c', r)"
  shows "coord_inv c' \<and>
    (grTaskType r = ''map'' \<and> (\<exists>j < length (MapTasks c). grTaskId r = int j \<and> grFileName r = mtFileName (MapTasks c ! j) \<and>
        \<not> mtDone (MapTasks c ! j) \<and> map_of (RunningMapTasks c) (int j) = None) \<or>
     grTaskType r = ''reduce'' \<and> FinishedMapTasks c = int (length (MapTasks c)) \<and>
        (\<exists>j < length (ReduceTasks c). grTaskId r = int j \<and> \<not> rtDone (ReduceTasks c ! j) \<and>
           map_of (RunningReduceTasks c) (int j) = None) \<or>
     grTaskType r = ''wait'' \<and> c' = c \<and> (RunningMapTasks c \<noteq> [] \<or> RunningReduceTasks c \<noteq> []) \<or>
     grTaskType r = ''done'' \<and> c' = c \<and> Done c)"
proof -
  note d = coord_invD [OF inv]
  note fins = phase_fin_le [OF d(1)] phase_fin_le [OF d(2)]
  let ?left = "int (length (MapTasks c)) > int (length (RunningMapTasks c)) + FinishedMapTasks c"
  show ?thesis
  proof (cases ?left)
    case True
    have "RunningReduceTasks c = []" "FinishedReduceTasks c \<le> 0" using d(7) True by fastforce+
    from assignMap_ok [OF inv True this] g True show ?thesis by (simp add: GetTask_def)
  next
    case False
    show ?thesis
    proof (cases "RunningMapTasks c = []")
      case run: False
      then have "c' = c" "r = zeroReply\<lparr>grTaskType := ''wait''\<rparr>" using g False by (simp_all add: GetTask_def)
      then show ?thesis using inv run by simp
    next
      case True
      then have all: "FinishedMapTasks c = int (length (MapTasks c))" using False fins by simp
      show ?thesis
      proof (cases "int (length (ReduceTasks c)) > int (length (RunningReduceTasks c)) + FinishedReduceTasks c")
        case left: True
        from assignReduce_ok [OF inv left True all] g True False left all show ?thesis by (simp add: GetTask_def)
      next
        case right: False
        then have "c' = c" "r = zeroReply\<lparr>grTaskType := (if RunningReduceTasks c \<noteq> [] then ''wait'' else ''done'')\<rparr>"
          using g True False by (auto simp: GetTask_def split: if_splits)
        then show ?thesis using inv right all fins by (auto simp: Done_def)
      qed
    qed
  qed
qed

text \<open>The ends of a map task and of a reduce task, by a worker's call or by a timeout.\<close>

definition mapEnded :: "bool \<Rightarrow> int \<Rightarrow> nat \<Rightarrow> Coordinator \<Rightarrow> Coordinator" where
  "mapEnded finished i k c = c\<lparr>closed := insert k (closed c), RunningMapTasks := dropKey i (RunningMapTasks c),
     FinishedMapTasks := (if finished then FinishedMapTasks c + 1 else FinishedMapTasks c),
     MapTasks := (if finished then (MapTasks c)[nat i := (MapTasks c ! nat i)\<lparr>mtDone := True\<rparr>] else MapTasks c)\<rparr>"

definition reduceEnded :: "bool \<Rightarrow> int \<Rightarrow> nat \<Rightarrow> Coordinator \<Rightarrow> Coordinator" where
  "reduceEnded finished i k c = c\<lparr>closed := insert k (closed c), RunningReduceTasks := dropKey i (RunningReduceTasks c),
     FinishedReduceTasks := (if finished then FinishedReduceTasks c + 1 else FinishedReduceTasks c),
     ReduceTasks := (if finished then (ReduceTasks c)[nat i := (ReduceTasks c ! nat i)\<lparr>rtDone := True\<rparr>] else ReduceTasks c)\<rparr>"

lemma dropKey_absent: "map_of run i = None \<Longrightarrow> dropKey i run = run"
  by (auto simp: dropKey_def map_of_eq_None_iff filter_id_conv image_iff)

lemma FinishTask_total:
  assumes "coord_inv c"
  shows "\<exists>c'. FinishTask c args = Inr c' \<and> (c' = c \<or>
    (\<exists>k. ftTaskType args = ''map'' \<and> map_of (RunningMapTasks c) (ftTaskId args) = Some k \<and> c' = mapEnded True (ftTaskId args) k c) \<or>
    (\<exists>k. ftTaskType args = ''reduce'' \<and> map_of (RunningReduceTasks c) (ftTaskId args) = Some k \<and>
       c' = reduceEnded True (ftTaskId args) k c))"
proof -
  note d = coord_invD [OF assms]
  let ?i = "ftTaskId args"
  consider (m) "ftTaskType args = ''map''" | (r) "ftTaskType args = ''reduce''"
    | (o) "ftTaskType args \<noteq> ''map''" "ftTaskType args \<noteq> ''reduce''" by blast
  then show ?thesis
  proof cases
    case m
    show ?thesis
    proof (cases "map_of (RunningMapTasks c) ?i")
      case None
      then show ?thesis using m by (simp add: FinishTask_def closeChan_def dropKey_absent)
    next
      case (Some k)
      note pm = phase_member [OF d(1) Some]
      have "go_index (MapTasks c) ?i = Inr (MapTasks c ! nat ?i)" using pm(2,3) by (simp add: go_index_def nat_less_iff)
      then show ?thesis using m Some pm(5)
        by (simp add: FinishTask_def closeChan_def markMap_def mapEnded_def Let_def)
    qed
  next
    case r
    show ?thesis
    proof (cases "map_of (RunningReduceTasks c) ?i")
      case None
      then show ?thesis using r by (simp add: FinishTask_def closeChan_def dropKey_absent)
    next
      case (Some k)
      note pm = phase_member [OF d(2) Some]
      have "go_index (ReduceTasks c) ?i = Inr (ReduceTasks c ! nat ?i)" using pm(2,3) by (simp add: go_index_def nat_less_iff)
      then show ?thesis using r Some pm(5)
        by (simp add: FinishTask_def closeChan_def markReduce_def reduceEnded_def Let_def)
    qed
  next
    case o
    then show ?thesis by (simp add: FinishTask_def)
  qed
qed

lemma TaskMonitor_timeout_total:
  assumes "coord_inv c"
  shows "\<exists>c'. TaskMonitor_timeout c t = Inr c' \<and> (c' = c \<or>
    (\<exists>k. TaskType t = ''map'' \<and> map_of (RunningMapTasks c) (TaskId t) = Some k \<and> c' = mapEnded False (TaskId t) k c) \<or>
    (\<exists>k. TaskType t = ''reduce'' \<and> map_of (RunningReduceTasks c) (TaskId t) = Some k \<and> c' = reduceEnded False (TaskId t) k c))"
  using phase_member(5) [OF coord_invD(1) [OF assms]] phase_member(5) [OF coord_invD(2) [OF assms]]
  by (cases "map_of (RunningMapTasks c) (TaskId t)"; cases "map_of (RunningReduceTasks c) (TaskId t)")
    (auto simp: TaskMonitor_timeout_def closeChan_def mapEnded_def reduceEnded_def dropKey_absent Let_def)

lemma map_done_update:
  "i < length ts \<Longrightarrow> map mtDone (ts[i := (ts ! i)\<lparr>mtDone := True\<rparr>]) = (map mtDone ts)[i := True]"
  "i < length ts \<Longrightarrow> map mtTaskId (ts[i := (ts ! i)\<lparr>mtDone := True\<rparr>]) = map mtTaskId ts"
  by (simp_all add: map_update list_update_same_conv)

lemma reduce_done_update:
  "i < length us \<Longrightarrow> map rtDone (us[i := (us ! i)\<lparr>rtDone := True\<rparr>]) = (map rtDone us)[i := True]"
  "i < length us \<Longrightarrow> map rtTaskId (us[i := (us ! i)\<lparr>rtDone := True\<rparr>]) = map rtTaskId us"
  by (simp_all add: map_update list_update_same_conv)

lemma monitor_ok_drop:
  assumes "monitor_ok run fl j q" and "fl' = fl \<and> j \<noteq> i \<or> fl' = fl[nat i := True] \<and> 0 \<le> i"
  shows "monitor_ok (dropKey i run) fl' j q"
  using assms by (cases "nat j = nat i") (auto simp: monitor_ok_def)

lemma mapEnded_inv:
  assumes inv: "coord_inv c" and k: "map_of (RunningMapTasks c) i = Some k"
    and ms: "distinct ms" "set ms \<subseteq> set (monitors c)"
    and gone: "\<not> fin \<Longrightarrow> \<forall>m \<in> set ms. \<not> (TaskType (fst m) = ''map'' \<and> TaskId (fst m) = i)"
  shows "coord_inv ((mapEnded fin i k c)\<lparr>monitors := ms\<rparr>)"
proof -
  note d = coord_invD [OF inv] and pm = phase_member [OF coord_invD(1) [OF inv] k]
  let ?c = "(mapEnded fin i k c)\<lparr>monitors := ms\<rparr>"
  have len: "nat i < length (MapTasks c)" using pm(3) by simp
  have ph: "phase_ok (RunningMapTasks ?c) (map mtDone (MapTasks ?c)) (FinishedMapTasks ?c) (closed ?c) (nextChan ?c)"
    using phase_drop [OF d(1) k] phase_finish [OF d(1) k] len by (simp add: mapEnded_def map_done_update)
  have "k \<notin> snd ` set (RunningReduceTasks c)" using d(6) pm(1) by force
  then have ph2: "phase_ok (RunningReduceTasks ?c) (map rtDone (ReduceTasks ?c)) (FinishedReduceTasks ?c) (closed ?c) (nextChan ?c)"
    using phase_close [OF d(2)] by (simp add: mapEnded_def)
  have nored: "\<not> (RunningReduceTasks c \<noteq> [] \<or> FinishedReduceTasks c > 0)"
  proof
    assume "RunningReduceTasks c \<noteq> [] \<or> FinishedReduceTasks c > 0"
    from d(7) [OF this] k show False by simp
  qed
  have mon: "mon_all ?c m" if "m \<in> set ms" for m
  proof -
    have old: "mon_all c m" using coord_inv_monitors [OF inv] that ms(2) by blast
    have "monitor_ok (dropKey i (RunningMapTasks c)) (map mtDone (MapTasks ?c)) (TaskId (fst m)) q"
      if "TaskType (fst m) = ''map''" "monitor_ok (RunningMapTasks c) (map mtDone (MapTasks c)) (TaskId (fst m)) q" for q
      by (rule monitor_ok_drop [OF that(2)])
        (use gone that(1) \<open>m \<in> set ms\<close> pm(2) len in \<open>auto simp: mapEnded_def map_done_update\<close>)
    then show ?thesis using old by (auto simp: mon_all_def mapEnded_def)
  qed
  have ids: "map mtTaskId (MapTasks ?c) = map int [0..<length (MapTasks ?c)]"
    using inv map_done_update(2) [OF len] by (simp add: coord_inv_def mapEnded_def)
  have rest: "map rtTaskId (ReduceTasks ?c) = map int [0..<length (ReduceTasks ?c)]"
    "snd ` set (RunningMapTasks ?c) \<inter> snd ` set (RunningReduceTasks ?c) = {}" "\<forall>q \<in> closed ?c. q < nextChan ?c"
    using inv pm(6) by (auto simp: coord_inv_def mapEnded_def)
  show ?thesis unfolding coord_inv_def mon_all_def [symmetric]
    using ph ph2 ids rest nored ms(1) mon by (simp add: mapEnded_def)
qed

lemma reduceEnded_inv:
  assumes inv: "coord_inv c" and k: "map_of (RunningReduceTasks c) i = Some k"
    and ms: "distinct ms" "set ms \<subseteq> set (monitors c)"
    and gone: "\<not> fin \<Longrightarrow> \<forall>m \<in> set ms. \<not> (TaskType (fst m) = ''reduce'' \<and> TaskId (fst m) = i)"
  shows "coord_inv ((reduceEnded fin i k c)\<lparr>monitors := ms\<rparr>)"
proof -
  note d = coord_invD [OF inv] and pm = phase_member [OF coord_invD(2) [OF inv] k]
  let ?c = "(reduceEnded fin i k c)\<lparr>monitors := ms\<rparr>"
  have len: "nat i < length (ReduceTasks c)" using pm(3) by simp
  have ph: "phase_ok (RunningReduceTasks ?c) (map rtDone (ReduceTasks ?c)) (FinishedReduceTasks ?c) (closed ?c) (nextChan ?c)"
    using phase_drop [OF d(2) k] phase_finish [OF d(2) k] len by (simp add: reduceEnded_def reduce_done_update)
  have maps: "FinishedMapTasks c = int (length (MapTasks c)) \<and> RunningMapTasks c = []"
    by (rule d(7)) (use k in auto)
  then have ph2: "phase_ok (RunningMapTasks ?c) (map mtDone (MapTasks ?c)) (FinishedMapTasks ?c) (closed ?c) (nextChan ?c)"
    using phase_close [OF d(1)] by (simp add: reduceEnded_def)
  have mon: "mon_all ?c m" if "m \<in> set ms" for m
  proof -
    have old: "mon_all c m" using coord_inv_monitors [OF inv] that ms(2) by blast
    have "monitor_ok (dropKey i (RunningReduceTasks c)) (map rtDone (ReduceTasks ?c)) (TaskId (fst m)) q"
      if "TaskType (fst m) = ''reduce''" "monitor_ok (RunningReduceTasks c) (map rtDone (ReduceTasks c)) (TaskId (fst m)) q" for q
      by (rule monitor_ok_drop [OF that(2)])
        (use gone that(1) \<open>m \<in> set ms\<close> pm(2) len in \<open>auto simp: reduceEnded_def reduce_done_update\<close>)
    then show ?thesis using old by (auto simp: mon_all_def reduceEnded_def)
  qed
  have ids: "map rtTaskId (ReduceTasks ?c) = map int [0..<length (ReduceTasks ?c)]"
    using inv reduce_done_update(2) [OF len] by (simp add: coord_inv_def reduceEnded_def)
  have rest: "map mtTaskId (MapTasks ?c) = map int [0..<length (MapTasks ?c)]"
    "snd ` set (RunningMapTasks ?c) \<inter> snd ` set (RunningReduceTasks ?c) = {}" "\<forall>q \<in> closed ?c. q < nextChan ?c"
    using inv pm(6) by (auto simp: coord_inv_def reduceEnded_def)
  show ?thesis unfolding coord_inv_def mon_all_def [symmetric]
    using ph ph2 ids rest maps ms(1) mon by (simp add: reduceEnded_def)
qed

lemma ended_monitors [simp]:
  "monitors (mapEnded fin i k c) = monitors c" "monitors (reduceEnded fin i k c) = monitors c"
  by (simp_all add: mapEnded_def reduceEnded_def)

lemma coord_inv_fewer:
  assumes "coord_inv c" "distinct ms" "set ms \<subseteq> set (monitors c)"
  shows "coord_inv (c\<lparr>monitors := ms\<rparr>)"
proof -
  have "\<forall>m \<in> set ms. mon_all (c\<lparr>monitors := ms\<rparr>) m"
    using coord_inv_monitors [OF assms(1)] assms(3) by (auto simp: mon_all_def)
  with assms(1,2) show ?thesis by (simp add: coord_inv_def mon_all_def)
qed

text \<open>A monitor that fires takes back the assignment it was started for and no other.\<close>

lemma timeout_own:
  assumes inv: "coord_inv c" and m: "m \<in> set (monitors c)"
  shows "TaskType (fst m) = ''map'' \<Longrightarrow> map_of (RunningMapTasks c) (TaskId (fst m)) = Some k \<Longrightarrow> snd m = Some k"
    "TaskType (fst m) = ''reduce'' \<Longrightarrow> map_of (RunningReduceTasks c) (TaskId (fst m)) = Some k \<Longrightarrow> snd m = Some k"
proof -
  note d = coord_invD [OF inv] and old = coord_inv_monitors [OF inv m]
  show "snd m = Some k" if t: "TaskType (fst m) = ''map''" "map_of (RunningMapTasks c) (TaskId (fst m)) = Some k"
  proof -
    from old t obtain q where q: "snd m = Some q" "monitor_ok (RunningMapTasks c) (map mtDone (MapTasks c)) (TaskId (fst m)) q"
      by (auto simp: mon_all_def)
    then have "(TaskId (fst m), q) \<in> set (RunningMapTasks c)" using phase_member [OF d(1) t(2)] by (auto simp: monitor_ok_def)
    from phase_unique [OF d(1) this] q(1) t(2) show ?thesis by simp
  qed
  show "snd m = Some k" if t: "TaskType (fst m) = ''reduce''" "map_of (RunningReduceTasks c) (TaskId (fst m)) = Some k"
  proof -
    from old t obtain q where q: "snd m = Some q" "monitor_ok (RunningReduceTasks c) (map rtDone (ReduceTasks c)) (TaskId (fst m)) q"
      by (auto simp: mon_all_def)
    then have "(TaskId (fst m), q) \<in> set (RunningReduceTasks c)" using phase_member [OF d(2) t(2)] by (auto simp: monitor_ok_def)
    from phase_unique [OF d(2) this] q(1) t(2) show ?thesis by simp
  qed
qed

lemma endMonitor_eq: "endMonitor m c = c\<lparr>monitors := remove1 m (monitors c)\<rparr>"
  by (simp add: endMonitor_def)

lemma same_task: "TaskType t = TaskType u \<Longrightarrow> TaskId t = TaskId u \<Longrightarrow> t = (u :: Task)"
  by simp

lemma timeout_inv:
  assumes inv: "coord_inv c" and m: "m \<in> set (monitors c)" and t: "TaskMonitor_timeout c (fst m) = Inr c'"
  shows "coord_inv (endMonitor m c')"
proof -
  let ?ms = "remove1 m (monitors c)"
  have ms: "distinct ?ms" "set ?ms \<subseteq> set (monitors c)" "m \<notin> set ?ms"
    using inv by (auto simp: coord_inv_def set_remove1_eq)
  from TaskMonitor_timeout_total [OF inv, of "fst m"] t consider "c' = c"
    | (map) k where "TaskType (fst m) = ''map''" "map_of (RunningMapTasks c) (TaskId (fst m)) = Some k"
        "c' = mapEnded False (TaskId (fst m)) k c"
    | (red) k where "TaskType (fst m) = ''reduce''" "map_of (RunningReduceTasks c) (TaskId (fst m)) = Some k"
        "c' = reduceEnded False (TaskId (fst m)) k c" by auto
  then show ?thesis
  proof cases
    case 1
    then show ?thesis using coord_inv_fewer [OF inv ms(1,2)] by (simp add: endMonitor_eq)
  next
    case (map k)
    have "\<not> (TaskType (fst x) = ''map'' \<and> TaskId (fst x) = TaskId (fst m))" if "x \<in> set ?ms" for x
    proof
      assume x: "TaskType (fst x) = ''map'' \<and> TaskId (fst x) = TaskId (fst m)"
      have "x \<in> set (monitors c)" using ms(2) that by blast
      from timeout_own(1) [OF inv this] timeout_own(1) [OF inv m map(1,2)] x map(2) have "snd x = snd m" by simp
      moreover have "fst x = fst m" using x map(1) by (intro same_task) simp_all
      ultimately have "x = m" by (simp add: prod_eq_iff)
      then show False using that ms(3) by simp
    qed
    then show ?thesis using mapEnded_inv [OF inv map(2) ms(1,2), of False] map(3) by (simp add: endMonitor_eq)
  next
    case (red k)
    have "\<not> (TaskType (fst x) = ''reduce'' \<and> TaskId (fst x) = TaskId (fst m))" if "x \<in> set ?ms" for x
    proof
      assume x: "TaskType (fst x) = ''reduce'' \<and> TaskId (fst x) = TaskId (fst m)"
      have "x \<in> set (monitors c)" using ms(2) that by blast
      from timeout_own(2) [OF inv this] timeout_own(2) [OF inv m red(1,2)] x red(2) have "snd x = snd m" by simp
      moreover have "fst x = fst m" using x red(1) by (intro same_task) simp_all
      ultimately have "x = m" by (simp add: prod_eq_iff)
      then show False using that ms(3) by simp
    qed
    then show ?thesis using reduceEnded_inv [OF inv red(2) ms(1,2), of False] red(3) by (simp add: endMonitor_eq)
  qed
qed

lemma FinishTask_inv:
  assumes inv: "coord_inv c" and f: "FinishTask c args = Inr c'"
  shows "coord_inv c'"
proof -
  have ms: "distinct (monitors c)" using inv by (simp add: coord_inv_def)
  have eq: "d\<lparr>monitors := monitors d\<rparr> = d" for d :: Coordinator by simp
  from FinishTask_total [OF inv, of args] f consider "c' = c"
    | k where "map_of (RunningMapTasks c) (ftTaskId args) = Some k" "c' = mapEnded True (ftTaskId args) k c"
    | k where "map_of (RunningReduceTasks c) (ftTaskId args) = Some k" "c' = reduceEnded True (ftTaskId args) k c" by auto
  then show ?thesis
  proof cases
    case (2 k)
    have "(mapEnded True (ftTaskId args) k c)\<lparr>monitors := monitors c\<rparr> = c'" using eq [of c'] by (simp add: 2(2) mapEnded_def)
    with mapEnded_inv [OF inv 2(1) ms, of True] show ?thesis by simp
  next
    case (3 k)
    have "(reduceEnded True (ftTaskId args) k c)\<lparr>monitors := monitors c\<rparr> = c'" using eq [of c'] by (simp add: 3(2) reduceEnded_def)
    with reduceEnded_inv [OF inv 3(1) ms, of True] show ?thesis by simp
  qed (use inv in simp)
qed

lemma mr_step_inv: "mr_step c c' \<Longrightarrow> coord_inv c \<Longrightarrow> coord_inv c'"
proof (induction rule: mr_step.induct)
  case (get_task c c' reply)
  then show ?case using GetTask_cases by blast
next
  case (finish_task c args c')
  then show ?case using FinishTask_inv by blast
next
  case (task_timeout m c c')
  then show ?case using timeout_inv by blast
next
  case (task_cancelled m c k)
  have "distinct (remove1 m (monitors c))" "set (remove1 m (monitors c)) \<subseteq> set (monitors c)"
    using task_cancelled(4) by (auto simp: coord_inv_def dest: set_remove1_subset [THEN subsetD])
  from coord_inv_fewer [OF task_cancelled(4) this] show ?case by (simp add: endMonitor_eq)
qed

lemma mr_run_inv: "mr_step\<^sup>*\<^sup>* c c' \<Longrightarrow> coord_inv c \<Longrightarrow> coord_inv c'"
  by (induction rule: rtranclp_induct) (auto intro: mr_step_inv)

subsection \<open>What the coordinator guarantees\<close>

lemma all_done_none_running:
  assumes "phase_ok run fl fin cl nx" and "fin = int (length fl)"
  shows "run = []" "\<forall>b \<in> set fl. b"
proof -
  have "length (filter id fl) = length fl" using assms by (simp add: phase_ok_def)
  then have "filter id fl = fl" by (metis filter_id_conv length_filter_less less_irrefl)
  then show all: "\<forall>b \<in> set fl. b" by (simp add: filter_id_conv)
  show "run = []"
  proof (rule ccontr)
    assume "run \<noteq> []"
    then obtain p where "p \<in> set run" by (cases run) auto
    then have "nat (fst p) < length fl" "\<not> fl ! nat (fst p)" using assms(1) by (auto simp: phase_ok_def)
    then show False using all nth_mem by blast
  qed
qed

lemma Done_flags:
  assumes "coord_inv c"
  shows "Done c \<longleftrightarrow> (\<forall>t \<in> set (MapTasks c). mtDone t) \<and> (\<forall>t \<in> set (ReduceTasks c). rtDone t)"
proof -
  note d = coord_invD [OF assms]
  have fin: "(fin = int (length fl)) = (\<forall>b \<in> set fl. b)" if "phase_ok run fl fin cl nx" for run fl fin cl nx
    using all_done_none_running(2) [OF that] that by (auto simp: phase_ok_def filter_id_conv)
  show ?thesis using fin [OF d(1)] fin [OF d(2)] by (simp add: Done_def)
qed

lemma GetTask_map:
  assumes "coord_inv c" and "GetTask c = (c', r)"
    and "int (length (MapTasks c)) > int (length (RunningMapTasks c)) + FinishedMapTasks c"
  obtains j where "j < length (MapTasks c)" "grTaskType r = ''map''" "grTaskId r = int j"
    "grFileName r = mtFileName (MapTasks c ! j)" "\<not> mtDone (MapTasks c ! j)"
    "map_of (RunningMapTasks c) (int j) = None" "map_of (RunningMapTasks c') (int j) = Some (nextChan c)"
proof -
  from find_map [OF assms(1,3)] obtain j where j: "j < length (MapTasks c)" "map_of (RunningMapTasks c) (int j) = None"
    "\<not> mtDone (MapTasks c ! j)"
    "find (\<lambda>t. map_of (RunningMapTasks c) (mtTaskId t) = None \<and> \<not> mtDone t) (MapTasks c) = Some (MapTasks c ! j)" .
  have "grTaskType r = ''map''" "grTaskId r = int j" "grFileName r = mtFileName (MapTasks c ! j)"
    "map_of (RunningMapTasks c') (int j) = Some (nextChan c)"
    using assms(2,3) j coord_invD(3) [OF assms(1) j(1)] by (auto simp: GetTask_def assignMap_def Let_def spawn_def)
  with j(1-3) that show ?thesis by blast
qed

lemma GetTask_reduce:
  assumes "coord_inv c" and "GetTask c = (c', r)" and "RunningMapTasks c = []" and "FinishedMapTasks c = int (length (MapTasks c))"
    and "int (length (ReduceTasks c)) > int (length (RunningReduceTasks c)) + FinishedReduceTasks c"
  obtains j where "j < length (ReduceTasks c)" "grTaskType r = ''reduce''" "grTaskId r = int j" "\<not> rtDone (ReduceTasks c ! j)"
    "map_of (RunningReduceTasks c) (int j) = None" "map_of (RunningReduceTasks c') (int j) = Some (nextChan c)"
proof -
  from find_reduce [OF assms(1,5)] obtain j where j: "j < length (ReduceTasks c)"
    "map_of (RunningReduceTasks c) (int j) = None" "\<not> rtDone (ReduceTasks c ! j)"
    "find (\<lambda>t. map_of (RunningReduceTasks c) (rtTaskId t) = None \<and> \<not> rtDone t) (ReduceTasks c) = Some (ReduceTasks c ! j)" .
  have "grTaskType r = ''reduce''" "grTaskId r = int j" "map_of (RunningReduceTasks c') (int j) = Some (nextChan c)"
    using assms(2-5) j coord_invD(4) [OF assms(1) j(1)] by (auto simp: GetTask_def assignReduce_def Let_def spawn_def)
  with j(1-3) that show ?thesis by blast
qed

text \<open>
  When nothing is left to hand out in a phase, some task runs exactly when some task is not done,
  and every task that is not done runs.
\<close>

lemma phase_busy:
  assumes "phase_ok run fl fin cl nx" and "\<not> int (length run) + fin < int (length fl)"
  shows "\<not> (\<exists>j < length fl. \<not> fl ! j \<and> map_of run (int j) = None)" and "run = [] \<longleftrightarrow> (\<forall>b \<in> set fl. b)"
proof -
  show full: "\<not> (\<exists>j < length fl. \<not> fl ! j \<and> map_of run (int j) = None)"
    using phase_full [OF assms(1)] assms(2) by auto
  have "\<exists>b \<in> set fl. \<not> b" if "p \<in> set run" for p
  proof -
    have "nat (fst p) < length fl" "\<not> fl ! nat (fst p)" using assms(1) that by (simp_all add: phase_ok_def)
    then show ?thesis using nth_mem by blast
  qed
  then have "run = []" if "\<forall>b \<in> set fl. b" using that by (cases run) auto
  moreover have "\<forall>b \<in> set fl. b" if "run = []" using full that by (auto simp: all_set_conv_all_nth)
  ultimately show "run = [] \<longleftrightarrow> (\<forall>b \<in> set fl. b)" by blast
qed

text \<open>
  Property C23 (handing out tasks). In every reachable state the reply of \<open>GetTask\<close> is determined by
  what there is to do. While some map task is neither done nor running, one of these is handed out,
  with its own input file, and is running from then on. When all map tasks that are not done are
  running, the worker is told to wait. When all are done, a reduce task that is neither done nor
  running is handed out; when there is none, the worker waits for the running ones, and is told that
  the job is done when every task is done, which is when \<open>Done\<close> says so.
\<close>

theorem get_task_replies:
  assumes "mr_step\<^sup>*\<^sup>* (MakeCoordinator files n) c" and "GetTask c = (c', r)"
  shows "(if \<exists>j < length (MapTasks c). \<not> mtDone (MapTasks c ! j) \<and> map_of (RunningMapTasks c) (int j) = None
      then grTaskType r = ''map'' \<and> (\<exists>j < length (MapTasks c). grTaskId r = int j \<and>
        grFileName r = mtFileName (MapTasks c ! j) \<and> \<not> mtDone (MapTasks c ! j) \<and>
        map_of (RunningMapTasks c) (int j) = None \<and> map_of (RunningMapTasks c') (int j) = Some (nextChan c))
    else if \<exists>t \<in> set (MapTasks c). \<not> mtDone t then grTaskType r = ''wait'' \<and> c' = c
    else if \<exists>j < length (ReduceTasks c). \<not> rtDone (ReduceTasks c ! j) \<and> map_of (RunningReduceTasks c) (int j) = None
      then grTaskType r = ''reduce'' \<and> (\<exists>j < length (ReduceTasks c). grTaskId r = int j \<and>
        \<not> rtDone (ReduceTasks c ! j) \<and> map_of (RunningReduceTasks c) (int j) = None \<and>
        map_of (RunningReduceTasks c') (int j) = Some (nextChan c))
    else if \<exists>t \<in> set (ReduceTasks c). \<not> rtDone t then grTaskType r = ''wait'' \<and> c' = c
    else grTaskType r = ''done'' \<and> c' = c) \<and> (grTaskType r = ''done'' \<longleftrightarrow> Done c)"
proof -
  have inv: "coord_inv c" using mr_run_inv [OF assms(1) MakeCoordinator_inv] .
  note d = coord_invD [OF inv] and fl = Done_flags [OF inv] and g = assms(2)
  let ?left = "int (length (MapTasks c)) > int (length (RunningMapTasks c)) + FinishedMapTasks c"
  let ?rleft = "int (length (ReduceTasks c)) > int (length (RunningReduceTasks c)) + FinishedReduceTasks c"
  note busy = phase_busy [OF d(1), simplified] and rbusy = phase_busy [OF d(2), simplified]
  show ?thesis
  proof (cases ?left)
    case True
    from GetTask_map [OF inv g True] obtain j where j: "j < length (MapTasks c)" "grTaskType r = ''map''" "grTaskId r = int j"
      "grFileName r = mtFileName (MapTasks c ! j)" "\<not> mtDone (MapTasks c ! j)"
      "map_of (RunningMapTasks c) (int j) = None" "map_of (RunningMapTasks c') (int j) = Some (nextChan c)" .
    then show ?thesis using fl nth_mem [OF j(1)] by auto
  next
    case False
    then have full: "\<not> (\<exists>j < length (MapTasks c). \<not> mtDone (MapTasks c ! j) \<and> map_of (RunningMapTasks c) (int j) = None)"
      and runs: "RunningMapTasks c = [] \<longleftrightarrow> (\<forall>t \<in> set (MapTasks c). mtDone t)" using busy by auto
    show ?thesis
    proof (cases "RunningMapTasks c = []")
      case some: False
      then have "c' = c" "r = zeroReply\<lparr>grTaskType := ''wait''\<rparr>" using g False by (simp_all add: GetTask_def)
      then show ?thesis using some runs full fl by auto
    next
      case none: True
      then have maps: "\<forall>t \<in> set (MapTasks c). mtDone t" "FinishedMapTasks c = int (length (MapTasks c))"
        using False runs phase_fin_le [OF d(1)] by simp_all
      show ?thesis
      proof (cases ?rleft)
        case True
        from GetTask_reduce [OF inv g none maps(2) True] obtain j where j: "j < length (ReduceTasks c)"
          "grTaskType r = ''reduce''" "grTaskId r = int j" "\<not> rtDone (ReduceTasks c ! j)"
          "map_of (RunningReduceTasks c) (int j) = None" "map_of (RunningReduceTasks c') (int j) = Some (nextChan c)" .
        then show ?thesis using fl nth_mem [OF j(1)] maps(1) full by auto
      next
        case right: False
        have "c' = c" "r = zeroReply\<lparr>grTaskType := (if RunningReduceTasks c \<noteq> [] then ''wait'' else ''done'')\<rparr>"
          using g none False right by (auto simp: GetTask_def split: if_splits)
        then show ?thesis using rbusy right maps(1) full fl by auto
      qed
    qed
  qed
qed

theorem get_task_replies_witness:
  "\<exists>c' r. GetTask (MakeCoordinator [''f''] 2) = (c', r) \<and> grTaskType r = ''map'' \<and> grFileName r = ''f''"
proof -
  let ?c = "MakeCoordinator [''f''] 2"
  obtain c' r where g: "GetTask ?c = (c', r)" by (cases "GetTask ?c")
  have "grTaskType r = ''map''"
    using g by (auto simp: GetTask_def assignMap_def MakeCoordinator_def Let_def spawn_def)
  with get_task_replies [OF rtranclp.rtrancl_refl g] g show ?thesis by (auto simp: MakeCoordinator_def split: if_splits)
qed

text \<open>
  Property C24 (no panic and no stolen task). In every reachable state \<open>FinishTask\<close> with any
  arguments and a firing \<open>TaskMonitor\<close> return: no channel is closed twice and no task is looked up
  out of range. A monitor that fires while its task is running was started for that very
  assignment, so a task is never taken away from a worker by the monitor of an earlier one.
\<close>

theorem coordinator_never_panics:
  assumes "mr_step\<^sup>*\<^sup>* (MakeCoordinator files n) c"
  shows "(\<forall>args. \<exists>c'. FinishTask c args = Inr c') \<and> (\<forall>t. \<exists>c'. TaskMonitor_timeout c t = Inr c') \<and>
    (\<forall>m \<in> set (monitors c). \<forall>k.
       TaskType (fst m) = ''map'' \<and> map_of (RunningMapTasks c) (TaskId (fst m)) = Some k \<or>
       TaskType (fst m) = ''reduce'' \<and> map_of (RunningReduceTasks c) (TaskId (fst m)) = Some k \<longrightarrow> snd m = Some k)"
proof -
  have inv: "coord_inv c" using mr_run_inv [OF assms MakeCoordinator_inv] .
  have "\<exists>c'. FinishTask c args = Inr c'" "\<exists>c'. TaskMonitor_timeout c t = Inr c'" for args t
    using FinishTask_total [OF inv, of args] TaskMonitor_timeout_total [OF inv, of t] by blast+
  then show ?thesis using timeout_own [OF inv] by blast
qed

theorem coordinator_never_panics_witness:
  "\<exists>c'. FinishTask (MakeCoordinator [''f''] 2) \<lparr>ftTaskType = ''map'', ftFileName = ''f'', ftTaskId = 7\<rparr> = Inr c'"
  using coordinator_never_panics [of "[''f'']" 2 "MakeCoordinator [''f''] 2"] by blast

text \<open>
  The end of the job. In every reachable state the job is reported as done exactly
  when every map task and every reduce task has been finished, and every task is counted once,
  however often it was handed out, timed out or reported.
\<close>

theorem done_iff_all_finished:
  assumes "mr_step\<^sup>*\<^sup>* (MakeCoordinator files n) c"
  shows "(Done c \<longleftrightarrow> (\<forall>t \<in> set (MapTasks c). mtDone t) \<and> (\<forall>t \<in> set (ReduceTasks c). rtDone t)) \<and>
    FinishedMapTasks c = int (length (filter mtDone (MapTasks c))) \<and>
    FinishedReduceTasks c = int (length (filter rtDone (ReduceTasks c)))"
proof -
  have inv: "coord_inv c" using mr_run_inv [OF assms MakeCoordinator_inv] .
  show ?thesis using Done_flags [OF inv] coord_invD(1,2) [OF inv] by (simp add: phase_ok_def filter_map comp_def)
qed

theorem done_iff_all_finished_witness:
  "\<not> Done (MakeCoordinator [''f''] 2) \<and> FinishedMapTasks (MakeCoordinator [''f''] 2) = 0"
  using done_iff_all_finished [of "[''f'']" 2 "MakeCoordinator [''f''] 2"] by (simp add: MakeCoordinator_def)

end
