(* ===== verification/Mr_Worker.thy ===== *)
theory Mr_Worker
  imports Mr_Coordinator "HOL-Library.List_Lexorder" "HOL-Library.Char_ord"
begin

text \<open>
  The data path of MapReduce: what a worker does with a map and with a reduce task
  (\<open>src/mr/worker.go\<close>), the sequential program (\<open>src/main/mrsequential.go\<close>) and the applications the
  tests run whose output is a function of their input (\<open>src/mrapps\<close>).

  The application's \<open>Map\<close> and \<open>Reduce\<close> are parameters of the worker, as in the code. \<open>sort.Sort\<close> is
  not stable, so it is a parameter too, with what the standard library promises of it
  (\<open>key_sorting\<close>). Files hold lists of pairs; that JSON gives back the pairs that were written is
  taken for granted (it does for strings that are valid UTF-8).
\<close>

record KeyValue =
  Key :: string
  kvValue :: string

type_synonym mapf = "string \<Rightarrow> string \<Rightarrow> KeyValue list"
type_synonym reducef = "string \<Rightarrow> string list \<Rightarrow> string"
type_synonym line = "string \<times> string"

definition ihash :: "string \<Rightarrow> nat" where
  "ihash key = unat (and (fnv32a (go_bytes key)) 0x7fffffff)"

subsection \<open>A map task\<close>

definition writeBuckets :: "nat \<Rightarrow> KeyValue list \<Rightarrow> KeyValue list list go" where
  \<comment> \<open>\<open>NReduce\<close> files, every pair appended to the file of its bucket\<close>
  "writeBuckets n kvs =
     foldl (\<lambda>r kv. go_bind r (\<lambda>files.
              if n = 0 then Inl DivideByZero
              else let bucket = ihash (Key kv) mod n in Inr (files[bucket := files ! bucket @ [kv]])))
           (Inr (replicate n [])) kvs"

definition mapTask :: "mapf \<Rightarrow> nat \<Rightarrow> string \<Rightarrow> string \<Rightarrow> KeyValue list list go" where
  "mapTask mapf n fileName content = writeBuckets n (mapf fileName content)"

subsection \<open>A reduce task and the sequential program\<close>

function reduceLoop :: "reducef \<Rightarrow> KeyValue list \<Rightarrow> line list" where
  \<comment> \<open>the loop over \<open>i\<close> and \<open>j\<close>: one line for each run of equal keys\<close>
  "reduceLoop f [] = []"
| "reduceLoop f (kv # rest) =
     (Key kv, f (Key kv) (kvValue kv # map kvValue (takeWhile (\<lambda>x. Key x = Key kv) rest))) #
     reduceLoop f (dropWhile (\<lambda>x. Key x = Key kv) rest)"
  by pat_completeness auto
termination
  by (relation "measure (\<lambda>(f, xs). length xs)") (auto simp: le_imp_less_Suc length_dropWhile_le)

definition printLine :: "line \<Rightarrow> string" where
  "printLine l = fst l @ '' '' @ snd l @ [CHR 0x0A]"

definition reduceTask :: "(KeyValue list \<Rightarrow> KeyValue list) \<Rightarrow> reducef \<Rightarrow> KeyValue list list \<Rightarrow> line list" where
  \<comment> \<open>the files matching \<open>mr-*-y\<close>, in the order they were found\<close>
  "reduceTask srt f files = reduceLoop f (srt (concat files))"

definition mrsequential :: "(KeyValue list \<Rightarrow> KeyValue list) \<Rightarrow> mapf \<Rightarrow> reducef \<Rightarrow> (string \<times> string) list \<Rightarrow> line list" where
  \<comment> \<open>the input files with their contents\<close>
  "mrsequential srt mapf f inputs =
     (let intermediate = foldl (\<lambda>acc (filename, content). acc @ mapf filename content) [] inputs
      in reduceLoop f (srt intermediate))"

definition key_sorting :: "(KeyValue list \<Rightarrow> KeyValue list) \<Rightarrow> bool" where
  "key_sorting srt \<longleftrightarrow> (\<forall>xs. mset (srt xs) = mset xs \<and> sorted (map Key (srt xs)))"

definition order_free :: "reducef \<Rightarrow> bool" where
  \<comment> \<open>the result does not depend on the order of the values\<close>
  "order_free f \<longleftrightarrow> (\<forall>k vs ws. mset vs = mset ws \<longrightarrow> f k vs = f k ws)"

subsection \<open>Writing buckets\<close>

lemma writeBuckets_zero: "kvs \<noteq> [] \<Longrightarrow> writeBuckets 0 kvs = Inl DivideByZero"
proof -
  have "foldl (\<lambda>r kv. go_bind r (\<lambda>_. Inl DivideByZero)) (Inl DivideByZero) xs = Inl DivideByZero" for xs :: "KeyValue list"
    by (induction xs) simp_all
  then show "kvs \<noteq> [] \<Longrightarrow> ?thesis" by (cases kvs) (simp_all add: writeBuckets_def)
qed

lemma writeBuckets_eq:
  assumes "0 < n"
  shows "writeBuckets n kvs = Inr (map (\<lambda>i. filter (\<lambda>kv. ihash (Key kv) mod n = i) kvs) [0..<n])"
proof (induction kvs rule: rev_induct)
  case Nil
  then show ?case by (simp add: writeBuckets_def map_replicate_const)
next
  case (snoc kv kvs)
  let ?b = "ihash (Key kv) mod n" and ?fs = "map (\<lambda>i. filter (\<lambda>kv. ihash (Key kv) mod n = i) kvs) [0..<n]"
  have b: "?b < n" using assms by simp
  have "writeBuckets n (kvs @ [kv]) = Inr (?fs[?b := ?fs ! ?b @ [kv]])"
    using snoc assms by (simp add: writeBuckets_def Let_def)
  also have "?fs[?b := ?fs ! ?b @ [kv]] = map (\<lambda>i. filter (\<lambda>kv. ihash (Key kv) mod n = i) (kvs @ [kv])) [0..<n]"
    using b by (intro nth_equalityI) (auto simp: nth_list_update)
  finally show ?case .
qed

subsection \<open>Grouping\<close>

definition valsOf :: "string \<Rightarrow> KeyValue list \<Rightarrow> string list" where
  "valsOf k xs = map kvValue (filter (\<lambda>x. Key x = k) xs)"

definition grouped :: "reducef \<Rightarrow> KeyValue list \<Rightarrow> line list" where
  \<comment> \<open>the reference: one line for every key, in key order\<close>
  "grouped f xs = map (\<lambda>k. (k, f k (valsOf k xs))) (sorted_list_of_set (Key ` set xs))"

lemma sorted_split:
  assumes "sorted (map Key (kv # rest))"
  shows "takeWhile (\<lambda>x. Key x = Key kv) rest = filter (\<lambda>x. Key x = Key kv) rest"
    "dropWhile (\<lambda>x. Key x = Key kv) rest = filter (\<lambda>x. Key x \<noteq> Key kv) rest"
proof -
  have "takeWhile (\<lambda>x. Key x = Key kv) rest = filter (\<lambda>x. Key x = Key kv) rest \<and>
      dropWhile (\<lambda>x. Key x = Key kv) rest = filter (\<lambda>x. Key x \<noteq> Key kv) rest"
    using assms
  proof (induction rest)
    case (Cons y ys)
    show ?case
    proof (cases "Key y = Key kv")
      case True
      then show ?thesis using Cons by simp
    next
      case False
      then have "Key kv < Key y" using Cons.prems by auto
      then have "\<forall>z \<in> set (y # ys). Key z \<noteq> Key kv" using Cons.prems by fastforce
      then have "filter (\<lambda>x. Key x = Key kv) (y # ys) = []" "filter (\<lambda>x. Key x \<noteq> Key kv) (y # ys) = y # ys"
        by (auto simp: filter_empty_conv filter_id_conv)
      then show ?thesis using False by simp
    qed
  qed simp
  then show "takeWhile (\<lambda>x. Key x = Key kv) rest = filter (\<lambda>x. Key x = Key kv) rest"
    "dropWhile (\<lambda>x. Key x = Key kv) rest = filter (\<lambda>x. Key x \<noteq> Key kv) rest" by simp_all
qed

lemma sorted_list_of_set_Cons:
  assumes "finite A" and "\<forall>a \<in> A. k < a"
  shows "sorted_list_of_set (insert k A) = k # sorted_list_of_set A"
proof (rule sorted_distinct_set_unique)
  show "sorted (sorted_list_of_set (insert k A))" "distinct (sorted_list_of_set (insert k A))"
    by simp_all
  show "sorted (k # sorted_list_of_set A)" "distinct (k # sorted_list_of_set A)" using assms by auto
  show "set (sorted_list_of_set (insert k A)) = set (k # sorted_list_of_set A)"
    using assms(1) by (simp only: set_sorted_list_of_set finite_insert list.set)
qed

lemma reduceLoop_grouped: "sorted (map Key xs) \<Longrightarrow> reduceLoop f xs = grouped f xs"
proof (induction f xs rule: reduceLoop.induct)
  case (2 f kv rest)
  note sp = sorted_split [OF "2.prems"]
  let ?r = "filter (\<lambda>x. Key x \<noteq> Key kv) rest"
  have le: "\<forall>x \<in> set rest. Key kv \<le> Key x" using "2.prems" by auto
  have "sorted (map Key ?r)" using "2.prems" by (simp add: sorted_filter)
  with "2.IH" sp have IH: "reduceLoop f ?r = grouped f ?r" by simp
  have keys: "Key ` set (kv # rest) = insert (Key kv) (Key ` set ?r)" by auto
  have lt: "\<forall>a \<in> Key ` set ?r. Key kv < a" using le by (auto simp: less_le)
  have vals: "valsOf k ?r = valsOf k (kv # rest)" if "k \<in> Key ` set ?r" for k
    using that by (auto simp: valsOf_def intro!: arg_cong [of _ _ "map kvValue"] filter_cong)
  have "grouped f (kv # rest) = (Key kv, f (Key kv) (valsOf (Key kv) (kv # rest))) #
      map (\<lambda>k. (k, f k (valsOf k (kv # rest)))) (sorted_list_of_set (Key ` set ?r))"
    unfolding grouped_def keys by (simp only: sorted_list_of_set_Cons [OF _ lt] finite_imageI finite_set list.map)
  also have "map (\<lambda>k. (k, f k (valsOf k (kv # rest)))) (sorted_list_of_set (Key ` set ?r)) = grouped f ?r"
    unfolding grouped_def using vals by (intro map_cong) simp_all
  finally show ?case using IH sp by (simp add: valsOf_def)
qed (simp add: grouped_def)

lemma valsOf_mset: "mset xs = mset ys \<Longrightarrow> mset (valsOf k xs) = mset (valsOf k ys)"
  by (simp add: valsOf_def)

lemma grouped_cong:
  assumes "order_free f" and "mset xs = mset ys"
  shows "grouped f xs = grouped f ys"
proof -
  have "f k (valsOf k xs) = f k (valsOf k ys)" for k
    using assms(1) valsOf_mset [OF assms(2)] unfolding order_free_def by blast
  moreover have "set xs = set ys" using mset_eq_setD [OF assms(2)] .
  ultimately show ?thesis by (simp add: grouped_def)
qed

lemma reduce_sorted:
  assumes "key_sorting srt" and "order_free f"
  shows "reduceLoop f (srt xs) = grouped f xs"
proof -
  have s: "mset (srt xs) = mset xs" "sorted (map Key (srt xs))" using assms(1) by (simp_all add: key_sorting_def)
  show ?thesis using reduceLoop_grouped [OF s(2)] grouped_cong [OF assms(2) s(1)] by simp
qed

subsection \<open>The buckets together\<close>

lemma mset_sorted_set: "mset (sorted_list_of_set A) = mset_set A"
  by (metis mset_sorted_list_of_multiset sorted_list_of_mset_set)

lemma mset_grouped: "mset (grouped f xs) = image_mset (\<lambda>k. (k, f k (valsOf k xs))) (mset_set (Key ` set xs))"
  by (simp add: grouped_def mset_sorted_set)

lemma image_mset_sum: "(\<Sum>y < (m::nat). image_mset g (F y)) = image_mset g (\<Sum>y < m. F y)"
  by (induction m) simp_all

lemma mset_set_classes:
  assumes "finite K"
  shows "(\<Sum>y < n. mset_set {k \<in> K. h k = (y::nat)}) = mset_set {k \<in> K. h k < n}"
proof (induction n)
  case (Suc n)
  have "{k \<in> K. h k < Suc n} = {k \<in> K. h k < n} \<union> {k \<in> K. h k = n}" by auto
  moreover have "mset_set ({k \<in> K. h k < n} \<union> {k \<in> K. h k = n}) = mset_set {k \<in> K. h k < n} + mset_set {k \<in> K. h k = n}"
    using assms by (intro mset_set_Union) auto
  ultimately show ?case using Suc by simp
qed simp

lemma grouped_buckets:
  assumes "0 < n"
  shows "(\<Sum>y < n. mset (grouped f (filter (\<lambda>kv. ihash (Key kv) mod n = y) xs))) = mset (grouped f xs)"
proof -
  let ?g = "\<lambda>k. (k, f k (valsOf k xs))" and ?K = "Key ` set xs" and ?h = "\<lambda>k. ihash k mod n"
  have part: "mset (grouped f (filter (\<lambda>kv. ?h (Key kv) = y) xs)) = image_mset ?g (mset_set {k \<in> ?K. ?h k = y})" for y
  proof -
    have "Key ` set (filter (\<lambda>kv. ?h (Key kv) = y) xs) = {k \<in> ?K. ?h k = y}" by auto
    moreover have "valsOf k (filter (\<lambda>kv. ?h (Key kv) = y) xs) = valsOf k xs" if "?h k = y" for k
      using that by (auto simp: valsOf_def intro!: arg_cong [of _ _ "map kvValue"] filter_cong)
    ultimately show ?thesis by (auto simp: mset_grouped intro!: image_mset_cong)
  qed
  have "(\<Sum>y < n. mset (grouped f (filter (\<lambda>kv. ?h (Key kv) = y) xs))) =
      image_mset ?g (\<Sum>y < n. mset_set {k \<in> ?K. ?h k = y})"
    unfolding part by (rule image_mset_sum)
  also have "\<dots> = image_mset ?g (mset_set {k \<in> ?K. ?h k < n})"
    by (simp only: mset_set_classes finite_imageI finite_set)
  also have "{k \<in> ?K. ?h k < n} = ?K" using assms by auto
  finally show ?thesis by (simp add: mset_grouped)
qed

subsection \<open>The applications\<close>

text \<open>
  \<open>wordsOf\<close> stands for \<open>strings.FieldsFunc\<close> with the letters of the \<open>unicode\<close> package, and \<open>ord\<close> for the
  order in which the run time iterates over a map.
\<close>

fun Itoa :: "nat \<Rightarrow> string" where
  "Itoa n = (if n < 10 then [char_of (48 + n)] else Itoa (n div 10) @ [char_of (48 + n mod 10)])"

declare Itoa.simps [simp del]

fun join_strings :: "string \<Rightarrow> string list \<Rightarrow> string" where
  "join_strings sep [] = []"
| "join_strings sep [s] = s"
| "join_strings sep (s # t # ss) = s @ sep @ join_strings sep (t # ss)"

definition wc_Map :: "(string \<Rightarrow> string list) \<Rightarrow> mapf" where
  "wc_Map wordsOf filename contents = map (\<lambda>w. \<lparr>Key = w, kvValue = ''1''\<rparr>) (wordsOf contents)"

definition wc_Reduce :: reducef where
  "wc_Reduce key values = Itoa (length values)"

definition indexer_Map :: "(string \<Rightarrow> string list) \<Rightarrow> (string list \<Rightarrow> string list) \<Rightarrow> mapf" where
  "indexer_Map wordsOf ord document value = map (\<lambda>w. \<lparr>Key = w, kvValue = document\<rparr>) (ord (remdups (wordsOf value)))"

definition indexer_Reduce :: reducef where
  "indexer_Reduce key values = Itoa (length values) @ '' '' @ join_strings '','' (sort values)"

definition nocrash_Map :: mapf where
  "nocrash_Map filename contents =
     [\<lparr>Key = ''a'', kvValue = filename\<rparr>, \<lparr>Key = ''b'', kvValue = Itoa (length filename)\<rparr>,
      \<lparr>Key = ''c'', kvValue = Itoa (length contents)\<rparr>, \<lparr>Key = ''d'', kvValue = ''xyzzy''\<rparr>]"

definition nocrash_Reduce :: reducef where
  "nocrash_Reduce key values = join_strings '' '' (sort values)"

definition crash_Map :: "bool \<Rightarrow> string \<Rightarrow> string \<Rightarrow> KeyValue list go" where
  \<comment> \<open>the flag is the coin of \<open>maybeCrash\<close>: the worker exits before it has produced anything\<close>
  "crash_Map crashes filename contents = (if crashes then Inl LogFatal else Inr (nocrash_Map filename contents))"

definition crash_Reduce :: "bool \<Rightarrow> string \<Rightarrow> string list \<Rightarrow> string go" where
  "crash_Reduce crashes key values = (if crashes then Inl LogFatal else Inr (nocrash_Reduce key values))"

definition early_exit_Map :: mapf where
  "early_exit_Map filename contents = [\<lparr>Key = filename, kvValue = ''1''\<rparr>]"

definition early_exit_Reduce :: reducef where
  "early_exit_Reduce key values = Itoa (length values)"

lemma sort_mset_eq: "mset vs = mset ws \<Longrightarrow> sort vs = sort (ws :: 'a :: linorder list)"
  by (metis mset_sort properties_for_sort sorted_sort)

text \<open>
  The applications are deterministic. The result of every \<open>Reduce\<close> the tests compare
  with the sequential program does not depend on the order in which the values arrive.
\<close>

theorem applications_order_free:
  "order_free wc_Reduce \<and> order_free indexer_Reduce \<and> order_free nocrash_Reduce \<and> order_free early_exit_Reduce"
proof -
  have len: "length vs = length ws" and srt: "sort vs = sort ws" if "mset vs = mset ws" for vs ws :: "string list"
    using mset_eq_length [OF that] sort_mset_eq [OF that] by simp_all
  have "order_free wc_Reduce" "order_free early_exit_Reduce"
    unfolding order_free_def wc_Reduce_def early_exit_Reduce_def using len by (metis (no_types))+
  moreover have "order_free nocrash_Reduce" unfolding order_free_def nocrash_Reduce_def using srt by (metis (no_types))
  moreover have "order_free indexer_Reduce" unfolding order_free_def indexer_Reduce_def using len srt by (metis (no_types))
  ultimately show ?thesis by blast
qed

end
