(* ===== verification/Mr_Job.thy ===== *)
theory Mr_Job
  imports Mr_Worker
begin

text \<open>
  The specification of a MapReduce job: the coordinator (\<open>Mr_Coordinator\<close>), any number of workers that
  come, go and crash, and the files they share, as if each worker wrote its files in private and put
  them into place complete: a map task replaces its intermediate files one by one and is then
  reported, a reduce task reads the intermediate files of its partition and replaces its output in
  one step, and is then reported. Tasks that time out are handed out again, so several workers
  may work on the same task. The theory proves that a job of this kind that is done has the output of
  the sequential program. \<open>Mr_Files\<close> has the workers as they are, with temporary files that are opened
  by name, and shows when they do no more than this.
\<close>

datatype worker_state =
    WorkMap nat string nat nat     \<comment> \<open>task, file name, \<open>NReduce\<close>, files already renamed\<close>
  | WorkReduce nat                 \<comment> \<open>task\<close>
  | WorkReduced nat                \<comment> \<open>the output file has been renamed\<close>

record job =
  coord :: Coordinator
  inter :: "nat \<times> nat \<Rightarrow> KeyValue list option"
  outs :: "nat \<Rightarrow> line list option"
  work :: "worker_state list"

definition spec_init :: "string list \<Rightarrow> nat \<Rightarrow> job" where
  "spec_init files n = \<lparr>coord = MakeCoordinator files (int n), inter = (\<lambda>_. None), outs = (\<lambda>_. None), work = []\<rparr>"

definition spec_accepted :: "GetTaskReply \<Rightarrow> worker_state list" where
  \<comment> \<open>what a worker begins with that gets this reply\<close>
  "spec_accepted r =
     (if grTaskType r = ''map'' then [WorkMap (nat (grTaskId r)) (grFileName r) (nat (grNReduce r)) 0]
      else if grTaskType r = ''reduce'' then [WorkReduce (nat (grTaskId r))] else [])"

definition swapWork :: "worker_state \<Rightarrow> worker_state list \<Rightarrow> job \<Rightarrow> job" where
  "swapWork w ws j = j\<lparr>work := ws @ remove1 w (work j)\<rparr>"

inductive spec_step :: "mapf \<Rightarrow> reducef \<Rightarrow> (KeyValue list \<Rightarrow> KeyValue list) \<Rightarrow> (string \<Rightarrow> string) \<Rightarrow> job \<Rightarrow> job \<Rightarrow> bool"
  for mapf f srt content where
  work_get: "GetTask (coord j) = (c', r) \<Longrightarrow> spec_step mapf f srt content j (j\<lparr>coord := c', work := spec_accepted r @ work j\<rparr>)"
| work_rename: "WorkMap x fn n k \<in> set (work j) \<Longrightarrow> k < n \<Longrightarrow> mapTask mapf n fn (content fn) = Inr files \<Longrightarrow>
    spec_step mapf f srt content j
      (swapWork (WorkMap x fn n k) [WorkMap x fn n (Suc k)] (j\<lparr>inter := (inter j)((x, k) \<mapsto> files ! k)\<rparr>))"
| work_map_finish: "WorkMap x fn n n \<in> set (work j) \<Longrightarrow>
    FinishTask (coord j) \<lparr>ftTaskType = ''map'', ftFileName = fn, ftTaskId = int x\<rparr> = Inr c' \<Longrightarrow>
    spec_step mapf f srt content j (swapWork (WorkMap x fn n n) [] (j\<lparr>coord := c'\<rparr>))"
| work_reduce: "WorkReduce y \<in> set (work j) \<Longrightarrow> distinct ids \<Longrightarrow> set ids = {x. inter j (x, y) \<noteq> None} \<Longrightarrow>
    spec_step mapf f srt content j
      (swapWork (WorkReduce y) [WorkReduced y]
        (j\<lparr>outs := (outs j)(y \<mapsto> reduceTask srt f (map (\<lambda>x. the (inter j (x, y))) ids))\<rparr>))"
| work_reduce_finish: "WorkReduced y \<in> set (work j) \<Longrightarrow>
    FinishTask (coord j) \<lparr>ftTaskType = ''reduce'', ftFileName = [], ftTaskId = int y\<rparr> = Inr c' \<Longrightarrow>
    spec_step mapf f srt content j (swapWork (WorkReduced y) [] (j\<lparr>coord := c'\<rparr>))"
| work_crash: "w \<in> set (work j) \<Longrightarrow> spec_step mapf f srt content j (swapWork w [] j)"
| work_timeout: "m \<in> set (monitors (coord j)) \<Longrightarrow> TaskMonitor_timeout (coord j) (fst m) = Inr c' \<Longrightarrow>
    spec_step mapf f srt content j (j\<lparr>coord := endMonitor m c'\<rparr>)"
| work_cancel: "m \<in> set (monitors (coord j)) \<Longrightarrow> snd m = Some k \<Longrightarrow> k \<in> closed (coord j) \<Longrightarrow>
    spec_step mapf f srt content j (j\<lparr>coord := endMonitor m (coord j)\<rparr>)"

subsection \<open>What the coordinator keeps\<close>

lemma GetTask_tasks:
  assumes "GetTask c = (c', r)"
  shows "MapTasks c' = MapTasks c" "ReduceTasks c' = ReduceTasks c" "nReduce c' = nReduce c"
    "grTaskType r = ''map'' \<Longrightarrow> grNReduce r = nReduce c"
  using assms
  by (auto simp: GetTask_def assignMap_def assignReduce_def spawn_def Let_def zeroReply_def
      split: if_splits option.splits)

lemma timeout_tasks:
  assumes "coord_inv c" "TaskMonitor_timeout c t = Inr c'"
  shows "MapTasks c' = MapTasks c" "ReduceTasks c' = ReduceTasks c" "nReduce c' = nReduce c"
  using TaskMonitor_timeout_total [OF assms(1), of t] assms(2) by (auto simp: mapEnded_def reduceEnded_def)

lemma endMonitor_tasks [simp]:
  "MapTasks (endMonitor m c) = MapTasks c" "ReduceTasks (endMonitor m c) = ReduceTasks c" "nReduce (endMonitor m c) = nReduce c"
  by (simp_all add: endMonitor_def)

lemma finish_map_tasks:
  assumes "coord_inv c" and "FinishTask c \<lparr>ftTaskType = ''map'', ftFileName = fn, ftTaskId = int x\<rparr> = Inr c'"
  shows "map mtFileName (MapTasks c') = map mtFileName (MapTasks c)" "ReduceTasks c' = ReduceTasks c" "nReduce c' = nReduce c"
    "\<And>i. i < length (MapTasks c) \<Longrightarrow> mtDone (MapTasks c' ! i) \<longrightarrow> mtDone (MapTasks c ! i) \<or> i = x"
    "\<And>i. i < length (MapTasks c) \<Longrightarrow> mtDone (MapTasks c ! i) \<longrightarrow> mtDone (MapTasks c' ! i)"
proof -
  note len = phase_member(3) [OF coord_invD(1) [OF assms(1)], of "int x"]
  from FinishTask_total [OF assms(1), of "\<lparr>ftTaskType = ''map'', ftFileName = fn, ftTaskId = int x\<rparr>"] assms(2)
  have "c' = c \<or> (\<exists>k. map_of (RunningMapTasks c) (int x) = Some k \<and> c' = mapEnded True (int x) k c)" by auto
  then have *: "c' = c \<or> (\<exists>k. x < length (MapTasks c) \<and> c' = mapEnded True (int x) k c)" using len by auto
  then show "map mtFileName (MapTasks c') = map mtFileName (MapTasks c)"
    by (auto simp: mapEnded_def map_update list_update_same_conv)
  from * show "ReduceTasks c' = ReduceTasks c" "nReduce c' = nReduce c" by (auto simp: mapEnded_def)
  show "mtDone (MapTasks c' ! i) \<longrightarrow> mtDone (MapTasks c ! i) \<or> i = x" if "i < length (MapTasks c)" for i
    using * that by (auto simp: mapEnded_def)
  show "mtDone (MapTasks c ! i) \<longrightarrow> mtDone (MapTasks c' ! i)" if "i < length (MapTasks c)" for i
    using * that by (cases "i = x") (auto simp: mapEnded_def)
qed

lemma finish_reduce_tasks:
  assumes "coord_inv c" and "FinishTask c \<lparr>ftTaskType = ''reduce'', ftFileName = fn, ftTaskId = int x\<rparr> = Inr c'"
  shows "MapTasks c' = MapTasks c" "length (ReduceTasks c') = length (ReduceTasks c)" "nReduce c' = nReduce c"
    "\<And>i. i < length (ReduceTasks c) \<Longrightarrow> rtDone (ReduceTasks c' ! i) \<longrightarrow> rtDone (ReduceTasks c ! i) \<or> i = x"
  using FinishTask_total [OF assms(1), of "\<lparr>ftTaskType = ''reduce'', ftFileName = fn, ftTaskId = int x\<rparr>"] assms(2)
  by (auto simp: reduceEnded_def)

subsection \<open>The invariant of a job\<close>

definition bucket :: "mapf \<Rightarrow> (string \<Rightarrow> string) \<Rightarrow> string list \<Rightarrow> nat \<Rightarrow> nat \<Rightarrow> nat \<Rightarrow> KeyValue list" where
  "bucket mapf content files n x y = filter (\<lambda>kv. ihash (Key kv) mod n = y) (mapf (files ! x) (content (files ! x)))"

definition partition_of :: "mapf \<Rightarrow> (string \<Rightarrow> string) \<Rightarrow> string list \<Rightarrow> nat \<Rightarrow> nat \<Rightarrow> KeyValue list" where
  "partition_of mapf content files n y = concat (map (\<lambda>x. bucket mapf content files n x y) [0..<length files])"

definition work_ok :: "mapf \<Rightarrow> reducef \<Rightarrow> (string \<Rightarrow> string) \<Rightarrow> string list \<Rightarrow> nat \<Rightarrow> job \<Rightarrow> worker_state \<Rightarrow> bool" where
  "work_ok mapf f content files n j w =
     (case w of
        WorkMap x fn n' k \<Rightarrow> x < length files \<and> fn = files ! x \<and> n' = n \<and> k \<le> n \<and>
          (\<forall>i < k. inter j (x, i) = Some (bucket mapf content files n x i))
      | WorkReduce y \<Rightarrow> y < n \<and> (\<forall>x < length files. mtDone (MapTasks (coord j) ! x))
      | WorkReduced y \<Rightarrow> y < n \<and> outs j y = Some (grouped f (partition_of mapf content files n y)))"

definition job_inv :: "mapf \<Rightarrow> reducef \<Rightarrow> (string \<Rightarrow> string) \<Rightarrow> string list \<Rightarrow> nat \<Rightarrow> job \<Rightarrow> bool" where
  "job_inv mapf f content files n j \<longleftrightarrow>
     coord_inv (coord j) \<and> map mtFileName (MapTasks (coord j)) = files \<and> nReduce (coord j) = int n \<and>
     length (ReduceTasks (coord j)) = n \<and>
     (\<forall>x y. inter j (x, y) = None \<or> x < length files \<and> inter j (x, y) = Some (bucket mapf content files n x y)) \<and>
     (\<forall>w \<in> set (work j). work_ok mapf f content files n j w) \<and>
     (\<forall>x < length files. mtDone (MapTasks (coord j) ! x) \<longrightarrow>
        (\<forall>i < n. inter j (x, i) = Some (bucket mapf content files n x i))) \<and>
     (\<forall>y < n. rtDone (ReduceTasks (coord j) ! y) \<longrightarrow> outs j y = Some (grouped f (partition_of mapf content files n y)))"

lemma job_invD:
  assumes "job_inv mapf f content files n j"
  shows "coord_inv (coord j)" "map mtFileName (MapTasks (coord j)) = files" "nReduce (coord j) = int n"
    "length (ReduceTasks (coord j)) = n" "length (MapTasks (coord j)) = length files"
    "\<And>x y. inter j (x, y) \<noteq> None \<Longrightarrow> x < length files \<and> inter j (x, y) = Some (bucket mapf content files n x y)"
    "\<And>w. w \<in> set (work j) \<Longrightarrow> work_ok mapf f content files n j w"
    "\<And>x i. x < length files \<Longrightarrow> mtDone (MapTasks (coord j) ! x) \<Longrightarrow> i < n \<Longrightarrow>
       inter j (x, i) = Some (bucket mapf content files n x i)"
    "\<And>y. y < n \<Longrightarrow> rtDone (ReduceTasks (coord j) ! y) \<Longrightarrow> outs j y = Some (grouped f (partition_of mapf content files n y))"
  using assms unfolding job_inv_def by (blast | metis length_map)+

lemma job_invI:
  assumes "coord_inv (coord j)" "map mtFileName (MapTasks (coord j)) = files" "nReduce (coord j) = int n"
    "length (ReduceTasks (coord j)) = n"
    "\<And>x y. inter j (x, y) \<noteq> None \<Longrightarrow> x < length files \<and> inter j (x, y) = Some (bucket mapf content files n x y)"
    "\<And>w. w \<in> set (work j) \<Longrightarrow> work_ok mapf f content files n j w"
    "\<And>x i. x < length files \<Longrightarrow> mtDone (MapTasks (coord j) ! x) \<Longrightarrow> i < n \<Longrightarrow>
       inter j (x, i) = Some (bucket mapf content files n x i)"
    "\<And>y. y < n \<Longrightarrow> rtDone (ReduceTasks (coord j) ! y) \<Longrightarrow> outs j y = Some (grouped f (partition_of mapf content files n y))"
  shows "job_inv mapf f content files n j"
  unfolding job_inv_def using assms by blast

lemma swapWork_simps [simp]:
  "coord (swapWork w ws j) = coord j" "inter (swapWork w ws j) = inter j" "outs (swapWork w ws j) = outs j"
  "work (swapWork w ws j) = ws @ remove1 w (work j)"
  by (simp_all add: swapWork_def)

lemma work_ok_cong:
  assumes "\<And>x i b. inter j (x, i) = Some b \<Longrightarrow> inter j' (x, i) = Some b"
    and "\<And>y b. outs j y = Some b \<Longrightarrow> outs j' y = Some b"
    and "\<And>x. x < length files \<Longrightarrow> mtDone (MapTasks (coord j) ! x) \<Longrightarrow> mtDone (MapTasks (coord j') ! x)"
    and "work_ok mapf f content files n j w"
  shows "work_ok mapf f content files n j' w"
  using assms by (cases w) (auto simp: work_ok_def)

lemma spec_init_inv: "job_inv mapf f content files n (spec_init files n)"
proof (rule job_invI)
  show "coord_inv (coord (spec_init files n))" by (simp add: spec_init_def MakeCoordinator_inv)
  show "map mtFileName (MapTasks (coord (spec_init files n))) = files"
    by (auto simp: spec_init_def MakeCoordinator_def nth_enumerate_eq intro!: nth_equalityI)
  show "nReduce (coord (spec_init files n)) = int n" "length (ReduceTasks (coord (spec_init files n))) = n"
    by (simp_all add: spec_init_def MakeCoordinator_def)
qed (auto simp: spec_init_def MakeCoordinator_def nth_enumerate_eq)

lemma spec_accepted_ok:
  assumes inv: "job_inv mapf f content files n j" and g: "GetTask (coord j) = (c', r)"
    and w: "w \<in> set (spec_accepted r)"
  shows "work_ok mapf f content files n (j\<lparr>coord := c'\<rparr>) w"
proof -
  note d = job_invD [OF inv] and t = GetTask_tasks [OF g]
  note cases = conjunct2 [OF GetTask_cases [OF d(1) g]]
  have "grTaskType r = ''map'' \<or> grTaskType r = ''reduce''" using w by (auto simp: spec_accepted_def split: if_splits)
  then show ?thesis
  proof
    assume m: "grTaskType r = ''map''"
    with cases obtain x where x: "x < length (MapTasks (coord j))" "grTaskId r = int x"
      "grFileName r = mtFileName (MapTasks (coord j) ! x)" by auto
    have "grFileName r = files ! x" using x d(2) by (metis nth_map)
    then show ?thesis using w m x t(4) [OF m] d(3,5) by (simp add: spec_accepted_def work_ok_def)
  next
    assume m: "grTaskType r = ''reduce''"
    with cases obtain y where y: "y < length (ReduceTasks (coord j))" "grTaskId r = int y"
      and all: "FinishedMapTasks (coord j) = int (length (MapTasks (coord j)))" by auto
    have "\<forall>t \<in> set (MapTasks (coord j)). mtDone t"
      using all_done_none_running(2) [OF coord_invD(1) [OF d(1)]] all by simp
    then show ?thesis using w m y t(1) d(4,5) by (simp add: spec_accepted_def work_ok_def)
  qed
qed

lemma step_work_get:
  assumes inv: "job_inv mapf f content files n j" and g: "GetTask (coord j) = (c', r)"
  shows "job_inv mapf f content files n (j\<lparr>coord := c', work := spec_accepted r @ work j\<rparr>)"
proof -
  note d = job_invD [OF inv] and t = GetTask_tasks [OF g]
  have old: "work_ok mapf f content files n (j\<lparr>coord := c', work := ws\<rparr>) w"
    if "work_ok mapf f content files n j w \<or> work_ok mapf f content files n (j\<lparr>coord := c'\<rparr>) w" for w ws
    using that t(1) by (cases w) (auto simp: work_ok_def)
  show ?thesis
  proof (rule job_invI)
    show "coord_inv (coord (j\<lparr>coord := c', work := spec_accepted r @ work j\<rparr>))" using GetTask_cases [OF d(1) g] by simp
    fix w assume "w \<in> set (work (j\<lparr>coord := c', work := spec_accepted r @ work j\<rparr>))"
    then have "w \<in> set (spec_accepted r) \<or> w \<in> set (work j)" by simp
    then show "work_ok mapf f content files n (j\<lparr>coord := c', work := spec_accepted r @ work j\<rparr>) w"
      using spec_accepted_ok [OF inv g] d(7) by (intro old) blast
  next
    fix a b assume "inter (j\<lparr>coord := c', work := spec_accepted r @ work j\<rparr>) (a, b) \<noteq> None"
    then show "a < length files \<and> inter (j\<lparr>coord := c', work := spec_accepted r @ work j\<rparr>) (a, b) = Some (bucket mapf content files n a b)"
      using d(6) [of a b] by simp
  qed (use d(2-4) d(8,9) t(1-3) in simp_all)
qed

lemma step_work_rename:
  assumes inv: "job_inv mapf f content files n j" and w: "WorkMap x fn n' k \<in> set (work j)" and k: "k < n'"
    and m: "mapTask mapf n' fn (content fn) = Inr fs"
  shows "job_inv mapf f content files n
    (swapWork (WorkMap x fn n' k) [WorkMap x fn n' (Suc k)] (j\<lparr>inter := (inter j)((x, k) \<mapsto> fs ! k)\<rparr>))"
proof -
  note d = job_invD [OF inv]
  have wo: "x < length files" "fn = files ! x" "n' = n" "\<And>i. i < k \<Longrightarrow> inter j (x, i) = Some (bucket mapf content files n x i)"
    using d(7) [OF w] by (simp_all add: work_ok_def)
  have fk: "fs ! k = bucket mapf content files n x k"
    using m k wo(2,3) by (auto simp: mapTask_def writeBuckets_eq bucket_def)
  let ?j = "swapWork (WorkMap x fn n' k) [WorkMap x fn n' (Suc k)] (j\<lparr>inter := (inter j)((x, k) \<mapsto> fs ! k)\<rparr>)"
  have grow: "inter ?j (a, b) = Some z" if "inter j (a, b) = Some z" for a b z
    using that d(6) [of a b] fk by auto
  show ?thesis
  proof (rule job_invI)
    fix v assume "v \<in> set (work ?j)"
    then have "v = WorkMap x fn n' (Suc k) \<or> v \<in> set (work j)" using notin_set_remove1 by fastforce
    then show "work_ok mapf f content files n ?j v"
    proof
      assume "v = WorkMap x fn n' (Suc k)"
      then show ?thesis using wo k fk by (auto simp: work_ok_def less_Suc_eq)
    next
      assume "v \<in> set (work j)"
      from d(7) [OF this] show ?thesis by (rule work_ok_cong [rotated 3]) (use grow in \<open>simp_all add: fun_upd_def\<close>)
    qed
  next
    fix a b assume "inter ?j (a, b) \<noteq> None"
    then show "a < length files \<and> inter ?j (a, b) = Some (bucket mapf content files n a b)"
      using d(6) [of a b] wo(1) fk by (auto split: if_splits)
  next
    fix a i assume "a < length files" "mtDone (MapTasks (coord ?j) ! a)" "i < n"
    then show "inter ?j (a, i) = Some (bucket mapf content files n a i)" using d(8) [of a i] grow by simp
  qed (use d(1-4,9) in simp_all)
qed

lemma step_coord:
  \<comment> \<open>a step of the coordinator that finishes at most a task whose files are in place\<close>
  assumes inv: "job_inv mapf f content files n j" and ci: "coord_inv c'"
    and tasks: "map mtFileName (MapTasks c') = map mtFileName (MapTasks (coord j))" "nReduce c' = nReduce (coord j)"
      "length (ReduceTasks c') = length (ReduceTasks (coord j))"
    and keep: "\<And>x. x < length files \<Longrightarrow> mtDone (MapTasks (coord j) ! x) \<Longrightarrow> mtDone (MapTasks c' ! x)"
    and maps: "\<And>x. x < length files \<Longrightarrow> mtDone (MapTasks c' ! x) \<Longrightarrow> mtDone (MapTasks (coord j) ! x) \<or>
      (\<forall>i < n. inter j (x, i) = Some (bucket mapf content files n x i))"
    and reds: "\<And>y. y < n \<Longrightarrow> rtDone (ReduceTasks c' ! y) \<Longrightarrow> rtDone (ReduceTasks (coord j) ! y) \<or>
      outs j y = Some (grouped f (partition_of mapf content files n y))"
    and ws: "set ws \<subseteq> set (work j)"
  shows "job_inv mapf f content files n (j\<lparr>coord := c', work := ws\<rparr>)"
proof (rule job_invI)
  note d = job_invD [OF inv]
  let ?j = "j\<lparr>coord := c', work := ws\<rparr>"
  fix w assume "w \<in> set (work ?j)"
  then have "work_ok mapf f content files n j w" using d(7) ws by auto
  then show "work_ok mapf f content files n ?j w" by (rule work_ok_cong [rotated 3]) (use keep in simp_all)
next
  note d = job_invD [OF inv]
  let ?j = "j\<lparr>coord := c', work := ws\<rparr>"
  fix a b assume "inter ?j (a, b) \<noteq> None"
  then show "a < length files \<and> inter ?j (a, b) = Some (bucket mapf content files n a b)" using d(6) [of a b] by simp
next
  note d = job_invD [OF inv]
  let ?j = "j\<lparr>coord := c', work := ws\<rparr>"
  fix x i assume "x < length files" "mtDone (MapTasks (coord ?j) ! x)" "i < n"
  then show "inter ?j (x, i) = Some (bucket mapf content files n x i)" using maps [of x] d(8) [of x i] by auto
next
  note d = job_invD [OF inv]
  let ?j = "j\<lparr>coord := c', work := ws\<rparr>"
  fix y assume "y < n" "rtDone (ReduceTasks (coord ?j) ! y)"
  then show "outs ?j y = Some (grouped f (partition_of mapf content files n y))" using reds [of y] d(9) [of y] by auto
qed (use job_invD(2-4) [OF inv] ci tasks in simp_all)

lemma swapWork_coord: "swapWork w [] (j\<lparr>coord := c'\<rparr>) = j\<lparr>coord := c', work := remove1 w (work j)\<rparr>"
  by (simp add: swapWork_def)

lemma step_map_finish:
  assumes inv: "job_inv mapf f content files n j" and w: "WorkMap x fn n' n' \<in> set (work j)"
    and fin: "FinishTask (coord j) \<lparr>ftTaskType = ''map'', ftFileName = fn, ftTaskId = int x\<rparr> = Inr c'"
  shows "job_inv mapf f content files n (swapWork (WorkMap x fn n' n') [] (j\<lparr>coord := c'\<rparr>))"
proof -
  note d = job_invD [OF inv] and t = finish_map_tasks [OF job_invD(1) [OF inv] fin]
  have "\<forall>i < n. inter j (x, i) = Some (bucket mapf content files n x i)"
    using d(7) [OF w] by (simp add: work_ok_def)
  then have maps: "mtDone (MapTasks (coord j) ! a) \<or> (\<forall>i < n. inter j (a, i) = Some (bucket mapf content files n a i))"
    if "a < length files" "mtDone (MapTasks c' ! a)" for a using t(4) [of a] d(5) that by auto
  show ?thesis unfolding swapWork_coord
    by (rule step_coord [OF inv FinishTask_inv [OF d(1) fin] t(1)])
      (use t(2,3,5) d(5) maps in \<open>auto dest: set_remove1_subset [THEN subsetD]\<close>)
qed

lemma step_reduce_finish:
  assumes inv: "job_inv mapf f content files n j" and w: "WorkReduced y \<in> set (work j)"
    and fin: "FinishTask (coord j) \<lparr>ftTaskType = ''reduce'', ftFileName = [], ftTaskId = int y\<rparr> = Inr c'"
  shows "job_inv mapf f content files n (swapWork (WorkReduced y) [] (j\<lparr>coord := c'\<rparr>))"
proof -
  note d = job_invD [OF inv] and t = finish_reduce_tasks [OF job_invD(1) [OF inv] fin]
  have "outs j y = Some (grouped f (partition_of mapf content files n y))" using d(7) [OF w] by (simp add: work_ok_def)
  then have reds: "rtDone (ReduceTasks (coord j) ! b) \<or> outs j b = Some (grouped f (partition_of mapf content files n b))"
    if "b < n" "rtDone (ReduceTasks c' ! b)" for b using t(4) [of b] d(4) that by auto
  show ?thesis unfolding swapWork_coord
    by (rule step_coord [OF inv FinishTask_inv [OF d(1) fin]])
      (use t(1-3) reds in \<open>auto dest: set_remove1_subset [THEN subsetD]\<close>)
qed

lemma distinct_set_mset: "distinct xs \<Longrightarrow> distinct ys \<Longrightarrow> set xs = set ys \<Longrightarrow> mset xs = mset ys"
  by (simp add: set_eq_iff_mset_eq_distinct)

lemma mset_concat_map: "mset xs = mset ys \<Longrightarrow> mset (concat (map g xs)) = mset (concat (map g ys))"
  by (simp only: mset_concat_sum mset_map)

lemma step_reduce:
  assumes inv: "job_inv mapf f content files n j" and srt: "key_sorting srt" "order_free f"
    and w: "WorkReduce y \<in> set (work j)" and ids: "distinct ids" "set ids = {x. inter j (x, y) \<noteq> None}"
  shows "job_inv mapf f content files n (swapWork (WorkReduce y) [WorkReduced y]
        (j\<lparr>outs := (outs j)(y \<mapsto> reduceTask srt f (map (\<lambda>x. the (inter j (x, y))) ids))\<rparr>))"
proof -
  note d = job_invD [OF inv]
  have wo: "y < n" "\<And>x. x < length files \<Longrightarrow> inter j (x, y) = Some (bucket mapf content files n x y)"
    using d(7) [OF w] d(8) by (auto simp: work_ok_def)
  have "inter j (x, y) \<noteq> None \<longleftrightarrow> x < length files" for x
  proof
    show "inter j (x, y) \<noteq> None \<Longrightarrow> x < length files" using d(6) [of x y] by blast
    show "x < length files \<Longrightarrow> inter j (x, y) \<noteq> None" using wo(2) [of x] by simp
  qed
  then have idset: "set ids = set [0..<length files]" by (simp add: ids(2) atLeast0LessThan lessThan_def)
  then have "mset ids = mset [0..<length files]" by (intro distinct_set_mset ids(1)) simp_all
  note parts = mset_concat_map [OF this, of "\<lambda>x. bucket mapf content files n x y"]
  have same: "map (\<lambda>x. the (inter j (x, y))) ids = map (\<lambda>x. bucket mapf content files n x y) ids"
    using idset wo(2) by (intro map_cong) auto
  have "mset (concat (map (\<lambda>x. the (inter j (x, y))) ids)) = mset (partition_of mapf content files n y)"
    unfolding partition_of_def same by (rule parts)
  then have out: "reduceTask srt f (map (\<lambda>x. the (inter j (x, y))) ids) = grouped f (partition_of mapf content files n y)"
    unfolding reduceTask_def using reduce_sorted [OF srt] grouped_cong [OF srt(2)] by metis
  let ?j = "swapWork (WorkReduce y) [WorkReduced y]
        (j\<lparr>outs := (outs j)(y \<mapsto> reduceTask srt f (map (\<lambda>x. the (inter j (x, y))) ids))\<rparr>)"
  show ?thesis
  proof (rule job_invI)
    fix v assume "v \<in> set (work ?j)"
    then have "v = WorkReduced y \<or> v \<in> set (work j)" using notin_set_remove1 by fastforce
    then show "work_ok mapf f content files n ?j v"
    proof
      assume "v = WorkReduced y"
      then show ?thesis using wo(1) out by (simp add: work_ok_def)
    next
      assume "v \<in> set (work j)"
      from d(7) [OF this] show ?thesis using out by (cases v) (auto simp: work_ok_def)
    qed
  next
    fix a b assume "inter ?j (a, b) \<noteq> None"
    then show "a < length files \<and> inter ?j (a, b) = Some (bucket mapf content files n a b)" using d(6) [of a b] by simp
  qed (use d(1-4) d(8,9) out in simp_all)
qed

lemma spec_step_inv:
  assumes "spec_step mapf f srt content j j'" and "key_sorting srt" "order_free f" and "job_inv mapf f content files n j"
  shows "job_inv mapf f content files n j'"
  using assms
proof (induction rule: spec_step.induct)
  case (work_get j c' r)
  then show ?case by (intro step_work_get)
next
  case (work_rename x fn n' k j fs)
  then show ?case by (intro step_work_rename)
next
  case (work_map_finish x fn n' j c')
  then show ?case by (intro step_map_finish)
next
  case (work_reduce y j ids)
  then show ?case by (intro step_reduce)
next
  case (work_reduce_finish y j c')
  then show ?case by (intro step_reduce_finish)
next
  case (work_crash w j)
  then show ?case using step_coord [OF work_crash(4), of "coord j" "remove1 w (work j)"] job_invD(1) [OF work_crash(4)]
    by (simp add: swapWork_def set_remove1_subset)
next
  case (work_timeout m j c')
  have inv: "coord_inv (coord j)" using job_invD(1) [OF work_timeout(5)] .
  note t = timeout_tasks [OF inv work_timeout(2)]
  show ?case using step_coord [OF work_timeout(5) timeout_inv [OF inv work_timeout(1,2)], of "work j"] t by simp
next
  case (work_cancel m j k)
  have inv: "coord_inv (coord j)" using job_invD(1) [OF work_cancel(6)] .
  have "coord_inv (endMonitor m (coord j))"
    using mr_step_inv [OF mr_step.task_cancelled [OF work_cancel(1-3)] inv] .
  from step_coord [OF work_cancel(6) this, of "work j"] show ?case by simp
qed

lemma spec_run_inv:
  assumes "(spec_step mapf f srt content)\<^sup>*\<^sup>* (spec_init files n) j" and "key_sorting srt" "order_free f"
  shows "job_inv mapf f content files n j"
  using assms(1) by (induction rule: rtranclp_induct) (auto intro: spec_init_inv spec_step_inv assms(2,3))

subsection \<open>A finished job\<close>

lemma partition_filter:
  "partition_of mapf content files n y =
   filter (\<lambda>kv. ihash (Key kv) mod n = y) (concat (map (\<lambda>fn. mapf fn (content fn)) files))"
proof -
  have "map (\<lambda>x. bucket mapf content files n x y) [0..<length files] =
      map (\<lambda>fn. filter (\<lambda>kv. ihash (Key kv) mod n = y) (mapf fn (content fn))) files"
    by (rule nth_equalityI) (simp_all add: bucket_def)
  then show ?thesis by (simp add: partition_of_def filter_concat comp_def)
qed

lemma mrsequential_grouped:
  assumes "key_sorting srt" "order_free f"
  shows "mrsequential srt mapf f (map (\<lambda>fn. (fn, content fn)) files) =
    grouped f (concat (map (\<lambda>fn. mapf fn (content fn)) files))"
proof -
  have "foldl (\<lambda>acc (fn, c). acc @ mapf fn c) acc (map (\<lambda>fn. (fn, content fn)) files) =
      acc @ concat (map (\<lambda>fn. mapf fn (content fn)) files)" for acc
    by (induction files arbitrary: acc) simp_all
  then show ?thesis using reduce_sorted [OF assms] by (simp add: mrsequential_def)
qed

lemma mset_concat_upt: "mset (concat (map g [0..<n])) = (\<Sum>y < n. mset (g y))"
  by (induction n) simp_all

lemma spec_done_output:
  assumes "(spec_step mapf f srt content)\<^sup>*\<^sup>* (spec_init files n) j" and "key_sorting srt" and "order_free f"
    and "0 < n" and "Done (coord j)"
  shows "\<exists>out. (\<forall>y < n. outs j y = Some (out y)) \<and>
    mset (concat (map out [0..<n])) = mset (mrsequential srt mapf f (map (\<lambda>fn. (fn, content fn)) files))"
proof (intro exI conjI)
  note d = job_invD [OF spec_run_inv [OF assms(1-3)]]
  let ?out = "\<lambda>y. grouped f (partition_of mapf content files n y)"
  have "rtDone (ReduceTasks (coord j) ! y)" if "y < n" for y
    using Done_flags [OF d(1)] assms(5) d(4) that by simp
  then show "\<forall>y < n. outs j y = Some (?out y)" using d(9) by blast
  have "mset (concat (map ?out [0..<n])) = mset (grouped f (concat (map (\<lambda>fn. mapf fn (content fn)) files)))"
    unfolding mset_concat_upt partition_filter by (rule grouped_buckets [OF assms(4)])
  then show "mset (concat (map ?out [0..<n])) = mset (mrsequential srt mapf f (map (\<lambda>fn. (fn, content fn)) files))"
    by (simp only: mrsequential_grouped [OF assms(2,3)])
qed

lemma sort_key_sorting: "key_sorting (sort_key Key)"
  by (simp add: key_sorting_def)

end
