(* ===== verification/Mr_Files.thy ===== *)
theory Mr_Files
  imports Mr_Job
begin

text \<open>
  The workers of a MapReduce job with their files (\<open>Worker\<close> in \<open>src/mr/worker.go\<close>). A map task creates its
  temporary files one by one, writes its pairs one by one through the handles it has got, renames the
  files one by one and reports; a reduce task lists the intermediate files of its partition, reads
  them one by one, creates its temporary output, writes it line by line, renames it and reports. A
  worker may die between any two of these, and does when a file cannot be renamed or decoded.

  The name of a temporary file is made of the task, the bucket and the time of day in seconds
  (\<open>timeStr\<close>); the stamp of a worker stands for that text, and any worker may get any stamp. Names lead to files
  (\<open>link\<close>) and files hold records; \<open>os.Create\<close> empties a file that is there already, also while others
  have it open; a handle keeps its place in the file, and what it skips is a hole that cannot be
  decoded. A record is what one call of \<open>Encode\<close> or \<open>Fprintf\<close> writes. So two workers
  with the same task and the same stamp write into the same files. The history variable \<open>jClash\<close>
  says whether a task was ever begun twice with the same stamp; as long as it was not, the workers do what \<open>Mr_Job\<close>
  allows, which is shown by a forward simulation.
\<close>

subsection \<open>Files\<close>

datatype mrname = TmpInter nat nat nat | Inter nat nat | TmpOut nat nat | OutFile nat

datatype mrrec = Pair KeyValue | Line line

record mrfs =
  link :: "mrname \<Rightarrow> nat option"
  data :: "nat \<Rightarrow> mrrec option list"
  nextIno :: nat

definition fs_create :: "mrname \<Rightarrow> mrfs \<Rightarrow> mrfs \<times> nat" where
  \<comment> \<open>\<open>os.Create\<close>: the file of this name, emptied, or a new one\<close>
  "fs_create nm fs = (case link fs nm of
       Some i \<Rightarrow> (fs\<lparr>data := (data fs)(i := [])\<rparr>, i)
     | None \<Rightarrow> (fs\<lparr>link := (link fs)(nm \<mapsto> nextIno fs), data := (data fs)(nextIno fs := []), nextIno := Suc (nextIno fs)\<rparr>, nextIno fs))"

definition putAt :: "nat \<Rightarrow> mrrec \<Rightarrow> mrrec option list \<Rightarrow> mrrec option list" where
  "putAt k r xs = (xs @ replicate (Suc k - length xs) None)[k := Some r]"

definition fs_write :: "nat \<Rightarrow> nat \<Rightarrow> mrrec \<Rightarrow> mrfs \<Rightarrow> mrfs" where
  \<comment> \<open>a handle on file \<open>i\<close> that stands at record \<open>k\<close>\<close>
  "fs_write i k r fs = fs\<lparr>data := (data fs)(i := putAt k r (data fs i))\<rparr>"

definition fs_rename :: "mrname \<Rightarrow> mrname \<Rightarrow> mrfs \<Rightarrow> mrfs option" where
  \<comment> \<open>\<open>None\<close>: there is no file of the old name\<close>
  "fs_rename a b fs = (case link fs a of None \<Rightarrow> None | Some i \<Rightarrow> Some (fs\<lparr>link := (link fs)(a := None, b \<mapsto> i)\<rparr>))"

definition fs_read :: "mrname \<Rightarrow> mrfs \<Rightarrow> mrrec option list option" where
  "fs_read nm fs = map_option (data fs) (link fs nm)"

fun decodePairs :: "mrrec option list \<Rightarrow> KeyValue list option" where
  \<comment> \<open>the loop over \<open>decoder.Decode\<close>; \<open>None\<close>: the worker dies\<close>
  "decodePairs [] = Some []"
| "decodePairs (Some (Pair kv) # rest) = map_option ((#) kv) (decodePairs rest)"
| "decodePairs (_ # rest) = None"

subsection \<open>Workers\<close>

datatype mrwork =
    WriteMap nat string nat nat "nat list" nat    \<comment> \<open>task, file name, \<open>NReduce\<close>, stamp, handles, pairs written\<close>
  | RenameMap nat string nat nat nat              \<comment> \<open>task, file name, \<open>NReduce\<close>, stamp, files renamed\<close>
  | GlobReduce nat nat                            \<comment> \<open>task, stamp\<close>
  | ReadReduce nat nat "nat list" "KeyValue list" \<comment> \<open>files to read, pairs read\<close>
  | WriteOut nat nat nat "line list" nat          \<comment> \<open>handle, lines of the output, lines written\<close>
  | RenamedOut nat nat

record mrjob =
  jCoord :: Coordinator
  jFs :: mrfs
  jWork :: "mrwork list"
  jUsed :: "(string \<times> nat \<times> nat) set"
  jClash :: bool

definition init_job :: "string list \<Rightarrow> nat \<Rightarrow> mrjob" where
  "init_job files n = \<lparr>jCoord = MakeCoordinator files (int n), jFs = \<lparr>link = (\<lambda>_. None), data = (\<lambda>_. []), nextIno = 0\<rparr>,
     jWork = [], jUsed = {}, jClash = False\<rparr>"

definition accepted :: "nat \<Rightarrow> GetTaskReply \<Rightarrow> mrwork list" where
  \<comment> \<open>the \<open>switch\<close> of \<open>Worker\<close> on the task type; \<open>t\<close> is the stamp\<close>
  "accepted t r =
     (if grTaskType r = ''map'' then [WriteMap (nat (grTaskId r)) (grFileName r) (nat (grNReduce r)) t [] 0]
      else if grTaskType r = ''reduce'' then [GlobReduce (nat (grTaskId r)) t] else [])"

fun wkey :: "mrwork \<Rightarrow> string \<times> nat \<times> nat" where
  \<comment> \<open>the kind of the task, the task and the stamp\<close>
  "wkey (WriteMap x fn n t hs k) = (''map'', x, t)"
| "wkey (RenameMap x fn n t k) = (''map'', x, t)"
| "wkey (GlobReduce y t) = (''reduce'', y, t)"
| "wkey (ReadReduce y t ids acc) = (''reduce'', y, t)"
| "wkey (WriteOut y t i ls k) = (''reduce'', y, t)"
| "wkey (RenamedOut y t) = (''reduce'', y, t)"

definition beginWork :: "mrwork list \<Rightarrow> mrjob \<Rightarrow> mrjob" where
  \<comment> \<open>with the history of stamps\<close>
  "beginWork ws j = j\<lparr>jWork := ws @ jWork j, jUsed := wkey ` set ws \<union> jUsed j,
     jClash := (jClash j \<or> wkey ` set ws \<inter> jUsed j \<noteq> {})\<rparr>"

definition nextWork :: "mrwork \<Rightarrow> mrwork list \<Rightarrow> mrjob \<Rightarrow> mrjob" where
  \<comment> \<open>a worker goes on, or is gone\<close>
  "nextWork w ws j = j\<lparr>jWork := ws @ remove1 w (jWork j)\<rparr>"

definition bucketOf :: "nat \<Rightarrow> KeyValue \<Rightarrow> nat" where
  "bucketOf n kv = ihash (Key kv) mod n"

definition inBucket :: "nat \<Rightarrow> nat \<Rightarrow> KeyValue list \<Rightarrow> KeyValue list" where
  "inBucket n b kvs = filter (\<lambda>kv. bucketOf n kv = b) kvs"

inductive job_step :: "mapf \<Rightarrow> reducef \<Rightarrow> (KeyValue list \<Rightarrow> KeyValue list) \<Rightarrow> (string \<Rightarrow> string) \<Rightarrow> mrjob \<Rightarrow> mrjob \<Rightarrow> bool"
  for mapf f srt content where
  work_get: "GetTask (jCoord j) = (c', r) \<Longrightarrow> job_step mapf f srt content j (beginWork (accepted t r) (j\<lparr>jCoord := c'\<rparr>))"
| map_create: "w = WriteMap x fn n t hs 0 \<Longrightarrow> w \<in> set (jWork j) \<Longrightarrow> length hs < n \<Longrightarrow>
    fs_create (TmpInter x (length hs) t) (jFs j) = (fs', i) \<Longrightarrow>
    job_step mapf f srt content j (nextWork w [WriteMap x fn n t (hs @ [i]) 0] (j\<lparr>jFs := fs'\<rparr>))"
| map_write: "w = WriteMap x fn n t hs k \<Longrightarrow> w \<in> set (jWork j) \<Longrightarrow> length hs = n \<Longrightarrow> 0 < n \<Longrightarrow>
    kvs = mapf fn (content fn) \<Longrightarrow> k < length kvs \<Longrightarrow> b = bucketOf n (kvs ! k) \<Longrightarrow>
    job_step mapf f srt content j (nextWork w [WriteMap x fn n t hs (Suc k)]
      (j\<lparr>jFs := fs_write (hs ! b) (length (inBucket n b (take k kvs))) (Pair (kvs ! k)) (jFs j)\<rparr>))"
| map_written: "w = WriteMap x fn n t hs k \<Longrightarrow> w \<in> set (jWork j) \<Longrightarrow> length hs = n \<Longrightarrow> k = length (mapf fn (content fn)) \<Longrightarrow>
    job_step mapf f srt content j (nextWork w [RenameMap x fn n t 0] j)"
| map_rename: "w = RenameMap x fn n t k \<Longrightarrow> w \<in> set (jWork j) \<Longrightarrow> k < n \<Longrightarrow>
    fs_rename (TmpInter x k t) (Inter x k) (jFs j) = Some fs' \<Longrightarrow>
    job_step mapf f srt content j (nextWork w [RenameMap x fn n t (Suc k)] (j\<lparr>jFs := fs'\<rparr>))"
| map_finish: "w = RenameMap x fn n t n \<Longrightarrow> w \<in> set (jWork j) \<Longrightarrow>
    FinishTask (jCoord j) \<lparr>ftTaskType = ''map'', ftFileName = fn, ftTaskId = int x\<rparr> = Inr c' \<Longrightarrow>
    job_step mapf f srt content j (nextWork w [] (j\<lparr>jCoord := c'\<rparr>))"
| reduce_glob: "w = GlobReduce y t \<Longrightarrow> w \<in> set (jWork j) \<Longrightarrow> distinct ids \<Longrightarrow> set ids = {x. link (jFs j) (Inter x y) \<noteq> None} \<Longrightarrow>
    job_step mapf f srt content j (nextWork w [ReadReduce y t ids []] j)"
| reduce_read: "w = ReadReduce y t (x # ids) acc \<Longrightarrow> w \<in> set (jWork j) \<Longrightarrow>
    Option.bind (fs_read (Inter x y) (jFs j)) decodePairs = Some kvs \<Longrightarrow>
    job_step mapf f srt content j (nextWork w [ReadReduce y t ids (acc @ kvs)] j)"
| reduce_create: "w = ReadReduce y t [] acc \<Longrightarrow> w \<in> set (jWork j) \<Longrightarrow> fs_create (TmpOut y t) (jFs j) = (fs', i) \<Longrightarrow>
    job_step mapf f srt content j (nextWork w [WriteOut y t i (reduceLoop f (srt acc)) 0] (j\<lparr>jFs := fs'\<rparr>))"
| reduce_write: "w = WriteOut y t i ls k \<Longrightarrow> w \<in> set (jWork j) \<Longrightarrow> k < length ls \<Longrightarrow>
    job_step mapf f srt content j (nextWork w [WriteOut y t i ls (Suc k)] (j\<lparr>jFs := fs_write i k (Line (ls ! k)) (jFs j)\<rparr>))"
| reduce_rename: "w = WriteOut y t i ls k \<Longrightarrow> w \<in> set (jWork j) \<Longrightarrow> k = length ls \<Longrightarrow>
    fs_rename (TmpOut y t) (OutFile y) (jFs j) = Some fs' \<Longrightarrow>
    job_step mapf f srt content j (nextWork w [RenamedOut y t] (j\<lparr>jFs := fs'\<rparr>))"
| reduce_finish: "w = RenamedOut y t \<Longrightarrow> w \<in> set (jWork j) \<Longrightarrow>
    FinishTask (jCoord j) \<lparr>ftTaskType = ''reduce'', ftFileName = [], ftTaskId = int y\<rparr> = Inr c' \<Longrightarrow>
    job_step mapf f srt content j (nextWork w [] (j\<lparr>jCoord := c'\<rparr>))"
| work_dies: "w \<in> set (jWork j) \<Longrightarrow> job_step mapf f srt content j (nextWork w [] j)"
| work_timeout: "m \<in> set (monitors (jCoord j)) \<Longrightarrow> TaskMonitor_timeout (jCoord j) (fst m) = Inr c' \<Longrightarrow>
    job_step mapf f srt content j (j\<lparr>jCoord := endMonitor m c'\<rparr>)"
| work_cancel: "m \<in> set (monitors (jCoord j)) \<Longrightarrow> snd m = Some k \<Longrightarrow> k \<in> closed (jCoord j) \<Longrightarrow>
    job_step mapf f srt content j (j\<lparr>jCoord := endMonitor m (jCoord j)\<rparr>)"

subsection \<open>What the operations on files keep\<close>

definition fs_ok :: "mrfs \<Rightarrow> bool" where
  \<comment> \<open>a file has one name, and new ones are new\<close>
  "fs_ok fs \<longleftrightarrow> (\<forall>a b i. link fs a = Some i \<longrightarrow> link fs b = Some i \<longrightarrow> a = b) \<and> (\<forall>a i. link fs a = Some i \<longrightarrow> i < nextIno fs)"

definition same_at :: "mrfs \<Rightarrow> mrfs \<Rightarrow> mrname \<Rightarrow> bool" where
  "same_at fs fs' nm \<longleftrightarrow> link fs' nm = link fs nm \<and> (\<forall>i. link fs nm = Some i \<longrightarrow> data fs' i = data fs i)"

lemma same_at_refl [simp]: "same_at fs fs nm"
  by (simp add: same_at_def)

lemma same_at_read: "same_at fs fs' nm \<Longrightarrow> fs_read nm fs' = fs_read nm fs"
  by (cases "link fs nm") (simp_all add: same_at_def fs_read_def)

lemma fs_okD:
  assumes "fs_ok fs" and "link fs a = Some i"
  shows "link fs b = Some i \<Longrightarrow> b = a" "i < nextIno fs"
  using assms by (auto simp: fs_ok_def)

lemma fs_create_law:
  assumes "fs_ok fs" and "fs_create nm fs = (fs', i)"
  shows "fs_ok fs'" "link fs' nm = Some i" "data fs' i = []" "nm' \<noteq> nm \<Longrightarrow> same_at fs fs' nm'"
proof -
  have "fs_ok fs' \<and> link fs' nm = Some i \<and> data fs' i = [] \<and> (nm' \<noteq> nm \<longrightarrow> same_at fs fs' nm')"
  proof (cases "link fs nm")
    case None
    then have fs': "link fs' = (link fs)(nm \<mapsto> i)" "data fs' = (data fs)(i := [])" "nextIno fs' = Suc i" "i = nextIno fs"
      using assms(2) by (auto simp: fs_create_def)
    have "q \<noteq> nextIno fs" if "link fs a = Some q" for a q using fs_okD(2) [OF assms(1) that] by simp
    moreover have "q < Suc (nextIno fs)" if "link fs a = Some q" for a q using fs_okD(2) [OF assms(1) that] by simp
    ultimately show ?thesis using assms(1) by (auto simp: fs' fs_ok_def same_at_def)
  next
    case (Some q)
    then have fs': "link fs' = link fs" "data fs' = (data fs)(i := [])" "nextIno fs' = nextIno fs" "i = q"
      using assms(2) by (auto simp: fs_create_def)
    moreover have "p \<noteq> q" if "link fs nm' = Some p" "nm' \<noteq> nm" for p using that fs_okD(1) [OF assms(1) Some] by blast
    ultimately show ?thesis using assms(1) Some by (auto simp: fs_ok_def same_at_def)
  qed
  then show "fs_ok fs'" "link fs' nm = Some i" "data fs' i = []" "nm' \<noteq> nm \<Longrightarrow> same_at fs fs' nm'" by simp_all
qed

lemma putAt_end: "putAt (length xs) r xs = xs @ [Some r]"
  by (simp add: putAt_def list_update_append)

lemma fs_write_law:
  assumes "fs_ok fs" and "link fs nm = Some i"
  shows "fs_ok (fs_write i k r fs)" "link (fs_write i k r fs) = link fs"
    "nm' \<noteq> nm \<Longrightarrow> same_at fs (fs_write i k r fs) nm'"
    "k = length (data fs i) \<Longrightarrow> data (fs_write i k r fs) i = data fs i @ [Some r]"
proof -
  have "p \<noteq> i" if "link fs nm' = Some p" "nm' \<noteq> nm" for p using that fs_okD(1) [OF assms] by blast
  then show "nm' \<noteq> nm \<Longrightarrow> same_at fs (fs_write i k r fs) nm'" by (simp add: fs_write_def same_at_def)
  show "fs_ok (fs_write i k r fs)" using assms(1) by (simp add: fs_write_def fs_ok_def)
  show "link (fs_write i k r fs) = link fs" by (simp add: fs_write_def)
  show "k = length (data fs i) \<Longrightarrow> data (fs_write i k r fs) i = data fs i @ [Some r]" by (simp add: fs_write_def putAt_end)
qed

lemma fs_rename_law:
  assumes "fs_ok fs" and "fs_rename a b fs = Some fs'" and "a \<noteq> b"
  shows "fs_ok fs'" "fs_read b fs' = fs_read a fs" "nm \<noteq> a \<Longrightarrow> nm \<noteq> b \<Longrightarrow> same_at fs fs' nm"
proof -
  obtain i where i: "link fs a = Some i" "fs' = fs\<lparr>link := (link fs)(a := None, b \<mapsto> i)\<rparr>"
    using assms(2) by (auto simp: fs_rename_def split: option.splits)
  have "p \<noteq> i" if "link fs nm = Some p" "nm \<noteq> a" for p nm using that fs_okD(1) [OF assms(1) i(1)] by blast
  then show "fs_ok fs'" using assms(1,3) i(1) by (auto simp: i(2) fs_ok_def)
  show "fs_read b fs' = fs_read a fs" by (simp add: i fs_read_def)
  show "nm \<noteq> a \<Longrightarrow> nm \<noteq> b \<Longrightarrow> same_at fs fs' nm" by (simp add: i(2) same_at_def)
qed

lemma fs_rename_works: "fs_read a fs = Some d \<Longrightarrow> \<exists>fs'. fs_rename a b fs = Some fs'"
  by (auto simp: fs_rename_def fs_read_def)

lemma decodePairs_pairs: "decodePairs (map (Some \<circ> Pair) kvs) = Some kvs"
  by (induction kvs) simp_all

text \<open>Two workers of one task in one second: the second one empties the file the first one writes.\<close>

lemma same_name_truncates:
  assumes "link fs (TmpInter x b t) = Some i"
  shows "fs_create (TmpInter x b t) fs = (fs\<lparr>data := (data fs)(i := [])\<rparr>, i)"
  using assms by (simp add: fs_create_def)

subsection \<open>The simulation\<close>

fun absW :: "mrwork \<Rightarrow> worker_state" where
  "absW (WriteMap x fn n t hs k) = WorkMap x fn n 0"
| "absW (RenameMap x fn n t k) = WorkMap x fn n k"
| "absW (GlobReduce y t) = WorkReduce y"
| "absW (ReadReduce y t ids acc) = WorkReduce y"
| "absW (WriteOut y t i ls k) = WorkReduce y"
| "absW (RenamedOut y t) = WorkReduced y"

definition files_ok :: "mrfs \<Rightarrow> job \<Rightarrow> bool" where
  \<comment> \<open>the files under their final names are those of the specification\<close>
  "files_ok fs a \<longleftrightarrow> (\<forall>x y. fs_read (Inter x y) fs = map_option (map (Some \<circ> Pair)) (inter a (x, y))) \<and>
     (\<forall>y. fs_read (OutFile y) fs = map_option (map (Some \<circ> Line)) (outs a y))"

fun owned :: "mrname \<Rightarrow> (string \<times> nat \<times> nat) option" where
  "owned (TmpInter x b t) = Some (''map'', x, t)"
| "owned (TmpOut y t) = Some (''reduce'', y, t)"
| "owned _ = None"

fun wfine :: "mapf \<Rightarrow> reducef \<Rightarrow> (string \<Rightarrow> string) \<Rightarrow> string list \<Rightarrow> nat \<Rightarrow> mrfs \<Rightarrow> mrwork \<Rightarrow> bool" where
  \<comment> \<open>what the temporary files of a worker hold\<close>
  "wfine mapf f content files n fs (WriteMap x fn n' t hs k) \<longleftrightarrow> length hs \<le> n' \<and> (length hs < n' \<longrightarrow> k = 0) \<and>
     k \<le> length (mapf fn (content fn)) \<and>
     (\<forall>b < length hs. link fs (TmpInter x b t) = Some (hs ! b) \<and>
        data fs (hs ! b) = map (Some \<circ> Pair) (inBucket n' b (take k (mapf fn (content fn)))))"
| "wfine mapf f content files n fs (RenameMap x fn n' t k) \<longleftrightarrow> (\<forall>b. k \<le> b \<longrightarrow> b < n' \<longrightarrow>
     fs_read (TmpInter x b t) fs = Some (map (Some \<circ> Pair) (inBucket n' b (mapf fn (content fn)))))"
| "wfine mapf f content files n fs (ReadReduce y t ids acc) \<longleftrightarrow> (\<exists>dn. distinct (dn @ ids) \<and> set (dn @ ids) = {..<length files} \<and>
     acc = concat (map (\<lambda>x. bucket mapf content files n x y) dn))"
| "wfine mapf f content files n fs (WriteOut y t i ls k) \<longleftrightarrow> k \<le> length ls \<and> link fs (TmpOut y t) = Some i \<and>
     data fs i = map (Some \<circ> Line) (take k ls) \<and> ls = grouped f (partition_of mapf content files n y)"
| "wfine mapf f content files n fs _ \<longleftrightarrow> True"

lemma wfine_frame:
  assumes "wfine mapf f content files n fs w" and "\<And>nm. owned nm = Some (wkey w) \<Longrightarrow> same_at fs fs' nm"
  shows "wfine mapf f content files n fs' w"
proof (cases w)
  case (WriteMap x fn n' t hs k)
  then have at: "same_at fs fs' (TmpInter x b t)" for b using assms(2) by simp
  have "data fs' (hs ! b) = data fs (hs ! b)" if "b < length hs" for b
    using at [of b] assms(1) that by (simp add: WriteMap same_at_def)
  with at assms(1) show ?thesis by (simp add: WriteMap same_at_def)
next
  case (RenameMap x fn n' t k)
  then have "same_at fs fs' (TmpInter x b t)" for b using assms(2) by simp
  then have "fs_read (TmpInter x b t) fs' = fs_read (TmpInter x b t) fs" for b by (rule same_at_read)
  with assms(1) show ?thesis by (simp add: RenameMap)
next
  case (WriteOut y t i ls k)
  then have "same_at fs fs' (TmpOut y t)" using assms(2) by simp
  with assms(1) show ?thesis by (auto simp: WriteOut same_at_def)
qed (use assms(1) in simp_all)

definition sim :: "mapf \<Rightarrow> reducef \<Rightarrow> (string \<Rightarrow> string) \<Rightarrow> string list \<Rightarrow> nat \<Rightarrow> mrjob \<Rightarrow> job \<Rightarrow> bool" where
  "sim mapf f content files n j a \<longleftrightarrow> job_inv mapf f content files n a \<and> coord a = jCoord j \<and>
     mset (work a) = mset (map absW (jWork j)) \<and> fs_ok (jFs j) \<and> files_ok (jFs j) a \<and>
     (\<forall>w \<in> set (jWork j). wfine mapf f content files n (jFs j) w \<and> wkey w \<in> jUsed j) \<and> distinct (map wkey (jWork j))"

lemma simD:
  assumes "sim mapf f content files n j a"
  shows "job_inv mapf f content files n a" "coord a = jCoord j" "mset (work a) = mset (map absW (jWork j))"
    "fs_ok (jFs j)" "files_ok (jFs j) a" "\<And>w. w \<in> set (jWork j) \<Longrightarrow> wfine mapf f content files n (jFs j) w"
    "\<And>w. w \<in> set (jWork j) \<Longrightarrow> wkey w \<in> jUsed j" "distinct (map wkey (jWork j))"
  using assms by (auto simp: sim_def)

lemma sim_worker:
  assumes "sim mapf f content files n j a" and "w \<in> set (jWork j)"
  shows "absW w \<in> set (work a)" "work_ok mapf f content files n a (absW w)"
proof -
  show m: "absW w \<in> set (work a)" using simD(3) [OF assms(1)] assms(2) by (metis image_eqI list.set_map set_mset_mset)
  show "work_ok mapf f content files n a (absW w)" by (rule job_invD(7) [OF simD(1) [OF assms(1)] m])
qed

lemma remove1_map_mset: "w \<in> set xs \<Longrightarrow> mset (map g (remove1 w xs)) = mset (map g xs) - {#g w#}"
  by (simp add: image_mset_Diff)

lemma keys_remove1:
  assumes "distinct (map wkey xs)" and "w \<in> set xs"
  shows "distinct (map wkey (remove1 w xs))" "v \<in> set (remove1 w xs) \<Longrightarrow> wkey v \<noteq> wkey w"
proof -
  have d: "distinct xs" using assms(1) by (simp add: distinct_map)
  have "inj_on wkey (set xs)" using assms(1) by (simp add: distinct_map)
  then show "distinct (map wkey (remove1 w xs))" using d by (simp add: distinct_map inj_on_subset set_remove1_subset)
  show "wkey v \<noteq> wkey w" if "v \<in> set (remove1 w xs)"
    using that d \<open>inj_on wkey (set xs)\<close> assms(2) by (auto simp: inj_on_def)
qed

text \<open>
  The general step of a worker: it changes its own temporary files and files under their final
  names, and the specification follows.
\<close>

lemma sim_step:
  assumes s: "sim mapf f content files n j a" and w: "w \<in> set (jWork j)"
    and ws: "ws = [] \<or> (\<exists>w'. ws = [w'] \<and> wkey w' = wkey w \<and> wfine mapf f content files n fs' w')"
    and fs: "fs_ok fs'" "\<And>nm k. owned nm = Some k \<Longrightarrow> k \<noteq> wkey w \<Longrightarrow> same_at (jFs j) fs' nm"
    and a: "job_inv mapf f content files n a'" "coord a' = c'" "files_ok fs' a'"
      "mset (work a') = mset (map absW ws) + (mset (work a) - {#absW w#})"
  shows "sim mapf f content files n (nextWork w ws (j\<lparr>jCoord := c', jFs := fs'\<rparr>)) a'"
proof -
  note d = simD [OF s] and k = keys_remove1 [OF simD(8) [OF s] w]
  have rest: "wfine mapf f content files n fs' v \<and> wkey v \<in> jUsed j" if v: "v \<in> set (remove1 w (jWork j))" for v
  proof -
    have "v \<in> set (jWork j)" using v notin_set_remove1 by fastforce
    then show ?thesis using d(6,7) wfine_frame [OF d(6) [of v]] fs(2) k(2) [OF v] by blast
  qed
  have new: "\<forall>v \<in> set ws. wfine mapf f content files n fs' v \<and> wkey v \<in> jUsed j" using ws d(7) [OF w] by auto
  have "distinct (map wkey (ws @ remove1 w (jWork j)))" using ws k by auto
  moreover have "mset (work a') = mset (map absW (ws @ remove1 w (jWork j)))"
    using a(4) d(3) remove1_map_mset [OF w, of absW] by simp
  ultimately show ?thesis using a(1-3) fs(1) rest new unfolding sim_def nextWork_def by auto
qed

lemma stutter:
  assumes s: "sim mapf f content files n j a" and w: "w \<in> set (jWork j)"
    and w': "wkey w' = wkey w" "absW w' = absW w" "wfine mapf f content files n fs' w'"
    and fs: "fs_ok fs'" "\<And>nm. owned nm \<noteq> Some (wkey w) \<Longrightarrow> same_at (jFs j) fs' nm"
  shows "sim mapf f content files n (nextWork w [w'] (j\<lparr>jFs := fs'\<rparr>)) a"
proof -
  note d = simD [OF s]
  have same: "fs_read nm fs' = fs_read nm (jFs j)" if "owned nm = None" for nm
    using that by (intro same_at_read fs(2)) simp
  have files: "files_ok fs' a" using d(5) same by (simp add: files_ok_def)
  have "mset (work a) = mset (map absW [w']) + (mset (work a) - {#absW w#})"
    using sim_worker(1) [OF s w] w'(2) by simp
  from sim_step [OF s w _ fs(1) _ d(1,2) files this] w' fs(2)
  have "sim mapf f content files n (nextWork w [w'] (j\<lparr>jCoord := jCoord j, jFs := fs'\<rparr>)) a" by auto
  then show ?thesis by simp
qed

lemma stutter_same:
  assumes "sim mapf f content files n j a" and "w \<in> set (jWork j)"
    and "wkey w' = wkey w" "absW w' = absW w" "wfine mapf f content files n (jFs j) w'"
  shows "sim mapf f content files n (nextWork w [w'] j) a"
  using stutter [OF assms simD(4) [OF assms(1)]] by simp

lemma swapWork_mset: "mset (work (swapWork w ws j)) = mset ws + (mset (work j) - {#w#})"
  by (simp add: swapWork_def)

lemma inBucket_step:
  "k < length kvs \<Longrightarrow> inBucket n b (take (Suc k) kvs) = inBucket n b (take k kvs) @ (if bucketOf n (kvs ! k) = b then [kvs ! k] else [])"
  by (simp add: inBucket_def take_Suc_conv_app_nth)

lemma sim_create:
  assumes s: "sim mapf f content files n j a" and w: "WriteMap x fn n' t hs 0 \<in> set (jWork j)" and "length hs < n'"
    and c: "fs_create (TmpInter x (length hs) t) (jFs j) = (fs', i)"
  shows "sim mapf f content files n (nextWork (WriteMap x fn n' t hs 0) [WriteMap x fn n' t (hs @ [i]) 0] (j\<lparr>jFs := fs'\<rparr>)) a"
proof (rule stutter [OF s w])
  note d = simD [OF s] and law = fs_create_law [OF simD(4) [OF s] c]
  show "fs_ok fs'" by (rule law)
  show "same_at (jFs j) fs' nm" if "owned nm \<noteq> Some (wkey (WriteMap x fn n' t hs 0))" for nm
    by (rule law) (use that in auto)
  have "same_at (jFs j) fs' (TmpInter x b t)" if "b < length hs" for b by (rule law) (use that in simp)
  then show "wfine mapf f content files n fs' (WriteMap x fn n' t (hs @ [i]) 0)"
    using d(6) [OF w] assms(3) law(2,3) by (auto simp: nth_append less_Suc_eq same_at_def inBucket_def)
qed simp_all

lemma sim_write:
  assumes s: "sim mapf f content files n j a" and w: "WriteMap x fn n' t hs k \<in> set (jWork j)" and "length hs = n'" "0 < n'"
    and kvs: "kvs = mapf fn (content fn)" "k < length kvs" "b = bucketOf n' (kvs ! k)"
  shows "sim mapf f content files n (nextWork (WriteMap x fn n' t hs k) [WriteMap x fn n' t hs (Suc k)]
      (j\<lparr>jFs := fs_write (hs ! b) (length (inBucket n' b (take k kvs))) (Pair (kvs ! k)) (jFs j)\<rparr>)) a"
    (is "sim _ _ _ _ _ (nextWork _ _ (j\<lparr>jFs := ?fs\<rparr>)) a")
proof (rule stutter [OF s w])
  note d = simD [OF s]
  have b: "b < length hs" using assms(3,4) kvs(3) by (simp add: bucketOf_def)
  have wf: "\<forall>q < length hs. link (jFs j) (TmpInter x q t) = Some (hs ! q) \<and>
      data (jFs j) (hs ! q) = map (Some \<circ> Pair) (inBucket n' q (take k kvs))"
    using d(6) [OF w] by (simp add: kvs(1))
  then have lk: "link (jFs j) (TmpInter x b t) = Some (hs ! b)" using b by simp
  note law = fs_write_law [OF d(4) lk]
  show "fs_ok ?fs" by (rule law)
  show "same_at (jFs j) ?fs nm" if "owned nm \<noteq> Some (wkey (WriteMap x fn n' t hs k))" for nm
    by (rule law) (use that in auto)
  have "data ?fs (hs ! q) = map (Some \<circ> Pair) (inBucket n' q (take (Suc k) kvs))" if "q < length hs" for q
  proof (cases "q = b")
    case True
    have "data ?fs (hs ! b) = data (jFs j) (hs ! b) @ [Some (Pair (kvs ! k))]" by (rule law(4)) (use wf b in simp)
    then show ?thesis using True wf b kvs(2,3) by (simp add: inBucket_step)
  next
    case False
    then have "same_at (jFs j) ?fs (TmpInter x q t)" by (intro law) simp
    then show ?thesis using wf that False kvs(2,3) by (simp add: same_at_def inBucket_step)
  qed
  then show "wfine mapf f content files n ?fs (WriteMap x fn n' t hs (Suc k))"
    using assms(3) kvs(1,2) wf by (simp add: law(2))
qed simp_all

lemma sim_written:
  assumes s: "sim mapf f content files n j a" and w: "WriteMap x fn n' t hs k \<in> set (jWork j)" and "length hs = n'"
    and "k = length (mapf fn (content fn))"
  shows "sim mapf f content files n (nextWork (WriteMap x fn n' t hs k) [RenameMap x fn n' t 0] j) a"
  by (rule stutter_same [OF s w]) (use simD(6) [OF s w] assms(3,4) in \<open>auto simp: fs_read_def\<close>)

lemma sim_rename:
  assumes s: "sim mapf f content files n j a" and w: "RenameMap x fn n' t k \<in> set (jWork j)" and k: "k < n'"
    and rn: "fs_rename (TmpInter x k t) (Inter x k) (jFs j) = Some fs'" and srt: "key_sorting srt" "order_free f"
  shows "\<exists>a'. spec_step mapf f srt content a a' \<and>
    sim mapf f content files n (nextWork (RenameMap x fn n' t k) [RenameMap x fn n' t (Suc k)] (j\<lparr>jFs := fs'\<rparr>)) a'"
proof -
  note d = simD [OF s] and law = fs_rename_law [OF simD(4) [OF s] rn mrname.distinct(1)]
  let ?kvs = "mapf fn (content fn)"
  let ?bs = "map (\<lambda>i. filter (\<lambda>kv. ihash (Key kv) mod n' = i) ?kvs) [0..<n']"
  have mt: "mapTask mapf n' fn (content fn) = Inr ?bs" using writeBuckets_eq [of n' ?kvs] k by (simp add: mapTask_def)
  let ?a = "swapWork (WorkMap x fn n' k) [WorkMap x fn n' (Suc k)] (a\<lparr>inter := (inter a)((x, k) \<mapsto> ?bs ! k)\<rparr>)"
  have step: "spec_step mapf f srt content a ?a"
    by (rule spec_step.work_rename) (use sim_worker(1) [OF s w] k mt in simp_all)
  have wf: "fs_read (TmpInter x b t) (jFs j) = Some (map (Some \<circ> Pair) (inBucket n' b ?kvs))" if "k \<le> b" "b < n'" for b
    using d(6) [OF w] that by simp
  have other: "same_at (jFs j) fs' nm" if "nm \<noteq> TmpInter x k t" "nm \<noteq> Inter x k" for nm by (rule law) (use that in simp_all)
  have "fs_read (Inter p q) fs' = (if p = x \<and> q = k then Some (map (Some \<circ> Pair) (inBucket n' k ?kvs)) else fs_read (Inter p q) (jFs j))" for p q
    using law(2) wf [of k] k same_at_read [OF other, of "Inter p q"] by auto
  moreover have "fs_read (OutFile q) fs' = fs_read (OutFile q) (jFs j)" for q using same_at_read [OF other] by simp
  ultimately have files: "files_ok fs' ?a" using d(5) k by (auto simp: files_ok_def inBucket_def bucketOf_def)
  have inv: "job_inv mapf f content files n ?a" by (rule spec_step_inv [OF step srt d(1)])
  have wf': "wfine mapf f content files n fs' (RenameMap x fn n' t (Suc k))"
    using wf same_at_read [OF other] by (simp add: less_eq_Suc_le [symmetric])
  have "sim mapf f content files n (nextWork (RenameMap x fn n' t k) [RenameMap x fn n' t (Suc k)] (j\<lparr>jCoord := jCoord j, jFs := fs'\<rparr>)) ?a"
  proof (rule sim_step [OF s w _ law(1) _ inv _ files])
    show "same_at (jFs j) fs' nm" if "owned nm = Some q" "q \<noteq> wkey (RenameMap x fn n' t k)" for nm q
      by (rule other) (use that in auto)
  qed (use wf' d(2) in \<open>simp_all add: swapWork_mset\<close>)
  with step show ?thesis by auto
qed

text \<open>A reduce task is handed out when every map task is done, so all intermediate files are there and complete.\<close>

lemma reduce_inputs:
  assumes s: "sim mapf f content files n j a" and w: "w \<in> set (jWork j)" and r: "absW w = WorkReduce y"
  shows "y < n" "x < length files \<Longrightarrow> inter a (x, y) = Some (bucket mapf content files n x y)"
    "link (jFs j) (Inter x y) \<noteq> None \<longleftrightarrow> x < length files"
    "x < length files \<Longrightarrow> Option.bind (fs_read (Inter x y) (jFs j)) decodePairs = Some (bucket mapf content files n x y)"
proof -
  note d = simD [OF s] and i = job_invD [OF simD(1) [OF s]]
  show y: "y < n" and full: "x < length files \<Longrightarrow> inter a (x, y) = Some (bucket mapf content files n x y)" for x
    using sim_worker(2) [OF s w] r i(8) [of x y] by (auto simp: work_ok_def)
  have rd: "fs_read (Inter x y) (jFs j) = map_option (map (Some \<circ> Pair)) (inter a (x, y))" using d(5) by (simp add: files_ok_def)
  have "link (jFs j) (Inter x y) \<noteq> None \<longleftrightarrow> inter a (x, y) \<noteq> None"
    using rd by (cases "link (jFs j) (Inter x y)"; cases "inter a (x, y)") (simp_all add: fs_read_def)
  then show "link (jFs j) (Inter x y) \<noteq> None \<longleftrightarrow> x < length files" using full [of x] i(6) [of x y] by auto
  show "x < length files \<Longrightarrow> Option.bind (fs_read (Inter x y) (jFs j)) decodePairs = Some (bucket mapf content files n x y)"
    using rd full [of x] by (simp add: decodePairs_pairs)
qed

lemma sim_glob:
  assumes s: "sim mapf f content files n j a" and w: "GlobReduce y t \<in> set (jWork j)"
    and ids: "distinct ids" "set ids = {x. link (jFs j) (Inter x y) \<noteq> None}"
  shows "sim mapf f content files n (nextWork (GlobReduce y t) [ReadReduce y t ids []] j) a"
proof (rule stutter_same [OF s w])
  have "set ids = {..<length files}"
    unfolding ids(2) lessThan_def by (simp only: reduce_inputs(3) [OF s w absW.simps(3)])
  then show "wfine mapf f content files n (jFs j) (ReadReduce y t ids [])"
    unfolding wfine.simps using ids(1) by (intro exI [of _ "[]"]) simp
qed simp_all

lemma sim_read:
  assumes s: "sim mapf f content files n j a" and w: "ReadReduce y t (x # ids) acc \<in> set (jWork j)"
    and rd: "Option.bind (fs_read (Inter x y) (jFs j)) decodePairs = Some kvs"
  shows "sim mapf f content files n (nextWork (ReadReduce y t (x # ids) acc) [ReadReduce y t ids (acc @ kvs)] j) a"
proof (rule stutter_same [OF s w])
  from simD(6) [OF s w] obtain dn where dn: "distinct (dn @ x # ids)" "set (dn @ x # ids) = {..<length files}"
      "acc = concat (map (\<lambda>x. bucket mapf content files n x y) dn)" unfolding wfine.simps by blast
  have "x < length files" using dn(2) by auto
  then have "kvs = bucket mapf content files n x y" using reduce_inputs(4) [OF s w absW.simps(4)] rd by simp
  then show "wfine mapf f content files n (jFs j) (ReadReduce y t ids (acc @ kvs))"
    unfolding wfine.simps using dn by (intro exI [of _ "dn @ [x]"]) simp
qed simp_all

lemma sim_out_create:
  assumes s: "sim mapf f content files n j a" and w: "ReadReduce y t [] acc \<in> set (jWork j)"
    and c: "fs_create (TmpOut y t) (jFs j) = (fs', i)" and srt: "key_sorting srt" "order_free f"
  shows "sim mapf f content files n (nextWork (ReadReduce y t [] acc) [WriteOut y t i (reduceLoop f (srt acc)) 0] (j\<lparr>jFs := fs'\<rparr>)) a"
proof (rule stutter [OF s w])
  note law = fs_create_law [OF simD(4) [OF s] c]
  show "fs_ok fs'" by (rule law)
  show "same_at (jFs j) fs' nm" if "owned nm \<noteq> Some (wkey (ReadReduce y t [] acc))" for nm
    by (rule law) (use that in auto)
  from simD(6) [OF s w] obtain dn where dn: "distinct dn" "set dn = {..<length files}"
      "acc = concat (map (\<lambda>x. bucket mapf content files n x y) dn)" by auto
  have "mset dn = mset [0..<length files]"
    by (rule distinct_set_mset [OF dn(1)]) (simp_all add: dn(2) atLeast0LessThan)
  from mset_concat_map [OF this] have "mset acc = mset (partition_of mapf content files n y)"
    unfolding dn(3) partition_of_def .
  then have "reduceLoop f (srt acc) = grouped f (partition_of mapf content files n y)"
    using reduce_sorted [OF srt] grouped_cong [OF srt(2)] by metis
  then show "wfine mapf f content files n fs' (WriteOut y t i (reduceLoop f (srt acc)) 0)" using law(2,3) by simp
qed simp_all

lemma sim_out_write:
  assumes s: "sim mapf f content files n j a" and w: "WriteOut y t i ls k \<in> set (jWork j)" and "k < length ls"
  shows "sim mapf f content files n (nextWork (WriteOut y t i ls k) [WriteOut y t i ls (Suc k)]
    (j\<lparr>jFs := fs_write i k (Line (ls ! k)) (jFs j)\<rparr>)) a" (is "sim _ _ _ _ _ (nextWork _ _ (j\<lparr>jFs := ?fs\<rparr>)) a")
proof (rule stutter [OF s w])
  have wf: "link (jFs j) (TmpOut y t) = Some i" "data (jFs j) i = map (Some \<circ> Line) (take k ls)"
      "ls = grouped f (partition_of mapf content files n y)"
    using simD(6) [OF s w] by simp_all
  note law = fs_write_law [OF simD(4) [OF s] wf(1)]
  show "fs_ok ?fs" by (rule law)
  show "same_at (jFs j) ?fs nm" if "owned nm \<noteq> Some (wkey (WriteOut y t i ls k))" for nm
    by (rule law) (use that in auto)
  have "data ?fs i = data (jFs j) i @ [Some (Line (ls ! k))]" by (rule law(4)) (use wf(2) assms(3) in simp)
  then show "wfine mapf f content files n ?fs (WriteOut y t i ls (Suc k))"
    using assms(3) wf by (simp add: law(2) take_Suc_conv_app_nth)
qed simp_all

lemma sim_out_rename:
  assumes s: "sim mapf f content files n j a" and w: "WriteOut y t i ls (length ls) \<in> set (jWork j)"
    and rn: "fs_rename (TmpOut y t) (OutFile y) (jFs j) = Some fs'" and srt: "key_sorting srt" "order_free f"
  shows "\<exists>a'. spec_step mapf f srt content a a' \<and>
    sim mapf f content files n (nextWork (WriteOut y t i ls (length ls)) [RenamedOut y t] (j\<lparr>jFs := fs'\<rparr>)) a'"
proof -
  note d = simD [OF s] and ins = reduce_inputs [OF s w absW.simps(5)]
  have law: "fs_ok fs'" "fs_read (OutFile y) fs' = fs_read (TmpOut y t) (jFs j)"
      "\<And>nm. nm \<noteq> TmpOut y t \<Longrightarrow> nm \<noteq> OutFile y \<Longrightarrow> same_at (jFs j) fs' nm"
    using fs_rename_law [OF d(4) rn] by simp_all
  have "inter a (x, y) \<noteq> None \<longleftrightarrow> x < length files" for x
    using ins(2) [of x] job_invD(6) [OF d(1), of x y] by auto
  then have ids: "distinct [0..<length files]" "set [0..<length files] = {x. inter a (x, y) \<noteq> None}"
    by (simp_all add: atLeast0LessThan lessThan_def)
  let ?out = "reduceTask srt f (map (\<lambda>x. the (inter a (x, y))) [0..<length files])"
  let ?a = "swapWork (WorkReduce y) [WorkReduced y] (a\<lparr>outs := (outs a)(y \<mapsto> ?out)\<rparr>)"
  have step: "spec_step mapf f srt content a ?a"
    by (rule spec_step.work_reduce [OF _ ids]) (use sim_worker(1) [OF s w] in simp)
  have inv: "job_inv mapf f content files n ?a" by (rule spec_step_inv [OF step srt d(1)])
  have "WorkReduced y \<in> set (work ?a)" by (simp add: swapWork_def)
  from job_invD(7) [OF inv this] have out: "?out = grouped f (partition_of mapf content files n y)"
    by (simp add: work_ok_def)
  have rd: "fs_read (OutFile y) fs' = Some (map (Some \<circ> Line) ?out)"
    using law(2) d(6) [OF w] by (simp add: out fs_read_def)
  have "fs_read (OutFile q) fs' = fs_read (OutFile q) (jFs j)" if "q \<noteq> y" for q by (intro same_at_read law(3)) (use that in simp_all)
  moreover have "fs_read (Inter p q) fs' = fs_read (Inter p q) (jFs j)" for p q by (intro same_at_read law(3)) simp_all
  ultimately have files: "files_ok fs' ?a" using d(5) rd by (simp add: files_ok_def)
  have "sim mapf f content files n (nextWork (WriteOut y t i ls (length ls)) [RenamedOut y t] (j\<lparr>jCoord := jCoord j, jFs := fs'\<rparr>)) ?a"
  proof (rule sim_step [OF s w _ law(1) _ inv _ files])
    show "same_at (jFs j) fs' nm" if "owned nm = Some q" "q \<noteq> wkey (WriteOut y t i ls (length ls))" for nm q
      by (rule law(3)) (use that in auto)
  qed (use d(2) in \<open>simp_all add: swapWork_mset\<close>)
  with step show ?thesis by auto
qed

text \<open>Steps that leave the files alone.\<close>

lemma sim_gone:
  assumes s: "sim mapf f content files n j a" and w: "w \<in> set (jWork j)"
    and step: "spec_step mapf f srt content a (swapWork (absW w) [] (a\<lparr>coord := c'\<rparr>))" and srt: "key_sorting srt" "order_free f"
  shows "\<exists>a'. spec_step mapf f srt content a a' \<and> sim mapf f content files n (nextWork w [] (j\<lparr>jCoord := c'\<rparr>)) a'"
proof -
  note d = simD [OF s]
  have inv: "job_inv mapf f content files n (swapWork (absW w) [] (a\<lparr>coord := c'\<rparr>))" by (rule spec_step_inv [OF step srt d(1)])
  have files: "files_ok (jFs j) (swapWork (absW w) [] (a\<lparr>coord := c'\<rparr>))" using d(5) by (simp add: files_ok_def)
  have "sim mapf f content files n (nextWork w [] (j\<lparr>jCoord := c', jFs := jFs j\<rparr>)) (swapWork (absW w) [] (a\<lparr>coord := c'\<rparr>))"
    by (rule sim_step [OF s w _ d(4) _ inv _ files]) (simp_all add: swapWork_mset)
  with step show ?thesis by auto
qed

lemma sim_coord:
  assumes s: "sim mapf f content files n j a" and step: "spec_step mapf f srt content a (a\<lparr>coord := c'\<rparr>)"
    and srt: "key_sorting srt" "order_free f"
  shows "sim mapf f content files n (j\<lparr>jCoord := c'\<rparr>) (a\<lparr>coord := c'\<rparr>)"
  using s spec_step_inv [OF step srt simD(1) [OF s]] by (simp add: sim_def files_ok_def)

lemma sim_get:
  assumes s: "sim mapf f content files n j a" and g: "GetTask (jCoord j) = (c', r)" and srt: "key_sorting srt" "order_free f"
    and "\<not> jClash (beginWork (accepted t r) (j\<lparr>jCoord := c'\<rparr>))"
  shows "\<exists>a'. spec_step mapf f srt content a a' \<and> sim mapf f content files n (beginWork (accepted t r) (j\<lparr>jCoord := c'\<rparr>)) a'"
proof -
  note d = simD [OF s]
  let ?a = "a\<lparr>coord := c', work := spec_accepted r @ work a\<rparr>"
  have step: "spec_step mapf f srt content a ?a" by (rule spec_step.work_get) (use g d(2) in simp)
  have inv: "job_inv mapf f content files n ?a" by (rule spec_step_inv [OF step srt d(1)])
  have ab: "map absW (accepted t r) = spec_accepted r" by (simp add: accepted_def spec_accepted_def)
  have new: "\<forall>w \<in> set (accepted t r). wfine mapf f content files n (jFs j) w" "distinct (map wkey (accepted t r))"
    by (auto simp: accepted_def)
  have "wkey ` set (accepted t r) \<inter> jUsed j = {}" using assms(5) by (simp add: beginWork_def)
  moreover have "wkey ` set (jWork j) \<subseteq> jUsed j" using d(7) by (auto simp only: image_subset_iff)
  ultimately have "wkey ` set (accepted t r) \<inter> wkey ` set (jWork j) = {}" by auto
  then have dist: "distinct (map wkey (accepted t r @ jWork j))" using new(2) d(8) by simp
  have "mset (work ?a) = mset (map absW (accepted t r @ jWork j))" using d(3) by (simp add: ab [symmetric])
  moreover have "files_ok (jFs j) ?a" using d(5) by (simp add: files_ok_def)
  moreover have "wfine mapf f content files n (jFs j) w \<and> wkey w \<in> wkey ` set (accepted t r) \<union> jUsed j"
    if "w \<in> set (accepted t r @ jWork j)" for w
    using that new(1) d(6) [of w] d(7) [of w] by (cases "w \<in> set (jWork j)") simp_all
  ultimately have "sim mapf f content files n (beginWork (accepted t r) (j\<lparr>jCoord := c'\<rparr>)) ?a"
    using inv d(4) dist by (simp add: sim_def beginWork_def)
  with step show ?thesis by blast
qed

lemma job_step_simulates:
  assumes "job_step mapf f srt content j j'" and s: "sim mapf f content files n j a" and srt: "key_sorting srt" "order_free f" and "\<not> jClash j'"
  shows "\<exists>a'. (spec_step mapf f srt content)\<^sup>*\<^sup>* a a' \<and> sim mapf f content files n j' a'"
  using assms(1)
proof (cases rule: job_step.cases)
  case (work_get c' r t)
  then show ?thesis using sim_get [OF s work_get(2) srt, of t] assms(5) by blast
next
  case (map_create w x fn n t hs fs' i)
  then show ?thesis using sim_create [OF s] by blast
next
  case (map_write w x fn n t hs k kvs b)
  then show ?thesis using sim_write [OF s] by blast
next
  case (map_written w x fn n t hs k)
  then show ?thesis using sim_written [OF s] by blast
next
  case (map_rename w x fn n t k fs')
  then show ?thesis using sim_rename [OF s _ _ _ srt] by blast
next
  case (map_finish w x fn n t c')
  have "absW w \<in> set (work a)" using sim_worker(1) [OF s map_finish(3)] .
  then have "spec_step mapf f srt content a (swapWork (absW w) [] (a\<lparr>coord := c'\<rparr>))"
    using spec_step.work_map_finish [of x fn n a c'] map_finish simD(2) [OF s] by simp
  from sim_gone [OF s map_finish(3) this srt] map_finish(1) show ?thesis by blast
next
  case (reduce_glob w y t ids)
  then show ?thesis using sim_glob [OF s] by blast
next
  case (reduce_read w y t x ids acc kvs)
  then show ?thesis using sim_read [OF s] by blast
next
  case (reduce_create w y t acc fs' i)
  then show ?thesis using sim_out_create [OF s _ _ srt] by blast
next
  case (reduce_write w y t i ls k)
  then show ?thesis using sim_out_write [OF s] by blast
next
  case (reduce_rename w y t i ls k fs')
  then show ?thesis using sim_out_rename [OF s _ _ srt] by blast
next
  case (reduce_finish w y t c')
  have "absW w \<in> set (work a)" using sim_worker(1) [OF s reduce_finish(3)] .
  then have "spec_step mapf f srt content a (swapWork (absW w) [] (a\<lparr>coord := c'\<rparr>))"
    using spec_step.work_reduce_finish [of y a c'] reduce_finish simD(2) [OF s] by simp
  from sim_gone [OF s reduce_finish(3) this srt] reduce_finish(1) show ?thesis by blast
next
  case (work_dies w)
  have "spec_step mapf f srt content a (swapWork (absW w) [] a)"
    by (rule spec_step.work_crash) (rule sim_worker(1) [OF s work_dies(2)])
  moreover have "a\<lparr>coord := jCoord j\<rparr> = a" using simD(2) [OF s] by (cases a) simp
  ultimately have "spec_step mapf f srt content a (swapWork (absW w) [] (a\<lparr>coord := jCoord j\<rparr>))" by simp
  from sim_gone [OF s work_dies(2) this srt] work_dies(1) show ?thesis by auto
next
  case (work_timeout m c')
  have "spec_step mapf f srt content a (a\<lparr>coord := endMonitor m c'\<rparr>)"
    by (rule spec_step.work_timeout) (use work_timeout simD(2) [OF s] in simp_all)
  then show ?thesis using sim_coord [OF s _ srt] work_timeout(1) by blast
next
  case (work_cancel m k)
  have "spec_step mapf f srt content a (a\<lparr>coord := endMonitor m (coord a)\<rparr>)"
    by (rule spec_step.work_cancel) (use work_cancel simD(2) [OF s] in simp_all)
  then show ?thesis using sim_coord [OF s _ srt] work_cancel(1) simD(2) [OF s] by auto
qed

lemma clash_stays: "job_step mapf f srt content j j' \<Longrightarrow> jClash j \<Longrightarrow> jClash j'"
  by (cases rule: job_step.cases) (auto simp: beginWork_def nextWork_def)

text \<open>
  The simulation as an instance of the locale: a state is related to one of the specification, or a
  stamp has been used twice.
\<close>

definition related :: "mapf \<Rightarrow> reducef \<Rightarrow> (KeyValue list \<Rightarrow> KeyValue list) \<Rightarrow> (string \<Rightarrow> string) \<Rightarrow> string list \<Rightarrow> nat \<Rightarrow> mrjob \<Rightarrow> job \<Rightarrow> bool" where
  "related mapf f srt content files n j a \<longleftrightarrow> key_sorting srt \<and> order_free f \<longrightarrow> jClash j \<or> sim mapf f content files n j a"

interpretation mrfiles: forward_simulation "job_step mapf f srt content" "spec_step mapf f srt content" "related mapf f srt content files n"
  for mapf f srt content files n
proof unfold_locales
  fix j a j' assume "related mapf f srt content files n j a" "job_step mapf f srt content j j'"
  then show "\<exists>a'. (spec_step mapf f srt content)\<^sup>*\<^sup>* a a' \<and> related mapf f srt content files n j' a'"
    using clash_stays job_step_simulates unfolding related_def by (metis rtranclp.rtrancl_refl)
qed

lemma init_sim: "sim mapf f content files n (init_job files n) (spec_init files n)"
  using spec_init_inv [of mapf f content files n]
  by (simp add: sim_def init_job_def spec_init_def fs_ok_def files_ok_def fs_read_def)

lemma job_run_sim:
  assumes "(job_step mapf f srt content)\<^sup>*\<^sup>* (init_job files n) j" and "key_sorting srt" "order_free f" and "\<not> jClash j"
  shows "\<exists>a. (spec_step mapf f srt content)\<^sup>*\<^sup>* (spec_init files n) a \<and> sim mapf f content files n j a"
proof -
  have "related mapf f srt content files n (init_job files n) (spec_init files n)" by (simp add: related_def init_sim)
  from mrfiles.run_simulated [OF assms(1) this] assms(2-4) show ?thesis by (auto simp: related_def)
qed

definition outFile :: "mrjob \<Rightarrow> nat \<Rightarrow> mrrec option list option" where
  \<comment> \<open>what the output file of a reduce task holds\<close>
  "outFile j y = fs_read (OutFile y) (jFs j)"

lemma done_job_output:
  assumes "(job_step mapf f srt content)\<^sup>*\<^sup>* (init_job files n) j" and "key_sorting srt" and "order_free f"
    and "0 < n" and "\<not> jClash j" and "Done (jCoord j)"
  shows "\<exists>out. (\<forall>y < n. outFile j y = Some (map (Some \<circ> Line) (out y))) \<and>
    mset (concat (map out [0..<n])) = mset (mrsequential srt mapf f (map (\<lambda>fn. (fn, content fn)) files))"
proof -
  obtain a where a: "(spec_step mapf f srt content)\<^sup>*\<^sup>* (spec_init files n) a" "sim mapf f content files n j a"
    using job_run_sim [OF assms(1-3,5)] by blast
  have "Done (coord a)" using simD(2) [OF a(2)] assms(6) by simp
  from spec_done_output [OF a(1) assms(2-4) this] obtain out where
    out: "\<forall>y < n. outs a y = Some (out y)" "mset (concat (map out [0..<n])) = mset (mrsequential srt mapf f (map (\<lambda>fn. (fn, content fn)) files))"
    by blast
  have "outFile j y = map_option (map (Some \<circ> Line)) (outs a y)" for y
    using simD(5) [OF a(2)] by (simp add: outFile_def files_ok_def)
  with out show ?thesis by (intro exI [of _ out]) simp
qed

end
