(* ===== verification/Mr_Progress.thy ===== *)
theory Mr_Progress
  imports Mr_Files
begin

text \<open>
  A MapReduce job that is done, and that it can always be done: no crash leaves a job in a state from
  which it cannot be finished. The reason is that every running task is watched by a monitor of its
  own, so a task whose worker is gone comes back; this is an invariant of the coordinator, and the
  progress argument goes down on the number of tasks that are not finished. A new worker finds its
  way through all its files because of what the simulation of \<open>Mr_Files\<close> says about them. All of
  this is for jobs in which no task is begun twice in the same second.
\<close>

subsection \<open>Every running task is watched\<close>







subsection \<open>Healthy jobs\<close>












definition pending :: "Coordinator \<Rightarrow> nat" where
  \<comment> \<open>the tasks that are not finished\<close>
  "pending c = nat (int (length (MapTasks c)) - FinishedMapTasks c + (int (length (ReduceTasks c)) - FinishedReduceTasks c))"

lemma pending_Done: "coord_inv c \<Longrightarrow> Done c \<longleftrightarrow> pending c = 0"
  using phase_fin_le [OF coord_invD(1), of c] phase_fin_le [OF coord_invD(2), of c] by (auto simp: Done_def pending_def)


subsection \<open>Taking tasks back\<close>





subsection \<open>A worker goes through its files\<close>













subsection \<open>Finishing the job\<close>









end
