(* ===== verification/Mr_Main.thy ===== *)
theory Mr_Main
  imports Mr_Progress
begin

text \<open>
  The programs of MapReduce: \<open>src/main/mrcoordinator.go\<close>, \<open>src/main/mrworker.go\<close>, \<open>src/main/mrsequential.go\<close>, and how a
  worker reaches the coordinator (\<open>coordinatorSock\<close>, \<open>server\<close> and \<open>Example\<close> of \<open>src/mr\<close>, \<open>call\<close> and \<open>CallExample\<close> of
  \<open>src/mr/worker.go\<close>).

  A command gets its arguments with the name of the program first and either stops with a usage
  message, dies, or does its work (\<open>'a cmd\<close> of the prelude). Plugins are a parameter: what opening a file gives, and
  which symbols it has. A socket in the file system leads to the process that listens on it; the
  result of the listening itself and of a remote call are arguments.
\<close>

subsection \<open>Commands\<close>

datatype symbol = MapSym mapf | ReduceSym reducef | OtherSym









subsection \<open>Reaching the coordinator\<close>

definition coordinatorSock :: "(int \<Rightarrow> string) \<Rightarrow> int \<Rightarrow> string" where
  "coordinatorSock itoa uid = ''/var/tmp/5840-mr-'' @ itoa uid"

definition coordinator_server :: "(int \<Rightarrow> string) \<Rightarrow> int \<Rightarrow> bool \<Rightarrow> 'p \<Rightarrow> (string \<rightharpoonup> 'p) \<Rightarrow> (string \<rightharpoonup> 'p) go" where
  \<comment> \<open>the old socket is removed; \<open>listens\<close> says whether the new one can be made\<close>
  "coordinator_server itoa uid listens me socks =
     (let sockname = coordinatorSock itoa uid; socks1 = socks(sockname := None)
      in if listens then Inr (socks1(sockname \<mapsto> me)) else Inl LogFatal)"

definition call :: "(int \<Rightarrow> string) \<Rightarrow> int \<Rightarrow> (string \<rightharpoonup> 'p) \<Rightarrow> ('p \<Rightarrow> 'r option) \<Rightarrow> 'r \<Rightarrow> (bool \<times> 'r) go" where
  \<comment> \<open>\<open>serve\<close> is what the process at the other end makes of the request, \<open>None\<close> for an error; without a
      listener the worker dies. \<open>reply\<close> is what the caller passed.\<close>
  "call itoa uid socks serve reply = (case socks (coordinatorSock itoa uid) of None \<Rightarrow> Inl LogFatal
     | Some p \<Rightarrow> (case serve p of None \<Rightarrow> Inr (False, reply) | Some r \<Rightarrow> Inr (True, r)))"

record ExampleArgs =
  exX :: int

record ExampleReply =
  exY :: int

definition Example :: "ExampleArgs \<Rightarrow> ExampleReply \<Rightarrow> ExampleReply" where
  "Example args reply = reply\<lparr>exY := exX args + 1\<rparr>"

definition CallExample :: "(int \<Rightarrow> string) \<Rightarrow> int \<Rightarrow> (string \<rightharpoonup> 'p) \<Rightarrow> ('p \<Rightarrow> ExampleArgs \<Rightarrow> ExampleReply option) \<Rightarrow> int option go" where
  \<comment> \<open>what is printed: \<open>reply.Y\<close>, or that the call has failed\<close>
  "CallExample itoa uid socks serve =
     go_bind (call itoa uid socks (\<lambda>p. serve p \<lparr>exX = 99\<rparr>) \<lparr>exY = 0\<rparr>) (\<lambda>(ok, reply).
       Inr (if ok then Some (exY reply) else None))"

text \<open>The latest coordinator of a user has the socket; a worker without a coordinator dies.\<close>

lemma latest_coordinator_called:
  assumes "coordinator_server itoa uid listens me socks = Inr socks'"
  shows "call itoa uid socks' serve reply = (case serve me of None \<Rightarrow> Inr (False, reply) | Some r \<Rightarrow> Inr (True, r))"
    "CallExample itoa uid socks' (\<lambda>p args. Some (Example args \<lparr>exY = 0\<rparr>)) = Inr (Some 100)"
    "coordinatorSock itoa uid' \<noteq> coordinatorSock itoa uid \<Longrightarrow> socks' (coordinatorSock itoa uid') = socks (coordinatorSock itoa uid')"
  using assms by (auto simp: coordinator_server_def call_def CallExample_def Example_def Let_def split: if_splits)

lemma no_coordinator_dies: "socks (coordinatorSock itoa uid) = None \<Longrightarrow> call itoa uid socks serve reply = Inl LogFatal"
  by (simp add: call_def)

subsection \<open>The coordinator program\<close>














end
