(* ===== verification/Mr_Timing.thy ===== *)
theory Mr_Timing
  imports Mr_Worker "HOL-Library.Sublist"
begin

text \<open>
  The MapReduce applications the tests use to watch the workers (\<open>src/mrapps/mtiming.go\<close>, \<open>rtiming.go\<close>,
  \<open>jobcount.go\<close>). Workers see each other through files of the working directory: \<open>nparallel\<close> counts the
  workers that run a task at the same time, and \<open>jobcount\<close> counts how often a map task was run.

  A directory is the list of its names, in the order the file system returns them. A worker is its
  process number. \<open>nparallel\<close> is cut where the directory is touched, so that workers interleave; the
  second that it sleeps has no effect. What signal 0 says for a number that is not positive
  (a process group) is the parameter \<open>grp\<close>.
\<close>

subsection \<open>Names of files\<close>

definition workerFile :: "string \<Rightarrow> nat \<Rightarrow> string" where
  "workerFile phase pid = ''mr-worker-'' @ phase @ ''-'' @ Itoa pid"

definition isDigit :: "char \<Rightarrow> bool" where
  "isDigit c \<longleftrightarrow> 48 \<le> (of_char c :: nat) \<and> (of_char c :: nat) \<le> 57"

definition digitsVal :: "string \<Rightarrow> nat" where
  "digitsVal s = foldl (\<lambda>n c. n * 10 + (of_char c - 48)) 0 s"

definition isBlank :: "char \<Rightarrow> bool" where
  \<comment> \<open>the space characters \<open>SkipSpace\<close> skips on one line\<close>
  "isBlank c \<longleftrightarrow> (of_char c :: nat) \<in> {9, 11, 12, 13, 32, 133, 160}"

definition scanInt :: "string \<Rightarrow> int option" where
  \<comment> \<open>the verb \<open>%d\<close> into an \<open>int\<close>: blanks, a sign, digits; the rest is left\<close>
  "scanInt s =
     (let s1 = dropWhile isBlank s;
          neg = (s1 \<noteq> [] \<and> hd s1 = CHR ''-'');
          s2 = (if s1 \<noteq> [] \<and> (hd s1 = CHR ''-'' \<or> hd s1 = CHR ''+'') then tl s1 else s1);
          ds = takeWhile isDigit s2;
          v = (if neg then - int (digitsVal ds) else int (digitsVal ds))
      in if ds = [] then None else if - (2 ^ 63) \<le> v \<and> v < 2 ^ 63 then Some v else None)"

definition Sscanf_pid :: "string \<Rightarrow> string \<Rightarrow> int option" where
  \<comment> \<open>\<open>fmt.Sscanf(name, "mr-worker-<phase>-%d", &xpid)\<close>\<close>
  "Sscanf_pid phase name =
     (let pat = ''mr-worker-'' @ phase @ ''-'' in if prefix pat name then scanInt (drop (length pat) name) else None)"

lemma of_char_digit: "d < 10 \<Longrightarrow> of_char (char_of (48 + d) :: char) = (48 + d :: nat)"
  by simp

lemma Itoa_digits: "\<forall>c \<in> set (Itoa n). isDigit c" and Itoa_Cons: "Itoa n \<noteq> []"
proof (induction n rule: Itoa.induct)
  case (1 n)
  { case 1 show ?case using "1.IH"(1) by (subst Itoa.simps) (auto simp: isDigit_def) }
  { case 2 show ?case by (subst Itoa.simps) simp }
qed

lemma digitsVal_append: "digitsVal (s @ [c]) = digitsVal s * 10 + (of_char c - 48)"
  by (simp add: digitsVal_def)

lemma digitsVal_Itoa [simp]: "digitsVal (Itoa n) = n"
proof (induction n rule: Itoa.induct)
  case (1 n)
  show ?case
  proof (cases "n < 10")
    case True
    then show ?thesis by (subst Itoa.simps) (simp add: digitsVal_def)
  next
    case False
    then show ?thesis using "1.IH" by (subst Itoa.simps) (simp add: digitsVal_append)
  qed
qed

lemma Itoa_inj: "Itoa m = Itoa n \<Longrightarrow> m = n"
  by (metis digitsVal_Itoa)

lemma digit_not_special: "isDigit c \<Longrightarrow> \<not> isBlank c \<and> c \<noteq> CHR ''-'' \<and> c \<noteq> CHR ''+''"
  by (auto simp: isDigit_def isBlank_def)

lemma scanInt_Itoa: "int n < 2 ^ 63 \<Longrightarrow> scanInt (Itoa n) = Some (int n)"
proof -
  assume n: "int n < 2 ^ 63"
  obtain c s where cs: "Itoa n = c # s" using Itoa_Cons by (cases "Itoa n") auto
  then have "isDigit c" using Itoa_digits [of n] by simp
  note c = digit_not_special [OF this]
  have bl: "dropWhile isBlank (Itoa n) = Itoa n" using c by (simp add: cs)
  have ds: "takeWhile isDigit (Itoa n) = Itoa n" using Itoa_digits [of n] by (simp add: takeWhile_eq_all_conv)
  have "hd (Itoa n) \<noteq> CHR ''-''" "hd (Itoa n) \<noteq> CHR ''+''" using c by (simp_all add: cs)
  then show ?thesis using n by (simp add: scanInt_def Let_def Itoa_Cons bl ds)
qed

lemma Sscanf_workerFile: "int p < 2 ^ 63 \<Longrightarrow> Sscanf_pid phase (workerFile phase p) = Some (int p)"
  by (simp add: Sscanf_pid_def workerFile_def Let_def scanInt_Itoa)

lemma workerFile_inj [simp]: "workerFile phase p = workerFile phase q \<longleftrightarrow> p = q"
  by (auto simp: workerFile_def dest: Itoa_inj)

subsection \<open>The applications\<close>

definition nparallel_write :: "string \<Rightarrow> nat \<Rightarrow> string list \<Rightarrow> string list" where
  \<comment> \<open>\<open>WriteFile\<close> creates the file or writes it again\<close>
  "nparallel_write phase pid dir = List.insert (workerFile phase pid) dir"

definition nparallel_read :: "string list \<Rightarrow> string list" where
  "nparallel_read dir = take 1000000 dir"

definition nparallel_check :: "(int \<Rightarrow> bool) \<Rightarrow> string \<Rightarrow> string \<Rightarrow> nat \<Rightarrow> nat" where
  \<comment> \<open>one round of the loop; \<open>alive\<close> says whether \<open>Kill(xpid, 0)\<close> succeeds\<close>
  "nparallel_check alive phase name ret =
     (case Sscanf_pid phase name of None \<Rightarrow> ret | Some xpid \<Rightarrow> if alive xpid then ret + 1 else ret)"

definition nparallel_remove :: "string \<Rightarrow> nat \<Rightarrow> string list \<Rightarrow> string list go" where
  \<comment> \<open>removing a file that is not there panics\<close>
  "nparallel_remove phase pid dir =
     (let f = workerFile phase pid in if f \<in> set dir then Inr (filter (\<lambda>x. x \<noteq> f) dir) else Inl LogFatal)"

definition nparallel :: "(int \<Rightarrow> bool) \<Rightarrow> string \<Rightarrow> nat \<Rightarrow> string list \<Rightarrow> (string list \<times> nat) go" where
  \<comment> \<open>the whole function, when no other worker touches the directory meanwhile\<close>
  "nparallel alive phase pid dir =
     (let dir1 = nparallel_write phase pid dir;
          ret = fold (nparallel_check alive phase) (nparallel_read dir1) 0
      in go_bind (nparallel_remove phase pid dir1) (\<lambda>dir2. Inr (dir2, ret)))"

definition mtiming_Map :: "string \<Rightarrow> nat \<Rightarrow> nat \<Rightarrow> string \<Rightarrow> string \<Rightarrow> KeyValue list" where
  \<comment> \<open>\<open>ts\<close> is the time as it is printed, \<open>n\<close> what \<open>nparallel\<close> returns\<close>
  "mtiming_Map ts pid n filename contents =
     [\<lparr>Key = ''times-'' @ Itoa pid, kvValue = ts\<rparr>, \<lparr>Key = ''parallel-'' @ Itoa pid, kvValue = Itoa n\<rparr>]"

definition mtiming_Reduce :: reducef where
  "mtiming_Reduce key values = join_strings '' '' (sort values)"

definition rtiming_Map :: mapf where
  "rtiming_Map filename contents = map (\<lambda>k. \<lparr>Key = [k], kvValue = ''1''\<rparr>) ''abcdefghij''"

definition rtiming_Reduce :: "(int \<Rightarrow> bool) \<Rightarrow> nat \<Rightarrow> string list \<Rightarrow> string \<Rightarrow> string list \<Rightarrow> (string list \<times> string) go" where
  "rtiming_Reduce alive pid dir key values = go_bind (nparallel alive ''reduce'' pid dir) (\<lambda>(dir', n). Inr (dir', Itoa n))"

definition jobcount_Map :: "nat \<Rightarrow> string list \<times> (nat \<Rightarrow> nat) \<Rightarrow> (string list \<times> (nat \<Rightarrow> nat)) \<times> KeyValue list" where
  \<comment> \<open>the counter is a variable of the process; every process has its own\<close>
  "jobcount_Map pid = (\<lambda>(dir, count).
     let f = ''mr-worker-jobcount-'' @ Itoa pid @ ''-'' @ Itoa (count pid)
     in ((List.insert f dir, count(pid := count pid + 1)), [\<lparr>Key = ''a'', kvValue = ''x''\<rparr>]))"

definition jobcount_Reduce :: "string list \<Rightarrow> string \<Rightarrow> string list \<Rightarrow> string" where
  "jobcount_Reduce dir key values = Itoa (length (filter (prefix ''mr-worker-jobcount'') (sort dir)))"

subsection \<open>Workers that run at the same time\<close>

datatype tpc = TOut | TWritten | TScan "string list" nat | TSleep nat | TRet nat

record tsys =
  tDir :: "string list"
  tLive :: "nat set"
  tPc :: "nat \<Rightarrow> tpc"
  tSaw :: "nat \<Rightarrow> nat set"   \<comment> \<open>history: the live processes inside \<open>nparallel\<close> when this one read the directory\<close>

fun within :: "tpc \<Rightarrow> bool" where
  "within TOut = False" | "within (TRet _) = False" | "within _ = True"

definition aliveNow :: "(int \<Rightarrow> bool) \<Rightarrow> tsys \<Rightarrow> int \<Rightarrow> bool" where
  "aliveNow grp s x = (if x \<le> 0 then grp x else nat x \<in> tLive s)"

inductive tstep :: "(int \<Rightarrow> bool) \<Rightarrow> string \<Rightarrow> tsys \<Rightarrow> tsys \<Rightarrow> bool" for grp phase where
  w_write: "p \<in> tLive s \<Longrightarrow> \<not> within (tPc s p) \<Longrightarrow>
    tstep grp phase s (s\<lparr>tDir := nparallel_write phase p (tDir s), tPc := (tPc s)(p := TWritten)\<rparr>)"
| w_read: "p \<in> tLive s \<Longrightarrow> tPc s p = TWritten \<Longrightarrow>
    tstep grp phase s (s\<lparr>tPc := (tPc s)(p := TScan (nparallel_read (tDir s)) 0),
                         tSaw := (tSaw s)(p := {q \<in> tLive s. within (tPc s q)})\<rparr>)"
| w_check: "p \<in> tLive s \<Longrightarrow> tPc s p = TScan (name # names) ret \<Longrightarrow>
    tstep grp phase s (s\<lparr>tPc := (tPc s)(p := TScan names (nparallel_check (aliveNow grp s) phase name ret))\<rparr>)"
| w_sleep: "p \<in> tLive s \<Longrightarrow> tPc s p = TScan [] ret \<Longrightarrow> tstep grp phase s (s\<lparr>tPc := (tPc s)(p := TSleep ret)\<rparr>)"
| w_remove: "p \<in> tLive s \<Longrightarrow> tPc s p = TSleep ret \<Longrightarrow> nparallel_remove phase p (tDir s) = Inr dir \<Longrightarrow>
    tstep grp phase s (s\<lparr>tDir := dir, tPc := (tPc s)(p := TRet ret)\<rparr>)"
| w_panic: "p \<in> tLive s \<Longrightarrow> tPc s p = TSleep ret \<Longrightarrow> nparallel_remove phase p (tDir s) = Inl e \<Longrightarrow>
    tstep grp phase s (s\<lparr>tLive := tLive s - {p}\<rparr>)"
| w_die: "p \<in> tLive s \<Longrightarrow> tstep grp phase s (s\<lparr>tLive := tLive s - {p}\<rparr>)"

definition tinit :: "string \<Rightarrow> nat set \<Rightarrow> tsys \<Rightarrow> bool" where
  \<comment> \<open>the workers \<open>P\<close>, none in \<open>nparallel\<close>, and a directory of other files that can be listed in one go\<close>
  "tinit phase P s \<longleftrightarrow> tLive s = P \<and> finite P \<and> (\<forall>p \<in> P. 0 < p \<and> int p < 2 ^ 63) \<and> (\<forall>p. tPc s p = TOut) \<and>
     (\<forall>f \<in> set (tDir s). Sscanf_pid phase f = None) \<and> distinct (tDir s) \<and> length (tDir s) + card P \<le> 1000000"

definition toCount :: "string \<Rightarrow> nat set \<Rightarrow> string list \<Rightarrow> nat set" where
  "toCount phase S names = {q \<in> S. workerFile phase q \<in> set names}"

definition count_ok :: "nat set \<Rightarrow> tsys \<Rightarrow> nat \<Rightarrow> nat \<Rightarrow> nat \<Rightarrow> bool" where
  \<comment> \<open>\<open>ret\<close> counted and \<open>k\<close> to come\<close>
  "count_ok P s p ret k \<longleftrightarrow> ret + k \<le> card (tSaw s p) \<and> (tLive s = P \<longrightarrow> ret + k = card (tSaw s p))"

definition pc_ok :: "string \<Rightarrow> nat set \<Rightarrow> tsys \<Rightarrow> nat \<Rightarrow> bool" where
  "pc_ok phase P s p \<longleftrightarrow> (case tPc s p of
       TScan names ret \<Rightarrow> p \<in> tSaw s p \<and> tSaw s p \<subseteq> P \<and> distinct names \<and>
         (\<forall>f \<in> set names. \<forall>x. Sscanf_pid phase f = Some x \<longrightarrow> (\<exists>q \<in> P. f = workerFile phase q)) \<and>
         (\<forall>q \<in> tLive s. workerFile phase q \<in> set names \<longrightarrow> q \<in> tSaw s p) \<and>
         (1 \<le> ret \<or> workerFile phase p \<in> set names) \<and> count_ok P s p ret (card (toCount phase (tSaw s p) names))
     | TSleep ret \<Rightarrow> p \<in> tSaw s p \<and> tSaw s p \<subseteq> P \<and> 1 \<le> ret \<and> count_ok P s p ret 0
     | TRet ret \<Rightarrow> p \<in> tSaw s p \<and> tSaw s p \<subseteq> P \<and> 1 \<le> ret \<and> count_ok P s p ret 0
     | _ \<Rightarrow> True)"

definition dir_ok :: "string \<Rightarrow> nat set \<Rightarrow> string list \<Rightarrow> tsys \<Rightarrow> bool" where
  "dir_ok phase P d s \<longleftrightarrow> distinct (tDir s) \<and> tLive s \<subseteq> P \<and> set (tDir s) \<subseteq> set d \<union> workerFile phase ` P \<and>
     (\<forall>p \<in> tLive s. within (tPc s p) \<longleftrightarrow> workerFile phase p \<in> set (tDir s))"

lemma pc_ok_frame:
  assumes "pc_ok phase P s q" and "tLive s' \<subseteq> tLive s" and "tLive s \<subseteq> P" and "tPc s' q = tPc s q" and "tSaw s' q = tSaw s q"
  shows "pc_ok phase P s' q"
proof -
  have "tLive s' = P \<Longrightarrow> tLive s = P" using assms(2,3) by blast
  then show ?thesis using assms by (auto simp: pc_ok_def count_ok_def split: tpc.splits)
qed

lemma check_ok:
  assumes "pc_ok phase P s p" and "tPc s p = TScan (name # names) ret" and "p \<in> tLive s" and "finite P"
    and "\<forall>q \<in> P. 0 < q \<and> int q < 2 ^ 63" and "tLive s \<subseteq> P"
  shows "pc_ok phase P (s\<lparr>tPc := (tPc s)(p := TScan names (nparallel_check (aliveNow grp s) phase name ret))\<rparr>) p"
proof -
  let ?S = "tSaw s p"
  have ok: "p \<in> ?S" "?S \<subseteq> P" "name \<notin> set names" "distinct names"
      "\<forall>f \<in> set (name # names). \<forall>x. Sscanf_pid phase f = Some x \<longrightarrow> (\<exists>q \<in> P. f = workerFile phase q)"
      "\<forall>q \<in> tLive s. workerFile phase q \<in> set (name # names) \<longrightarrow> q \<in> ?S"
      "1 \<le> ret \<or> workerFile phase p \<in> set (name # names)" "count_ok P s p ret (card (toCount phase ?S (name # names)))"
    using assms(1,2) by (auto simp: pc_ok_def)
  have fin: "finite ?S" using ok(2) assms(4) by (rule finite_subset)
  let ?r = "nparallel_check (aliveNow grp s) phase name ret"
  have "(1 \<le> ?r \<or> workerFile phase p \<in> set names) \<and> count_ok P s p ?r (card (toCount phase ?S names))"
  proof (cases "\<exists>q \<in> P. name = workerFile phase q")
    case True
    then obtain q where q: "q \<in> P" "name = workerFile phase q" by blast
    have r: "?r = (if q \<in> tLive s then ret + 1 else ret)"
      using assms(5) q by (auto simp: nparallel_check_def Sscanf_workerFile aliveNow_def)
    have pend: "toCount phase ?S (name # names) = (if q \<in> ?S then insert q (toCount phase ?S names) else toCount phase ?S names)"
      "q \<notin> toCount phase ?S names" "finite (toCount phase ?S names)"
      using q ok(3) fin by (auto simp: toCount_def)
    show ?thesis
    proof (cases "q \<in> tLive s")
      case True
      then have "q \<in> ?S" using ok(6) q by simp
      then show ?thesis using ok(8) pend True by (simp add: r count_ok_def)
    next
      case False
      then have "tLive s \<noteq> P" "workerFile phase p \<noteq> name" "?r = ret" using q assms(3) r by auto
      moreover have "card (toCount phase ?S names) \<le> card (toCount phase ?S (name # names))"
        using fin by (intro card_mono) (auto simp: toCount_def)
      ultimately show ?thesis using ok(7,8) by (simp add: count_ok_def)
    qed
  next
    case False
    then have none: "Sscanf_pid phase name = None" using ok(5) by (cases "Sscanf_pid phase name") auto
    have "toCount phase ?S (name # names) = toCount phase ?S names" using False ok(2) by (auto simp: toCount_def)
    moreover have "name \<noteq> workerFile phase p" using False assms(3,6) by blast
    ultimately show ?thesis using ok(7,8) none by (auto simp: nparallel_check_def)
  qed
  then show ?thesis using ok(1,2,4,5,6) by (simp add: pc_ok_def count_ok_def)
qed

lemma read_ok:
  assumes "dir_ok phase P d s" and "p \<in> tLive s" and "tPc s p = TWritten" and "length (tDir s) \<le> 1000000"
    and "\<forall>f \<in> set d. Sscanf_pid phase f = None"
  shows "pc_ok phase P (s\<lparr>tPc := (tPc s)(p := TScan (nparallel_read (tDir s)) 0), tSaw := (tSaw s)(p := {q \<in> tLive s. within (tPc s q)})\<rparr>) p"
proof -
  let ?S = "{q \<in> tLive s. within (tPc s q)}"
  have names: "nparallel_read (tDir s) = tDir s" using assms(4) by (simp add: nparallel_read_def)
  have holds: "within (tPc s q) \<longleftrightarrow> workerFile phase q \<in> set (tDir s)" if "q \<in> tLive s" for q
    using assms(1) that by (simp add: dir_ok_def)
  have "toCount phase ?S (tDir s) = ?S" using holds by (auto simp: toCount_def)
  moreover have "\<forall>f \<in> set (tDir s). \<forall>x. Sscanf_pid phase f = Some x \<longrightarrow> (\<exists>q \<in> P. f = workerFile phase q)"
    using assms(1,5) by (auto simp: dir_ok_def)
  ultimately show ?thesis using assms(1,2,3) holds holds [OF assms(2)] by (auto simp: pc_ok_def count_ok_def names dir_ok_def)
qed

lemma dir_ok_length:
  assumes "dir_ok phase P d s" and "finite P"
  shows "length (tDir s) \<le> length d + card P"
proof -
  have "length (tDir s) = card (set (tDir s))" using assms(1) by (simp add: dir_ok_def distinct_card)
  also have "\<dots> \<le> card (set d \<union> workerFile phase ` P)" using assms by (intro card_mono) (auto simp: dir_ok_def)
  also have "\<dots> \<le> card (set d) + card (workerFile phase ` P)" by (rule card_Un_le)
  also have "\<dots> \<le> length d + card P" using card_length [of d] card_image_le [OF assms(2)] by (rule add_mono)
  finally show ?thesis .
qed

lemma tstep_dir:
  assumes "tstep grp phase s s'" and "dir_ok phase P d s"
  shows "dir_ok phase P d s'"
  using assms
  by (cases rule: tstep.cases) (auto simp: dir_ok_def nparallel_write_def nparallel_remove_def Let_def split: if_splits)

lemma tstep_pcs:
  assumes "tstep grp phase s s'" and "dir_ok phase P d s" and "\<forall>q. pc_ok phase P s q"
    and "length d + card P \<le> 1000000" "finite P" "\<forall>f \<in> set d. Sscanf_pid phase f = None" "\<forall>q \<in> P. 0 < q \<and> int q < 2 ^ 63"
  shows "pc_ok phase P s' q"
proof -
  have live: "tLive s \<subseteq> P" using assms(2) by (simp add: dir_ok_def)
  have frame: "pc_ok phase P s' q" if "tLive s' \<subseteq> tLive s" "tPc s' q = tPc s q" "tSaw s' q = tSaw s q"
    using pc_ok_frame [OF _ that(1) live that(2,3)] assms(3) by blast
  from assms(1) show ?thesis
  proof (cases rule: tstep.cases)
    case (w_write p) then show ?thesis using frame by (cases "q = p") (auto simp: pc_ok_def)
  next
    case (w_read p)
    have "length (tDir s) \<le> 1000000" using dir_ok_length [OF assms(2,5)] assms(4) by simp
    from read_ok [OF assms(2) w_read(2,3) this assms(6)] show ?thesis using w_read(1) frame by (cases "q = p") auto
  next
    case (w_check p name names ret)
    have "pc_ok phase P s p" using assms(3) by blast
    from check_ok [OF this w_check(3,2) assms(5,7) live] show ?thesis using w_check(1) frame by (cases "q = p") auto
  next
    case (w_sleep p ret)
    have "pc_ok phase P s p" using assms(3) by blast
    then show ?thesis using w_sleep frame by (cases "q = p") (auto simp: pc_ok_def toCount_def count_ok_def)
  next
    case (w_remove p ret dir)
    have "pc_ok phase P s p" using assms(3) by blast
    then show ?thesis using w_remove frame by (cases "q = p") (auto simp: pc_ok_def count_ok_def)
  qed (use frame in auto)
qed

lemma tinit_ok: "tinit phase P s \<Longrightarrow> dir_ok phase P (tDir s) s \<and> (\<forall>q. pc_ok phase P s q)"
proof -
  assume i: "tinit phase P s"
  have "workerFile phase p \<notin> set (tDir s)" if "p \<in> P" for p
    using i Sscanf_workerFile [of p phase] that by (auto simp: tinit_def)
  then show ?thesis using i by (auto simp: tinit_def dir_ok_def pc_ok_def)
qed

text \<open>
  Property C25 (what \<open>nparallel\<close> counts). Workers enter, read, count and leave in any order, and any of
  them may die at any time. What \<open>nparallel\<close> returns counts the worker itself and never exceeds the
  number of live workers that were between their write and their removal when it read the
  directory: the files of workers that died are not counted. If no worker dies, the count is exact.
\<close>

theorem nparallel_counts:
  assumes "tinit phase P s0" and "(tstep grp phase)\<^sup>*\<^sup>* s0 s" and "tPc s p = TRet n"
  shows "p \<in> tSaw s p \<and> 1 \<le> n \<and> n \<le> card (tSaw s p) \<and> (tLive s = P \<longrightarrow> n = card (tSaw s p))"
proof -
  have init: "finite P" "\<forall>q \<in> P. 0 < q \<and> int q < 2 ^ 63" "\<forall>f \<in> set (tDir s0). Sscanf_pid phase f = None" "length (tDir s0) + card P \<le> 1000000"
    using assms(1) by (simp_all add: tinit_def)
  have "dir_ok phase P (tDir s0) s \<and> (\<forall>q. pc_ok phase P s q)" using assms(2)
  proof (induction rule: rtranclp_induct)
    case base then show ?case by (rule tinit_ok [OF assms(1)])
  next
    case (step s s')
    then show ?case using tstep_dir [OF step.hyps(2)] tstep_pcs [OF step.hyps(2) _ _ init(4,1,3,2)] by blast
  qed
  then have "pc_ok phase P s p" by blast
  then show ?thesis using assms(3) by (simp add: pc_ok_def count_ok_def)
qed

definition ex_workers :: "string list \<Rightarrow> tpc \<Rightarrow> nat set \<Rightarrow> tsys" where
  \<comment> \<open>process 7, alone in a directory with one input file\<close>
  "ex_workers dir pc saw = \<lparr>tDir = dir, tLive = {7}, tPc = (\<lambda>_. TOut)(7 := pc), tSaw = (\<lambda>_. {})(7 := saw)\<rparr>"

lemma ex_scan [simp]:
  "Sscanf_pid ''map'' ''pg-emma'' = None" "workerFile ''map'' 7 = ''mr-worker-map-7''" "Sscanf_pid ''map'' ''mr-worker-map-7'' = Some 7"
proof -
  have w: "workerFile ''map'' 7 = ''mr-worker-map-7''" by code_simp
  then show "workerFile ''map'' 7 = ''mr-worker-map-7''" .
  show "Sscanf_pid ''map'' ''pg-emma'' = None" by (simp add: Sscanf_pid_def)
  show "Sscanf_pid ''map'' ''mr-worker-map-7'' = Some 7" using Sscanf_workerFile [of 7 "''map''"] by (simp add: w)
qed

lemma ex_workers_run:
  "(tstep grp ''map'')\<^sup>*\<^sup>* (ex_workers [''pg-emma''] TOut {}) (ex_workers [''pg-emma''] (TRet 1) {7})"
proof -
  let ?d = "[''mr-worker-map-7'', ''pg-emma'']"
  have 1: "tstep grp ''map'' (ex_workers [''pg-emma''] TOut {}) (ex_workers ?d TWritten {})"
    using tstep.w_write [of 7 "ex_workers [''pg-emma''] TOut {}" grp "''map''"] by (simp add: ex_workers_def nparallel_write_def)
  have one: "{q. q = 7 \<and> within (((\<lambda>_. TOut)(7 := TWritten)) q)} = {7 :: nat}" by auto
  have 2: "tstep grp ''map'' (ex_workers ?d TWritten {}) (ex_workers ?d (TScan ?d 0) {7})"
    using tstep.w_read [of 7 "ex_workers ?d TWritten {}" grp "''map''"] one by (simp add: ex_workers_def nparallel_read_def)
  have 3: "tstep grp ''map'' (ex_workers ?d (TScan ?d 0) {7}) (ex_workers ?d (TScan [''pg-emma''] 1) {7})"
    using tstep.w_check [of 7 "ex_workers ?d (TScan ?d 0) {7}" _ _ 0 grp "''map''"] by (simp add: ex_workers_def nparallel_check_def aliveNow_def)
  have 4: "tstep grp ''map'' (ex_workers ?d (TScan [''pg-emma''] 1) {7}) (ex_workers ?d (TScan [] 1) {7})"
    using tstep.w_check [of 7 "ex_workers ?d (TScan [''pg-emma''] 1) {7}" _ _ 1 grp "''map''"] by (simp add: ex_workers_def nparallel_check_def)
  have 5: "tstep grp ''map'' (ex_workers ?d (TScan [] 1) {7}) (ex_workers ?d (TSleep 1) {7})"
    using tstep.w_sleep [of 7 "ex_workers ?d (TScan [] 1) {7}" 1 grp "''map''"] by (simp add: ex_workers_def)
  have 6: "tstep grp ''map'' (ex_workers ?d (TSleep 1) {7}) (ex_workers [''pg-emma''] (TRet 1) {7})"
    using tstep.w_remove [of 7 "ex_workers ?d (TSleep 1) {7}" 1 "''map''" "[''pg-emma'']" grp] by (simp add: ex_workers_def nparallel_remove_def)
  note into = converse_rtranclp_into_rtranclp [where r = "tstep grp ''map''"]
  show ?thesis by (rule into, rule 1, rule into, rule 2, rule into, rule 3, rule into, rule 4, rule into, rule 5, rule into, rule 6, rule rtranclp.rtrancl_refl)
qed

theorem nparallel_counts_witness:
  "7 \<in> tSaw (ex_workers [''pg-emma''] (TRet 1) {7}) 7 \<and> 1 = card (tSaw (ex_workers [''pg-emma''] (TRet 1) {7}) 7)"
proof -
  have i: "tinit ''map'' {7} (ex_workers [''pg-emma''] TOut {})" by (simp add: tinit_def ex_workers_def)
  have r: "tPc (ex_workers [''pg-emma''] (TRet 1) {7}) 7 = TRet 1" "tLive (ex_workers [''pg-emma''] (TRet 1) {7}) = {7}"
    by (simp_all add: ex_workers_def)
  from nparallel_counts [OF i ex_workers_run r(1)] r(2) show ?thesis by simp
qed

subsection \<open>Counting map tasks\<close>

fun jobcount_runs :: "nat list \<Rightarrow> string list \<times> (nat \<Rightarrow> nat) \<Rightarrow> string list \<times> (nat \<Rightarrow> nat)" where
  \<comment> \<open>map tasks run by these processes, one after the other\<close>
  "jobcount_runs [] s = s"
| "jobcount_runs (p # ps) s = jobcount_runs ps (fst (jobcount_Map p s))"

definition jobFile :: "nat \<Rightarrow> nat \<Rightarrow> string" where
  "jobFile p c = ''mr-worker-jobcount-'' @ Itoa p @ ''-'' @ Itoa c"

lemma Itoa_no_dash: "CHR ''-'' \<notin> set (Itoa n)"
  using Itoa_digits [of n] by (auto simp: isDigit_def)

lemma jobFile_inj: "jobFile p c = jobFile q k \<longleftrightarrow> p = q \<and> c = k"
proof
  assume "jobFile p c = jobFile q k"
  then have e: "Itoa p @ CHR ''-'' # Itoa c = Itoa q @ CHR ''-'' # Itoa k" by (simp add: jobFile_def)
  have cut: "takeWhile (\<lambda>x. x \<noteq> CHR ''-'') (Itoa n @ CHR ''-'' # t) = Itoa n" for n t
    using Itoa_no_dash [of n] by (subst takeWhile_append2) auto
  from e have "Itoa p = Itoa q" by (metis cut)
  with e show "p = q \<and> c = k" using Itoa_inj by auto
qed simp

text \<open>
  Counting map tasks. However the runs of the map task are spread over worker
  processes, each with its own counter, and in whatever order they come, the reduce task returns the
  number of runs: no two of them use the same file.
\<close>

theorem jobcount_exact:
  assumes "\<forall>f \<in> set dir. \<not> prefix ''mr-worker-jobcount'' f"
  shows "jobcount_Reduce (fst (jobcount_runs ps (dir, \<lambda>_. 0))) key values = Itoa (length ps)"
proof -
  have runs: "filter (prefix ''mr-worker-jobcount'') (fst (jobcount_runs ps (d, count))) = g \<Longrightarrow>
      length g = length (filter (prefix ''mr-worker-jobcount'') d) + length ps"
    if "\<forall>f \<in> set d. prefix ''mr-worker-jobcount'' f \<longrightarrow> (\<exists>p c. f = jobFile p c \<and> c < count p)" for d count g
    using that
  proof (induction ps arbitrary: d count g)
    case (Cons p ps)
    let ?f = "jobFile p (count p)"
    have pre: "prefix ''mr-worker-jobcount'' ?f" by (simp add: jobFile_def)
    have new: "?f \<notin> set d" using Cons.prems(2) pre by (auto simp: jobFile_inj)
    have step: "fst (jobcount_Map p (d, count)) = (?f # d, count(p := count p + 1))"
      using new by (simp add: jobcount_Map_def jobFile_def List.insert_def)
    have "\<forall>f \<in> set (?f # d). prefix ''mr-worker-jobcount'' f \<longrightarrow> (\<exists>q c. f = jobFile q c \<and> c < (count(p := count p + 1)) q)"
      using Cons.prems(2) by (force simp: less_Suc_eq)
    from Cons.IH [OF Cons.prems(1) [unfolded jobcount_runs.simps step] this] pre show ?case by simp
  qed simp
  have none: "filter (prefix ''mr-worker-jobcount'') dir = []" using assms by (simp add: filter_empty_conv)
  have "length (filter (prefix ''mr-worker-jobcount'') (fst (jobcount_runs ps (dir, \<lambda>_. 0)))) = length ps"
    using runs [of dir "\<lambda>_. 0"] assms by (simp add: none)
  moreover have "length (filter Q (sort xs)) = length (filter Q xs)" for Q and xs :: "string list"
    by (metis mset_filter mset_sort size_mset)
  ultimately show ?thesis by (simp add: jobcount_Reduce_def)
qed

theorem jobcount_exact_witness:
  "jobcount_Reduce (fst (jobcount_runs [7, 8, 7] ([''pg-emma''], \<lambda>_. 0))) ''a'' [''x''] = ''3''"
proof -
  have "\<forall>f \<in> set [''pg-emma'']. \<not> prefix ''mr-worker-jobcount'' f" by simp
  moreover have "Itoa (length [7, 8, 7 :: nat]) = ''3''" by code_simp
  ultimately show ?thesis using jobcount_exact [of "[''pg-emma'']" "[7, 8, 7]" "''a''" "[''x'']"] by (simp only:)
qed

end
