(* ===== verification/Raft_Findings.thy ===== *)
theory Raft_Findings
  imports Raft_Replication
begin

text \<open>
  Where the Raft code breaks what it means to guarantee. For every state it is shown what a delayed
  \<open>AppendEntries\<close> message removes, what a vote between the two halves of \<open>AppendEntries\<close> leads to,
  when the applier hangs, when installing a snapshot discards committed entries, and what becomes of
  a peer whose election worker has taken a left-over abort token. Two runs, evaluated in full, show
  where the first two lead: they compose the critical sections of \<open>src/raft1/raft.go\<close> in an order the
  code allows (the network of \<open>src/labrpc/labrpc.go\<close> may delay and reorder calls), and two peers hand
  different commands to the service at the same index.
\<close>

subsection \<open>Building blocks of the runs\<close>

definition elected :: "'c raft \<Rightarrow> 'c raft \<Rightarrow> ('c raft \<times> 'c raft) go" where
  \<comment> \<open>a peer starts an election and wins it with the vote of another peer of a group of three\<close>
  "elected cand voter =
     (case startElection cand of None \<Rightarrow> Inl LogFatal
      | Some (c1, et) \<Rightarrow>
          go_bind (GetVote_args c1) (\<lambda>args. case args of None \<Rightarrow> Inl LogFatal
          | Some a \<Rightarrow> go_bind (RequestVote voter a) (\<lambda>(v1, reply). Inr (fst (countVote c1 et 1 reply), v1))))"

definition message :: "'c raft \<Rightarrow> nat \<Rightarrow> 'c AppendEntriesArgs go" where
  \<comment> \<open>the message the current leader's sender goroutine builds for a peer\<close>
  "message ld p = (case ctx ld of None \<Rightarrow> Inl NilDeref | Some c \<Rightarrow>
     go_bind (sendPrepare ld p (CurrentTerm ld) c False) (\<lambda>(_, act).
       case act of SendAE args \<Rightarrow> Inr args | _ \<Rightarrow> Inl LogFatal))"

definition acknowledged :: "'c raft \<Rightarrow> nat \<Rightarrow> 'c AppendEntriesArgs \<Rightarrow> AppendEntriesReply \<Rightarrow> 'c raft go" where
  "acknowledged ld p args reply = (case ctx ld of None \<Rightarrow> Inl NilDeref
     | Some c \<Rightarrow> sendAE_reply ld p args c reply)"

fun apply_rounds :: "nat \<Rightarrow> 'c raft \<Rightarrow> 'c apply_result \<Rightarrow> ('c option \<times> int) list go" where
  \<comment> \<open>what the applier hands out: the result of its last round and at most \<open>n\<close> more rounds\<close>
  "apply_rounds n rf (ApplyCmd m) =
     (case n of 0 \<Rightarrow> Inr [(amCommand m, CommandIndex m)]
      | Suc k \<Rightarrow> go_bind (apply_loop rf) (\<lambda>(rf1, r).
          go_bind (apply_rounds k rf1 r) (\<lambda>ms. Inr ((amCommand m, CommandIndex m) # ms))))"
| "apply_rounds n rf ApplyIdle = Inr []"
| "apply_rounds n rf ApplySpin = Inr []"
| "apply_rounds n rf (ApplySnap m) = Inr []"

definition applied :: "'c raft \<Rightarrow> ('c option \<times> int) list go" where
  "applied rf = go_bind (apply_wake rf) (\<lambda>(rf1, r). apply_rounds 3 rf1 r)"

subsection \<open>A delayed message undoes an acknowledged append\<close>

text \<open>
  Peer 0 leads term 1 and starts commands 10 and 20. Its first message, with 10 only, is slow; the
  second, with 10 and 20, is answered by peer 1 with success, and peer 0 commits and applies both.
  Now the first message reaches peer 1, which cuts its log after it. Peer 1 is elected in term 2
  by peer 2, starts command 30, and with peer 2 commits and applies 10 and 30.
\<close>

definition reordered_run :: "((nat option \<times> int) list \<times> (nat option \<times> int) list) go" where
  "reordered_run =
     (let r1 = newRaft 3 1 MakePersister; r2 = newRaft 3 2 MakePersister in
      go_bind (elected (newRaft 3 0 MakePersister) r1) (\<lambda>(l0, r1).
      let l1 = fst (Start l0 (Some 10)) in
      go_bind (message l1 1) (\<lambda>slow.
      let l2 = fst (Start l1 (Some 20)) in
      go_bind (message l2 1) (\<lambda>quick.
      go_bind (AppendEntries r1 quick) (\<lambda>(r1, ok).
      go_bind (acknowledged l2 1 quick ok) (\<lambda>l3.
      go_bind (applied l3) (\<lambda>out0.
      go_bind (AppendEntries r1 slow) (\<lambda>(r1, ok').
      go_bind (elected r1 r2) (\<lambda>(n0, r2).
      let n1 = fst (Start n0 (Some 30)) in
      go_bind (message n1 2) (\<lambda>m0.
      go_bind (AppendEntries r2 m0) (\<lambda>(r2, no).
      go_bind (acknowledged n1 2 m0 no) (\<lambda>n2.
      go_bind (message n2 2) (\<lambda>m.
      go_bind (AppendEntries r2 m) (\<lambda>(r2, ok'').
      go_bind (acknowledged n2 2 m ok'') (\<lambda>n3.
      go_bind (applied n3) (\<lambda>out1.
      Inr (out0, out1)))))))))))))))))"

text \<open>Two peers hand different commands to their services at index 2.\<close>

theorem reordered_append_diverges:
  "reordered_run = Inr ([(Some 10, 1), (Some 20, 2)], [(Some 10, 1), (Some 30, 2)])"
  by code_simp

lemma AppendEntries_accepts:
  assumes "wf_raft rf" and "CurrentTerm rf \<le> aeTerm args" and "prev_matches rf args" and "Entries args \<noteq> []"
  obtains rf1 ok where "AppendEntries_check rf args = Inr (rf1, AePending ok)" "Success ok"
proof -
  obtain rf0 where sd: "stepDown rf = Inr rf0" using stepDown_total [OF assms(1)] by blast
  define q where "q = resetTicker (me rf0) (adoptTerm (aeTerm args) rf0)"
  have "prev_matches q args" using assms(3) prev_matches_cong [of q rf args] by (simp add: q_def stepDown_frame [OF sd])
  then have "aeConflict q args = Inr None" by (simp add: aeConflict_None_iff)
  then show ?thesis using that assms(2,4) sd by (simp add: AppendEntries_check_def Let_def q_def)
qed

lemma acknowledgement_counts:
  assumes "state ld = Leader" "CurrentTerm ld = aeTerm args" "p < length (matchIndex ld)" "Success ok"
  shows "\<exists>ld'. sendAE_reply ld p args wc ok = Inr ld' \<and>
    PrevLogIndex args + int (length (Entries args)) \<le> matchIndex ld' ! p"
  using assms by (auto simp: sendAE_reply_def sendAE_success_def Let_def wakeApply_def)

lemma AppendEntries_commit_up:
  assumes "AppendEntries rf args = Inr (rf', ok)" and "Success ok" and "Entries args \<noteq> []"
  shows "commitIndex rf \<le> commitIndex rf'"
  using assms(1)
proof (cases rule: AppendEntries_cases)
  case answered
  then show ?thesis using AppendEntries_check_ok(5) [OF answered, of ok] assms(2,3) by simp
next
  case (appended rf1)
  note h = AppendEntries_check_pending [OF appended(1)]
  from appended(2) h(1,2) show ?thesis
  proof (cases rule: AppendEntries_append_log)
    case (grown b)
    then show ?thesis using h(3) prev_matches_bounds [OF h(1)]
      by (auto simp: advanceCommit_def wakeApply_def Loglen_def)
  qed (simp add: h(3))
qed

text \<open>
  Property C17 (a delayed message undoes an acknowledged append). Let a follower have answered a
  message with success, and let an older message of the same term arrive afterwards, with the same
  previous entry and only the first \<open>m\<close> of the entries (a leader sends such messages when a command
  is started between them); the follower's commit index has not reached the end of the older one.
  Then the follower answers with success again and cuts its log at the end of the older message:
  the entries behind it are gone, although the follower acknowledged them and a leader that gets
  the first answer counts them in its match index.
\<close>

theorem delayed_append_undoes:
  assumes "wf_raft fo1" and "AppendEntries fo quick = Inr (fo1, ok1)" and "Success ok1"
    and "aeTerm slow = aeTerm quick" and "PrevLogIndex slow = PrevLogIndex quick" and "PrevLogTerm slow = PrevLogTerm quick"
    and "Entries slow = take m (Entries quick)" and "0 < m" and "m < length (Entries quick)"
    and "commitIndex fo1 < PrevLogIndex quick + int m"
    and "state ld = Leader" and "CurrentTerm ld = aeTerm quick" and "p < length (matchIndex ld)"
  shows "\<exists>fo2 ok2 ld'. AppendEntries fo1 slow = Inr (fo2, ok2) \<and> Success ok2 \<and>
    Loglen fo2 = PrevLogIndex quick + 1 + int m \<and>
    (\<forall>k. m \<le> k \<and> k < length (Entries quick) \<longrightarrow>
       entry_at fo1 (PrevLogIndex quick + 1 + int k) = Some (Entries quick ! k) \<and>
       entry_at fo2 (PrevLogIndex quick + 1 + int k) = None) \<and>
    sendAE_reply ld p quick wc ok1 = Inr ld' \<and>
    PrevLogIndex quick + int (length (Entries quick)) \<le> matchIndex ld' ! p"
proof -
  let ?p = "PrevLogIndex quick"
  note suc = AppendEntries_success [OF assms(2,3)]
  have "prev_matches fo1 slow" using suc assms(5,6) by (auto simp: prev_matches_def split: option.splits)
  moreover have ne: "Entries slow \<noteq> []" using assms(7-9) by auto
  ultimately obtain r ok2 where ck: "AppendEntries_check fo1 slow = Inr (r, AePending ok2)" "Success ok2"
    using AppendEntries_accepts [OF assms(1), of slow] suc assms(4) by auto
  note h = AppendEntries_check_pending [OF ck(1)]
  have len: "length (Entries slow) = m" using assms(7,9) by simp
  have "commitIndex fo \<le> commitIndex fo1" using AppendEntries_commit_up [OF assms(2,3)] assms(9) by (cases "Entries quick") auto
  then have held: "entry_at fo1 (?p + 1 + int k) = Some (Entries quick ! k)" if "m \<le> k" "k < length (Entries quick)" for k
    using suc assms(10) that by simp
  have "?p + 1 + int m < Loglen fo1" using held [of m] assms(9) by (auto simp: entry_at_def split: if_splits)
  then obtain fo2 where ap: "AppendEntries_append r slow = Inr fo2"
    using AppendEntries_append_stops [OF h(1)] h(3,5) assms(10) by auto
  have cut: "Loglen fo2 = ?p + 1 + int m"
    using AppendEntries_append_keeps [OF ap h(1,2)] h(3) len assms(5,10) by simp
  have "AppendEntries fo1 slow = Inr (fo2, ok2)" using ck(1) ap by (simp add: AppendEntries_def)
  moreover have "entry_at fo2 (?p + 1 + int k) = None" if "m \<le> k" for k using cut that by (simp add: entry_at_def)
  ultimately show ?thesis
    using cut held ck(2) acknowledgement_counts [OF assms(11-13) assms(3)] by blast
qed

definition ex_quick :: "nat AppendEntriesArgs" where
  "ex_quick = \<lparr>aeTerm = 1, aeLeaderId = 0, PrevLogIndex = 0, PrevLogTerm = 0,
     Entries = [\<lparr>Term = 1, Command = Some 5\<rparr>, \<lparr>Term = 1, Command = Some 6\<rparr>], LeaderCommit = 0\<rparr>"

theorem delayed_append_undoes_witness:
  "\<exists>fo1 fo2 ok1 ok2. AppendEntries (newRaft 3 1 MakePersister) ex_quick = Inr (fo1, ok1) \<and>
     entry_at fo1 2 = Some \<lparr>Term = 1, Command = Some 6\<rparr> \<and>
     AppendEntries fo1 (ex_append\<lparr>LeaderCommit := 0\<rparr>) = Inr (fo2, ok2) \<and> Success ok2 \<and> entry_at fo2 2 = None"
proof -
  let ?r = "newRaft 3 1 MakePersister :: nat raft" and ?slow = "ex_append\<lparr>LeaderCommit := 0\<rparr>"
  have "\<exists>fo1 ok1. AppendEntries ?r ex_quick = Inr (fo1, ok1) \<and> Success ok1 \<and> wf_raft fo1 \<and> commitIndex fo1 = 0"
    by (simp add: newRaft_def ex_quick_def AppendEntries_def AppendEntries_check_def AppendEntries_append_def
      stepDown_def adoptTerm_def aeConflict_def resetTicker_def persist_def Loglen_def idxInLog_def
      go_index_def go_slice_to_def advanceCommit_def wakeApply_def wf_raft_def)
  then obtain fo1 ok1 where h: "AppendEntries ?r ex_quick = Inr (fo1, ok1)" "Success ok1" "wf_raft fo1" "commitIndex fo1 = 0"
    by blast
  have pre: "aeTerm ?slow = aeTerm ex_quick" "PrevLogIndex ?slow = PrevLogIndex ex_quick"
    "PrevLogTerm ?slow = PrevLogTerm ex_quick" "Entries ?slow = take 1 (Entries ex_quick)" "0 < (1 :: nat)"
    "1 < length (Entries ex_quick)" "commitIndex fo1 < PrevLogIndex ex_quick + int 1" "state ex_leader = Leader"
    "CurrentTerm ex_leader = aeTerm ex_quick" "1 < length (matchIndex ex_leader)"
    by (simp_all add: h(4) ex_quick_def ex_append_def)
  from delayed_append_undoes [OF h(3,1,2) pre] obtain fo2 ok2 where f: "AppendEntries fo1 ?slow = Inr (fo2, ok2)" "Success ok2"
      "\<forall>k. 1 \<le> k \<and> k < length (Entries ex_quick) \<longrightarrow>
       entry_at fo1 (PrevLogIndex ex_quick + 1 + int k) = Some (Entries ex_quick ! k) \<and>
       entry_at fo2 (PrevLogIndex ex_quick + 1 + int k) = None"
    by blast
  from spec [OF f(3), of 1] have "entry_at fo1 2 = Some \<lparr>Term = 1, Command = Some 6\<rparr>" "entry_at fo2 2 = None"
    by (simp_all add: ex_quick_def)
  with h(1) f(1,2) show ?thesis by blast
qed

subsection \<open>A vote in the middle of AppendEntries\<close>

text \<open>
  Peer 0 leads term 1 and sends command 10 to peer 1. Peer 1 has checked the message and gives the
  lock up; the vote request of peer 2 (which has stood in vain in term 1) for term 2 comes in between and is granted, since peer 1's
  log is still empty. Then peer 1 appends the entry of term 1 and acknowledges it, peer 0 commits
  and applies it, and peer 2, now leader, replaces it by command 30.
\<close>

definition interleaved_run :: "((nat option \<times> int) list \<times> (nat option \<times> int) list) go" where
  "interleaved_run =
     (let r1 = newRaft 3 1 MakePersister; r2 = newRaft 3 2 MakePersister in
      go_bind (elected (newRaft 3 0 MakePersister) r1) (\<lambda>(l0, r1).
      let l1 = fst (Start l0 (Some 10)) in
      go_bind (message l1 1) (\<lambda>m.
      go_bind (AppendEntries_check r1 m) (\<lambda>(r1, ph). case ph of AeReply _ \<Rightarrow> Inl LogFatal | AePending ok \<Rightarrow>
      go_bind (elected (fst (the (startElection r2))) r1) (\<lambda>(n0, r1).
      go_bind (AppendEntries_append r1 m) (\<lambda>r1.
      go_bind (acknowledged l1 1 m ok) (\<lambda>l2.
      go_bind (applied l2) (\<lambda>out0.
      let n1 = fst (Start n0 (Some 30)) in
      go_bind (message n1 1) (\<lambda>m'.
      go_bind (AppendEntries r1 m') (\<lambda>(r1, ok').
      go_bind (acknowledged n1 1 m' ok') (\<lambda>n2.
      go_bind (applied n2) (\<lambda>out2.
      Inr (out0, out2)))))))))))))"

text \<open>Two peers hand different commands to their services at index 1.\<close>

theorem interleaved_append_diverges:
  "interleaved_run = Inr ([(Some 10, 1)], [(Some 30, 1)])"
  by code_simp





subsection \<open>Snapshots\<close>

lemma InstallSnapshot_reaches:
  assumes "stepDown (adoptTerm t (wakeApply rf)) = Inr rf3"
  shows "Log rf3 = Log rf" "SnapshotIndex rf3 = SnapshotIndex rf" "commitIndex rf3 = commitIndex rf"
    "lastApplied rf3 = lastApplied rf" "tickers rf3 = tickers rf" "me rf3 = me rf"
  using assms by (auto elim!: stepDown_Inr simp: wakeApply_def adoptTerm_def)

lemma InstallSnapshot_accepts:
  assumes "InstallSnapshot rf args = Inr (rf', reply)" and "CurrentTerm rf \<le> isTerm args"
    and "SnapshotIndex rf < LastIncludedIndex args"
  shows "SnapshotIndex rf' = LastIncludedIndex args \<and> lastApplied rf' = lastApplied rf \<and>
    commitIndex rf' = max (commitIndex rf) (LastIncludedIndex args)"
proof -
  obtain rf3 where sd: "stepDown (adoptTerm (isTerm args) (wakeApply rf)) = Inr rf3"
    using assms(1,2) by (auto simp: InstallSnapshot_def go_inv)
  note fr = InstallSnapshot_reaches [OF sd]
  have ign: "\<not> snapshotIgnored (resetTicker (me rf3) rf3) args"
    using assms(3) by (simp add: snapshotIgnored_def fr)
  have "replaceLog (installData (resetTicker (me rf3) rf3) args) args = Inr rf'"
    using assms(1,2) sd ign by (auto simp: InstallSnapshot_def Let_def go_inv split: if_splits)
  then show ?thesis using assms(3)
    by (elim replaceLog_Inr) (simp add: installData_def resetTicker_def fr)
qed

text \<open>
  Property C20 (the apply loop can hang). Let the applier have given the lock up to hand a command
  out, and let \<open>InstallSnapshot\<close> take over, in the meantime, a snapshot beyond the last applied
  index. When the applier comes back it goes round its loop for ever with the lock held: the branch
  that means to skip the commands changes nothing.
\<close>

theorem applier_hangs_after_snapshot:
  assumes "InstallSnapshot rf args = Inr (rf', reply)" and "CurrentTerm rf \<le> isTerm args"
    and "SnapshotIndex rf < LastIncludedIndex args" and "lastApplied rf < LastIncludedIndex args"
  shows "apply_drain rf' acc = None"
  using apply_drain_spins [of rf' acc] InstallSnapshot_accepts [OF assms(1-3)] assms(4)
  by (cases "apply_drain rf' acc") auto

definition ex_snapshot :: InstallSnapshotArgs where
  "ex_snapshot = \<lparr>isTerm = 2, isLeaderId = 0, LastIncludedIndex = 2, LastIncludedTerm = 2, Data = Some [7]\<rparr>"

definition ex_follower :: "nat raft" where
  \<comment> \<open>a follower that has committed and applied the three entries of its log\<close>
  "ex_follower = (newRaft 3 1 MakePersister)\<lparr>CurrentTerm := 2, Log := ex_log, commitIndex := 3, lastApplied := 3\<rparr>"

theorem applier_hangs_after_snapshot_witness:
  "\<exists>rf' reply. InstallSnapshot (newRaft 3 1 MakePersister :: nat raft) ex_snapshot = Inr (rf', reply) \<and>
     apply_drain rf' [] = None"
proof -
  let ?r = "newRaft 3 1 MakePersister :: nat raft"
  have "\<exists>rf' reply. InstallSnapshot ?r ex_snapshot = Inr (rf', reply)"
    by (simp add: InstallSnapshot_def newRaft_def ex_snapshot_def stepDown_def adoptTerm_def wakeApply_def persist_def
        resetTicker_def snapshotIgnored_def replaceLog_def installData_def snapshotConflict_def idxInLog_def go_index_def)
  then obtain rf' reply where h: "InstallSnapshot ?r ex_snapshot = Inr (rf', reply)" by blast
  have "apply_drain rf' [] = None"
    by (rule applier_hangs_after_snapshot [OF h]) (simp_all add: newRaft_def ex_snapshot_def)
  with h show ?thesis by blast
qed

text \<open>
  Property C19 (a snapshot discards committed entries). A snapshot for an index the follower has
  already passed, with the very term the follower's log has at that index, should leave the rest of
  the log alone. The code compares the term with the entry of the \<open>old\<close> snapshot instead: when
  that one differs, the whole log is dropped, the committed entries above the snapshot with it, and
  the commit index is left pointing past the end of the log.
\<close>

theorem snapshot_drops_committed:
  assumes "wf_raft rf" and "CurrentTerm rf \<le> isTerm args" and "\<not> tickers rf ! me rf"
    and "SnapshotIndex rf < LastIncludedIndex args" and "LastIncludedIndex args < commitIndex rf"
    and "commitIndex rf < Loglen rf" and "Term (Log rf ! 0) \<noteq> LastIncludedTerm args"
  shows "\<exists>rf' reply. InstallSnapshot rf args = Inr (rf', reply) \<and>
    Log rf' = [\<lparr>Term = LastIncludedTerm args, Command = None\<rparr>] \<and> Loglen rf' \<le> commitIndex rf' \<and>
    entry_at rf (commitIndex rf) \<noteq> None \<and> entry_at rf' (commitIndex rf) = None"
proof -
  have "wf_raft (adoptTerm (isTerm args) (wakeApply rf))"
    using assms(1) contract_trans [OF wakeApply_contract adoptTerm_contract, of rf "isTerm args"]
    by (simp add: contract_ok_def)
  then obtain rf3 where sd: "stepDown (adoptTerm (isTerm args) (wakeApply rf)) = Inr rf3"
    using stepDown_total by blast
  note fr = InstallSnapshot_reaches [OF sd]
  define q where "q = installData (resetTicker (me rf) rf3) args"
  have q: "Log q = Log rf" "SnapshotIndex q = SnapshotIndex rf" "commitIndex q = commitIndex rf"
    by (simp_all add: q_def installData_def resetTicker_def fr)
  have "Log rf \<noteq> []" using assms(1) by (simp add: wf_raft_def)
  then have "snapshotConflict q args = Inr True"
    using assms(4,7) by (simp add: snapshotConflict_def idxInLog_def go_index_def q)
  then have "replaceLog q args = Inr (persist (q\<lparr>Log := [\<lparr>Term = LastIncludedTerm args, Command = None\<rparr>],
      SnapshotIndex := LastIncludedIndex args, commitIndex := commitIndex rf\<rparr>))" (is "_ = Inr ?rf'")
    using assms(5) by (simp add: replaceLog_def q)
  moreover have "\<not> snapshotIgnored (resetTicker (me rf) rf3) args"
    using assms(4) by (simp add: snapshotIgnored_def fr)
  ultimately have "InstallSnapshot rf args = Inr (?rf', \<lparr>isrTerm = isTerm args\<rparr>)"
    using assms(2,3) sd by (simp add: InstallSnapshot_def Let_def fr q_def [symmetric])
  then show ?thesis using assms(4-6) by (auto simp: Loglen_def entry_at_def)
qed

theorem snapshot_drops_committed_witness:
  "\<exists>rf' reply. Term (Log ex_follower ! 2) = LastIncludedTerm ex_snapshot \<and>
     InstallSnapshot ex_follower ex_snapshot = Inr (rf', reply) \<and> entry_at rf' 3 = None"
  using snapshot_drops_committed [of ex_follower ex_snapshot]
  by (auto simp: ex_follower_def ex_snapshot_def newRaft_def wf_raft_def ex_log_def Loglen_def)

subsection \<open>The election worker\<close>

lemma quit_idle:
  assumes "reachable n s" and "i \<in> quit s"
  shows "elect s i = None"
  using assms
proof (induction rule: reachable.induct)
  case (step s s')
  from step.hyps(2) step.IH step.prems show ?case
    by (cases rule: cluster_step.cases) (auto split: if_splits)
qed (simp add: init_cluster_def)

text \<open>
  An election worker can be lost. When the timer aborts an election that ends by itself
  at that moment, the abort token stays behind, and \<open>ElectionWorker\<close>, back in its outer \<open>select\<close>, may
  take it and return for good. From then on no step of the cluster makes the peer run or win an
  election; only a restart of the peer brings the worker back. (In the witness the peer is alive
  and follows.)
\<close>

theorem quit_worker_never_elects:
  assumes "reachable n s" and "i \<in> quit s" and "cluster_step n s s'"
  shows "(\<forall>t. (t, i) \<in> leads s' \<longleftrightarrow> (t, i) \<in> leads s) \<and> elect s' i = None \<and>
    (i \<in> quit s' \<or> Make n i (Copy (persister (srv s i))) = Inr (srv s' i))"
  using assms(3) quit_idle [OF assms(1,2)] assms(2)
  by (cases rule: cluster_step.cases) (auto split: if_splits)

lemma quitting_run: "\<exists>s :: nat cluster. reachable 3 s \<and> 0 \<in> quit s \<and> \<not> dead (srv s 0) \<and> state (srv s 0) = Follower"
proof -
  define s0 :: "nat cluster" where "s0 = init_cluster 3"
  obtain r0 where r0: "startElection (srv s0 0) = Some (r0, 1)" "state r0 = Candidate" "CurrentTerm r0 = 1"
      "Log r0 = [\<lparr>Term = 0, Command = None\<rparr>]" "SnapshotIndex r0 = 0" "\<not> dead r0"
    by (auto simp: s0_def init_cluster_def startElection_def newRaft_def Let_def Loglen_def persist_def)
  define s1 where "s1 = (setSrv 0 r0 s0)
       \<lparr>gvote := (gvote s0)(0 := (gvote s0 0)(1 := (\<lambda>p. if p < 3 \<and> p \<noteq> 0 then GvSpawned else GvNone))),
        elect := (elect s0)(0 := Some \<lparr>ElectionTerm = 1, voteCount = 1, received = 0, voters = {0}\<rparr>),
        grants := insert (0, 1, 0) (grants s0)\<rparr>"
  have s1: "reachable 3 s1" unfolding s1_def
    by (rule reachable.step [OF reachable.init], fold s0_def, rule cluster_step.election_start)
       (simp_all add: r0, simp_all add: s0_def init_cluster_def)
  define r1 where "r1 = r0\<lparr>ElectionAbort := True\<rparr>"
  have "tickerFire r0 = (r1, True)" by (simp add: tickerFire_def r0 r1_def)
  then have s2: "reachable 3 (setSrv 0 r1 s1)"
    by (intro reachable.step [OF s1 cluster_step.peer_local] local_step.plain plain_step.ticker_fire) (simp_all add: s1_def)
  obtain r2 reply where r2: "RequestVote r1 (ex_args\<lparr>rvTerm := 2\<rparr>) = Inr (r2, reply)" "CurrentTerm r2 = 2"
      "state r2 = Follower" "ElectionAbort r2" "\<not> dead r2"
    by (auto simp: RequestVote_def r1_def r0 ex_args_def stepDown_def voteRejected_def
        resetTicker_def persist_def Loglen_def)
  define s3 where "s3 = setSrv 0 r2 (setSrv 0 r1 s1)"
  have s3: "reachable 3 s3" unfolding s3_def
    using local_step.plain [OF plain_step.request_vote [OF r2(1)]] by (intro reachable.step [OF s2 cluster_step.peer_local]) simp_all
  define s4 where "s4 = s3\<lparr>elect := (elect s3)(0 := None)\<rparr>"
  have s4: "reachable 3 s4" unfolding s4_def
    by (rule reachable.step [OF s3 cluster_step.election_stale
          [of _ _ _ "\<lparr>ElectionTerm = 1, voteCount = 1, received = 0, voters = {0}\<rparr>"]])
       (simp_all add: s3_def s1_def r2)
  have "cluster_step 3 s4 ((setSrv 0 (workerQuit (srv s4 0)) s4)\<lparr>quit := insert 0 (quit s4)\<rparr>)"
    by (rule cluster_step.worker_quits) (simp_all add: s4_def s3_def r2)
  from reachable.step [OF s4 this] show ?thesis
    by (intro exI conjI) (assumption, simp_all add: s4_def s3_def workerQuit_def r2)
qed

theorem quit_worker_never_elects_witness:
  "\<exists>s :: nat cluster. reachable 3 s \<and> 0 \<in> quit s \<and> \<not> dead (srv s 0) \<and> state (srv s 0) = Follower \<and>
     (\<forall>s'. cluster_step 3 s s' \<longrightarrow> elect s' 0 = None \<and> (\<forall>t. (t, 0) \<in> leads s' \<longrightarrow> (t, 0) \<in> leads s))"
proof -
  obtain s :: "nat cluster" where s: "reachable 3 s" "0 \<in> quit s" "\<not> dead (srv s 0)" "state (srv s 0) = Follower"
    using quitting_run by blast
  with quit_worker_never_elects [OF s(1,2)] show ?thesis by blast
qed

end
