(* ===== verification/Raft_Log.thy ===== *)
theory Raft_Log
  imports Raft_Replication
begin

text \<open>
  What happens to the log of a peer over whole runs: the shape of the state, committed entries, and the log of
  a leader. The steps are those of \<open>Raft_Peer\<close>, every critical section of \<open>src/raft1/raft.go\<close> in any order with
  any messages.
\<close>

subsection \<open>What a step may do to the log\<close>

definition bounded :: "'c raft \<Rightarrow> bool" where
  "bounded rf \<longleftrightarrow> commitIndex rf < Loglen rf"

definition keeps :: "'c raft \<Rightarrow> 'c raft \<Rightarrow> bool" where
  \<comment> \<open>the commit index does not fall, and what was committed and is not in a snapshot stays\<close>
  "keeps rf rf' \<longleftrightarrow> commitIndex rf \<le> commitIndex rf' \<and> SnapshotIndex rf \<le> SnapshotIndex rf' \<and>
     (\<forall>i. SnapshotIndex rf' < i \<longrightarrow> i \<le> commitIndex rf \<longrightarrow> entry_at rf' i = entry_at rf i)"

definition extends :: "'c raft \<Rightarrow> 'c raft \<Rightarrow> bool" where
  \<comment> \<open>no entry above the snapshot is changed or removed\<close>
  "extends rf rf' \<longleftrightarrow> SnapshotIndex rf \<le> SnapshotIndex rf' \<and>
     (\<forall>i. SnapshotIndex rf' < i \<longrightarrow> entry_at rf i \<noteq> None \<longrightarrow> entry_at rf' i = entry_at rf i)"

definition same_log :: "'c raft \<Rightarrow> 'c raft \<Rightarrow> bool" where
  "same_log rf rf' \<longleftrightarrow> Log rf' = Log rf \<and> SnapshotIndex rf' = SnapshotIndex rf"

lemma same_log_refl [simp]: "same_log rf rf"
  by (simp add: same_log_def)

lemma same_log_trans: "same_log rf rf1 \<Longrightarrow> same_log rf1 rf2 \<Longrightarrow> same_log rf rf2"
  by (simp add: same_log_def)

lemma same_log_extends: "same_log rf rf' \<Longrightarrow> extends rf rf'"
  by (simp add: same_log_def extends_def entry_at_def Loglen_def)

lemma extends_trans: "extends rf rf1 \<Longrightarrow> extends rf1 rf2 \<Longrightarrow> extends rf rf2"
  unfolding extends_def by (metis order.trans le_less_trans)

lemma keeps_trans:
  assumes "keeps rf rf1" and "keeps rf1 rf2"
  shows "keeps rf rf2"
  using assms unfolding keeps_def by (smt (verit, ccfv_threshold))

lemma same_log_keeps:
  assumes "same_log rf rf'" and "commitIndex rf \<le> commitIndex rf'"
  shows "keeps rf rf'"
  using assms by (simp add: same_log_def keeps_def entry_at_def Loglen_def)

definition logStep :: "'c raft \<Rightarrow> 'c raft \<Rightarrow> bool" where
  \<comment> \<open>what every step does that does not take a snapshot over\<close>
  "logStep rf rf' \<longleftrightarrow> (bounded rf \<longrightarrow> bounded rf' \<and> keeps rf rf')"

lemma logStep_frame: "same_log rf rf' \<Longrightarrow> commitIndex rf' = commitIndex rf \<Longrightarrow> logStep rf rf'"
  by (simp add: logStep_def same_log_keeps) (simp add: bounded_def same_log_def Loglen_def)

lemma logStep_trans: "logStep rf rf1 \<Longrightarrow> logStep rf1 rf2 \<Longrightarrow> logStep rf rf2"
  unfolding logStep_def using keeps_trans by metis

lemma persist_frame [simp]: "same_log rf (persist rf)" "same_log rf (wakeApply rf)" "same_log rf (resetTicker i rf)"
  by (simp_all add: same_log_def wakeApply_def resetTicker_def)

lemma stepDown_log: "stepDown rf = Inr rf' \<Longrightarrow> same_log rf rf' \<and> commitIndex rf' = commitIndex rf"
  by (elim stepDown_Inr) (simp add: same_log_def)

lemma RequestVote_log: "RequestVote rf args = Inr (rf', reply) \<Longrightarrow> same_log rf rf' \<and> commitIndex rf' = commitIndex rf"
  by (auto simp: RequestVote_def go_inv same_log_def resetTicker_def dest!: stepDown_log split: if_splits)

lemma advanceCommit_log: "same_log rf (advanceCommit args rf)"
  by (simp add: advanceCommit_def same_log_def wakeApply_def)

lemma advanceCommit_logStep: "logStep rf (advanceCommit args rf)"
proof -
  have "bounded rf \<Longrightarrow> commitIndex rf \<le> commitIndex (advanceCommit args rf) \<and> commitIndex (advanceCommit args rf) < Loglen rf"
    by (auto simp: advanceCommit_def wakeApply_def bounded_def)
  moreover have "Loglen (advanceCommit args rf) = Loglen rf" using advanceCommit_log [of rf args] by (simp add: same_log_def Loglen_def)
  ultimately show ?thesis using same_log_keeps [OF advanceCommit_log, of rf args] by (auto simp: logStep_def bounded_def)
qed

lemma AppendEntries_check_log:
  assumes "AppendEntries_check rf args = Inr (rf', ph)"
  shows "same_log rf rf' \<and> logStep rf rf'"
proof (cases "aeTerm args < CurrentTerm rf")
  case True with assms show ?thesis by (simp add: AppendEntries_check_def logStep_frame)
next
  case False
  let ?r = "\<lambda>rf1. resetTicker (me (adoptTerm (aeTerm args) rf1)) (adoptTerm (aeTerm args) rf1)"
  from False assms obtain rf1 where sd: "stepDown rf = Inr rf1" and rf': "rf' = ?r rf1 \<or> rf' = advanceCommit args (?r rf1)"
    by (auto simp: AppendEntries_check_def go_inv Let_def split: if_splits option.splits)
  have r: "same_log rf (?r rf1) \<and> commitIndex (?r rf1) = commitIndex rf"
    using stepDown_log [OF sd] by (simp add: same_log_def resetTicker_def adoptTerm_def)
  then have "logStep rf (?r rf1)" by (simp add: logStep_frame)
  with r rf' show ?thesis
    by (auto intro: same_log_trans [OF _ advanceCommit_log] logStep_trans [OF _ advanceCommit_logStep])
qed

lemma replaced_tail_keeps:
  assumes "bounded rf" and "l = take n (Log rf) @ es" and "commitIndex rf - SnapshotIndex rf < int n" and "n \<le> length (Log rf)"
  shows "bounded (persist (rf\<lparr>Log := l\<rparr>)) \<and> keeps rf (persist (rf\<lparr>Log := l\<rparr>))"
proof -
  have "entry_at (persist (rf\<lparr>Log := l\<rparr>)) i = entry_at rf i" if "SnapshotIndex rf < i" "i \<le> commitIndex rf" for i
    using that assms by (auto simp: entry_at_def Loglen_def bounded_def nth_append)
  moreover have "bounded (persist (rf\<lparr>Log := l\<rparr>))" using assms by (auto simp: bounded_def Loglen_def)
  ultimately show ?thesis by (simp add: keeps_def)
qed

lemma AppendEntries_append_step:
  assumes "AppendEntries_append rf args = Inr rf'"
  shows "logStep rf rf'"
proof -
  have tail: "logStep rf (advanceCommit args (persist (rf\<lparr>Log := take n (Log rf) @ es\<rparr>)))"
    if "commitIndex rf - SnapshotIndex rf < int n" "n \<le> length (Log rf)" for n es
    by (rule logStep_trans [OF _ advanceCommit_logStep]) (use replaced_tail_keeps that in \<open>auto simp: logStep_def\<close>)
  show ?thesis
  proof (cases "commitIndex rf > PrevLogIndex args")
    case True
    show ?thesis
    proof (cases "int (length (Entries args)) \<le> commitIndex rf - PrevLogIndex args")
      case False
      with True assms have "rf' = advanceCommit args (persist (rf\<lparr>Log := take (nat (commitIndex rf + 1 - SnapshotIndex rf)) (Log rf) @
            drop (nat (commitIndex rf - PrevLogIndex args)) (Entries args)\<rparr>))" "0 \<le> commitIndex rf + 1 - SnapshotIndex rf"
          "commitIndex rf + 1 - SnapshotIndex rf \<le> int (length (Log rf))"
        by (auto simp: AppendEntries_append_def go_inv)
      then show ?thesis by (auto intro!: tail)
    qed (use True assms in \<open>simp add: AppendEntries_append_def logStep_frame\<close>)
  next
    case False
    then have "rf' = advanceCommit args (persist (rf\<lparr>Log := take (nat (PrevLogIndex args + 1 - SnapshotIndex rf)) (Log rf) @ Entries args\<rparr>))"
        "0 \<le> PrevLogIndex args + 1 - SnapshotIndex rf" "PrevLogIndex args + 1 - SnapshotIndex rf \<le> int (length (Log rf))"
      using assms by (auto simp: AppendEntries_append_def go_inv)
    then show ?thesis using False by (auto intro!: tail)
  qed
qed

definition dropping :: "'c raft \<Rightarrow> InstallSnapshotArgs \<Rightarrow> bool" where
  \<comment> \<open>the snapshot is taken over, it lies below the commit index, and the entry at position 0 is of another term\<close>
  "dropping rf args \<longleftrightarrow> CurrentTerm rf \<le> isTerm args \<and> \<not> snapshotIgnored rf args \<and>
     SnapshotIndex rf \<le> LastIncludedIndex args \<and> LastIncludedIndex args < commitIndex rf \<and>
     Term (Log rf ! 0) \<noteq> LastIncludedTerm args"

lemma replaceLog_log:
  assumes "replaceLog rf args = Inr rf'"
    and "SnapshotIndex rf \<le> LastIncludedIndex args \<Longrightarrow> LastIncludedIndex args < commitIndex rf \<Longrightarrow>
      Term (Log rf ! 0) = LastIncludedTerm args"
  shows "logStep rf rf'"
proof -
  let ?x = "LastIncludedIndex args"
  obtain l where l: "rf' = persist (rf\<lparr>Log := l, SnapshotIndex := ?x, commitIndex := max (commitIndex rf) ?x\<rparr>)"
      "length l = 1 \<and> (Loglen rf \<le> ?x \<or> SnapshotIndex rf \<le> ?x \<and> Term (Log rf ! 0) \<noteq> LastIncludedTerm args) \<or>
       SnapshotIndex rf \<le> ?x \<and> ?x < Loglen rf \<and> l = drop (nat (?x - SnapshotIndex rf)) (Log rf)"
    using assms(1)
    by (auto simp: replaceLog_def snapshotConflict_def idxInLog_def Loglen_def go_inv go_index_def split: if_splits)
  show ?thesis
  proof (cases "SnapshotIndex rf \<le> ?x \<and> ?x < Loglen rf \<and> l = drop (nat (?x - SnapshotIndex rf)) (Log rf)")
    case True
    have "entry_at rf' i = entry_at rf i" if "?x < i" for i
    proof -
      have "nat (?x - SnapshotIndex rf) + nat (i - ?x) = nat (i - SnapshotIndex rf)" using that True by auto
      then show ?thesis using that True by (auto simp: entry_at_def l(1) Loglen_def)
    qed
    then show ?thesis using True by (auto simp: l(1) logStep_def bounded_def keeps_def Loglen_def)
  next
    case False
    have "\<not> ?x < commitIndex rf" if "SnapshotIndex rf \<le> ?x" "Term (Log rf ! 0) \<noteq> LastIncludedTerm args"
      using that assms(2) by blast
    then have "length l = 1" "commitIndex rf \<le> ?x" "SnapshotIndex rf \<le> ?x" if "bounded rf"
      using False that l(2) by (auto simp: bounded_def Loglen_def)
    then show ?thesis by (auto simp: l(1) logStep_def bounded_def keeps_def Loglen_def)
  qed
qed

lemma InstallSnapshot_log:
  assumes "InstallSnapshot rf args = Inr (rf', reply)" and "\<not> dropping rf args"
  shows "logStep rf rf'"
proof (cases "isTerm args < CurrentTerm rf")
  case True with assms show ?thesis by (simp add: InstallSnapshot_def logStep_frame)
next
  case False
  then obtain rf3 where sd: "stepDown (adoptTerm (isTerm args) (wakeApply rf)) = Inr rf3"
    using assms(1) by (auto simp: InstallSnapshot_def go_inv)
  define q where "q = resetTicker (me rf3) rf3"
  have q: "same_log rf q" "commitIndex q = commitIndex rf"
    "SnapshotByte q = SnapshotByte rf" "SnapshotTerm q = SnapshotTerm rf"
    using sd by (auto simp: q_def same_log_def adoptTerm_def wakeApply_def resetTicker_def elim!: stepDown_Inr)
  then have ign: "snapshotIgnored q args = snapshotIgnored rf args" by (simp add: snapshotIgnored_def same_log_def)
  show ?thesis
  proof (cases "snapshotIgnored rf args")
    case True
    then have "rf' = q" using assms(1) False sd ign by (auto simp: InstallSnapshot_def Let_def q_def split: if_splits)
    then show ?thesis using q by (simp add: logStep_frame)
  next
    case taken: False
    let ?r = "installData q args"
    have r: "same_log rf ?r" "commitIndex ?r = commitIndex rf" using q by (simp_all add: same_log_def installData_def)
    have "replaceLog ?r args = Inr rf'"
      using assms(1) False sd ign taken by (auto simp: InstallSnapshot_def Let_def q_def go_inv split: if_splits)
    then have "logStep ?r rf'"
      by (rule replaceLog_log) (use assms(2) False taken r in \<open>auto simp: dropping_def same_log_def\<close>)
    then show ?thesis using r logStep_trans logStep_frame by blast
  qed
qed

lemma Snapshot_log:
  assumes "Snapshot rf index snap = Inr rf'"
  shows "logStep rf rf' \<and> extends rf rf'"
proof (cases "SnapshotIndex rf \<ge> index \<or> index > Loglen rf - 1")
  case True
  with assms show ?thesis by (auto simp: Snapshot_def logStep_frame same_log_extends)
next
  case False
  then have rf': "Log rf' = drop (nat (index - SnapshotIndex rf)) (Log rf)" "SnapshotIndex rf' = index" "commitIndex rf' = max (commitIndex rf) index"
    using assms by (auto simp: Snapshot_def go_inv Let_def)
  have "entry_at rf' i = entry_at rf i" if "index < i" for i
  proof -
    have "nat (index - SnapshotIndex rf) + nat (i - index) = nat (i - SnapshotIndex rf)" using that False by auto
    then show ?thesis using that False by (auto simp: entry_at_def rf' Loglen_def)
  qed
  then show ?thesis using False by (auto simp: rf' logStep_def bounded_def keeps_def extends_def Loglen_def)
qed

lemma Start_log:
  assumes "Start rf c = (rf', res)"
  shows "logStep rf rf' \<and> extends rf rf'"
proof -
  have "entry_at (persist (rf\<lparr>Log := Log rf @ [e]\<rparr>)) i = entry_at rf i" if "entry_at rf i \<noteq> None" for i e
    using that by (auto simp: entry_at_def Loglen_def nth_append split: if_splits)
  moreover have "entry_at rf i \<noteq> None" if "bounded rf" "SnapshotIndex rf < i" "i \<le> commitIndex rf" for i
    using that by (simp add: entry_at_def bounded_def)
  ultimately show ?thesis using assms
    by (auto simp: Start_def logStep_def extends_def keeps_def same_log_extends split: if_splits) (auto simp: bounded_def Loglen_def)
qed

lemma apply_loop_log: "apply_loop rf = Inr (rf', res) \<Longrightarrow> same_log rf rf' \<and> commitIndex rf' = commitIndex rf"
  by (auto simp: apply_loop_def go_inv Let_def same_log_def split: if_splits)

lemma apply_commit_log:
  assumes "apply_commit rf = Inr (rf', res)"
  shows "same_log rf rf' \<and> logStep rf rf'"
proof -
  have up: "same_log rf (rf\<lparr>commitIndex := minMatchIndex rf\<rparr>) \<and> logStep rf (rf\<lparr>commitIndex := minMatchIndex rf\<rparr>)"
    if "commitIndex rf < minMatchIndex rf" "idxInLog rf (minMatchIndex rf) < int (length (Log rf))"
    using that same_log_keeps [of rf "rf\<lparr>commitIndex := minMatchIndex rf\<rparr>"]
    by (simp add: same_log_def logStep_def bounded_def Loglen_def idxInLog_def)
  from assms consider "rf' = rf" | "apply_loop rf = Inr (rf', res)"
    | "commitIndex rf < minMatchIndex rf" "idxInLog rf (minMatchIndex rf) < int (length (Log rf))" "apply_loop (rf\<lparr>commitIndex := minMatchIndex rf\<rparr>) = Inr (rf', res)"
    by (auto simp: apply_commit_def go_inv split: if_splits)
  then show ?thesis
  proof cases
    case 3
    from apply_loop_log [OF 3(3)] have "same_log (rf\<lparr>commitIndex := minMatchIndex rf\<rparr>) rf' \<and> logStep (rf\<lparr>commitIndex := minMatchIndex rf\<rparr>) rf'"
      by (simp add: logStep_frame)
    with up [OF 3(1,2)] show ?thesis by (blast intro: same_log_trans logStep_trans)
  qed (use apply_loop_log in \<open>auto simp: logStep_frame\<close>)
qed

lemma apply_prefix_log:
  assumes "apply_commit (rf\<lparr>notifyApply := b, lastApplied := n\<rparr>) = Inr (rf', res)"
  shows "same_log rf rf' \<and> logStep rf rf'"
proof -
  have "same_log rf (rf\<lparr>notifyApply := b, lastApplied := n\<rparr>)" "logStep rf (rf\<lparr>notifyApply := b, lastApplied := n\<rparr>)"
    by (simp_all add: same_log_def logStep_frame)
  with apply_commit_log [OF assms] show ?thesis by (blast intro: same_log_trans logStep_trans)
qed

lemma apply_log:
  "apply_wake rf = Inr (rf', res) \<Longrightarrow> same_log rf rf' \<and> logStep rf rf'"
  "apply_snap_done si rf = Inr (rf', res) \<Longrightarrow> same_log rf rf' \<and> logStep rf rf'"
  using apply_prefix_log [where rf = rf and b = False and n = "lastApplied rf" and rf' = rf' and res = res]
    apply_prefix_log [where rf = rf and b = "notifyApply rf" and n = "max (lastApplied rf) si" and rf' = rf' and res = res]
  by (auto simp: apply_wake_def apply_snap_done_def Let_def same_log_def logStep_frame split: if_splits)

lemma sender_log:
  "sendPrepare rf i wt wc isRetry = Inr (rf', act) \<Longrightarrow> same_log rf rf' \<and> commitIndex rf' = commitIndex rf"
  "sendAE_reply rf i ae wc reply = Inr rf' \<Longrightarrow> same_log rf rf' \<and> commitIndex rf' = commitIndex rf"
  "same_log rf (sendIS_reply rf i t wc isreply) \<and> commitIndex (sendIS_reply rf i t wc isreply) = commitIndex rf"
  by (auto simp: sendPrepare_def sendAE_prepare_def sendAE_reply_def sendAE_success_def sendAE_failure_def
      sendIS_reply_def leaderDemoted_def wakeApply_def resetTicker_def same_log_def go_inv Let_def split: if_splits)

lemma election_log:
  "startElection rf = Some (rf', et) \<Longrightarrow> same_log rf rf' \<and> commitIndex rf' = commitIndex rf"
  "countVote rf et vc reply = (rf', out) \<Longrightarrow> same_log rf rf' \<and> commitIndex rf' = commitIndex rf"
  by (auto simp: startElection_def countVote_def winElection_def resetTicker_def same_log_def Let_def split: if_splits)

lemma framed: "same_log rf rf' \<Longrightarrow> commitIndex rf' = commitIndex rf \<Longrightarrow> extends rf rf' \<and> logStep rf rf'"
  by (simp add: same_log_extends logStep_frame)

lemma plain_step_log:
  assumes "plain_step rf rf'"
  shows "extends rf rf' \<and> logStep rf rf'"
  using assms
proof (cases rule: plain_step.cases)
  case (request_vote args reply) then show ?thesis using RequestVote_log framed by blast
next
  case (append_check args' ph) then show ?thesis using AppendEntries_check_log same_log_extends by blast
next
  case (take_snapshot index snap) then show ?thesis using Snapshot_log by blast
next
  case (start_command command res) then show ?thesis using Start_log by blast
next
  case (send_prepare i wt wc isRetry act) then show ?thesis using sender_log(1) framed by blast
next
  case (send_is_reply i t wc isreply) then show ?thesis using sender_log(3) framed by blast
next
  case (send_ae_reply i args' wc aereply) then show ?thesis using sender_log(2) framed by blast
next
  case (apply_wake res') then show ?thesis using apply_log(1) same_log_extends by blast
next
  case (apply_snap si res') then show ?thesis using apply_log(2) same_log_extends by blast
next
  case (apply_round res') then show ?thesis using apply_loop_log framed by blast
qed (rule framed;
      auto simp: same_log_def Kill_def drainRst_def tickerFire_def heartbeatFire_def wakeApply_def abortElection_def endElection_def
        workerQuit_def sendGuard_def awaitNotify_def sendFailed_def boardcast_begin_def cancelCtx_def boardcast_one_def resetTicker_def
        go_inv Let_def split: if_splits option.splits)+

subsection \<open>Committed entries\<close>

inductive gentle_step :: "'c raft \<Rightarrow> 'c raft \<Rightarrow> bool" where
  \<comment> \<open>the steps of a peer, but for the take-over of a snapshot that drops committed entries\<close>
  plain: "plain_step rf rf' \<Longrightarrow> gentle_step rf rf'"
| append_append: "Entries args \<noteq> [] \<Longrightarrow> AppendEntries_append rf args = Inr rf' \<Longrightarrow> gentle_step rf rf'"
| install_snapshot: "InstallSnapshot rf isargs = Inr (rf', reply) \<Longrightarrow> \<not> dropping rf isargs \<Longrightarrow> gentle_step rf rf'"
| start_election: "startElection rf = Some (rf', et) \<Longrightarrow> gentle_step rf rf'"
| count_vote: "countVote rf et vc rvreply = (rf', out) \<Longrightarrow> gentle_step rf rf'"

lemma gentle_step_covers:
  "peer_step rf rf' \<longleftrightarrow> gentle_step rf rf' \<or> (\<exists>args reply. InstallSnapshot rf args = Inr (rf', reply) \<and> dropping rf args)"
  by (auto elim!: peer_step.cases local_step.cases gentle_step.cases
      intro: peer_step.intros local_step.intros gentle_step.intros)

lemma gentle_step_log: "gentle_step rf rf' \<Longrightarrow> logStep rf rf'"
  by (cases rule: gentle_step.cases)
     (use plain_step_log AppendEntries_append_step InstallSnapshot_log election_log framed in blast)+

text \<open>
  Property C4 (committed entries stay). Take any run of a peer, every critical section in any order with any messages,
  from a state whose commit index is within its log, as it is after \<open>Make\<close>. One step is left out: an \<open>InstallSnapshot\<close> that
  is neither stale nor ignored, for an index below the commit index, whose term is not that of the first entry of the log;
  it drops what is committed above the snapshot. Over every other run the commit index stays within the log and never
  falls, the snapshot index never falls, and every committed entry that is not covered by the snapshot is still there,
  unchanged.
\<close>

theorem committed_prefix_stays:
  assumes "gentle_step\<^sup>*\<^sup>* rf rf'" and "commitIndex rf < Loglen rf"
  shows "commitIndex rf' < Loglen rf' \<and> commitIndex rf \<le> commitIndex rf' \<and> SnapshotIndex rf \<le> SnapshotIndex rf' \<and>
    (\<forall>i. SnapshotIndex rf' < i \<and> i \<le> commitIndex rf \<longrightarrow> entry_at rf' i = entry_at rf i)"
proof -
  have "logStep rf rf'" using assms(1)
    by (induction rule: rtranclp_induct) (auto intro: logStep_frame logStep_trans gentle_step_log)
  then show ?thesis using assms(2) by (auto simp: logStep_def bounded_def keeps_def)
qed

lemma InstallSnapshot_stays_leader:
  assumes "InstallSnapshot rf sn = Inr (rf', reply)" and "state rf' = Leader"
  shows "rf' = rf"
proof (cases "isTerm sn < CurrentTerm rf")
  case True with assms show ?thesis by (simp add: InstallSnapshot_def)
next
  case False
  then have "isTerm sn \<ge> CurrentTerm rf" by simp
  with assms(1) have "state rf' = Follower"
  proof (cases rule: InstallSnapshot_Inr)
    case (1 rf3) then show ?thesis by (auto dest: stepDown_state)
  next
    case (2 rf3)
    from 2(2) show ?thesis by (elim replaceLog_Inr) (auto simp: stepDown_state [OF 2(1)])
  qed
  with assms(2) show ?thesis by simp
qed

theorem committed_prefix_stays_witness:
  "\<exists>rf' :: nat raft. gentle_step\<^sup>*\<^sup>* (ex_leader\<lparr>commitIndex := 1\<rparr>) rf' \<and> Loglen rf' = 3 \<and> 1 \<le> commitIndex rf' \<and>
     entry_at rf' 1 = Some \<lparr>Term = 1, Command = Some 5\<rparr>"
proof -
  let ?r = "ex_leader\<lparr>commitIndex := 1\<rparr>"
  let ?r' = "fst (Start ?r (Some 6))"
  have live: "\<not> dead ?r"
    by (simp add: ex_leader_def Start_def killed_def winElection_def newRaft_def persist_def resetTicker_def)
  have run: "gentle_step\<^sup>*\<^sup>* ?r ?r'" 
    by (rule r_into_rtranclp, rule gentle_step.plain, rule plain_step.start_command, rule prod.collapse [symmetric])
  have shape: "SnapshotIndex ?r' = 0" "Loglen ?r' = 3" using live by (simp_all add: Start_def killed_def Loglen_def)
  have "commitIndex ?r < Loglen ?r" by (simp add: Loglen_def)
  from committed_prefix_stays [OF run this] have "1 \<le> commitIndex ?r'" "entry_at ?r' 1 = entry_at ?r 1"
    by (simp_all add: shape(1))
  with run shape(2) show ?thesis by (intro exI [of _ ?r']) (simp add: entry_at_def Loglen_def)
qed

subsection \<open>The log of a leader\<close>

definition cuts :: "'c raft \<Rightarrow> 'c AppendEntriesArgs \<Rightarrow> bool" where
  \<comment> \<open>the message reaches beyond the commit index, and what the log has behind the place where
     \<open>AppendEntries_append\<close> cuts it is not how the rest of the message begins\<close>
  "cuts rf args =
     (let b = max (commitIndex rf) (PrevLogIndex args);
          tail = drop (nat (b + 1 - SnapshotIndex rf)) (Log rf);
          es = drop (nat (b - PrevLogIndex args)) (Entries args)
      in commitIndex rf < PrevLogIndex args + int (length (Entries args)) \<and> take (length tail) es \<noteq> tail)"

inductive lead_step :: "'c raft \<Rightarrow> 'c raft \<Rightarrow> bool" where
  \<comment> \<open>the steps of a peer that is leader before and after them, but for a second half that cuts the log\<close>
  plain: "plain_step rf rf' \<Longrightarrow> state rf = Leader \<Longrightarrow> state rf' = Leader \<Longrightarrow> lead_step rf rf'"
| append_append: "Entries args \<noteq> [] \<Longrightarrow> AppendEntries_append rf args = Inr rf' \<Longrightarrow> \<not> cuts rf args \<Longrightarrow>
    state rf = Leader \<Longrightarrow> lead_step rf rf'"
| install_snapshot: "InstallSnapshot rf isargs = Inr (rf', reply) \<Longrightarrow> state rf = Leader \<Longrightarrow> state rf' = Leader \<Longrightarrow> lead_step rf rf'"
| start_election: "startElection rf = Some (rf', et) \<Longrightarrow> state rf = Leader \<Longrightarrow> state rf' = Leader \<Longrightarrow> lead_step rf rf'"
| count_vote: "countVote rf et vc rvreply = (rf', out) \<Longrightarrow> state rf = Leader \<Longrightarrow> state rf' = Leader \<Longrightarrow> lead_step rf rf'"

lemma lead_step_covers:
  assumes "peer_step rf rf'" and "state rf = Leader" and "state rf' = Leader"
  shows "lead_step rf rf' \<or> (\<exists>args. Entries args \<noteq> [] \<and> AppendEntries_append rf args = Inr rf' \<and> cuts rf args)"
  using assms by (auto elim!: peer_step.cases local_step.cases intro: lead_step.intros)

lemma grown_extends:
  assumes "take (length (drop n (Log rf))) es = drop n (Log rf)"
  shows "extends rf (advanceCommit args (persist (rf\<lparr>Log := take n (Log rf) @ es\<rparr>)))"
proof -
  obtain ys where "es = drop n (Log rf) @ ys" using assms by (metis append_take_drop_id)
  then have l: "take n (Log rf) @ es = Log rf @ ys" by simp
  have "entry_at (advanceCommit args (persist (rf\<lparr>Log := Log rf @ ys\<rparr>))) i = entry_at rf i" if "entry_at rf i \<noteq> None" for i
    using that by (auto simp: entry_at_def Loglen_def nth_append split: if_splits)
  then show ?thesis by (simp add: l extends_def)
qed

lemma AppendEntries_append_extends:
  assumes "AppendEntries_append rf args = Inr rf'" and "Entries args \<noteq> []" and "\<not> cuts rf args"
  shows "extends rf rf'"
proof (cases "commitIndex rf > PrevLogIndex args")
  case True
  show ?thesis
  proof (cases "int (length (Entries args)) \<le> commitIndex rf - PrevLogIndex args")
    case False
    with True assms show ?thesis
      by (auto simp: AppendEntries_append_def go_inv cuts_def Let_def max_def intro!: grown_extends)
  qed (use True assms in \<open>simp add: AppendEntries_append_def same_log_extends\<close>)
next
  case False
  then have "commitIndex rf < PrevLogIndex args + int (length (Entries args))" using assms(2) by (cases "Entries args") auto
  with False assms show ?thesis
    by (auto simp: AppendEntries_append_def go_inv cuts_def Let_def max_def intro!: grown_extends)
qed

lemma lead_step_extends:
  assumes "lead_step rf rf'"
  shows "extends rf rf'"
  using assms
proof (cases rule: lead_step.cases)
  case (append_append args) then show ?thesis by (blast intro: AppendEntries_append_extends)
next
  case (install_snapshot isargs reply)
  then show ?thesis using InstallSnapshot_stays_leader same_log_extends same_log_refl by blast
qed (use plain_step_log election_log framed in blast)+

lemma lead_step_term:
  assumes "lead_step rf rf'"
  shows "CurrentTerm rf' = CurrentTerm rf"
  using assms
proof (cases rule: lead_step.cases)
  case plain then show ?thesis using plain_step_leader by blast
next
  case append_append then show ?thesis using AppendEntries_append_state by blast
next
  case install_snapshot then show ?thesis using InstallSnapshot_leader by blast
qed (auto simp: startElection_def countVote_def winElection_def resetTicker_def Let_def split: if_splits)

text \<open>
  Property C15 (a leader appends only). While a peer goes from leader to leader, in any number of
  critical sections with any messages, it stays in its term and neither changes nor removes an entry
  of its log above its snapshot. The one step left out is the second half of an \<open>AppendEntries\<close> call
  whose message disagrees with the log where it cuts it: the call was accepted before the peer
  became leader and gets the lock back only now, without looking at the term again.
\<close>

theorem leader_append_only:
  assumes "lead_step\<^sup>*\<^sup>* rf rf'"
  shows "CurrentTerm rf' = CurrentTerm rf \<and> SnapshotIndex rf \<le> SnapshotIndex rf' \<and>
    (\<forall>i. SnapshotIndex rf' < i \<and> entry_at rf i \<noteq> None \<longrightarrow> entry_at rf' i = entry_at rf i)"
proof -
  have "extends rf rf' \<and> CurrentTerm rf' = CurrentTerm rf"
    using assms
  proof (induction rule: rtranclp_induct)
    case base then show ?case by (simp add: same_log_extends)
  next
    case (step y z)
    then show ?case using lead_step_term [OF step.hyps(2)] extends_trans lead_step_extends [OF step.hyps(2)] by metis
  qed
  then show ?thesis by (auto simp: extends_def)
qed

theorem leader_append_only_witness:
  "lead_step\<^sup>*\<^sup>* ex_leader (fst (Start ex_leader (Some 6))) \<and> CurrentTerm (fst (Start ex_leader (Some 6))) = 1 \<and>
   entry_at (fst (Start ex_leader (Some 6))) 1 = Some \<lparr>Term = 1, Command = Some 5\<rparr>"
proof -
  let ?r' = "fst (Start ex_leader (Some 6))"
  have live: "\<not> dead ex_leader"
    by (simp add: ex_leader_def Start_def killed_def winElection_def newRaft_def persist_def resetTicker_def)
  have "plain_step ex_leader ?r'" by (rule plain_step.start_command, rule prod.collapse [symmetric])
  moreover have "state ?r' = Leader" using live by (simp add: Start_def killed_def)
  ultimately have "lead_step ex_leader ?r'" by (intro lead_step.plain) simp_all
  then have run: "lead_step\<^sup>*\<^sup>* ex_leader ?r'" by (rule r_into_rtranclp)
  have "SnapshotIndex ?r' = 0" "entry_at ex_leader 1 = Some \<lparr>Term = 1, Command = Some 5\<rparr>"
    using live by (simp_all add: Start_def killed_def entry_at_def Loglen_def)
  with leader_append_only [OF run] run show ?thesis by simp
qed

subsection \<open>The shape of a peer over its whole life\<close>

inductive peer_life :: "nat \<Rightarrow> nat \<Rightarrow> 'c raft \<Rightarrow> bool" for n i where
  boot: "Make n i MakePersister = Inr rf \<Longrightarrow> peer_life n i rf"
| run: "peer_life n i rf \<Longrightarrow> peer_step rf rf' \<Longrightarrow> peer_life n i rf'"
| reboot: "peer_life n i rf \<Longrightarrow> Make n i (Copy (persister rf)) = Inr rf' \<Longrightarrow> peer_life n i rf'"

lemma peer_life_shape:
  assumes "peer_life n i rf" and "i < n"
  shows "wf_raft rf \<and> synced rf \<and> me rf = i \<and> npeers rf = n"
  using assms
proof (induction rule: peer_life.induct)
  case (boot rf)
  then have "rf = newRaft n i MakePersister" by (simp add: Make_fresh)
  then show ?case using boot newRaft_wf [of i n] by (simp add: newRaft_def synced_def MakePersister_def)
next
  case (run rf rf')
  then show ?case using peer.step_ok [of rf rf'] by (simp add: contract_ok_def)
next
  case (reboot rf rf')
  then have ok: "wf_raft rf" "synced rf" "me rf = i" "npeers rf = n" by simp_all
  from Make_recovers [OF ok(1,2)] reboot.hyps(2) show ?case by (auto simp: ok(3,4))
qed

lemma RequestVote_total: "wf_raft rf \<Longrightarrow> \<exists>rf' reply. RequestVote rf args = Inr (rf', reply)"
  using stepDown_total [of "persist (rf\<lparr>CurrentTerm := rvTerm args\<rparr>)"]
  by (auto simp: RequestVote_def wf_raft_def)

lemma Snapshot_total: "\<exists>rf'. Snapshot rf index snap = Inr rf'"
  by (auto simp: Snapshot_def go_slice_from_def go_index_def Loglen_def Let_def)

lemma boardcast_total: "wf_raft rf \<Longrightarrow> state rf = Leader \<Longrightarrow> \<exists>rf' more. boardcast_one rf j = Inr (rf', more)"
  by (auto simp: boardcast_one_def wf_raft_def)

text \<open>
  Property C16 (shape of a peer). From its first \<open>Make\<close> on, over any critical sections in any order
  with any messages and any number of crashes and restarts, a peer keeps its place and the size of
  the cluster, one slot per peer in each of its arrays, a first entry in its log and, while it is
  leader, a context to cancel and one index per follower. So \<open>RequestVote\<close>, \<open>Snapshot\<close> and the
  broadcast of a leader never index out of range or use a nil, and restarting never fails.
\<close>

theorem reachable_shape:
  assumes "peer_life n i rf" and "i < n"
  shows "me rf = i \<and> npeers rf = n \<and> Log rf \<noteq> [] \<and>
    length (tickers rf) = n \<and> length (retry rf) = n \<and> length (notify rf) = n \<and>
    (state rf = Leader \<longrightarrow> ctx rf \<noteq> None \<and> length (nextIndex rf) = n \<and> length (matchIndex rf) = n \<and>
       (\<forall>j. \<exists>rf' more. boardcast_one rf j = Inr (rf', more))) \<and>
    (\<forall>args. \<exists>rf' reply. RequestVote rf args = Inr (rf', reply)) \<and>
    (\<forall>index snap. \<exists>rf'. Snapshot rf index snap = Inr rf') \<and>
    (\<exists>rf'. Make n i (Copy (persister rf)) = Inr rf')"
proof -
  have ok: "wf_raft rf" "synced rf" "me rf = i" "npeers rf = n" using peer_life_shape [OF assms] by simp_all
  have "\<exists>rf'. Make n i (Copy (persister rf)) = Inr rf'" using Make_recovers [OF ok(1,2)] by (auto simp: ok(3,4))
  moreover have "\<forall>index snap. \<exists>rf'. Snapshot rf index snap = Inr rf'" by (intro allI Snapshot_total)
  ultimately show ?thesis using ok(1,3,4) RequestVote_total [OF ok(1)] boardcast_total [OF ok(1)]
    by (simp add: wf_raft_def)
qed

theorem reachable_shape_witness:
  "\<exists>rf' :: nat raft. peer_life 3 1 rf' \<and> dead rf' \<and> length (tickers rf') = 3 \<and> (\<exists>rf''. Make 3 1 (Copy (persister rf')) = Inr rf'')"
proof -
  let ?r = "Kill (newRaft 3 1 MakePersister) :: nat raft"
  have "peer_life 3 1 (newRaft 3 1 MakePersister :: nat raft)" by (rule peer_life.boot, rule Make_fresh)
  then have life: "peer_life 3 1 ?r" by (rule peer_life.run) (rule peer_step.local, rule local_step.plain, rule plain_step.kill)
  moreover from reachable_shape [OF this] have "length (tickers ?r) = 3" "\<exists>rf''. Make 3 1 (Copy (persister ?r)) = Inr rf''" by simp_all
  moreover have "dead ?r" by (simp add: Kill_def)
  ultimately show ?thesis by blast
qed

end
