(* ===== verification/Raft_Send.thy ===== *)
theory Raft_Send
  imports Raft_Peer
begin

text \<open>
  The waits of a peer that are not under its lock (\<open>src/raft1/raft.go\<close>): a sender of \<open>sendAppendEntries\<close> makes each
  call in a goroutine of its own and waits for the reply, for 100 ms, for the end of its term as
  leader, or for \<open>Kill\<close>, whichever is first; \<open>tryApply\<close> waits for the service or for \<open>Kill\<close>.

  The channel of a call has room for one message. The select statements are choices of the step
  relation; what a sender does next is given by the functions of \<open>Raft_Leader\<close>.
\<close>

subsection \<open>A call with a time limit\<close>

datatype 'r heard = Heard bool 'r | TimedOut | WorkerStopped | PeerKilled

datatype 'r callpc = CallRunning | CallEnded bool 'r | CallOver

datatype 'r waitpc = Waiting | Went "'r heard"

record 'r attempt =
  atCall :: "'r callpc"
  atCh :: "(bool \<times> 'r) option"
  atWait :: "'r waitpc"

definition attempt_init :: "'r attempt" where
  "attempt_init = \<lparr>atCall = CallRunning, atCh = None, atWait = Waiting\<rparr>"

inductive attempt_step :: "(bool \<Rightarrow> 'r \<Rightarrow> bool) \<Rightarrow> 'r attempt \<Rightarrow> 'r attempt \<Rightarrow> bool" for returns where
  \<comment> \<open>\<open>returns\<close> says what the call may return\<close>
  call_returns: "atCall a = CallRunning \<Longrightarrow> returns ok r \<Longrightarrow> attempt_step returns a (a\<lparr>atCall := CallEnded ok r\<rparr>)"
| call_reports: "atCall a = CallEnded ok r \<Longrightarrow> atCh a = None \<Longrightarrow> attempt_step returns a (a\<lparr>atCall := CallOver, atCh := Some (ok, r)\<rparr>)"
| wait_hears: "atWait a = Waiting \<Longrightarrow> atCh a = Some (ok, r) \<Longrightarrow> attempt_step returns a (a\<lparr>atWait := Went (Heard ok r), atCh := None\<rparr>)"
| wait_timeout: "atWait a = Waiting \<Longrightarrow> attempt_step returns a (a\<lparr>atWait := Went TimedOut\<rparr>)"
| wait_stopped: "atWait a = Waiting \<Longrightarrow> attempt_step returns a (a\<lparr>atWait := Went WorkerStopped\<rparr>)"
| wait_killed: "atWait a = Waiting \<Longrightarrow> attempt_step returns a (a\<lparr>atWait := Went PeerKilled\<rparr>)"

definition AE_after :: "'c raft \<Rightarrow> nat \<Rightarrow> 'c AppendEntriesArgs \<Rightarrow> nat \<Rightarrow> AppendEntriesReply heard \<Rightarrow> 'c raft option go" where
  \<comment> \<open>what the sender does then; \<open>None\<close>: it returns and leaves the peer alone\<close>
  "AE_after rf server args workerCtx h = (case h of
       Heard ok reply \<Rightarrow> if ok then go_bind (sendAE_reply rf server args workerCtx reply) (\<lambda>rf1. Inr (Some rf1))
                        else Inr (Some (sendFailed rf server workerCtx))
     | TimedOut \<Rightarrow> Inr (Some (sendFailed rf server workerCtx))
     | WorkerStopped \<Rightarrow> Inr None
     | PeerKilled \<Rightarrow> Inr None)"

definition IS_after :: "'c raft \<Rightarrow> nat \<Rightarrow> int \<Rightarrow> nat \<Rightarrow> InstallSnapshotReply heard \<Rightarrow> 'c raft option" where
  "IS_after rf server term workerCtx h = (case h of
       Heard ok reply \<Rightarrow> Some (if ok then sendIS_reply rf server term workerCtx reply else sendFailed rf server workerCtx)
     | TimedOut \<Rightarrow> Some (sendFailed rf server workerCtx)
     | WorkerStopped \<Rightarrow> None
     | PeerKilled \<Rightarrow> None)"

definition sendRequestVote :: "(string \<Rightarrow> RequestVoteArgs \<Rightarrow> RequestVoteReply option) \<Rightarrow> RequestVoteArgs \<Rightarrow> RequestVoteReply \<Rightarrow> bool \<times> RequestVoteReply" where
  \<comment> \<open>\<open>rpc\<close> is the call to the peer; the reply of a failed call is left as it was\<close>
  "sendRequestVote rpc args reply = (case rpc ''Raft.RequestVote'' args of None \<Rightarrow> (False, reply) | Some r \<Rightarrow> (True, r))"

subsection \<open>Handing a message to the service\<close>

definition tryApply :: "'c ApplyMsg \<Rightarrow> bool \<Rightarrow> 'c ApplyMsg list \<Rightarrow> 'c ApplyMsg list \<times> bool" where
  \<comment> \<open>\<open>takes\<close>: the service is there to receive before \<open>killCh\<close> is closed; the messages it has received\<close>
  "tryApply msg takes got = (if takes then (got @ [msg], True) else (got, False))"

fun applyAll :: "('c ApplyMsg \<times> bool) list \<Rightarrow> 'c ApplyMsg list \<Rightarrow> 'c ApplyMsg list" where
  \<comment> \<open>one message after the other; the goroutine returns at the first that is not taken\<close>
  "applyAll [] got = got"
| "applyAll ((m, takes) # ms) got = (case tryApply m takes got of (got1, ok) \<Rightarrow> if ok then applyAll ms got1 else got1)"

subsection \<open>What is heard\<close>

definition attempt_inv :: "(bool \<Rightarrow> 'r \<Rightarrow> bool) \<Rightarrow> 'r attempt \<Rightarrow> bool" where
  "attempt_inv returns a \<longleftrightarrow>
     (case atCall a of CallRunning \<Rightarrow> atCh a = None | CallEnded ok r \<Rightarrow> atCh a = None \<and> returns ok r | CallOver \<Rightarrow> True) \<and>
     (\<forall>ok r. atCh a = Some (ok, r) \<longrightarrow> returns ok r \<and> (\<forall>ok' r'. atWait a \<noteq> Went (Heard ok' r'))) \<and>
     (\<forall>ok r. atWait a = Went (Heard ok r) \<longrightarrow> returns ok r \<and> atCall a = CallOver)"

lemma attempt_step_inv: "attempt_step returns a a' \<Longrightarrow> attempt_inv returns a \<Longrightarrow> attempt_inv returns a'"
  by (induction rule: attempt_step.induct) (auto simp: attempt_inv_def split: callpc.splits)

lemma attempt_run_inv:
  assumes "(attempt_step returns)\<^sup>*\<^sup>* attempt_init a"
  shows "attempt_inv returns a"
  using assms
proof (induction rule: rtranclp_induct)
  case base
  then show ?case by (simp add: attempt_init_def attempt_inv_def)
next
  case (step a a')
  then show ?case using attempt_step_inv by blast
qed

text \<open>
  A sender is never held up by a call, and a call never by its sender. In every state a sender that
  waits can go on within its time limit; a goroutine whose call has returned finds room for its
  report, also when the sender has stopped listening, and then ends; and what the sender takes for a
  reply is what its call returned. Whatever it hears, its next action on the peer is a step of the
  peer, so that all that is proved of those steps holds.
\<close>

theorem sender_not_held_up:
  assumes "(attempt_step returns)\<^sup>*\<^sup>* attempt_init a"
  shows "(atWait a = Waiting \<longrightarrow> attempt_step returns a (a\<lparr>atWait := Went TimedOut\<rparr>)) \<and>
    (\<forall>ok r. atCall a = CallEnded ok r \<longrightarrow> attempt_step returns a (a\<lparr>atCall := CallOver, atCh := Some (ok, r)\<rparr>)) \<and>
    (\<forall>ok r. atWait a = Went (Heard ok r) \<longrightarrow> returns ok r \<and> atCall a = CallOver)"
  using attempt_run_inv [OF assms] by (auto simp: attempt_inv_def intro: attempt_step.intros)

lemma AE_after_step: "AE_after rf server args workerCtx h = Inr (Some rf') \<Longrightarrow> peer_step rf rf'"
  by (auto simp: AE_after_def go_inv intro!: peer_step.local intro: local_step.intros plain_step.intros split: heard.splits if_splits)

lemma IS_after_step: "IS_after rf server t workerCtx h = Some rf' \<Longrightarrow> peer_step rf rf'"
  by (auto simp: IS_after_def intro!: peer_step.local intro: local_step.intros plain_step.intros split: heard.splits if_splits)

text \<open>The service receives an initial part of the messages, in their order, and all of them if it is there for each.\<close>

lemma applyAll_prefix:
  "\<exists>k \<le> length ms. applyAll ms got = got @ take k (map fst ms) \<and> (k < length ms \<longrightarrow> \<not> snd (ms ! k)) \<and> (\<forall>i < k. snd (ms ! i))"
proof (induction ms got rule: applyAll.induct)
  case (2 m takes ms got)
  show ?case
  proof (cases takes)
    case True
    then obtain k where k: "k \<le> length ms" "applyAll ms (got @ [m]) = (got @ [m]) @ take k (map fst ms)" "k < length ms \<longrightarrow> \<not> snd (ms ! k)"
      "\<forall>i < k. snd (ms ! i)" using 2 [of "got @ [m]" True] by (auto simp: tryApply_def)
    have "snd (((m, takes) # ms) ! i)" if "i < Suc k" for i using that True k(4) by (cases i) auto
    then show ?thesis using True k by (intro exI [of _ "Suc k"]) (simp add: tryApply_def)
  qed (auto simp: tryApply_def)
qed simp

end
