(* ===== verification/Raft_Setup.thy ===== *)
theory Raft_Setup
  imports Raft_Restart Tester_Setup
begin

text \<open>
  How a test of Raft is made and ended (\<open>src/raft1/test.go\<close>), and what the test asks a service for
  (\<open>src/raft1/server.go\<close>). The services and what they have recorded are the record \<open>Test\<close> of \<open>Rfsrv\<close>; here are the
  configuration and the flag that ends the drivers.
\<close>

record ('e, 'c) RaftTest =
  ttConfig :: "('e, 'c, 'c tsvc) Config"
  ttN :: nat
  finishedFlag :: "32 word"
  ttSnapshot :: bool

definition raft_makeTest ::
  "(byte list \<Rightarrow> 'c snap option) \<Rightarrow> (int \<Rightarrow> string) \<Rightarrow> 'e list list \<Rightarrow> (nat \<Rightarrow> 'e list) \<Rightarrow> (nat \<Rightarrow> nat) \<Rightarrow> nat \<Rightarrow> bool \<Rightarrow> bool \<Rightarrow> int \<Rightarrow>
   ('e, 'c) RaftTest go" where
  \<comment> \<open>\<open>dec\<close> decodes a snapshot; the random names of the ends and the objects of the servers as in \<open>Tester_Setup\<close>\<close>
  "raft_makeTest dec itoa nss names obj n rel snap now =
     go_bind (MakeConfig itoa (mksrv dec n snap) nss names obj rel now) (\<lambda>cfg.
       Inr \<lparr>ttConfig = SetLongDelays True cfg, ttN = n, finishedFlag = 0, ttSnapshot = snap\<rparr>)"

definition raft_cleanup :: "int \<Rightarrow> int \<Rightarrow> string \<Rightarrow> bool \<Rightarrow> Annotation \<Rightarrow> ('e, 'c) RaftTest \<Rightarrow> ('e, 'c) RaftTest \<times> Annotation go" where
  \<comment> \<open>the flag is set first, whatever becomes of the rest\<close>
  "raft_cleanup now t vis opens an ts =
     (let ts1 = ts\<lparr>finishedFlag := 1\<rparr>;
          r = go_bind (End now (ttConfig ts1)) (\<lambda>_. go_bind (Config_Cleanup now t vis opens an (ttConfig ts1)) (\<lambda>(an1, cfg).
                go_bind (CheckTimeout now cfg) (\<lambda>_. Inr (an1, cfg))))
      in case r of Inl e \<Rightarrow> (ts1, Inl e) | Inr (an1, cfg) \<Rightarrow> (ts1\<lparr>ttConfig := cfg\<rparr>, Inr an1))"

definition checkFinished :: "('e, 'c) RaftTest \<Rightarrow> bool" where
  "checkFinished ts \<longleftrightarrow> finishedFlag ts \<noteq> 0"

definition rfsrv_Raft :: "'c tsvc list \<Rightarrow> 'c raft go" where
  \<comment> \<open>the peer of a service; nil before the service has one and after \<open>Kill\<close>\<close>
  "rfsrv_Raft ss = (case ss of [SvcRf rs, SvcRaft rf] \<Rightarrow> Inr rf | _ \<Rightarrow> Inl NilDeref)"

definition rfsrv_GetState :: "'c tsvc list \<Rightarrow> (int \<times> bool) go" where
  "rfsrv_GetState ss = go_bind (rfsrv_Raft ss) (\<lambda>rf. Inr (GetState rf))"

text \<open>
  A new test of Raft. All its servers are connected and can send to each other, the network has long
  delays and is as reliable as asked for, and the drivers run until the test is cleaned up, which ends
  them even when it stops with a time-out.
\<close>

theorem raft_test_made:
  assumes "raft_makeTest dec itoa nss names obj n rel snap now = Inr ts" and "length nss = n"
    and "\<forall>ns \<in> set nss. length ns = n" and "\<And>i. i < n \<Longrightarrow> length (names i) = n"
  shows "(\<exists>sg. lookupGroup (cfgGroups (ttConfig ts)) GRP0 = Some sg \<and> N sg = n \<and>
      (\<forall>a < n. \<forall>b < n. link (cfgNet (ttConfig ts), sg) a b)) \<and>
    longDelays (cfgNet (ttConfig ts)) \<and> reliable (cfgNet (ttConfig ts)) = rel \<and>
    \<not> checkFinished ts \<and> checkFinished (fst (raft_cleanup now' t vis opens an ts))"
proof -
  obtain cfg where c: "MakeConfig itoa (mksrv dec n snap) nss names obj rel now = Inr cfg"
    "ts = \<lparr>ttConfig = SetLongDelays True cfg, ttN = n, finishedFlag = 0, ttSnapshot = snap\<rparr>"
    using assms(1) by (auto simp: raft_makeTest_def go_inv)
  from made_config_connected [OF c(1)] assms(2-4) obtain sg where
    "lookupGroup (cfgGroups cfg) GRP0 = Some sg" "N sg = n" "reliable (cfgNet cfg) = rel" "\<forall>a < n. \<forall>b < n. link (cfgNet cfg, sg) a b" by auto
  then show ?thesis
    by (auto simp: c(2) SetLongDelays_def LongDelays_def link_def checkFinished_def raft_cleanup_def Let_def split: sum.split)
qed

text \<open>A service that has just been started answers with the state of the peer that was made from its persister.\<close>

lemma started_state:
  assumes "mksrv dec n snap es g i ps = Inr ss"
  shows "\<exists>rf. Make n i ps = Inr rf \<and> rfsrv_Raft ss = Inr rf \<and> rfsrv_GetState ss = Inr (GetState rf)"
  using assms by (auto simp: mksrv_def newRfsrv_def rfsrv_Raft_def rfsrv_GetState_def go_inv Let_def split: if_splits)

end
