(* ===== verification/Raft_Test.thy ===== *)
theory Raft_Test
  imports Rfsrv
begin

text \<open>
  The drivers of the Raft tests (\<open>src/raft1/test.go\<close>): \<open>one\<close>, which submits a command and waits for
  agreement on it, \<open>wait\<close> and \<open>checkNoAgreement\<close>. They run beside the peers and look at them in real
  time; here a driver is a function of what it sees: the peers at the start of each round, the
  services at each poll, and the end of these lists is the end of the time allowed. \<open>Start\<close> is that of
  the peers, and its effect on a peer that is asked is seen by the rest of the round.
\<close>

record 'c round =
  orFinished :: bool                         \<comment> \<open>\<open>ts.checkFinished()\<close>\<close>
  orPeers :: "(bool \<times> 'c raft option) list"   \<comment> \<open>is the server connected; its peer, if it runs\<close>
  orPolls :: "'c Test list"

definition checkNoAgreement :: "'c Test \<Rightarrow> int \<Rightarrow> unit go" where
  "checkNoAgreement ts index = go_bind (nCommitted ts index) (\<lambda>(n, _). if n > 0 then Inl LogFatal else Inr ())"

definition askPeer :: "(bool \<times> 'c raft option) list \<Rightarrow> nat \<Rightarrow> 'c option \<Rightarrow> ('c raft \<times> int \<times> int \<times> bool) option" where
  \<comment> \<open>\<open>Start\<close> on a server that is connected and has a peer\<close>
  "askPeer ps i cmd = (if i < length ps \<and> fst (ps ! i) then map_option (\<lambda>rf. Start rf cmd) (snd (ps ! i)) else None)"

fun tryServers :: "nat \<Rightarrow> 'c option \<Rightarrow> (bool \<times> 'c raft option) list \<Rightarrow> nat \<Rightarrow> nat \<times> int \<times> (bool \<times> 'c raft option) list" where
  \<comment> \<open>the loop over the servers, with the number of servers still to ask\<close>
  "tryServers 0 cmd ps starts = (starts, -1, ps)"
| "tryServers (Suc k) cmd ps starts =
     (let s = (starts + 1) mod length ps in
      case askPeer ps s cmd of
        None \<Rightarrow> tryServers k cmd ps s
      | Some (rf, index1, term, ok) \<Rightarrow>
          let ps1 = ps[s := (fst (ps ! s), Some rf)] in
          if ok then (s, index1, ps1) else tryServers k cmd ps1 s)"

fun pollAgree :: "'c option \<Rightarrow> nat \<Rightarrow> int \<Rightarrow> 'c Test list \<Rightarrow> bool go" where
  "pollAgree cmd expected index [] = Inr False"
| "pollAgree cmd expected index (ts # tss) =
     go_bind (nCommitted ts index) (\<lambda>(nd, cmd1).
       if nd > 0 \<and> nd \<ge> expected \<and> cmd1 = cmd then Inr True else pollAgree cmd expected index tss)"

fun one_loop :: "'c option \<Rightarrow> nat \<Rightarrow> bool \<Rightarrow> bool \<Rightarrow> 'c round list \<Rightarrow> nat \<Rightarrow> int go" where
  \<comment> \<open>\<open>fin\<close>: the test has been finished when the time is over\<close>
  "one_loop cmd expected again fin [] starts = (if fin then Inr (-1) else Inl LogFatal)"
| "one_loop cmd expected again fin (r # rs) starts =
     (if orFinished r then Inr (-1)
      else case tryServers (length (orPeers r)) cmd (orPeers r) starts of (starts1, index, _) \<Rightarrow>
        if index \<noteq> -1
        then go_bind (pollAgree cmd expected index (orPolls r)) (\<lambda>agreed.
               if agreed then Inr index
               else if \<not> again then Inl LogFatal else one_loop cmd expected again fin rs starts1)
        else one_loop cmd expected again fin rs starts1)"

definition one :: "'c option \<Rightarrow> nat \<Rightarrow> bool \<Rightarrow> bool \<Rightarrow> 'c round list \<Rightarrow> int go" where
  "one cmd expected again fin rs = one_loop cmd expected again fin rs 0"

fun wait_loop :: "int \<Rightarrow> nat \<Rightarrow> int \<Rightarrow> ('c Test \<times> 'c raft list) list \<Rightarrow> bool go" where
  \<comment> \<open>false when a peer has moved on to a later term\<close>
  "wait_loop index n startTerm [] = Inr True"
| "wait_loop index n startTerm ((ts, peers) # obs) =
     go_bind (nCommitted ts index) (\<lambda>(nd, _).
       if nd \<ge> n then Inr True
       else if startTerm > -1 \<and> list_ex (\<lambda>rf. fst (GetState rf) > startTerm) peers then Inr False
       else wait_loop index n startTerm obs)"

definition wait :: "int \<Rightarrow> nat \<Rightarrow> int \<Rightarrow> ('c Test \<times> 'c raft list) list \<Rightarrow> 'c Test \<Rightarrow> 'c option option go" where
  \<comment> \<open>\<open>final\<close> is what the last poll sees; the result -1 is \<open>None\<close>\<close>
  "wait index n startTerm obs final =
     go_bind (wait_loop index n startTerm (take 30 obs)) (\<lambda>on.
       if \<not> on then Inr None
       else go_bind (nCommitted final index) (\<lambda>(nd, cmd). if nd < n then Inl LogFatal else Inr (Some cmd)))"

subsection \<open>What agreement means\<close>

definition holders :: "'c Test \<Rightarrow> int \<Rightarrow> 'c option \<Rightarrow> nat" where
  \<comment> \<open>the number of services that have applied the command at the index\<close>
  "holders ts index cmd = length (filter (\<lambda>rs. logs rs index = Some cmd) (srvs ts))"

lemma nCommitted_loop_law:
  assumes "nCommitted_loop ss index (cnt, c) = Inr (nd, cmd)"
  shows "nd = cnt + length (filter (\<lambda>rs. logs rs index = Some cmd) ss) \<and> (\<forall>rs \<in> set ss. logs rs index \<in> {None, Some cmd}) \<and> (0 < cnt \<longrightarrow> cmd = c)"
  using assms
proof (induction ss arbitrary: cnt c)
  case (Cons rs ss)
  show ?case
  proof (cases "logs rs index")
    case None
    with Cons show ?thesis by auto
  next
    case (Some c1)
    with Cons.prems have "nCommitted_loop ss index (cnt + 1, c1) = Inr (nd, cmd)" "0 < cnt \<longrightarrow> c = c1" by (auto split: if_splits)
    with Cons.IH [of "cnt + 1" c1] Some show ?thesis by auto
  qed
qed simp

lemma nCommitted_law:
  assumes "nCommitted ts index = Inr (nd, cmd)"
  shows "nd = holders ts index cmd" "\<And>rs. rs \<in> set (srvs ts) \<Longrightarrow> logs rs index \<in> {None, Some cmd}"
  using nCommitted_loop_law [OF assms [unfolded nCommitted_def]] by (auto simp: holders_def)

lemma pollAgree_law:
  assumes "pollAgree cmd expected index tss = Inr True"
  shows "\<exists>ts \<in> set tss. expected \<le> holders ts index cmd \<and> 0 < holders ts index cmd \<and> (\<forall>rs \<in> set (srvs ts). logs rs index \<in> {None, Some cmd})"
  using assms
proof (induction tss)
  case (Cons ts tss)
  obtain nd cmd1 where nc: "nCommitted ts index = Inr (nd, cmd1)" using Cons.prems by (cases "nCommitted ts index") auto
  show ?case
  proof (cases "nd > 0 \<and> nd \<ge> expected \<and> cmd1 = cmd")
    case True
    then show ?thesis using nCommitted_law [OF nc] by auto
  next
    case False
    then show ?thesis using Cons nc by auto
  qed
qed simp

declare tryServers.simps(2) [simp del]

lemma Start_refused: "Start rf cmd = (rf', i, t, False) \<Longrightarrow> rf' = rf"
  by (auto simp: Start_def split: if_splits)

lemma tryServers_next:
  "tryServers (Suc k) cmd ps starts =
     (let s = (starts + 1) mod length ps in
      case askPeer ps s cmd of Some (rf, index1, term, True) \<Rightarrow> (s, index1, ps[s := (fst (ps ! s), Some rf)])
      | _ \<Rightarrow> tryServers k cmd ps s)"
proof (cases "askPeer ps ((starts + 1) mod length ps) cmd")
  case (Some x)
  obtain rf i t ok where x: "x = (rf, i, t, ok)" by (cases x)
  let ?s = "(starts + 1) mod length ps"
  show ?thesis
  proof (cases ok)
    case False
    with Some x have "snd (ps ! ?s) = Some rf" by (auto simp: askPeer_def dest: Start_refused split: if_splits)
    then have "ps[?s := (fst (ps ! ?s), Some rf)] = ps" by (metis list_update_id prod.collapse)
    with Some x False show ?thesis by (simp add: Let_def tryServers.simps(2))
  qed (use Some x in \<open>simp add: Let_def tryServers.simps(2)\<close>)
qed (simp add: Let_def tryServers.simps(2))

lemma tryServers_sound:
  assumes "tryServers k cmd ps starts = (starts', index, ps')" and "index \<noteq> -1"
  shows "\<exists>i rf rf' t. i < length ps \<and> ps ! i = (True, Some rf) \<and> Start rf cmd = (rf', index, t, True)"
  using assms(1)
proof (induction k arbitrary: starts)
  case (Suc k)
  let ?s = "(starts + 1) mod length ps"
  show ?case
  proof (cases "\<exists>rf i t. askPeer ps ?s cmd = Some (rf, i, t, True)")
    case True
    then obtain rf i t where a: "askPeer ps ?s cmd = Some (rf, i, t, True)" by blast
    then have "index = i" using Suc.prems by (simp add: tryServers_next Let_def)
    with a show ?thesis by (cases "ps ! ?s") (auto simp: askPeer_def split: if_splits)
  next
    case False
    then have "tryServers (Suc k) cmd ps starts = tryServers k cmd ps ?s"
      by (auto simp: tryServers_next Let_def split: option.splits prod.splits bool.splits)
    with Suc show ?thesis by simp
  qed
qed (use assms(2) in simp)

lemma tryServers_visits:
  assumes "fst (snd (tryServers k cmd ps starts)) = -1" and "1 \<le> m" "m \<le> k"
    and "\<And>i rf. i < length ps \<Longrightarrow> snd (ps ! i) = Some rf \<Longrightarrow> 0 \<le> Loglen rf"
  shows "\<not> (\<exists>rf i t. askPeer ps ((starts + m) mod length ps) cmd = Some (rf, i, t, True))"
  using assms(1-3)
proof (induction k arbitrary: starts m)
  case (Suc k)
  let ?s = "(starts + 1) mod length ps"
  have no: "\<not> (\<exists>rf i t. askPeer ps ?s cmd = Some (rf, i, t, True))"
  proof
    assume "\<exists>rf i t. askPeer ps ?s cmd = Some (rf, i, t, True)"
    then obtain rf i t where a: "askPeer ps ?s cmd = Some (rf, i, t, True)" by blast
    then have "i = -1" using Suc.prems(1) by (simp add: tryServers_next Let_def)
    with a assms(4) [of ?s] show False by (auto simp: askPeer_def Start_def split: if_splits)
  qed
  then have "tryServers (Suc k) cmd ps starts = tryServers k cmd ps ?s"
    by (auto simp: tryServers_next Let_def split: option.splits prod.splits bool.splits)
  moreover have "(?s + (m - 1)) mod length ps = (starts + m) mod length ps"
    using Suc.prems(2) mod_add_left_eq [of "starts + 1" "length ps" "m - 1"] by simp
  ultimately show ?case using Suc.IH [of ?s "m - 1"] Suc.prems no by (cases "m = 1") simp_all
qed simp

text \<open>
  Property C34 (what \<open>one\<close> and \<open>wait\<close> report). When \<open>one\<close> returns an index, a connected leader has accepted the
  command at that index, and at a later poll of the same round at least the expected number of
  services, and at least one, had applied this command there, and none another one. A round passes
  over a leader only if it is not connected: when no server accepts the command, no connected server
  runs a live leader. When \<open>wait\<close> returns a command, enough services have applied it at the index.
\<close>

theorem one_means_agreement:
  assumes "\<forall>i rf. i < length ps \<longrightarrow> snd (ps ! i) = Some rf \<longrightarrow> 0 \<le> Loglen rf"
  shows "(\<forall>index. one cmd expected again fin rs = Inr index \<and> index \<noteq> -1 \<longrightarrow>
      (\<exists>r \<in> set rs. (\<exists>i rf rf' t. i < length (orPeers r) \<and> orPeers r ! i = (True, Some rf) \<and> Start rf cmd = (rf', index, t, True)) \<and>
         (\<exists>ts \<in> set (orPolls r). expected \<le> holders ts index cmd \<and> 0 < holders ts index cmd \<and>
            (\<forall>s \<in> set (srvs ts). logs s index \<in> {None, Some cmd})))) \<and>
    (fst (snd (tryServers (length ps) cmd ps starts)) = -1 \<longrightarrow>
      (\<forall>i rf. i < length ps \<and> ps ! i = (True, Some rf) \<longrightarrow> killed rf \<or> state rf \<noteq> Leader)) \<and>
    (\<forall>c. wait k n startTerm obs final = Inr (Some c) \<longrightarrow> n \<le> holders final k c)"
proof (intro conjI allI impI)
  fix index assume h: "one cmd expected again fin rs = Inr index \<and> index \<noteq> -1"
  have loop: "\<exists>r \<in> set rs. (\<exists>i rf rf' t. i < length (orPeers r) \<and> orPeers r ! i = (True, Some rf) \<and> Start rf cmd = (rf', index, t, True)) \<and>
      pollAgree cmd expected index (orPolls r) = Inr True" if "one_loop cmd expected again fin rs starts = Inr index" for starts
    using that
  proof (induction rs arbitrary: starts)
    case (Cons r rs)
    obtain st i ps' where t: "tryServers (length (orPeers r)) cmd (orPeers r) starts = (st, i, ps')" by (metis prod.exhaust)
    have nf: "\<not> orFinished r" using Cons.prems h by (auto split: if_splits)
    show ?case
    proof (cases "i \<noteq> -1 \<and> pollAgree cmd expected i (orPolls r) = Inr True")
      case True
      then have "i = index" using Cons.prems t nf by simp
      with True tryServers_sound [OF t] show ?thesis by auto
    next
      case False
      then have "one_loop cmd expected again fin rs st = Inr index"
        using Cons.prems t nf by (auto simp: go_inv split: if_splits)
      with Cons.IH show ?thesis by fastforce
    qed
  qed (use h in \<open>auto split: if_splits\<close>)
  have "one_loop cmd expected again fin rs 0 = Inr index" using h by (simp add: one_def)
  from loop [OF this] obtain r where r: "r \<in> set rs" "pollAgree cmd expected index (orPolls r) = Inr True"
    "\<exists>i rf rf' t. i < length (orPeers r) \<and> orPeers r ! i = (True, Some rf) \<and> Start rf cmd = (rf', index, t, True)" by blast
  show "\<exists>r \<in> set rs. (\<exists>i rf rf' t. i < length (orPeers r) \<and> orPeers r ! i = (True, Some rf) \<and> Start rf cmd = (rf', index, t, True)) \<and>
      (\<exists>ts \<in> set (orPolls r). expected \<le> holders ts index cmd \<and> 0 < holders ts index cmd \<and> (\<forall>s \<in> set (srvs ts). logs s index \<in> {None, Some cmd}))"
    by (rule bexI [of _ r], rule conjI, rule r(3), rule pollAgree_law [OF r(2)], rule r(1))
next
  fix i rf assume none: "fst (snd (tryServers (length ps) cmd ps starts)) = -1" and i: "i < length ps \<and> ps ! i = (True, Some rf)"
  obtain m where m: "1 \<le> m" "m \<le> length ps" "(starts + m) mod length ps = i" using cycle_covers [of i "length ps" starts] i by blast
  from tryServers_visits [OF none m(1,2)] assms show "killed rf \<or> state rf \<noteq> Leader"
    using i by (auto simp: m(3) askPeer_def Start_def split: if_splits)
next
  fix c assume "wait k n startTerm obs final = Inr (Some c)"
  then obtain nd where "nCommitted final k = Inr (nd, c)" "n \<le> nd" by (auto simp: wait_def go_inv split: if_splits)
  then show "n \<le> holders final k c" using nCommitted_law(1) by metis
qed

definition ex_round :: "nat round" where
  \<comment> \<open>a server without a peer and a leader; one service has applied command 7 at index 2 when it is polled\<close>
  "ex_round = \<lparr>orFinished = False, orPeers = [(True, None), (True, Some ex_leader)],
     orPolls = [\<lparr>srvs = [\<lparr>rsLastApplied = 2, logs = [2 \<mapsto> Some 7]\<rparr>], maxIndex = 2\<rparr>]\<rparr>"

theorem one_means_agreement_witness:
  "one (Some 7) 1 False False [ex_round] = Inr 2 \<and> (\<exists>ts \<in> set (orPolls ex_round). 1 \<le> holders ts 2 (Some 7))"
proof -
  have alive: "dead ex_leader = False" by (simp add: ex_leader_def Start_def killed_def winElection_def newRaft_def persist_def resetTicker_def)
  have one: "one (Some 7) 1 False False [ex_round] = Inr 2"
    by (simp add: one_def ex_round_def tryServers_next askPeer_def Start_def killed_def alive Loglen_def nCommitted_def
        numeral_2_eq_2 Let_def)
  have "\<forall>i rf. i < length (orPeers ex_round) \<longrightarrow> snd (orPeers ex_round ! i) = Some rf \<longrightarrow> 0 \<le> Loglen rf"
    by (auto simp: Loglen_def ex_round_def nth_Cons split: nat.splits)
  from one_means_agreement [where ps = "orPeers ex_round" and cmd = "Some 7" and expected = 1 and again = False and
      fin = False and rs = "[ex_round]" and starts = 0 and k = 2 and n = 1 and startTerm = 0 and obs = "[]" and
      final = "hd (orPolls ex_round)", OF this] one
  have "\<exists>ts \<in> set (orPolls ex_round). 1 \<le> holders ts 2 (Some 7)" by auto
  with one show ?thesis by blast
qed

end
