(* ===== verification/Commands.thy ===== *)
theory Commands
  imports Go_Prelude
begin

text \<open>
  The commands under \<open>src/main\<close> that start servers and clients of other packages: \<open>diskvd\<close>, \<open>lockc\<close>, \<open>lockd\<close>, \<open>pbc\<close>,
  \<open>pbd\<close> and \<open>viewd\<close>. The packages they call (\<open>diskv\<close>, \<open>lockservice\<close>, \<open>pbservice\<close>, \<open>viewservice\<close>) are not part of the
  repository; a command either prints its usage and exits, or its work is the call it makes, with the
  arguments it passes. The arguments have the name of the program first, as \<open>os.Args\<close>.

  \<open>ParseInt\<close>, \<open>Atoi\<close> and \<open>ParseBool\<close> of \<open>strconv\<close> are modelled as the commands use them: what they return together
  with an error that nobody looks at.
\<close>

subsection \<open>Numbers and flags on the command line\<close>

datatype numscan = Scanned nat | BadSyntax | TooBig

fun scanDigits :: "nat \<Rightarrow> string \<Rightarrow> numscan" where
  \<comment> \<open>the loop of \<open>ParseUint\<close>; it stops at the first digit that does not fit 64 bits\<close>
  "scanDigits n [] = Scanned n"
| "scanDigits n (c # cs) = (let d = of_char c - (48::nat) in
     if of_char c < (48::nat) \<or> of_char c > (57::nat) then BadSyntax
     else if n * 10 + d \<ge> 2 ^ 64 then TooBig else scanDigits (n * 10 + d) cs)"

definition ParseUint :: "string \<Rightarrow> numscan" where
  "ParseUint s = (if s = [] then BadSyntax else scanDigits 0 s)"

fun signed64 :: "bool \<Rightarrow> numscan \<Rightarrow> int" where
  \<comment> \<open>0 for what is not a number, the nearest 64-bit number for one that does not fit\<close>
  "signed64 neg BadSyntax = 0"
| "signed64 neg TooBig = (if neg then - (2 ^ 63) else 2 ^ 63 - 1)"
| "signed64 neg (Scanned n) = (if neg then max (- (2 ^ 63)) (- int n) else min (2 ^ 63 - 1) (int n))"

definition ParseInt :: "string \<Rightarrow> int" where
  "ParseInt s = (case s of [] \<Rightarrow> 0
     | c # cs \<Rightarrow> if c = CHR ''+'' then signed64 False (ParseUint cs) else if c = CHR ''-'' then signed64 True (ParseUint cs)
                else signed64 False (ParseUint s))"

definition Atoi :: "string \<Rightarrow> int" where
  "Atoi s = ParseInt s"

definition ParseBool :: "string \<Rightarrow> bool" where
  "ParseBool s \<longleftrightarrow> s \<in> {''1'', ''t'', ''T'', ''TRUE'', ''true'', ''True''}"

lemma ParseInt_fits: "- (2 ^ 63) \<le> ParseInt s \<and> ParseInt s < 2 ^ 63"
proof -
  have "- (2 ^ 63) \<le> signed64 neg x \<and> signed64 neg x < 2 ^ 63" for neg x by (cases x) (auto simp: min_def max_def)
  then show ?thesis by (simp add: ParseInt_def split: list.split)
qed

subsection \<open>The disk-based server\<close>

record diskv_args =
  dkGid :: int
  masters :: "string list"
  replicas :: "string list"
  dkMe :: int
  unreliable :: bool
  dkDir :: string
  restart :: bool

definition diskvd_defaults :: diskv_args where
  "diskvd_defaults = \<lparr>dkGid = -1, masters = [], replicas = [], dkMe = -1, unreliable = False, dkDir = [], restart = False\<rparr>"

fun diskvd_loop :: "string list \<Rightarrow> diskv_args \<Rightarrow> diskv_args option" where
  \<comment> \<open>the loop over pairs of arguments; \<open>None\<close>: the usage is printed and the program exits\<close>
  "diskvd_loop (a0 # a1 # as) d =
     (if a0 = ''-g'' then diskvd_loop as (d\<lparr>dkGid := ParseInt a1\<rparr>)
      else if a0 = ''-m'' then diskvd_loop as (d\<lparr>masters := masters d @ [a1]\<rparr>)
      else if a0 = ''-s'' then diskvd_loop as (d\<lparr>replicas := replicas d @ [a1]\<rparr>)
      else if a0 = ''-i'' then diskvd_loop as (d\<lparr>dkMe := Atoi a1\<rparr>)
      else if a0 = ''-u'' then diskvd_loop as (d\<lparr>unreliable := ParseBool a1\<rparr>)
      else if a0 = ''-d'' then diskvd_loop as (d\<lparr>dkDir := a1\<rparr>)
      else if a0 = ''-r'' then diskvd_loop as (d\<lparr>restart := ParseBool a1\<rparr>)
      else None)"
| "diskvd_loop as d = Some d"

definition diskvd_main :: "string list \<Rightarrow> diskv_args cmd" where
  \<comment> \<open>the arguments of \<open>diskv.StartServer\<close> and \<open>Setunreliable\<close>\<close>
  "diskvd_main args = (case diskvd_loop (drop 1 args) diskvd_defaults of None \<Rightarrow> Usage
     | Some d \<Rightarrow> if dkGid d < 0 \<or> dkMe d < 0 \<or> length (masters d) < 1 \<or> dkMe d \<ge> int (length (replicas d)) \<or> dkDir d = [] then Usage else Runs d)"

text \<open>A server is started only with an index into its replicas, and never after an unknown flag.\<close>

lemma diskvd_starts:
  assumes "diskvd_main args = Runs d"
  shows "0 \<le> dkGid d \<and> dkGid d < 2 ^ 63 \<and> masters d \<noteq> [] \<and> dkDir d \<noteq> [] \<and> go_index (replicas d) (dkMe d) = Inr (replicas d ! nat (dkMe d))"
proof -
  obtain d0 where d: "diskvd_loop (drop 1 args) diskvd_defaults = Some d0" using assms by (auto simp: diskvd_main_def split: option.splits)
  have "dkGid d' < 2 ^ 63" if "diskvd_loop as d = Some d'" "dkGid d < 2 ^ 63" for as d d'
    using that
  proof (induction as d rule: diskvd_loop.induct)
    case (1 a0 a1 as d)
    then show ?case using ParseInt_fits [of a1] by (simp split: if_splits)
  qed auto
  with d assms show ?thesis by (auto simp: diskvd_main_def diskvd_defaults_def go_index_def split: option.splits if_splits)
qed

lemma diskvd_unknown_flag:
  assumes "a0 \<notin> {''-g'', ''-m'', ''-s'', ''-i'', ''-u'', ''-d'', ''-r''}" and "even (length as)"
  shows "diskvd_main (p # as @ a0 # a1 # bs) = Usage"
proof -
  have "diskvd_loop (as @ a0 # a1 # bs) d = None" for d
    using assms(2)
  proof (induction as d rule: diskvd_loop.induct)
    case (1 b0 b1 as d)
    then show ?case by simp
  qed (use assms(1) in auto)
  then show ?thesis by (simp add: diskvd_main_def)
qed

text \<open>
  Two things the usage check lets through: a word that is not a number counts as group 0 or index 0,
  and a last argument without a value is dropped.
\<close>

lemma diskvd_bad_numbers_accepted:
  "diskvd_main [''diskvd'', ''-g'', ''ten'', ''-m'', ''a'', ''-s'', ''b'', ''-i'', ''first'', ''-d'', ''/tmp/x''] =
     Runs \<lparr>dkGid = 0, masters = [''a''], replicas = [''b''], dkMe = 0, unreliable = False, dkDir = ''/tmp/x'', restart = False\<rparr>"
  by (simp add: diskvd_main_def diskvd_defaults_def ParseInt_def ParseUint_def Atoi_def Let_def)

lemma diskvd_last_argument_dropped:
  assumes "even (length as)"
  shows "diskvd_main (p # as @ [a]) = diskvd_main (p # as)"
proof -
  have "diskvd_loop (as @ [a]) d = diskvd_loop as d" for d
    using assms by (induction as d rule: diskvd_loop.induct) auto
  then show ?thesis by (simp add: diskvd_main_def)
qed

subsection \<open>Locks, primary/backup and views\<close>

definition lockc_main :: "(string \<Rightarrow> string \<Rightarrow> 'ck) \<Rightarrow> ('ck \<Rightarrow> string \<Rightarrow> bool) \<Rightarrow> ('ck \<Rightarrow> string \<Rightarrow> bool) \<Rightarrow> string list \<Rightarrow> bool cmd" where
  \<comment> \<open>the reply that is printed\<close>
  "lockc_main makeClerk lock unlock args =
     (if length args = 5
      then let ck = makeClerk (args ! 2) (args ! 3)
           in if args ! 1 = ''-l'' then Runs (lock ck (args ! 4))
              else if args ! 1 = ''-u'' then Runs (unlock ck (args ! 4)) else Usage
      else Usage)"

definition lockd_main :: "string list \<Rightarrow> (string \<times> string \<times> bool) cmd" where
  \<comment> \<open>the arguments of \<open>lockservice.StartServer\<close>\<close>
  "lockd_main args =
     (if length args = 4 \<and> args ! 1 = ''-p'' then Runs (args ! 2, args ! 3, True)
      else if length args = 4 \<and> args ! 1 = ''-b'' then Runs (args ! 2, args ! 3, False)
      else Usage)"

datatype pbreq = PbGet string | PbPut string string

definition pbc_main :: "string list \<Rightarrow> (string \<times> pbreq) cmd" where
  \<comment> \<open>the view server and what the clerk is asked for\<close>
  "pbc_main args =
     (if length args = 3 then Runs (args ! 1, PbGet (args ! 2))
      else if length args = 4 then Runs (args ! 1, PbPut (args ! 2) (args ! 3))
      else Usage)"

definition pbd_main :: "string list \<Rightarrow> (string \<times> string) cmd" where
  "pbd_main args = (if length args \<noteq> 3 then Usage else Runs (args ! 1, args ! 2))"

definition viewd_main :: "string list \<Rightarrow> string cmd" where
  "viewd_main args = (if length args \<noteq> 2 then Usage else Runs (args ! 1))"

text \<open>A lock client and the two servers of a pair talk about the same ports when they are given them in the same order.\<close>

lemma lock_pair:
  "lockd_main [p, ''-p'', a, b] = Runs (a, b, True)" "lockd_main [p, ''-b'', a, b] = Runs (a, b, False)"
  "lockc_main mk lock unlock [p, ''-l'', a, b, n] = Runs (lock (mk a b) n)"
  "lockc_main mk lock unlock [p, ''-u'', a, b, n] = Runs (unlock (mk a b) n)"
  by (simp_all add: lockd_main_def lockc_main_def)

lemma usage_cases:
  "lockd_main args = Usage \<longleftrightarrow> length args \<noteq> 4 \<or> args ! 1 \<notin> {''-p'', ''-b''}"
  "lockc_main mk lock unlock args = Usage \<longleftrightarrow> length args \<noteq> 5 \<or> args ! 1 \<notin> {''-l'', ''-u''}"
  "pbc_main args = Usage \<longleftrightarrow> length args \<notin> {3, 4}"
  by (auto simp: lockd_main_def lockc_main_def pbc_main_def Let_def)

end
