(* ===== verification/Spec2Isabelle.thy ===== *)
theory Spec2Isabelle
  imports Rsm_Setup Kv_System Kvtest_Append Kvtest_Keys Kvtest_Setup Kvtest_Spawn Shardcfg Mr_Main Mr_Timing Raft_Findings Raft_Log
    Raft_Send Raft_Setup Raft_Test Commands
begin

text \<open>
  This development models the Go sources of the repository: the labs of a course on distributed
  systems, with a Raft implementation, a MapReduce system, a versioned key/value server with a lock
  on top of it, shard configurations, and the network, storage and test harness they run on. Paths are
  those under \<open>src/\<close> of the repository.

  \<^bold>\<open>The parts and how they interact.\<close> A \<open>labrpc\<close> network carries calls between ends and servers and may
  lose or delay them. The harness (\<open>tester1\<close>) puts groups of servers and clients on it, connects,
  partitions, stops and restarts them, and keeps their stable storage. A Raft peer (\<open>raft1/raft.go\<close>)
  talks to the other peers through the network, saves its state to its \<open>Persister\<close>, and hands committed
  commands to the service of the Raft tests (\<open>raft1/server.go\<close>), which compares what the peers apply. The
  key/value server (\<open>kvsrv1\<close>) is reached by a clerk that retries over the unreliable network; the lock and
  the clients of the key/value tests (\<open>kvtest1\<close>) use the clerk. The coordinator of MapReduce (\<open>mr\<close>) hands
  tasks to workers that share files.

  \<^bold>\<open>Modelling conventions\<close> (\<open>Go_Prelude\<close>). A function that may panic or stop the program returns
  \<open>go_stop + 'a\<close>; slices are read with bounds checks. A struct is a record, an operation a function on it,
  and the unit of a concurrent component is the critical section: a goroutine is cut where it
  gives the lock up or waits for a call, and step relations interleave the pieces. Versions are 64-bit
  words and counters of the network 32-bit words, and wrap; other integers are unbounded. What code
  does that is not in the repository (\<open>sort.Sort\<close>, JSON, gob, \<open>strconv.Itoa\<close>, random choices, the time) is an
  argument of the definitions, and the theorems say what they need of it.

  \<^bold>\<open>Raft.\<close> \<open>Persister\<close> (\<open>tester1/persister.go\<close> and the encoded stream; the locale \<open>stable_storage\<close>), \<open>Raft_State\<close>
  (state, persistence, \<open>Start\<close>, \<open>Snapshot\<close>, the log searches), \<open>Raft_RPC\<close> (the three handlers), \<open>Raft_Election\<close>
  (\<open>ticker\<close>, \<open>ElectionWorker\<close>, \<open>GetVote\<close>), \<open>Raft_Leader\<close> (\<open>sendAppendEntries\<close>, \<open>applyLogEntries\<close>) follow the file
  \<open>raft1/raft.go\<close> in its order; \<open>Raft_Send\<close> has the waits outside the lock (a call with a time limit, \<open>tryApply\<close>). \<open>Raft_Peer\<close> makes a peer a state machine and proves what every step keeps (the
  locale \<open>peer_contract\<close>). \<open>Raft_Cluster\<close> interleaves peers, elections, messages and restarts and proves Election
  Safety, on the locale \<open>quorums\<close>. \<open>Raft_Props\<close> and \<open>Raft_Replication\<close> hold crash recovery, votes, log matching,
  commitment and application. \<open>Raft_Log\<close> follows a peer over whole runs: the shape of its state over crashes and
  restarts, committed entries, and the log of a leader; its \<open>gentle_step\<close> and \<open>lead_step\<close> have every step of a peer but
  one kind each: an \<open>InstallSnapshot\<close> that drops committed entries, and the second half of an old \<open>AppendEntries\<close> call that disagrees
  with the log of the leader. \<open>Raft_Findings\<close> shows where the code breaks what it means to guarantee:
  acknowledged entries are cut off, logs may diverge, the applier may hang, a peer may never stand for election again. So State Machine
  Safety is not a theorem here; it is false of this code, and the theorems of \<open>Raft_Replication\<close> say which
  parts of the argument hold, and under which conditions. \<open>Rfsrv\<close> (\<open>raft1/server.go\<close> and the checks of
  \<open>raft1/test.go\<close>), \<open>Raft_Restart\<close> (stopping and restarting a server through the harness), \<open>Raft_Setup\<close> (making and ending a test) and \<open>Raft_Test\<close> (the drivers
  \<open>one\<close>, \<open>wait\<close>, \<open>checkNoAgreement\<close>) are the tests' side.

  \<^bold>\<open>Key/value service.\<close> \<open>Kvsrv\<close> (server, clerk, and the sequential model \<open>models1/kv.go\<close>; the locale
  \<open>versioned_kv\<close>) proves that a put of the clerk is linearizable whatever the network does to it. \<open>Lock\<close>
  (\<open>kvsrv1/lock/lock.go\<close>) proves mutual exclusion over all interleavings. \<open>Kv_History\<close> runs any number of clients at
  the same time, records what the tests record, and proves the recorded history linearizable for the
  model, up to puts answered \<open>ErrNoKey\<close>, which the model refuses. \<open>Kvsrv_Net\<close> puts the clerk's loops on the network of \<open>Labrpc_Call\<close>. \<open>Kv_System\<close> puts clients, clerks, network and
  server together, and shows by a forward simulation (the locale \<open>forward_simulation\<close>) that the whole does nothing
  but what \<open>Kv_History\<close> allows.

  \<^bold>\<open>Key/value tests\<close> (\<open>kvtest1\<close>, \<open>kvsrv1/test.go\<close>). \<open>Kvtest\<close>, \<open>Kvtest_Keys\<close> and \<open>Kvtest_Append\<close> prove that clients that race to put to
  one key, to put to random keys, or to append never fail the checks of \<open>kvtest1/kvtest.go\<close>. \<open>Kvtest_Spawn\<close> has the
  goroutines of \<open>SpawnClientsAndWait\<close>; its locale \<open>client_function\<close> says what a client function has to promise so that the
  test returns. \<open>Kvtest_Retry\<close> is \<open>PutAtLeastOnce\<close>, \<open>Kvtest_Harness\<close> has \<open>SpreadPutsSize\<close>, the partitioner and the verdict of the
  linearizability checker, and \<open>Kvtest_Setup\<close> making a test, its clerks and its random values.

  \<^bold>\<open>Replicated and sharded services.\<close> \<open>Rsm\<close> has the replicated counter of \<open>kvraft1/rsm\<close> and its drivers, and
  \<open>Rsm_Setup\<close> how its tests are made and how they cut the leader off. \<open>Services\<close> has
  \<open>kvraft1\<close> and \<open>shardkv1\<close> as they stand: frames of the course whose operations are still empty, around a Raft
  peer. The locale \<open>raft_starter\<close> says what starting such a service means for Raft and gives the restart of
  all of them through the harness; the types they send are checked with \<open>Labgob\<close>.

  \<^bold>\<open>Shard configurations.\<close> \<open>Shardcfg\<close>: \<open>Rebalance\<close> ends, balances, and does not depend on the order in which Go
  iterates over maps; joins and leaves.

  \<^bold>\<open>MapReduce.\<close> \<open>Mr_Coordinator\<close> (handlers and monitors as a state machine), \<open>Mr_Worker\<close> (the data path, the
  sequential program and the applications), \<open>Mr_Files\<close> (the workers of a job with their files: they create, write,
  rename and read them one by one, and two executions of a task that begin in the same second use the
  same names), \<open>Mr_Job\<close> (the specification, in which every worker has files of its own; a job that is done has the output of the
  sequential program, whatever workers crash), which \<open>Mr_Files\<close> refines by a forward simulation as long as no task is begun twice in
  the same second, \<open>Mr_Progress\<close> (a job that is done, that it can always be finished, and what is lost in one second), \<open>Mr_Main\<close>
  (the programs \<open>mrcoordinator\<close>, \<open>mrworker\<close> and \<open>mrsequential\<close> with their arguments, plugins and sockets: what the first two
  write is what the third writes, under the same condition), \<open>Mr_Timing\<close> (\<open>mtiming\<close>,
  \<open>rtiming\<close> and \<open>jobcount\<close>: what workers that run at the same time count through files).

  \<^bold>\<open>Network and harness.\<close> \<open>Labrpc\<close> (tables of the network, the fate of a request, services and
  dispatch), \<open>Labrpc_Call\<close> (calls end to end as goroutines: a handler runs at most once for a call, a call that
  returns true returns its reply, a call can return; a handler may still run after its call has
  returned false only when the end was disabled or the server deleted meanwhile; a handler is one step on the state of the
  application, its own critical sections are the business of the application's model), \<open>Labgob\<close> (the walks
  over types and values), \<open>Tester_Group\<close> (\<open>srv.go\<close> and \<open>group.go\<close>; the locale \<open>topology\<close>), \<open>Tester_Config\<close> (clients),
  \<open>Tester_Setup\<close> (\<open>config.go\<close>), \<open>Tester_Annotation\<close> (the time line of a test).

  \<^bold>\<open>Commands.\<close> \<open>Commands\<close> has the other programs under \<open>main\<close>: which arguments they accept, and the call they make.

  \<^bold>\<open>Bounds.\<close> No model has fuel. Loops that may not end are partial functions into \<open>option\<close> with theorems that
  they end (\<open>apply_drain\<close>, \<open>Rebalance\<close>, \<open>checkType\<close>), or that they do not (the applier). Loops that wait for the
  network or the clock run over the list of what happens to them, and \<open>None\<close> (or the time-out of the
  code) is the end of that list. Theorems about versions assume fewer than \<open>2 ^ 64\<close> puts where a wrapped
  version would matter.

  \<^bold>\<open>Not modelled.\<close> The set-up of the tests of the replicated and the sharded service (\<open>kvraft1/test.go\<close>,
  \<open>shardkv1/test.go\<close>) drives frames that do nothing yet. The packages that the programs of \<open>Commands\<close> call (\<open>diskv\<close>, \<open>lockservice\<close>,
  \<open>pbservice\<close>, \<open>viewservice\<close>) are not in the repository. The bytes of an encoding, the text that is printed and what is drawn
  are left out; what needs them (\<open>RaftStateSize\<close>, the calls of \<open>Labrpc_Call\<close>) takes the encoder as a parameter. The debug
  helpers (\<open>raft1/util.go\<close>) only print. Timers fire at any time, and the order in which goroutines run is any order.
\<close>

section \<open>Raft and the service of its tests\<close>

text \<open>
  Property C13 (what the service makes of the applied messages). Let a peer be in a state in which its
  apply loop ends, its snapshot not beyond the last applied index and its commit index within the log,
  and let its service have recorded the last applied index. The loop hands out the messages up to the
  commit index, and the service accepts all of them exactly when no service, of any peer, has recorded
  another command at one of these indices. Then it has recorded the commands of the peer's log there,
  and nothing else has changed. Otherwise the run is stopped with the fatal error.
\<close>

theorem service_checks_applied:
  assumes "SnapshotIndex rf \<le> lastApplied rf" "lastApplied rf \<le> commitIndex rf" "commitIndex rf < Loglen rf"
    and "0 \<le> lastApplied rf" and "i < length (srvs ts)"
    and "lastApplied rf = 0 \<or> logs (srvs ts ! i) (lastApplied rf) \<noteq> None"
  shows "\<exists>rf' ms. apply_drain rf [] = Some (Inr (rf', ms)) \<and> lastApplied rf' = commitIndex rf \<and>
    (if \<exists>rs \<in> set (srvs ts). \<exists>k c. lastApplied rf < k \<and> k \<le> commitIndex rf \<and> logs rs k = Some c \<and>
         c \<noteq> Command (Log rf ! nat (k - SnapshotIndex rf))
     then applier_all i ts ms = Inl LogFatal
     else \<exists>ts1. applier_all i ts ms = Inr ts1 \<and> (\<forall>j. j \<noteq> i \<longrightarrow> srvs ts1 ! j = srvs ts ! j) \<and>
       (\<forall>k. logs (srvs ts1 ! i) k = (if lastApplied rf < k \<and> k \<le> commitIndex rf
          then Some (Command (Log rf ! nat (k - SnapshotIndex rf))) else logs (srvs ts ! i) k)))"
proof -
  let ?a = "lastApplied rf + 1"
  have "?a = 1 \<or> logs (srvs ts ! i) (?a - 1) \<noteq> None" using assms(6) by auto
  from applier_all_exact [OF assms(5) _ this, of rf] assms(4)
  have ex: "if agrees (srvs ts) rf ?a
    then \<exists>ts1. applier_all i ts (appliedMsgs rf ?a (commitIndex rf)) = Inr ts1 \<and>
      (\<forall>k. logs (srvs ts1 ! i) k = (if ?a \<le> k \<and> k \<le> commitIndex rf
         then Some (Command (Log rf ! nat (k - SnapshotIndex rf))) else logs (srvs ts ! i) k)) \<and>
      (\<forall>j. j \<noteq> i \<longrightarrow> srvs ts1 ! j = srvs ts ! j)
    else applier_all i ts (appliedMsgs rf ?a (commitIndex rf)) = Inl LogFatal" by simp
  have up: "?a \<le> k \<longleftrightarrow> lastApplied rf < k" for k by auto
  have "agrees (srvs ts) rf ?a \<longleftrightarrow> \<not> (\<exists>rs \<in> set (srvs ts). \<exists>k c. lastApplied rf < k \<and> k \<le> commitIndex rf \<and>
      logs rs k = Some c \<and> c \<noteq> Command (Log rf ! nat (k - SnapshotIndex rf)))"
    unfolding agrees_def up by blast
  then show ?thesis using apply_drain_all [OF assms(1-3), of "[]"] ex
    by (auto simp: up split: if_splits)
qed

theorem service_checks_applied_witness:
  "\<exists>rf' ms ts1. apply_drain (ex_leader\<lparr>commitIndex := 1\<rparr>) [] = Some (Inr (rf', ms)) \<and>
     applier_all 0 \<lparr>srvs = [\<lparr>rsLastApplied = 0, logs = (\<lambda>_. None)\<rparr>], maxIndex = 0\<rparr> ms = Inr ts1 \<and>
     logs (srvs ts1 ! 0) 1 = Some (Some 5)"
  using service_checks_applied [of "ex_leader\<lparr>commitIndex := 1\<rparr>" 0
      "\<lparr>srvs = [\<lparr>rsLastApplied = 0, logs = (\<lambda>_. None)\<rparr>], maxIndex = 0\<rparr>"]
  by (auto simp: Loglen_def)

text \<open>
  A disagreement is caught. If the service of some peer has recorded a command at an
  index and another peer hands its service a different command for that index, the run is stopped.
  (So the runs of \<open>Raft_Findings\<close>, when they happen in a test, make the test fail.)
\<close>

theorem disagreement_is_caught:
  assumes "j < length (srvs ts)" and "logs (srvs ts ! j) (CommandIndex m) = Some c" and "c \<noteq> amCommand m" and "CommandValid m"
  shows "applier i ts m = Inl LogFatal"
proof -
  have "commitConflict (srvs ts) m"
    using assms(1-3) unfolding commitConflict_def list_ex_iff by (intro bexI [of _ "srvs ts ! j"]) simp_all
  then show ?thesis using assms(4) by (simp add: applier_def checkLogs_def Let_def)
qed

theorem disagreement_is_caught_witness:
  "applier 1 \<lparr>srvs = [\<lparr>rsLastApplied = 2, logs = [2 \<mapsto> Some 20]\<rparr>, \<lparr>rsLastApplied = 1, logs = [1 \<mapsto> Some 10]\<rparr>], maxIndex = 2\<rparr>
     (commandMsg (Some (30::nat)) 2) = Inl LogFatal"
  by (rule disagreement_is_caught [of 0 _ _ "Some 20"]) (simp_all add: commandMsg_def)

end
